(* ===== verification/Jos_Prelude.thy ===== *)
theory Jos_Prelude
  imports Main "HOL-Library.Word"
begin

unbundle bit_operations_syntax

text \<open>
  Shared ground of the JOS64 development.

  \<^item> The C integer types of \<^verbatim>\<open>inc/types.h\<close> as words of their width. A signed \<^verbatim>\<open>int\<close> is a
    \<open>32 word\<close> read with \<open>sint\<close> and compared with the signed orders.
  \<^item> Memory: the kernel runs in one flat 64-bit address space, so memory is a total function
    from addresses to bytes and a pointer is its address. Nothing is hidden by a type
    of pointers: a routine that runs off its buffer reads and writes what lies there.
  \<^item> Results: a loop of the C code may run forever (\<open>None\<close>), reach \<^verbatim>\<open>_panic\<close> through a
    failed \<^verbatim>\<open>assert\<close>, or do something C leaves undefined. \<open>'a cres\<close> keeps these apart.
  \<^item> Facts on address arithmetic and on block copies that several components use.
\<close>

section \<open>Integer types\<close>

type_synonym u8 = "8 word"
type_synonym u16 = "16 word"
type_synonym u32 = "32 word"
type_synonym u64 = "64 word"
type_synonym i32 = "32 word"
type_synonym i64 = "64 word"
type_synonym mem = "u64 \<Rightarrow> u8"

section \<open>Results of C code\<close>

datatype fault = Panic | Undefined

type_synonym 'a cres = "(fault + 'a) option"

definition cret :: "'a \<Rightarrow> 'a cres" where
  "cret x = Some (Inr x)"

definition cfail :: "fault \<Rightarrow> 'a cres" where
  "cfail e = Some (Inl e)"

definition cbind :: "'a cres \<Rightarrow> ('a \<Rightarrow> 'b cres) \<Rightarrow> 'b cres" where
  "cbind r k = Option.bind r (\<lambda>v. case v of Inl e \<Rightarrow> Some (Inl e) | Inr x \<Rightarrow> k x)"

definition clift :: "'a option \<Rightarrow> 'a cres" where
  "clift r = map_option Inr r"

text \<open>\<^verbatim>\<open>assert(x)\<close> of \<^verbatim>\<open>inc/assert.h\<close>: a false condition ends in \<^verbatim>\<open>panic\<close>.\<close>

definition cassert :: "bool \<Rightarrow> 'a cres \<Rightarrow> 'a cres" where
  "cassert b k = (if b then k else cfail Panic)"

named_theorems cres_simps \<open>evaluation of the result monad\<close>

lemma cbind_simps [simp, cres_simps]:
  "cbind None k = None"
  "cbind (cret x) k = k x"
  "cbind (cfail e) k = cfail e"
  "cbind (Some (Inr x)) k = k x"
  "cbind (Some (Inl e)) k = Some (Inl e)"
  by (simp_all add: cbind_def cret_def cfail_def)

lemma clift_simps [simp, cres_simps]:
  "clift None = None"
  "clift (Some x) = cret x"
  by (simp_all add: clift_def cret_def)

lemma cret_eq_simps [simp, cres_simps]:
  "cret x = cret y \<longleftrightarrow> x = y"
  "cret x = Some (Inr y) \<longleftrightarrow> x = y"
  "Some (Inr y) = cret x \<longleftrightarrow> x = y"
  "cret x \<noteq> None" "None \<noteq> cret x"
  "cret x \<noteq> cfail e" "cfail e \<noteq> cret x"
  "cfail e \<noteq> None" "None \<noteq> cfail e"
  "cfail e = cfail f \<longleftrightarrow> e = f"
  by (auto simp: cret_def cfail_def)

lemma cbind_eq_cret:
  "cbind r k = cret y \<longleftrightarrow> (\<exists>x. r = cret x \<and> k x = cret y)"
proof (cases r)
  case (Some v)
  then show ?thesis by (cases v) (auto simp: cret_def)
qed simp

lemma cbind_assoc: "cbind (cbind r k) h = cbind r (\<lambda>x. cbind (k x) h)"
  by (cases r) (auto simp: cbind_def split: sum.splits)

lemma cassert_True [simp, cres_simps]: "cassert True k = k"
  by (simp add: cassert_def)

lemma cassert_False [simp, cres_simps]: "cassert False k = cfail Panic"
  by (simp add: cassert_def)

lemma cassert_eq_cret: "cassert b k = cret y \<longleftrightarrow> b \<and> k = cret y"
  by (auto simp: cassert_def)

text \<open>\<open>cbind\<close> may stand above a recursive call of a \<^theory_text>\<open>partial_function\<close>.\<close>

lemma cbind_mono [partial_function_mono]:
  assumes r: "mono_option r" and k: "\<And>x. mono_option (\<lambda>f. k x f)"
  shows "mono_option (\<lambda>f. cbind (r f) (\<lambda>x. k x f))"
  unfolding cbind_def
proof (rule bind_mono [OF r])
  fix v :: "fault + 'c"
  show "mono_option (\<lambda>f. case v of Inl e \<Rightarrow> Some (Inl e) | Inr x \<Rightarrow> k x f)"
    by (cases v) (auto intro: k option.const_mono)
qed

lemma cassert_mono [partial_function_mono]:
  "mono_option k \<Longrightarrow> mono_option (\<lambda>f. cassert b (k f))"
  by (cases b) (auto simp: intro: option.const_mono)

text \<open>
  \<open>ok Q r\<close>: if \<open>r\<close> returns, its value satisfies \<open>Q\<close>. It says nothing about whether \<open>r\<close> returns; it serves
  invariants, where code that does not return breaks nothing.
\<close>

definition ok :: "('a \<Rightarrow> bool) \<Rightarrow> 'a cres \<Rightarrow> bool" where
  "ok Q r \<longleftrightarrow> (\<forall>x. r = cret x \<longrightarrow> Q x)"

lemma ok_simps [simp]: "ok Q (cret x) = Q x" "ok Q (cfail e)" "ok Q None" "ok Q (Some (Inl e))"
  "ok Q (Some (Inr x)) = Q x"
  by (auto simp: ok_def cret_def cfail_def)

lemma okD: "ok Q r \<Longrightarrow> r = cret x \<Longrightarrow> Q x"
  by (simp add: ok_def)

lemma ok_mono: "ok P r \<Longrightarrow> (\<And>x. P x \<Longrightarrow> Q x) \<Longrightarrow> ok Q r"
  by (auto simp: ok_def)

lemma ok_bind: "ok P r \<Longrightarrow> (\<And>x. P x \<Longrightarrow> ok Q (k x)) \<Longrightarrow> ok Q (cbind r k)"
  by (auto simp: ok_def cbind_eq_cret)

lemma ok_bind_any: "(\<And>x. ok Q (k x)) \<Longrightarrow> ok Q (cbind r k)"
  by (auto simp: ok_def cbind_eq_cret)

lemma ok_if: "(p \<Longrightarrow> ok Q x) \<Longrightarrow> (\<not> p \<Longrightarrow> ok Q y) \<Longrightarrow> ok Q (if p then x else y)"
  by simp

lemma ok_True [simp]: "ok (\<lambda>_. True) r"
  by (simp add: ok_def)

text \<open>The two shapes in which the induction rule of a \<^theory_text>\<open>partial_function\<close> meets \<open>ok\<close>.\<close>

lemma ok_of_Some: "(\<And>y. r = Some y \<Longrightarrow> ok Q (Some y)) \<Longrightarrow> ok Q r"
  by (cases r) auto

section \<open>Addresses and block copies\<close>

text \<open>
  \<open>copy m d s n\<close> is memory after \<open>n\<close> bytes at \<open>s\<close> have been moved to \<open>d\<close> as if
  through a temporary buffer: the contract of \<^verbatim>\<open>memmove\<close>. \<open>fill m d v n\<close> is the contract of
  \<^verbatim>\<open>memset\<close>. Distances between addresses are taken modulo \<open>2 ^ 64\<close>, so the
  definitions need no case for a block that ends at the top of the address space.
\<close>

definition copy :: "mem \<Rightarrow> u64 \<Rightarrow> u64 \<Rightarrow> nat \<Rightarrow> mem" where
  "copy m d s n = (\<lambda>a. if unat (a - d) < n then m (a - d + s) else m a)"

definition fill :: "mem \<Rightarrow> u64 \<Rightarrow> u8 \<Rightarrow> nat \<Rightarrow> mem" where
  "fill m d v n = (\<lambda>a. if unat (a - d) < n then v else m a)"

lemma unat_lt64: "unat (x :: u64) < 2 ^ 64"
proof -
  have "unat x < 2 ^ LENGTH(64)" by (rule unsigned_less)
  then show ?thesis by simp
qed

lemma unat_pred_less: "(n :: 'a::len word) \<noteq> 0 \<Longrightarrow> unat (n - 1) < unat n"
  by (simp add: unat_minus_one unat_gt_0)

lemma unat_Suc_less:
  "unat (i :: u64) < unat (n :: u64) \<Longrightarrow> unat (i + 1) = Suc (unat i)"
  using unat_lt64 [of n] by (simp add: unat_word_ariths)

lemma unat_pred2_less: "(n :: 'a::len word) \<noteq> 1 \<Longrightarrow> unat (n - 2) < unat (n - 1)"
  using unat_pred_less [of "n - 1"] by simp

lemma scast_nat_small: "n < 2 ^ 31 \<Longrightarrow> (scast (of_nat n :: i32) :: u64) = of_nat n"
  by (simp add: signed_of_nat signed_take_bit_int_eq_self)

lemma unat_minus_small: "0 < k \<Longrightarrow> k < 2 ^ 64 \<Longrightarrow> unat (- of_nat k :: u64) = 2 ^ 64 - k"
  using unat_sub_if' [of "0 :: u64" "of_nat k"] by (simp add: unat_of_nat)

lemma unat_add_less:
  "unat (x :: u64) + k < 2 ^ 64 \<Longrightarrow> unat (x + of_nat k) = unat x + k"
  by (simp add: unat_word_ariths unat_of_nat)

lemma unat_diff_step:
  fixes a d :: u64
  assumes "unat (a - d) \<ge> k" "k < 2 ^ 64"
  shows "unat (a - (d + of_nat k)) = unat (a - d) - k"
proof -
  have k: "unat (of_nat k :: u64) = k" using assms(2) by (simp add: unat_of_nat)
  have "(of_nat k :: u64) \<le> a - d" using assms k by (simp add: word_le_nat_alt)
  then have "unat (a - d - of_nat k) = unat (a - d) - k"
    using k by (simp add: unat_sub)
  then show ?thesis by (simp add: diff_diff_eq)
qed

lemma unat_diff_wrap:
  fixes a d :: u64
  assumes "unat (a - d) < k" "k < 2 ^ 64"
  shows "unat (a - (d + of_nat k)) = 2 ^ 64 - k + unat (a - d)"
proof -
  have k: "unat (of_nat k :: u64) = k" using assms(2) by (simp add: unat_of_nat)
  have "\<not> (of_nat k :: u64) \<le> a - d" using assms k by (simp add: word_le_nat_alt)
  then have "unat (a - d - of_nat k) = 2 ^ 64 + unat (a - d) - k"
    using k unat_sub_if' [of "a - d" "of_nat k"] by (simp add: word_le_nat_alt)
  then show ?thesis using assms by (simp add: diff_diff_eq)
qed

text \<open>Signed arithmetic that stays in the range of \<^verbatim>\<open>int\<close>.\<close>

lemma sint32_bounds: "- 2147483648 \<le> sint (x :: i32)" "sint (x :: i32) < 2147483648"
  using sint_ge [of x] sint_lt [of x] by simp_all

lemma sint32_add:
  "- 2147483648 \<le> sint x + sint y \<Longrightarrow> sint x + sint y < 2147483648 \<Longrightarrow> sint (x + y :: i32) = sint x + sint y"
  by (simp add: sint_word_ariths signed_take_bit_int_eq_self)

lemma sint32_sub:
  "- 2147483648 \<le> sint x - sint y \<Longrightarrow> sint x - sint y < 2147483648 \<Longrightarrow> sint (x - y :: i32) = sint x - sint y"
  by (simp add: sint_word_ariths signed_take_bit_int_eq_self)

lemma sint32_pred: "- 2147483648 < sint x \<Longrightarrow> sint (x - 1 :: i32) = sint x - 1"
  using sint32_sub [of x 1] sint32_bounds(2) [of x] by simp

lemma sint32_of_nat: "n < 2147483648 \<Longrightarrow> sint (of_nat n :: i32) = int n"
  by (simp add: signed_of_nat signed_take_bit_int_eq_self)

text \<open>
  Copying in two parts, low part first, is the whole copy when the destination does not
  start inside the source; high part first, when the source does not start inside the
  destination.
\<close>

lemma copy_append_up:
  assumes sep: "unat (d - s) \<ge> j + k \<or> d = s" and jk: "j + k < 2 ^ 64"
  shows "copy (copy m d s j) (d + of_nat j) (s + of_nat j) k = copy m d s (j + k)"
proof
  fix a
  let ?x = "unat (a - d)" and ?b = "a - d + s"
  have b: "a - (d + of_nat j) + (s + of_nat j) = ?b" by simp
  consider "?x < j" | "j \<le> ?x" "?x < j + k" | "j + k \<le> ?x" by linarith
  then show "copy (copy m d s j) (d + of_nat j) (s + of_nat j) k a = copy m d s (j + k) a"
  proof cases
    case 1
    with jk unat_diff_wrap [of a d j] have "\<not> unat (a - (d + of_nat j)) < k" by linarith
    with 1 show ?thesis by (simp add: copy_def)
  next
    case 2
    with jk have y: "unat (a - (d + of_nat j)) = ?x - j" by (intro unat_diff_step) auto
    have "\<not> unat (?b - d) < j \<or> ?b = a"
    proof (cases "d = s")
      case False
      with sep 2 have "\<not> d - s \<le> a - d" by (simp add: word_le_nat_alt)
      then have "unat (a - d - (d - s)) = 2 ^ 64 + ?x - unat (d - s)"
        using unat_sub_if' [of "a - d" "d - s"] by (simp add: word_le_nat_alt)
      moreover have "unat (d - s) < 2 ^ 64" by (rule unat_lt64)
      ultimately have "j \<le> unat (a - d - (d - s))" using 2 by linarith
      then show ?thesis by (simp add: algebra_simps)
    qed simp
    with 2 y show ?thesis by (auto simp: copy_def b)
  next
    case 3
    with jk unat_diff_step [of j a d] have "\<not> unat (a - (d + of_nat j)) < k" by linarith
    with 3 show ?thesis by (simp add: copy_def)
  qed
qed

lemma copy_append_down:
  assumes sep: "unat (s - d) \<ge> j + k \<or> d = s" and jk: "j + k < 2 ^ 64"
  shows "copy (copy m (d + of_nat k) (s + of_nat k) j) d s k = copy m d s (k + j)"
proof
  fix a
  let ?x = "unat (a - d)" and ?b = "a - d + s"
  have b: "a - (d + of_nat k) + (s + of_nat k) = ?b" by simp
  consider "?x < k" | "k \<le> ?x" "?x < k + j" | "k + j \<le> ?x" by linarith
  then show "copy (copy m (d + of_nat k) (s + of_nat k) j) d s k a = copy m d s (k + j) a"
  proof cases
    case 1
    have bd: "?b - d = (a - d) + (s - d)" by simp
    have lt: "unat (s - d) < 2 ^ 64" by (rule unat_lt64)
    have "\<not> unat (?b - (d + of_nat k)) < j"
    proof (cases "unat (?b - d) < k")
      case True
      with jk unat_diff_wrap [of ?b d k] show ?thesis by simp
    next
      case False
      then have "unat (?b - d) = ?x + unat (s - d)" and "d \<noteq> s"
        using 1 lt unat_plus_if' [of "a - d" "s - d"] by (auto simp: bd split: if_splits)
      with False sep jk unat_diff_step [of k ?b d] show ?thesis by simp
    qed
    with 1 show ?thesis by (simp add: copy_def)
  next
    case 2
    with jk have "unat (a - (d + of_nat k)) = ?x - k" by (intro unat_diff_step) auto
    with 2 show ?thesis by (auto simp: copy_def b)
  next
    case 3
    with jk unat_diff_step [of k a d] have "\<not> unat (a - (d + of_nat k)) < j" by linarith
    with 3 show ?thesis by (simp add: copy_def)
  qed
qed

lemma fill_append:
  assumes "j + k < 2 ^ 64"
  shows "fill (fill m d v j) (d + of_nat j) v k = fill m d v (j + k)"
proof
  fix a
  consider "unat (a - d) < j" | "j \<le> unat (a - d)" by linarith
  then show "fill (fill m d v j) (d + of_nat j) v k a = fill m d v (j + k) a"
  proof cases
    case 1
    with assms unat_diff_wrap [of a d j] have "\<not> unat (a - (d + of_nat j)) < k" by linarith
    with 1 show ?thesis by (simp add: fill_def)
  next
    case 2
    with assms unat_diff_step [of j a d] show ?thesis by (auto simp: fill_def)
  qed
qed

lemma copy_0 [simp]: "copy m d s 0 = m"
  by (simp add: copy_def)

lemma fill_0 [simp]: "fill m d v 0 = m"
  by (simp add: fill_def)

section \<open>Little-endian loads and stores\<close>

definition load32 :: "mem \<Rightarrow> u64 \<Rightarrow> u32" where
  "load32 m a = ucast (m a) OR push_bit 8 (ucast (m (a + 1)))
     OR push_bit 16 (ucast (m (a + 2))) OR push_bit 24 (ucast (m (a + 3)))"

definition store32 :: "mem \<Rightarrow> u64 \<Rightarrow> u32 \<Rightarrow> mem" where
  "store32 m a v = m(a := ucast v, a + 1 := ucast (drop_bit 8 v),
     a + 2 := ucast (drop_bit 16 v), a + 3 := ucast (drop_bit 24 v))"

definition load16 :: "mem \<Rightarrow> u64 \<Rightarrow> u16" where
  "load16 m a = ucast (m a) OR push_bit 8 (ucast (m (a + 1)))"

definition store16 :: "mem \<Rightarrow> u64 \<Rightarrow> u16 \<Rightarrow> mem" where
  "store16 m a v = m(a := ucast v, a + 1 := ucast (drop_bit 8 v))"

definition load64 :: "mem \<Rightarrow> u64 \<Rightarrow> u64" where
  "load64 m a = ucast (load32 m a) OR push_bit 32 (ucast (load32 m (a + 4)))"

definition store64 :: "mem \<Rightarrow> u64 \<Rightarrow> u64 \<Rightarrow> mem" where
  "store64 m a v = store32 (store32 m a (ucast v)) (a + 4) (ucast (drop_bit 32 v))"

lemma ucast_load32 [simp]:
  "(ucast (load32 m a) :: u8) = m a"
  "(ucast (drop_bit 8 (load32 m a)) :: u8) = m (a + 1)"
  "(ucast (drop_bit 16 (load32 m a)) :: u8) = m (a + 2)"
  "(ucast (drop_bit 24 (load32 m a)) :: u8) = m (a + 3)"
  unfolding load32_def
  by (rule bit_word_eqI; auto simp: bit_simps dest: bit_imp_le_length)+

lemma unat_less_4_cases:
  assumes "unat (a - d :: u64) < 4"
  obtains "a = d" | "a = d + 1" | "a = d + 2" | "a = d + 3"
proof -
  have e: "a = d + of_nat k" if "unat (a - d) = k" for k
    by (simp add: that [symmetric])
  have "unat (a - d) = 0 \<or> unat (a - d) = 1 \<or> unat (a - d) = 2 \<or> unat (a - d) = 3"
    using assms by linarith
  then consider "a = d + of_nat 0" | "a = d + of_nat 1" | "a = d + of_nat 2" | "a = d + of_nat 3"
    by (blast dest: e)
  then show thesis by cases (simp_all add: that)
qed

lemma store32_eq:
  assumes v: "ucast v = w 0" "ucast (drop_bit 8 v) = w 1" "ucast (drop_bit 16 v) = w 2"
    "ucast (drop_bit 24 v) = w 3"
  shows "store32 m d v = (\<lambda>a. if unat (a - d) < 4 then w (a - d) else m a)"
proof
  fix a
  show "store32 m d v a = (if unat (a - d) < 4 then w (a - d) else m a)"
  proof (cases "unat (a - d) < 4")
    case True
    then show ?thesis
      by (rule unat_less_4_cases) (simp_all add: store32_def v)
  next
    case False
    then have "a \<noteq> d" "a \<noteq> d + 1" "a \<noteq> d + 2" "a \<noteq> d + 3" by auto
    with False show ?thesis by (simp add: store32_def)
  qed
qed

lemma store32_load32: "store32 m d (load32 m s) = copy m d s 4"
  by (subst store32_eq [where w = "\<lambda>i. m (i + s)"]) (auto simp: copy_def add.commute)

lemma store32_fill:
  fixes c :: u32
  assumes "v = push_bit 24 c OR push_bit 16 c OR push_bit 8 c OR c" "c = c AND 0xFF"
  shows "store32 m d v = fill m d (ucast c) 4"
proof -
  have c: "bit c i \<Longrightarrow> i < 8" for i
  proof -
    assume "bit c i"
    then have "bit (c AND 0xFF) i" using assms(2) by simp
    then have "bit (mask 8 :: u32) i" by (simp add: bit_simps mask_numeral)
    then show "i < 8" by (simp add: bit_simps)
  qed
  have "(ucast v :: u8) = ucast c" "(ucast (drop_bit 8 v) :: u8) = ucast c"
    "(ucast (drop_bit 16 v) :: u8) = ucast c" "(ucast (drop_bit 24 v) :: u8) = ucast c"
    unfolding assms(1) by (rule bit_word_eqI; auto simp: bit_simps dest: c)+
  then show ?thesis by (subst store32_eq [where w = "\<lambda>_. ucast c"]) (auto simp: fill_def)
qed

lemma load32_store32: "load32 (store32 m a v) a = v"
proof (rule bit_word_eqI)
  fix n assume n: "n < LENGTH(32)"
  consider "n < 8" | "8 \<le> n" "n < 16" | "16 \<le> n" "n < 24" | "24 \<le> n" by linarith
  then show "bit (load32 (store32 m a v) a) n = bit v n"
    using n by cases (auto simp: load32_def store32_def bit_simps)
qed

lemma load64_store64: "load64 (store64 m a v) a = v"
proof -
  have "load32 (store32 m' (a + 4) w) a = load32 m' a" for m' w
    by (simp add: load32_def store32_def)
  then have "load64 (store64 m a v) a = ucast (ucast v :: u32) OR push_bit 32 (ucast (ucast (drop_bit 32 v) :: u32))"
    by (simp add: load64_def store64_def load32_store32)
  also have "\<dots> = v"
  proof (rule bit_word_eqI)
    fix n assume n: "n < LENGTH(64)"
    consider "n < 32" | "32 \<le> n" by linarith
    then show "bit (ucast (ucast v :: u32) OR push_bit 32 (ucast (ucast (drop_bit 32 v) :: u32)) :: u64) n = bit v n"
      using n by cases (auto simp: bit_simps)
  qed
  finally show ?thesis .
qed

lemma store64_frame: "8 \<le> unat (b - a) \<Longrightarrow> store64 m a v b = m b"
proof -
  assume "8 \<le> unat (b - a)"
  then have "b - a \<notin> {0, 1, 2, 3, 4, 5, 6, 7}" by auto
  then have "b \<noteq> a" "b \<noteq> a + 1" "b \<noteq> a + 2" "b \<noteq> a + 3" "b \<noteq> a + 4" "b \<noteq> a + 5" "b \<noteq> a + 6" "b \<noteq> a + 7" by auto
  then show ?thesis by (simp add: store64_def store32_def add.assoc)
qed

lemma load64_cong: "(\<And>i. i < 8 \<Longrightarrow> m' (a + of_nat i) = m (a + of_nat i)) \<Longrightarrow> load64 m' a = load64 m a"
proof -
  assume eq: "\<And>i. i < 8 \<Longrightarrow> m' (a + of_nat i) = m (a + of_nat i)"
  have "m' a = m a" "m' (a + 1) = m (a + 1)" "m' (a + 2) = m (a + 2)" "m' (a + 3) = m (a + 3)" "m' (a + 4) = m (a + 4)"
    "m' (a + 5) = m (a + 5)" "m' (a + 6) = m (a + 6)" "m' (a + 7) = m (a + 7)"
    using eq [of 0] eq [of 1] eq [of 2] eq [of 3] eq [of 4] eq [of 5] eq [of 6] eq [of 7] by simp_all
  then show ?thesis by (simp add: load64_def load32_def add.assoc)
qed

text \<open>Words that do not overlap.\<close>

lemma load64_store64_apart: "8 \<le> unat (b - a) \<Longrightarrow> 8 \<le> unat (a - b) \<Longrightarrow> load64 (store64 m a v) b = load64 m b"
proof (rule load64_cong, rule store64_frame)
  fix i :: nat assume ba: "8 \<le> unat (b - a)" and ab: "8 \<le> unat (a - b)" and i: "i < 8"
  have "unat (b - a) + i < 2 ^ 64"
  proof -
    have "unat (a - b) = 2 ^ 64 - unat (b - a)"
      using unat_minus_small [of "unat (b - a)"] ba unat_lt64 [of "b - a"] by simp
    with ab i show ?thesis by linarith
  qed
  then have "unat (b - a + of_nat i) = unat (b - a) + i" by (rule unat_add_less)
  with ba show "8 \<le> unat (b + of_nat i - a)" by (simp add: algebra_simps)
qed

section \<open>Blocks of bytes\<close>

primrec bytes :: "mem \<Rightarrow> u64 \<Rightarrow> nat \<Rightarrow> u8 list" where
  "bytes m s 0 = []"
| "bytes m s (Suc n) = m s # bytes m (s + 1) n"

lemma bytes_numeral: "bytes m s (numeral k) = m s # bytes m (s + 1) (pred_numeral k)"
  by (simp add: numeral_eq_Suc)

lemma length_bytes [simp]: "length (bytes m s n) = n"
  by (induction n arbitrary: s) auto

lemma nth_bytes [simp]: "i < n \<Longrightarrow> bytes m s n ! i = m (s + of_nat i)"
proof (induction n arbitrary: s i)
  case (Suc n)
  show ?case
  proof (cases i)
    case (Suc j)
    with Suc.prems Suc.IH [of j "s + 1"] show ?thesis by (simp add: add.assoc)
  qed (use Suc in simp)
qed simp

lemma bytes_unat_pred: "(n :: u64) > 0 \<Longrightarrow> bytes m s (unat n) = m s # bytes m (s + 1) (unat (n - 1))"
  by (cases "unat n") (auto simp: unat_minus_one word_gt_0 unat_eq_zero)

text \<open>The bytes \<open>xs\<close> written at \<open>p\<close>.\<close>

fun write_bytes :: "mem \<Rightarrow> u64 \<Rightarrow> u8 list \<Rightarrow> mem" where
  "write_bytes m p [] = m"
| "write_bytes m p (x # xs) = write_bytes (m(p := x)) (p + 1) xs"

lemma write_append: "write_bytes m p (xs @ ys) = write_bytes (write_bytes m p xs) (p + of_nat (length xs)) ys"
  by (induction xs arbitrary: m p) (simp_all add: add.assoc)

lemma write_bytes_outside: "length xs \<le> unat (a - p) \<Longrightarrow> write_bytes m p xs a = m a"
proof (induction xs arbitrary: m p)
  case (Cons x xs)
  then have ne: "a - p \<noteq> 0" by auto
  have e: "a - (p + 1) = a - p - 1" by simp
  have "unat (a - (p + 1)) = unat (a - p) - 1" unfolding e using ne by (rule unat_minus_one)
  then have "length xs \<le> unat (a - (p + 1))" using Cons.prems by simp
  from Cons.IH [OF this] ne show ?case by auto
qed simp

text \<open>A memory that holds \<open>xs\<close> at \<open>p\<close> and zeroes elsewhere.\<close>

definition list_mem :: "u64 \<Rightarrow> u8 list \<Rightarrow> mem" where
  "list_mem p xs a = (let i = unat (a - p) in if i < length xs then xs ! i else 0)"

text \<open>The bytes of \<open>xs\<close>, then zeroes, in the \<open>k\<close> bytes at \<open>d\<close>.\<close>

definition pad :: "mem \<Rightarrow> u64 \<Rightarrow> u8 list \<Rightarrow> nat \<Rightarrow> mem" where
  "pad m d xs k = (\<lambda>a. let i = unat (a - d) in
     if i < k then (if i < length xs then xs ! i else 0) else m a)"

text \<open>The address at which the kernel maps physical memory, \<^verbatim>\<open>inc/memlayout.h\<close>.\<close>

definition KERNBASE :: u64 where
  "KERNBASE = 0x8004000000"

end
