(* ===== verification/Cstring.thy ===== *)
theory Cstring
  imports Jos_Prelude "HOL-Library.Sublist" "HOL-Library.Signed_Division"
begin

text \<open>
  \<^verbatim>\<open>lib/string.c\<close>: the string and memory routines of the kernel, over the flat memory.

  A \<^verbatim>\<open>while\<close> loop that ends only at a NUL byte is a \<^theory_text>\<open>partial_function\<close>: \<open>None\<close> is a
  call that never returns. A loop with a count is a total function. The inline
  assembly of \<^verbatim>\<open>memset\<close> and \<^verbatim>\<open>memmove\<close> is modelled by the x86 string instructions it names
  (\<open>rep_stosb\<close>, \<open>rep_stosl\<close>, \<open>rep_movsb\<close>, \<open>rep_movsl\<close>, with the direction flag clear or set),
  and the portable versions in the \<^verbatim>\<open>#else\<close> branch are modelled beside them as the
  reference. The theorems are about NUL-terminated strings (\<open>cstr m p xs\<close>: the bytes \<open>xs\<close>
  stand at \<open>p\<close>, followed by NUL) and about \<open>copy\<close> and \<open>fill\<close>.
\<close>

section \<open>Strings\<close>

partial_function (option) strlen_loop :: "mem \<Rightarrow> u64 \<Rightarrow> i32 \<Rightarrow> i32 option" where
  "strlen_loop m s n = (if m s \<noteq> 0 then strlen_loop m (s + 1) (n + 1) else Some n)"

definition strlen :: "mem \<Rightarrow> u64 \<Rightarrow> i32 option" where
  "strlen m s = strlen_loop m s 0"

function strnlen_loop :: "mem \<Rightarrow> u64 \<Rightarrow> u64 \<Rightarrow> i32 \<Rightarrow> i32" where
  "strnlen_loop m s sz n =
     (if sz > 0 \<and> m s \<noteq> 0 then strnlen_loop m (s + 1) (sz - 1) (n + 1) else n)"
  by pat_completeness auto
termination
  by (relation "measure (\<lambda>(m, s, sz, n). unat sz)") (auto simp: unat_pred_less word_gt_0)

definition strnlen :: "mem \<Rightarrow> u64 \<Rightarrow> u64 \<Rightarrow> i32" where
  "strnlen m s sz = strnlen_loop m s sz 0"

partial_function (option) strcpy_loop :: "mem \<Rightarrow> u64 \<Rightarrow> u64 \<Rightarrow> mem option" where
  "strcpy_loop m dst src =
     (let c = m src; m' = m(dst := c)
      in if c \<noteq> 0 then strcpy_loop m' (dst + 1) (src + 1) else Some m')"

definition strcpy :: "mem \<Rightarrow> u64 \<Rightarrow> u64 \<Rightarrow> (mem \<times> u64) option" where
  "strcpy m dst src = map_option (\<lambda>m'. (m', dst)) (strcpy_loop m dst src)"

definition strcat :: "mem \<Rightarrow> u64 \<Rightarrow> u64 \<Rightarrow> (mem \<times> u64) option" where
  "strcat m dst src =
     Option.bind (strlen m dst) (\<lambda>len.
     Option.bind (strcpy m (dst + scast len) src) (\<lambda>(m', _). Some (m', dst)))"

function strncpy_loop :: "mem \<Rightarrow> u64 \<Rightarrow> u64 \<Rightarrow> u64 \<Rightarrow> u64 \<Rightarrow> mem" where
  "strncpy_loop m dst src sz i =
     (if i < sz then
        (let m' = m(dst := m src)
         in strncpy_loop m' (dst + 1) (if m' src \<noteq> 0 then src + 1 else src) sz (i + 1))
      else m)"
  by pat_completeness auto
termination
  by (relation "measure (\<lambda>(m, dst, src, sz, i). unat sz - unat i)")
    (auto simp: word_less_nat_alt unat_Suc_less)

definition strncpy :: "mem \<Rightarrow> u64 \<Rightarrow> u64 \<Rightarrow> u64 \<Rightarrow> mem \<times> u64" where
  "strncpy m dst src sz = (strncpy_loop m dst src sz 0, dst)"

function strlcpy_loop :: "mem \<Rightarrow> u64 \<Rightarrow> u64 \<Rightarrow> u64 \<Rightarrow> mem \<times> u64" where
  "strlcpy_loop m dst src sz =
     (if sz - 1 > 0 \<and> m src \<noteq> 0
      then strlcpy_loop (m(dst := m src)) (dst + 1) (src + 1) (sz - 1)
      else (m, dst))"
  by pat_completeness auto
termination
  by (relation "measure (\<lambda>(m, dst, src, sz). unat (sz - 1))")
    (auto simp: unat_pred2_less word_gt_0)

definition strlcpy :: "mem \<Rightarrow> u64 \<Rightarrow> u64 \<Rightarrow> u64 \<Rightarrow> mem \<times> u64" where
  "strlcpy m dst_in src sz =
     (if sz > 0 then
        (let (m', dst) = strlcpy_loop m dst_in src sz in (m'(dst := 0), dst - dst_in))
      else (m, 0))"

partial_function (option) strcmp :: "mem \<Rightarrow> u64 \<Rightarrow> u64 \<Rightarrow> i32 option" where
  "strcmp m p q =
     (if m p \<noteq> 0 \<and> m p = m q then strcmp m (p + 1) (q + 1)
      else Some (ucast (m p) - ucast (m q)))"

function strncmp :: "mem \<Rightarrow> u64 \<Rightarrow> u64 \<Rightarrow> u64 \<Rightarrow> i32" where
  "strncmp m p q n =
     (if n > 0 \<and> m p \<noteq> 0 \<and> m p = m q then strncmp m (p + 1) (q + 1) (n - 1)
      else if n = 0 then 0 else ucast (m p) - ucast (m q))"
  by pat_completeness auto
termination
  by (relation "measure (\<lambda>(m, p, q, n). unat n)") (auto simp: unat_pred_less word_gt_0)

partial_function (option) strchr :: "mem \<Rightarrow> u64 \<Rightarrow> u8 \<Rightarrow> u64 option" where
  "strchr m s c =
     (if m s \<noteq> 0 then (if m s = c then Some s else strchr m (s + 1) c) else Some 0)"

partial_function (option) strfind :: "mem \<Rightarrow> u64 \<Rightarrow> u8 \<Rightarrow> u64 option" where
  "strfind m s c =
     (if m s \<noteq> 0 then (if m s = c then Some s else strfind m (s + 1) c) else Some s)"

section \<open>Memory blocks\<close>

text \<open>The x86 string instructions, with the count in \<^verbatim>\<open>rcx\<close>.\<close>

fun rep_stosb :: "nat \<Rightarrow> u64 \<Rightarrow> u8 \<Rightarrow> mem \<Rightarrow> mem" where
  "rep_stosb 0 rdi al m = m"
| "rep_stosb (Suc rcx) rdi al m = rep_stosb rcx (rdi + 1) al (m(rdi := al))"

fun rep_stosl :: "nat \<Rightarrow> u64 \<Rightarrow> u32 \<Rightarrow> mem \<Rightarrow> mem" where
  "rep_stosl 0 rdi eax m = m"
| "rep_stosl (Suc rcx) rdi eax m = rep_stosl rcx (rdi + 4) eax (store32 m rdi eax)"

fun rep_movsb :: "bool \<Rightarrow> nat \<Rightarrow> u64 \<Rightarrow> u64 \<Rightarrow> mem \<Rightarrow> mem" where
  "rep_movsb df 0 rdi rsi m = m"
| "rep_movsb df (Suc rcx) rdi rsi m =
     rep_movsb df rcx (if df then rdi - 1 else rdi + 1) (if df then rsi - 1 else rsi + 1)
       (m(rdi := m rsi))"

fun rep_movsl :: "bool \<Rightarrow> nat \<Rightarrow> u64 \<Rightarrow> u64 \<Rightarrow> mem \<Rightarrow> mem" where
  "rep_movsl df 0 rdi rsi m = m"
| "rep_movsl df (Suc rcx) rdi rsi m =
     rep_movsl df rcx (if df then rdi - 4 else rdi + 4) (if df then rsi - 4 else rsi + 4)
       (store32 m rdi (load32 m rsi))"

definition memset :: "mem \<Rightarrow> u64 \<Rightarrow> i32 \<Rightarrow> u64 \<Rightarrow> mem \<times> u64" where
  "memset m v c n =
     (if n = 0 then (m, v)
      else if sint v smod 4 = 0 \<and> n mod 4 = 0 then
        (let c = c AND 0xFF;
             c = push_bit 24 c OR push_bit 16 c OR push_bit 8 c OR c
         in (rep_stosl (unat (n div 4)) v c m, v))
      else (rep_stosb (unat n) v (ucast c) m, v))"

definition memmove :: "mem \<Rightarrow> u64 \<Rightarrow> u64 \<Rightarrow> u64 \<Rightarrow> mem \<times> u64" where
  "memmove m dst src n =
     (let s = src; d = dst in
      if s < d \<and> s + n > d then
        (let s = s + n; d = d + n in
         if sint s smod 4 = 0 \<and> sint d smod 4 = 0 \<and> n mod 4 = 0
         then (rep_movsl True (unat (n div 4)) (d - 4) (s - 4) m, dst)
         else (rep_movsb True (unat n) (d - 1) (s - 1) m, dst))
      else
        if sint s smod 4 = 0 \<and> sint d smod 4 = 0 \<and> n mod 4 = 0
        then (rep_movsl False (unat (n div 4)) d s m, dst)
        else (rep_movsb False (unat n) d s m, dst))"

text \<open>The portable versions of the \<^verbatim>\<open>#else\<close> branch. \<^verbatim>\<open>memset\<close> there counts in an \<^verbatim>\<open>int\<close>.\<close>

function memset_c_loop :: "mem \<Rightarrow> u64 \<Rightarrow> u8 \<Rightarrow> i32 \<Rightarrow> mem" where
  "memset_c_loop mm p c m =
     (if 0 \<le>s m - 1 then memset_c_loop (mm(p := c)) (p + 1) c (m - 1) else mm)"
  by pat_completeness auto
termination
  by (relation "measure (\<lambda>(mm, p, c, m). if 0 \<le>s m - 1 then Suc (unat (m - 1)) else 0)")
    (auto simp: word_sle_eq intro!: unat_pred2_less)

definition memset_c :: "mem \<Rightarrow> u64 \<Rightarrow> i32 \<Rightarrow> u64 \<Rightarrow> mem \<times> u64" where
  "memset_c m v c n = (memset_c_loop m v (ucast c) (ucast n), v)"

function memmove_c_up :: "mem \<Rightarrow> u64 \<Rightarrow> u64 \<Rightarrow> u64 \<Rightarrow> mem" where
  "memmove_c_up m d s n =
     (if n > 0 then memmove_c_up (m(d := m s)) (d + 1) (s + 1) (n - 1) else m)"
  by pat_completeness auto
termination
  by (relation "measure (\<lambda>(m, d, s, n). unat n)") (auto simp: unat_pred_less word_gt_0)

function memmove_c_down :: "mem \<Rightarrow> u64 \<Rightarrow> u64 \<Rightarrow> u64 \<Rightarrow> mem" where
  "memmove_c_down m d s n =
     (if n > 0 then memmove_c_down (m(d - 1 := m (s - 1))) (d - 1) (s - 1) (n - 1) else m)"
  by pat_completeness auto
termination
  by (relation "measure (\<lambda>(m, d, s, n). unat n)") (auto simp: unat_pred_less word_gt_0)

definition memmove_c :: "mem \<Rightarrow> u64 \<Rightarrow> u64 \<Rightarrow> u64 \<Rightarrow> mem \<times> u64" where
  "memmove_c m dst src n =
     (if src < dst \<and> src + n > dst
      then (memmove_c_down m (dst + n) (src + n) n, dst)
      else (memmove_c_up m dst src n, dst))"

definition memcpy :: "mem \<Rightarrow> u64 \<Rightarrow> u64 \<Rightarrow> u64 \<Rightarrow> mem \<times> u64" where
  "memcpy m dst src n = memmove m dst src n"

function memcmp :: "mem \<Rightarrow> u64 \<Rightarrow> u64 \<Rightarrow> u64 \<Rightarrow> i32" where
  "memcmp m s1 s2 n =
     (if n > 0 then
        (if m s1 \<noteq> m s2 then ucast (m s1) - ucast (m s2)
         else memcmp m (s1 + 1) (s2 + 1) (n - 1))
      else 0)"
  by pat_completeness auto
termination
  by (relation "measure (\<lambda>(m, s1, s2, n). unat n)") (auto simp: unat_pred_less word_gt_0)

function memfind_loop :: "mem \<Rightarrow> u64 \<Rightarrow> u8 \<Rightarrow> u64 \<Rightarrow> u64" where
  "memfind_loop m s c ends =
     (if s < ends then (if m s = c then s else memfind_loop m (s + 1) c ends) else s)"
  by pat_completeness auto
termination
  by (relation "measure (\<lambda>(m, s, c, ends). unat ends - unat s)")
    (auto simp: word_less_nat_alt unat_Suc_less)

definition memfind :: "mem \<Rightarrow> u64 \<Rightarrow> i32 \<Rightarrow> u64 \<Rightarrow> u64" where
  "memfind m s c n = memfind_loop m s (ucast c) (s + n)"

section \<open>Numbers and substrings\<close>

text \<open>\<^verbatim>\<open>char\<close> is signed on this target, so the digit tests are signed comparisons.\<close>

definition strtol_digit :: "u8 \<Rightarrow> i32 option" where
  "strtol_digit c =
     (if 0x30 \<le>s c \<and> c \<le>s 0x39 then Some (scast c - 0x30)
      else if 0x61 \<le>s c \<and> c \<le>s 0x7A then Some (scast c - 0x61 + 10)
      else if 0x41 \<le>s c \<and> c \<le>s 0x5A then Some (scast c - 0x41 + 10)
      else None)"

partial_function (option) strtol_digits :: "mem \<Rightarrow> u64 \<Rightarrow> i32 \<Rightarrow> i64 \<Rightarrow> (i64 \<times> u64) option" where
  "strtol_digits m s base val =
     (case strtol_digit (m s) of
        None \<Rightarrow> Some (val, s)
      | Some dig \<Rightarrow>
          if base \<le>s dig then Some (val, s)
          else strtol_digits m (s + 1) base (val * scast base + scast dig))"

partial_function (option) strtol_space :: "mem \<Rightarrow> u64 \<Rightarrow> u64 option" where
  "strtol_space m s = (if m s = 0x20 \<or> m s = 0x09 then strtol_space m (s + 1) else Some s)"

definition strtol_sign :: "mem \<Rightarrow> u64 \<Rightarrow> bool \<times> u64" where
  "strtol_sign m s =
     (if m s = 0x2B then (False, s + 1) else if m s = 0x2D then (True, s + 1) else (False, s))"

definition strtol_prefix :: "mem \<Rightarrow> u64 \<Rightarrow> i32 \<Rightarrow> i32 \<times> u64" where
  "strtol_prefix m s base =
     (if (base = 0 \<or> base = 16) \<and> m s = 0x30 \<and> m (s + 1) = 0x78 then (16, s + 2)
      else if base = 0 \<and> m s = 0x30 then (8, s + 1)
      else if base = 0 then (10, s)
      else (base, s))"

definition strtol :: "mem \<Rightarrow> u64 \<Rightarrow> u64 \<Rightarrow> i32 \<Rightarrow> (mem \<times> i64) option" where
  "strtol m s endptr base =
     Option.bind (strtol_space m s) (\<lambda>s.
     let (neg, s) = strtol_sign m s; (base, s) = strtol_prefix m s base in
     Option.bind (strtol_digits m s base 0) (\<lambda>(val, s).
     Some (if endptr \<noteq> 0 then store64 m endptr s else m, if neg then - val else val)))"

partial_function (option) strstr_loop :: "mem \<Rightarrow> u64 \<Rightarrow> u64 \<Rightarrow> u8 \<Rightarrow> u64 \<Rightarrow> u64 option" where
  "strstr_loop m inp str c len =
     (let sc = m inp; inp = inp + 1 in
      if sc = 0 then Some 0
      else if sc \<noteq> c then strstr_loop m inp str c len
      else if strncmp m inp str len \<noteq> 0 then strstr_loop m inp str c len
      else Some (inp - 1))"

definition strstr :: "mem \<Rightarrow> u64 \<Rightarrow> u64 \<Rightarrow> u64 option" where
  "strstr m inp str =
     (let c = m str; str = str + 1 in
      if c = 0 then Some inp
      else Option.bind (strlen m str) (\<lambda>len. strstr_loop m inp str c (scast len)))"

section \<open>NUL-terminated strings in memory\<close>

fun cstr :: "mem \<Rightarrow> u64 \<Rightarrow> u8 list \<Rightarrow> bool" where
  "cstr m s [] \<longleftrightarrow> m s = 0"
| "cstr m s (x # xs) \<longleftrightarrow> x \<noteq> 0 \<and> m s = x \<and> cstr m (s + 1) xs"

text \<open>Two blocks, \<open>n\<close> bytes at \<open>d\<close> and \<open>k\<close> bytes at \<open>s\<close>, share no address.\<close>

definition disjoint_blocks :: "u64 \<Rightarrow> nat \<Rightarrow> u64 \<Rightarrow> nat \<Rightarrow> bool" where
  "disjoint_blocks d n s k \<longleftrightarrow> n = 0 \<or> k = 0 \<or> (k \<le> unat (d - s) \<and> n \<le> unat (s - d))"

declare strnlen_loop.simps [simp del] strncpy_loop.simps [simp del]
  strlcpy_loop.simps [simp del] strncmp.simps [simp del] memset_c_loop.simps [simp del]
  memmove_c_up.simps [simp del] memmove_c_down.simps [simp del] memcmp.simps [simp del]
  memfind_loop.simps [simp del]

lemma cstr_nth:
  "cstr m s xs \<Longrightarrow> i < length xs \<Longrightarrow> m (s + of_nat i) = xs ! i \<and> xs ! i \<noteq> 0"
proof (induction xs arbitrary: s i)
  case (Cons x xs)
  show ?case
  proof (cases i)
    case (Suc j)
    with Cons.prems Cons.IH [of "s + 1" j] show ?thesis by (simp add: add.assoc)
  qed (use Cons in simp)
qed simp

lemma cstr_end: "cstr m s xs \<Longrightarrow> m (s + of_nat (length xs)) = 0"
proof (induction xs arbitrary: s)
  case (Cons x xs)
  with Cons.IH [of "s + 1"] show ?case by (simp add: add.assoc)
qed simp

lemma cstr_length: "cstr m s xs \<Longrightarrow> length xs < 2 ^ 64"
proof (rule ccontr)
  assume c: "cstr m s xs" and "\<not> length xs < 2 ^ 64"
  then obtain i where i: "length xs = i + 2 ^ 64" by (metis le_add_diff_inverse2 not_less)
  have "(of_nat (length xs) :: u64) = of_nat i + of_nat (2 ^ LENGTH(64))" by (simp add: i)
  also have "\<dots> = of_nat i" by (simp only: word_exp_length_eq_0 of_nat_power of_nat_numeral) simp
  finally have "m (s + of_nat i) = 0" using cstr_end [OF c] by simp
  with cstr_nth [OF c, of i] i show False by simp
qed

lemma cstr_unique: "cstr m s xs \<Longrightarrow> cstr m s ys \<Longrightarrow> xs = ys"
proof (induction xs arbitrary: s ys)
  case Nil then show ?case by (cases ys) auto
next
  case (Cons x xs) then show ?case by (cases ys) auto
qed

lemma cstr_drop: "cstr m s xs \<Longrightarrow> i \<le> length xs \<Longrightarrow> cstr m (s + of_nat i) (drop i xs)"
proof (induction xs arbitrary: s i)
  case (Cons x xs)
  show ?case
  proof (cases i)
    case (Suc j)
    with Cons.prems Cons.IH [of "s + 1" j] show ?thesis by (simp add: add.assoc)
  qed (use Cons in simp)
qed simp

lemma cstr_cong:
  "(\<And>i. i \<le> length xs \<Longrightarrow> m' (s' + of_nat i) = m (s + of_nat i)) \<Longrightarrow> cstr m s xs \<Longrightarrow> cstr m' s' xs"
proof (induction xs arbitrary: s s')
  case Nil
  from Nil(1) [of 0] Nil(2) show ?case by simp
next
  case (Cons x xs)
  have "m' (s' + 1 + of_nat i) = m (s + 1 + of_nat i)" if "i \<le> length xs" for i
    using Cons.prems(1) [of "Suc i"] that by (simp add: algebra_simps)
  with Cons Cons.prems(1) [of 0] show ?case by auto
qed

lemma cstr_upd:
  assumes "cstr m s xs" "length xs < unat (a - s)"
  shows "cstr (m(a := v)) s xs"
proof (rule cstr_cong [OF _ assms(1)])
  fix i assume "i \<le> length xs"
  moreover have "unat (of_nat i :: u64) \<le> i" by (simp add: unat_of_nat)
  ultimately show "(m(a := v)) (s + of_nat i) = m (s + of_nat i)" using assms(2) by auto
qed

subsection \<open>Length\<close>

lemma strlen_loop_cstr: "cstr m s xs \<Longrightarrow> strlen_loop m s n = Some (n + of_nat (length xs))"
proof (induction xs arbitrary: s n)
  case Nil then show ?case by (simp add: strlen_loop.simps)
next
  case (Cons x xs)
  then show ?case by (simp add: strlen_loop.simps [of m s] algebra_simps)
qed

lemma strlen_loop_Some:
  assumes ret: "strlen_loop m s n = Some r"
  shows "\<exists>xs. cstr m s xs \<and> r = n + of_nat (length xs)"
proof (rule strlen_loop.raw_induct
    [where P = "\<lambda>m s n r. \<exists>xs. cstr m s xs \<and> r = n + of_nat (length xs)", OF _ ret])
  fix f :: "mem \<Rightarrow> u64 \<Rightarrow> i32 \<Rightarrow> i32 option" and m s n r
  assume IH: "\<And>m s n r. f m s n = Some r \<Longrightarrow> \<exists>xs. cstr m s xs \<and> r = n + of_nat (length xs)"
    and eq: "(if m s \<noteq> 0 then f m (s + 1) (n + 1) else Some n) = Some r"
  show "\<exists>xs. cstr m s xs \<and> r = n + of_nat (length xs)"
  proof (cases "m s = 0")
    case True
    with eq show ?thesis by (intro exI [of _ "[]"]) simp
  next
    case False
    with eq IH obtain xs where "cstr m (s + 1) xs" "r = n + 1 + of_nat (length xs)" by fastforce
    with False show ?thesis by (intro exI [of _ "m s # xs"]) simp
  qed
qed

subsection \<open>Copying\<close>

lemma copy_1: "copy m d s 1 = m(d := m s)"
  by (auto simp: copy_def unat_eq_zero)

lemma copy_same [simp]: "copy m d d n = m"
  by (auto simp: copy_def)

lemma cstr_copy:
  assumes "cstr m s xs" "length xs < n"
  shows "cstr (copy m d s n) d xs"
proof (rule cstr_cong [OF _ assms(1)])
  fix i assume "i \<le> length xs"
  moreover have "unat (of_nat i :: u64) \<le> i" by (simp add: unat_of_nat)
  ultimately show "copy m d s n (d + of_nat i) = m (s + of_nat i)"
    using assms(2) by (simp add: copy_def add.commute)
qed

lemma strcpy_loop_copy:
  "cstr m src xs \<Longrightarrow> length xs < unat (dst - src) \<or> dst = src \<Longrightarrow>
   strcpy_loop m dst src = Some (copy m dst src (Suc (length xs)))"
proof (induction xs arbitrary: m dst src)
  case Nil
  then show ?case by (simp add: strcpy_loop.simps copy_1 [unfolded One_nat_def] fun_upd_def)
next
  case (Cons x xs)
  define m1 where "m1 = m(dst := m src)"
  have m1: "m1 = copy m dst src 1" by (simp only: m1_def copy_1)
  have tail: "cstr m1 (src + 1) xs"
  proof (cases "dst = src")
    case False
    with Cons.prems(2) unat_diff_step [of 1 dst src] have "length xs < unat (dst - (src + 1))"
      by simp
    with Cons.prems show ?thesis unfolding m1_def by (intro cstr_upd) auto
  qed (use Cons.prems(1) m1 in simp)
  have "strcpy_loop m1 (dst + 1) (src + 1) = Some (copy m1 (dst + 1) (src + 1) (Suc (length xs)))"
    using Cons.prems(2) by (intro Cons.IH [OF tail]) auto
  moreover have "copy m1 (dst + 1) (src + 1) (Suc (length xs)) = copy m dst src (Suc (Suc (length xs)))"
  proof (cases "dst = src")
    case False
    with Cons.prems(2) have "1 + Suc (length xs) \<le> unat (dst - src)" by simp
    then show ?thesis
      using copy_append_up [of 1 "Suc (length xs)" dst src m] unat_lt64 [of "dst - src"]
      unfolding m1 by simp
  qed (simp add: m1)
  ultimately show ?case
    using Cons.prems(1) by (simp add: strcpy_loop.simps [of m dst src] Let_def m1_def)
qed

lemma strcpy_copy:
  assumes "cstr m src xs" "length xs < unat (dst - src) \<or> dst = src"
  shows "strcpy m dst src = Some (copy m dst src (Suc (length xs)), dst)"
  using strcpy_loop_copy [OF assms] by (simp add: strcpy_def)

lemma cstr_append:
  "cstr m s (xs @ ys) \<longleftrightarrow> 0 \<notin> set xs \<and> (\<forall>i < length xs. m (s + of_nat i) = xs ! i)
     \<and> cstr m (s + of_nat (length xs)) ys"
proof (induction xs arbitrary: s)
  case (Cons x xs)
  have "(\<forall>i < length (x # xs). m (s + of_nat i) = (x # xs) ! i) \<longleftrightarrow>
        m s = x \<and> (\<forall>i < length xs. m (s + 1 + of_nat i) = xs ! i)"
    by (auto simp: All_less_Suc2 add.assoc)
  with Cons.IH [of "s + 1"] show ?case by (auto simp: add.assoc)
qed simp

text \<open>\<^verbatim>\<open>strcat\<close>: the destination string, an \<^verbatim>\<open>int\<close> long at most, is extended in place.\<close>

lemma strcat_appends:
  assumes x: "cstr m dst xs" "length xs < 2 ^ 31" and y: "cstr m src ys"
    and sep: "disjoint_blocks (dst + of_nat (length xs)) (Suc (length ys)) src (Suc (length ys))"
    and low: "length xs + length ys < 2 ^ 64"
  shows "\<exists>m'. strcat m dst src = Some (m', dst) \<and> cstr m' dst (xs @ ys)
    \<and> (\<forall>a. length ys < unat (a - (dst + of_nat (length xs))) \<longrightarrow> m' a = m a)"
proof -
  let ?d = "dst + of_nat (length xs)" and ?n = "Suc (length ys)"
  let ?m = "copy m ?d src ?n"
  have len: "(scast (of_nat (length xs) :: i32) :: u64) = of_nat (length xs)"
    using x(2) by (simp add: scast_nat_small)
  have "strlen m dst = Some (of_nat (length xs))"
    using strlen_loop_cstr [OF x(1), of 0] by (simp add: strlen_def)
  moreover have "strcpy m ?d src = Some (?m, ?d)"
    using y sep by (intro strcpy_copy) (auto simp: disjoint_blocks_def)
  ultimately have r: "strcat m dst src = Some (?m, dst)" by (simp add: strcat_def len)
  have "?m (dst + of_nat i) = xs ! i" if "i < length xs" for i
  proof -
    let ?k = "length xs - i"
    have "dst + of_nat i - ?d = - of_nat ?k" using that by (simp add: of_nat_diff)
    then have "unat (dst + of_nat i - ?d) = 2 ^ 64 - ?k"
      using that low unat_minus_small [of ?k] by simp
    with that low have "\<not> unat (dst + of_nat i - ?d) < ?n" by simp
    with cstr_nth [OF x(1) that] show ?thesis by (simp add: copy_def)
  qed
  moreover have "0 \<notin> set xs" using cstr_nth [OF x(1)] by (auto simp: in_set_conv_nth)
  ultimately have "cstr ?m dst (xs @ ys)"
    using cstr_copy [OF y, of ?n ?d] by (simp add: cstr_append)
  with r show ?thesis by (auto simp: copy_def)
qed

subsection \<open>Bounded copies\<close>

lemma disjoint_upd:
  assumes "cstr m s xs" "disjoint_blocks d (Suc k) s (Suc (length xs))"
  shows "cstr (m(d := v)) s xs"
  using assms by (intro cstr_upd) (auto simp: disjoint_blocks_def)

lemma disjoint_blocks_Suc:
  assumes "disjoint_blocks d (Suc k) s (Suc n)"
  shows "disjoint_blocks (d + 1) k s (Suc n)" and "disjoint_blocks (d + 1) k (s + 1) n"
proof -
  have s: "n < unat (d - s)" "k < unat (s - d)" using assms by (auto simp: disjoint_blocks_def)
  have d1: "unat (s - (d + 1)) = unat (s - d) - 1" using s unat_diff_step [of 1 s d] by simp
  show "disjoint_blocks (d + 1) k (s + 1) n" using s by (auto simp: disjoint_blocks_def)
  show "disjoint_blocks (d + 1) k s (Suc n)"
  proof (cases "k = 0")
    case False
    with s have "unat (s - d) \<noteq> 1" by simp
    moreover have "unat (d + 1 - s) = 0 \<Longrightarrow> unat (s - d) = 1"
      by (metis add_diff_cancel_left' eq_iff_diff_eq_0 unat_1 unat_eq_zero)
    ultimately have "unat (d + 1 - s) \<noteq> 0" by blast
    then have "unat (d + 1 - s) = Suc (unat (d - s))"
      using unat_plus_if' [of "d - s" 1] unat_lt64 [of "d - s"]
      by (auto simp: diff_add_eq [symmetric] split: if_splits)
    with s d1 show ?thesis by (auto simp: disjoint_blocks_def)
  qed (simp add: disjoint_blocks_def)
qed

lemma pad_step:
  assumes "Suc k < 2 ^ 64"
  shows "pad (m(d := v)) (d + 1) xs k = pad m d (v # xs) (Suc k)"
proof
  fix a
  show "pad (m(d := v)) (d + 1) xs k a = pad m d (v # xs) (Suc k) a"
  proof (cases "a = d")
    case True
    have "unat (d - (d + 1)) = 2 ^ 64 - 1" using unat_minus_small [of 1] by simp
    with True assms show ?thesis by (simp add: pad_def Let_def)
  next
    case False
    then obtain j where j: "unat (a - d) = Suc j" by (cases "unat (a - d)") (auto simp: unat_eq_zero)
    then have "unat (a - (d + 1)) = j" using unat_diff_step [of 1 a d] by simp
    with j False show ?thesis by (auto simp: pad_def Let_def)
  qed
qed

lemma pad_0 [simp]: "pad m d xs 0 = m"
  by (simp add: pad_def)

lemma strncpy_loop_pad:
  "cstr m src xs \<Longrightarrow> disjoint_blocks dst k src (Suc (length xs)) \<Longrightarrow> i \<le> sz \<Longrightarrow>
   k = unat sz - unat i \<Longrightarrow> strncpy_loop m dst src sz i = pad m dst xs k"
proof (induction k arbitrary: m dst src xs i)
  case 0
  then have "\<not> i < sz" by (simp add: word_less_nat_alt)
  then show ?case by (simp add: strncpy_loop.simps [of m])
next
  case (Suc k)
  define m1 where "m1 = m(dst := m src)"
  have lt: "i < sz" using Suc.prems(4) by (simp add: word_less_nat_alt)
  then have i1: "unat (i + 1) = Suc (unat i)" by (simp add: word_less_nat_alt unat_Suc_less)
  then have i: "i + 1 \<le> sz" "k = unat sz - unat (i + 1)"
    using Suc.prems(4) lt by (auto simp: word_le_nat_alt word_less_nat_alt)
  have k: "Suc k < 2 ^ 64" using Suc.prems(4) unat_lt64 [of sz] by simp
  have m1: "cstr m1 src xs" unfolding m1_def by (rule disjoint_upd [OF Suc.prems(1,2)])
  have step: "strncpy_loop m dst src sz i
      = strncpy_loop m1 (dst + 1) (if m1 src \<noteq> 0 then src + 1 else src) sz (i + 1)"
    by (subst strncpy_loop.simps) (simp only: lt if_True Let_def m1_def)
  have pad1: "pad m1 (dst + 1) ys k = pad m dst (m src # ys) (Suc k)" for ys
    unfolding m1_def by (rule pad_step [OF k])
  show ?case
  proof (cases xs)
    case Nil
    with Suc.prems m1 have z: "m src = 0" "m1 src = 0" by simp_all
    have "pad m dst [0] (Suc k) = pad m dst [] (Suc k)"
      by (auto simp: pad_def Let_def)
    with Suc.IH [OF m1 disjoint_blocks_Suc(1) [OF Suc.prems(2)] i] step pad1 z Nil
    show ?thesis by simp
  next
    case (Cons x ys)
    with Suc.prems m1 have x: "m src = x" "m1 src \<noteq> 0" "cstr m1 (src + 1) ys" by simp_all
    from Suc.IH [OF x(3) disjoint_blocks_Suc(2) [OF Suc.prems(2) [unfolded Cons, simplified]] i]
      step pad1 x Cons
    show ?thesis by simp
  qed
qed

lemma strlcpy_loop_copy:
  "cstr m src xs \<Longrightarrow> disjoint_blocks dst (unat sz) src (Suc (length xs)) \<Longrightarrow> sz \<noteq> 0 \<Longrightarrow>
   k = min (length xs) (unat sz - 1) \<Longrightarrow>
   strlcpy_loop m dst src sz = (copy m dst src k, dst + of_nat k)"
proof (induction xs arbitrary: m dst src sz k)
  case Nil
  then show ?case by (simp add: strlcpy_loop.simps [of m])
next
  case (Cons x xs)
  have u: "unat (sz - 1) = unat sz - 1" using Cons.prems(3) by (simp add: unat_minus_one)
  show ?case
  proof (cases "sz = 1")
    case True
    with Cons.prems show ?thesis by (simp add: strlcpy_loop.simps [of m])
  next
    case False
    define m1 where "m1 = m(dst := m src)"
    have pos: "sz - 1 > 0" "sz - 1 \<noteq> 0" using False by (auto simp: word_gt_0)
    then have "unat (sz - 1) \<noteq> 0" by (simp only: unat_eq_zero) simp
    with u have "unat sz = Suc (Suc (unat sz - 2))" by linarith
    then obtain n where n: "unat sz = Suc (Suc n)" by blast
    have "cstr m1 src (x # xs)" unfolding m1_def
      using Cons.prems(2) by (intro disjoint_upd [OF Cons.prems(1), of dst "Suc n"]) (simp add: n)
    then have c: "cstr m1 (src + 1) xs" by simp
    have d: "disjoint_blocks (dst + 1) (unat (sz - 1)) (src + 1) (Suc (length xs))"
      using Cons.prems(2) disjoint_blocks_Suc(2) [of dst "Suc n" src "Suc (length xs)"] u n by simp
    obtain j where j: "j = min (length xs) (unat (sz - 1) - 1)" "k = Suc j"
      using Cons.prems(4) u n by auto
    have "Suc (Suc (length xs)) \<le> unat (dst - src)"
      using Cons.prems(2) n by (simp add: disjoint_blocks_def)
    then have "1 + j \<le> unat (dst - src)" "1 + j < 2 ^ 64"
      using j(1) unat_lt64 [of "dst - src"] by linarith+
    then have "copy m1 (dst + 1) (src + 1) j = copy m dst src (Suc j)"
      using copy_append_up [of 1 j dst src m] unfolding m1_def copy_1 [symmetric] by simp
    moreover have "strlcpy_loop m dst src sz = strlcpy_loop m1 (dst + 1) (src + 1) (sz - 1)"
      using pos(1) Cons.prems(1) by (subst strlcpy_loop.simps) (simp add: m1_def)
    ultimately show ?thesis using Cons.IH [OF c d pos(2) j(1)] j(2) by (simp add: add.assoc)
  qed
qed

subsection \<open>Comparison and search\<close>

text \<open>The difference at the first position where two byte strings differ.\<close>

fun byte_cmp :: "u8 list \<Rightarrow> u8 list \<Rightarrow> i32" where
  "byte_cmp [] [] = 0"
| "byte_cmp [] (y # ys) = - ucast y"
| "byte_cmp (x # xs) [] = ucast x"
| "byte_cmp (x # xs) (y # ys) = (if x = y then byte_cmp xs ys else ucast x - ucast y)"

lemma sint_ucast_diff: "sint (ucast (x :: u8) - ucast (y :: u8) :: i32) = uint x - uint y"
proof -
  have "uint x < 2 ^ LENGTH(8)" "uint y < 2 ^ LENGTH(8)" by (rule unsigned_less)+
  then have b: "uint x < 256" "uint y < 256" by simp_all
  have d: "- 256 \<le> uint x - uint y" "uint x - uint y < 256"
    using b uint_ge_0 [of x] uint_ge_0 [of y] by linarith+
  have "sint (word_of_int (uint x - uint y) :: i32) = signed_take_bit 31 (uint x - uint y)"
    by (simp only: sint_sbintrunc') simp
  also have "\<dots> = uint x - uint y"
  proof (rule signed_take_bit_int_eq_self)
    show "- (2 ^ 31) \<le> uint x - uint y" using d(1) by simp
    show "uint x - uint y < 2 ^ 31" using d(2) by simp
  qed
  finally show ?thesis by simp
qed

lemma ucast_diff_0_iff: "(ucast (x :: u8) - ucast (y :: u8) :: i32) = 0 \<longleftrightarrow> x = y"
proof
  assume "(ucast x - ucast y :: i32) = 0"
  then have "sint (ucast x - ucast y :: i32) = 0" by simp
  then show "x = y" unfolding sint_ucast_diff by (simp add: word_uint_eq_iff)
qed simp

lemma byte_cmp_0_iff: "0 \<notin> set xs \<Longrightarrow> 0 \<notin> set ys \<Longrightarrow> byte_cmp xs ys = 0 \<longleftrightarrow> xs = ys"
proof (induction xs ys rule: byte_cmp.induct)
  case (2 y ys)
  then show ?case using ucast_diff_0_iff [of 0 y] by auto
next
  case (3 x xs)
  then show ?case using ucast_diff_0_iff [of x 0] by auto
next
  case (4 x xs y ys)
  then show ?case using ucast_diff_0_iff [of x y] by auto
qed simp

lemma byte_cmp_less_iff:
  "0 \<notin> set xs \<Longrightarrow> 0 \<notin> set ys \<Longrightarrow> sint (byte_cmp xs ys) < 0 \<longleftrightarrow> ord_class.lexordp xs ys"
proof (induction xs ys rule: byte_cmp.induct)
  case (2 y ys)
  then have "0 < uint y" by (simp add: order_less_le unsigned_eq_0_iff)
  then show ?case using sint_ucast_diff [of 0 y] by simp
next
  case (3 x xs)
  then show ?case using sint_ucast_diff [of x 0] by simp
next
  case (4 x xs y ys)
  have "x \<noteq> y \<Longrightarrow> uint x - uint y < 0 \<longleftrightarrow> x < y \<and> \<not> y < x"
    by (auto simp: word_less_def)
  with 4 sint_ucast_diff [of x y] show ?case by auto
qed simp

lemma strcmp_byte_cmp: "cstr m p xs \<Longrightarrow> cstr m q ys \<Longrightarrow> strcmp m p q = Some (byte_cmp xs ys)"
  by (induction xs ys arbitrary: p q rule: byte_cmp.induct)
    (auto simp: strcmp.simps)

lemma strncmp_byte_cmp:
  "strncmp m p q n = byte_cmp (takeWhile (\<lambda>x. x \<noteq> 0) (bytes m p (unat n)))
     (takeWhile (\<lambda>x. x \<noteq> 0) (bytes m q (unat n)))"
proof (induction m p q n rule: strncmp.induct)
  case (1 m p q n)
  show ?case
  proof (cases "n = 0")
    case False
    then have "n > 0" by (simp add: word_gt_0)
    with 1 False show ?thesis
      by (auto simp: strncmp.simps [of m p q n] bytes_unat_pred)
  qed (simp add: strncmp.simps [of m p q 0])
qed

lemma takeWhile_bytes_cstr:
  "cstr m s xs \<Longrightarrow> takeWhile (\<lambda>x. x \<noteq> 0) (bytes m s n) = take n xs"
proof (induction n arbitrary: s xs)
  case (Suc n)
  then show ?case by (cases xs) auto
qed simp

lemma strchr_cstr:
  "cstr m s xs \<Longrightarrow> strchr m s c =
     Some (if c \<in> set xs then s + of_nat (length (takeWhile (\<lambda>x. x \<noteq> c) xs)) else 0)"
proof (induction xs arbitrary: s)
  case Nil then show ?case by (simp add: strchr.simps)
next
  case (Cons x xs)
  from Cons.prems Cons.IH [of "s + 1"] show ?case
    by (auto simp: strchr.simps [of m s] add.assoc)
qed

lemma strfind_cstr:
  "cstr m s xs \<Longrightarrow> strfind m s c = Some (s + of_nat (length (takeWhile (\<lambda>x. x \<noteq> c) xs)))"
proof (induction xs arbitrary: s)
  case Nil then show ?case by (simp add: strfind.simps)
next
  case (Cons x xs)
  from Cons.prems Cons.IH [of "s + 1"] show ?case
    by (auto simp: strfind.simps [of m s] add.assoc)
qed

lemma strnlen_loop_takeWhile:
  "strnlen_loop m s sz n = n + of_nat (length (takeWhile (\<lambda>x. x \<noteq> 0) (bytes m s (unat sz))))"
proof (induction m s sz n rule: strnlen_loop.induct)
  case (1 m s sz n)
  show ?case
  proof (cases "sz = 0")
    case False
    then have "sz > 0" by (simp add: word_gt_0)
    with 1 show ?thesis by (auto simp: strnlen_loop.simps [of m s sz n] bytes_unat_pred)
  qed (simp add: strnlen_loop.simps [of m s 0 n])
qed

lemma memcmp_0_iff: "memcmp m s1 s2 n = 0 \<longleftrightarrow> bytes m s1 (unat n) = bytes m s2 (unat n)"
proof (induction m s1 s2 n rule: memcmp.induct)
  case (1 m s1 s2 n)
  show ?case
  proof (cases "n = 0")
    case False
    then have "n > 0" by (simp add: word_gt_0)
    with 1 ucast_diff_0_iff [of "m s1" "m s2"] show ?thesis
      by (auto simp: memcmp.simps [of m s1 s2 n] bytes_unat_pred)
  qed (simp add: memcmp.simps [of m s1 s2 0])
qed

lemma memfind_loop_takeWhile:
  "k = unat ends - unat s \<Longrightarrow> s \<le> ends \<Longrightarrow>
   memfind_loop m s c ends = s + of_nat (length (takeWhile (\<lambda>x. x \<noteq> c) (bytes m s k)))"
proof (induction k arbitrary: s)
  case 0
  then have "\<not> s < ends" by (simp add: word_less_nat_alt)
  then show ?case by (simp add: memfind_loop.simps [of m s])
next
  case (Suc k)
  have lt: "s < ends" using Suc.prems(1) by (simp add: word_less_nat_alt)
  then have "unat (s + 1) = Suc (unat s)" by (simp add: word_less_nat_alt unat_Suc_less)
  then have "k = unat ends - unat (s + 1)" "s + 1 \<le> ends"
    using Suc.prems(1) lt by (auto simp: word_le_nat_alt word_less_nat_alt)
  with Suc.IH lt show ?case by (simp add: memfind_loop.simps [of m s] add.assoc)
qed

subsection \<open>Filling and moving blocks\<close>

lemma fill_1: "fill m d v 1 = m(d := v)"
  by (auto simp: fill_def unat_eq_zero)

lemma rep_stosb_fill: "n < 2 ^ 64 \<Longrightarrow> rep_stosb n d v m = fill m d v n"
proof (induction n arbitrary: d m)
  case (Suc n)
  then have "rep_stosb (Suc n) d v m = fill (fill m d v 1) (d + of_nat 1) v n"
    by (simp only: rep_stosb.simps fill_1) (simp add: fun_upd_def)
  also have "\<dots> = fill m d v (1 + n)" using Suc.prems by (intro fill_append) simp
  finally show ?case by simp
qed simp

lemma rep_stosl_fill:
  assumes v: "v = push_bit 24 c OR push_bit 16 c OR push_bit 8 c OR c" "c = c AND 0xFF"
  shows "4 * n < 2 ^ 64 \<Longrightarrow> rep_stosl n d v m = fill m d (ucast c) (4 * n)"
proof (induction n arbitrary: d m)
  case (Suc n)
  then have "rep_stosl (Suc n) d v m = fill (fill m d (ucast c) 4) (d + of_nat 4) (ucast c) (4 * n)"
    by (simp add: store32_fill [OF v])
  also have "\<dots> = fill m d (ucast c) (4 + 4 * n)" using Suc.prems by (intro fill_append) simp
  finally show ?case by simp
qed simp

lemma rep_movsb_up:
  "n < 2 ^ 64 \<Longrightarrow> n \<le> unat (d - s) \<or> d = s \<Longrightarrow> rep_movsb False n d s m = copy m d s n"
proof (induction n arbitrary: d s m)
  case (Suc n)
  then have "rep_movsb False (Suc n) d s m = copy (copy m d s 1) (d + of_nat 1) (s + of_nat 1) n"
    unfolding copy_1 by auto
  also have "\<dots> = copy m d s (1 + n)" using Suc.prems by (intro copy_append_up) auto
  finally show ?case by simp
qed simp

lemma rep_movsl_up:
  "4 * n < 2 ^ 64 \<Longrightarrow> 4 * n \<le> unat (d - s) \<or> d = s \<Longrightarrow> rep_movsl False n d s m = copy m d s (4 * n)"
proof (induction n arbitrary: d s m)
  case (Suc n)
  then have "rep_movsl False (Suc n) d s m = copy (copy m d s 4) (d + of_nat 4) (s + of_nat 4) (4 * n)"
    by (auto simp: store32_load32)
  also have "\<dots> = copy m d s (4 + 4 * n)" using Suc.prems by (intro copy_append_up) auto
  finally show ?case by simp
qed simp

lemma rep_movsb_down:
  "n < 2 ^ 64 \<Longrightarrow> n \<le> unat (s - d) \<or> d = s \<Longrightarrow>
   rep_movsb True n (d + of_nat n - 1) (s + of_nat n - 1) m = copy m d s n"
proof (induction n arbitrary: m)
  case (Suc n)
  have c1: "m(d + of_nat n := m (s + of_nat n)) = copy m (d + of_nat n) (s + of_nat n) 1"
    by (simp only: copy_1)
  have "rep_movsb True (Suc n) (d + of_nat (Suc n) - 1) (s + of_nat (Suc n) - 1) m
      = rep_movsb True n (d + of_nat n - 1) (s + of_nat n - 1) (copy m (d + of_nat n) (s + of_nat n) 1)"
    using c1 by (simp add: algebra_simps)
  also have "\<dots> = copy (copy m (d + of_nat n) (s + of_nat n) 1) d s n"
    using Suc.prems by (intro Suc.IH) auto
  also have "\<dots> = copy m d s (n + 1)" using Suc.prems by (intro copy_append_down) auto
  finally show ?case by simp
qed simp

lemma rep_movsl_down:
  "4 * n < 2 ^ 64 \<Longrightarrow> 4 * n \<le> unat (s - d) \<or> d = s \<Longrightarrow>
   rep_movsl True n (d + of_nat (4 * n) - 4) (s + of_nat (4 * n) - 4) m = copy m d s (4 * n)"
proof (induction n arbitrary: m)
  case (Suc n)
  let ?d = "d + of_nat (4 * n)" and ?s = "s + of_nat (4 * n)"
  have e: "d + of_nat (4 * Suc n) - 4 = ?d" "s + of_nat (4 * Suc n) - 4 = ?s" by simp_all
  have "rep_movsl True (Suc n) (d + of_nat (4 * Suc n) - 4) (s + of_nat (4 * Suc n) - 4) m
      = rep_movsl True n (?d - 4) (?s - 4) (copy m ?d ?s 4)"
    unfolding e by (simp add: store32_load32)
  also have "\<dots> = copy (copy m ?d ?s 4) d s (4 * n)"
    using Suc.prems by (intro Suc.IH) auto
  also have "\<dots> = copy m d s (4 * n + 4)" using Suc.prems by (intro copy_append_down) auto
  finally show ?case by (simp add: add.commute)
qed simp

lemma unat_div_4: "(n :: u64) mod 4 = 0 \<Longrightarrow> 4 * unat (n div 4) = unat n"
proof -
  assume "n mod 4 = 0"
  then have "unat (n mod 4) = 0" by simp
  then have "unat n mod 4 = 0" by (simp add: unat_mod)
  then show ?thesis by (simp add: unat_div) presburger
qed

lemma memset_fill: "memset m v c n = (fill m v (ucast c) (unat n), v)"
proof -
  let ?c = "c AND 0xFF"
  have c: "?c = ?c AND 0xFF" by (simp add: and.assoc)
  have u: "(ucast ?c :: u8) = ucast c"
  proof (rule bit_word_eqI)
    fix i assume "i < LENGTH(8)"
    have "bit (0xFF :: i32) i \<longleftrightarrow> bit (mask 8 :: i32) i" by (simp add: mask_eq_exp_minus_1)
    with \<open>i < LENGTH(8)\<close> show "bit (ucast ?c :: u8) i = bit (ucast c :: u8) i"
      by (simp add: bit_simps)
  qed
  have "rep_stosl (unat (n div 4)) v (push_bit 24 ?c OR push_bit 16 ?c OR push_bit 8 ?c OR ?c) m
      = fill m v (ucast c) (unat n)" if "n mod 4 = 0"
    using rep_stosl_fill [OF refl c, of "unat (n div 4)"] unat_div_4 [OF that] unat_lt64 [of n] u
    by simp
  then show ?thesis
    using rep_stosb_fill [of "unat n"] unat_lt64 [of n] by (simp add: memset_def Let_def)
qed

lemma memmove_c_up_movsb: "memmove_c_up m d s n = rep_movsb False (unat n) d s m"
proof (induction m d s n rule: memmove_c_up.induct)
  case (1 m d s n)
  show ?case
  proof (cases "n = 0")
    case False
    then have "unat n = Suc (unat (n - 1))" by (simp add: unat_minus_one unat_gt_0)
    with 1 False show ?thesis by (simp add: memmove_c_up.simps [of m d s n] word_gt_0 fun_upd_def)
  qed (simp add: memmove_c_up.simps [of m d s 0])
qed

lemma memmove_c_down_movsb: "memmove_c_down m d s n = rep_movsb True (unat n) (d - 1) (s - 1) m"
proof (induction m d s n rule: memmove_c_down.induct)
  case (1 m d s n)
  show ?case
  proof (cases "n = 0")
    case False
    then have "unat n = Suc (unat (n - 1))" by (simp add: unat_minus_one unat_gt_0)
    with 1 False show ?thesis by (simp add: memmove_c_down.simps [of m d s n] word_gt_0 fun_upd_def)
  qed (simp add: memmove_c_down.simps [of m d s 0])
qed

lemma memset_c_loop_stosb:
  "n < 2 ^ 31 \<Longrightarrow> memset_c_loop mm p c (of_nat n) = rep_stosb n p c mm"
proof (induction n arbitrary: p mm)
  case 0
  then show ?case by (simp add: memset_c_loop.simps [of mm p c 0] word_sle_eq)
next
  case (Suc n)
  then have "0 \<le>s (of_nat n :: i32)"
    by (simp add: word_sle_eq signed_of_nat signed_take_bit_int_eq_self)
  then have "memset_c_loop mm p c (of_nat (Suc n)) = memset_c_loop (mm(p := c)) (p + 1) c (of_nat n)"
    by (subst memset_c_loop.simps) simp
  with Suc show ?case by (simp add: fun_upd_def)
qed

text \<open>
  How the overlap test of \<^verbatim>\<open>memmove\<close> chooses the direction, for blocks that do not run
  past the top of memory.
\<close>

lemma overlap_distance:
  fixes d s n :: u64
  assumes "unat s + unat n < 2 ^ 64" "unat d + unat n < 2 ^ 64"
  shows "s < d \<and> s + n > d \<Longrightarrow> unat n \<le> unat (s - d)"
    and "\<not> (s < d \<and> s + n > d) \<Longrightarrow> unat n \<le> unat (d - s) \<or> d = s"
proof -
  have sn: "unat (s + n) = unat s + unat n"
    using assms(1) unat_add_less [of s "unat n"] by simp
  show "unat n \<le> unat (s - d)" if "s < d \<and> s + n > d"
    using that assms unat_sub_if' [of s d] by (auto simp: word_less_nat_alt split: if_splits)
  show "unat n \<le> unat (d - s) \<or> d = s" if "\<not> (s < d \<and> s + n > d)"
  proof (cases "s \<le> d")
    case True
    then have "unat (d - s) = unat d - unat s" by (rule unat_sub)
    with that True sn show ?thesis by (auto simp: word_less_nat_alt word_le_nat_alt word_unat_eq_iff)
  next
    case False
    with assms unat_sub_if' [of d s] show ?thesis by (auto simp: word_le_nat_alt)
  qed
qed

subsection \<open>Substrings\<close>

fun find_sub :: "'a list \<Rightarrow> 'a list \<Rightarrow> nat option" where
  "find_sub ys [] = (if ys = [] then Some 0 else None)"
| "find_sub ys (x # xs) = (if prefix ys (x # xs) then Some 0 else map_option Suc (find_sub ys xs))"

lemma find_sub_Some:
  "find_sub ys xs = Some i \<Longrightarrow> i \<le> length xs \<and> prefix ys (drop i xs) \<and> (\<forall>j < i. \<not> prefix ys (drop j xs))"
proof (induction xs arbitrary: i)
  case (Cons x xs)
  then show ?case by (auto simp: less_Suc_eq_0_disj split: if_splits)
qed (auto split: if_splits)

lemma find_sub_None: "find_sub ys xs = None \<Longrightarrow> i \<le> length xs \<Longrightarrow> \<not> prefix ys (drop i xs)"
proof (induction xs arbitrary: i)
  case (Cons x xs)
  then show ?case by (cases i) (auto split: if_splits)
qed (auto split: if_splits)

lemma cstr_no_zero: "cstr m s xs \<Longrightarrow> 0 \<notin> set xs"
  by (induction xs arbitrary: s) auto

lemma strncmp_prefix:
  assumes "cstr m p xs" "cstr m q ys" "n = of_nat (length ys)"
  shows "strncmp m p q n = 0 \<longleftrightarrow> prefix ys xs"
proof -
  have n: "unat n = length ys"
    using assms(3) cstr_length [OF assms(2)] by (simp add: unat_of_nat)
  have "0 \<notin> set (take (length ys) xs)" "0 \<notin> set ys"
    using cstr_no_zero assms(1,2) by (auto dest: in_set_takeD)
  then have "strncmp m p q n = 0 \<longleftrightarrow> take (length ys) xs = ys"
    by (simp add: strncmp_byte_cmp takeWhile_bytes_cstr [OF assms(1)]
        takeWhile_bytes_cstr [OF assms(2)] n byte_cmp_0_iff)
  also have "\<dots> \<longleftrightarrow> prefix ys xs"
    by (metis append_take_drop_id prefixI prefixE append_eq_conv_conj)
  finally show ?thesis .
qed

lemma strstr_loop_find:
  assumes str: "cstr m str ys" and c: "c \<noteq> 0"
  shows "cstr m inp xs \<Longrightarrow> strstr_loop m inp str c (of_nat (length ys)) =
    Some (case find_sub (c # ys) xs of None \<Rightarrow> 0 | Some i \<Rightarrow> inp + of_nat i)"
proof (induction xs arbitrary: inp)
  case Nil
  then show ?case by (simp add: strstr_loop.simps)
next
  case (Cons x xs)
  from Cons.prems have x: "m inp = x" "x \<noteq> 0" "cstr m (inp + 1) xs" by auto
  have p: "strncmp m (inp + 1) str (of_nat (length ys)) = 0 \<longleftrightarrow> prefix ys xs"
    using strncmp_prefix [OF x(3) str] by blast
  have "strstr_loop m inp str c (of_nat (length ys)) =
      (if x = c \<and> prefix ys xs then Some inp else strstr_loop m (inp + 1) str c (of_nat (length ys)))"
    using x p by (subst strstr_loop.simps) (simp add: Let_def)
  with Cons.IH [OF x(3)] show ?case
    by (auto simp: add.assoc split: option.splits)
qed

subsection \<open>Digits\<close>

definition digit_below :: "i32 \<Rightarrow> u8 \<Rightarrow> bool" where
  "digit_below base c \<longleftrightarrow> (case strtol_digit c of None \<Rightarrow> False | Some d \<Rightarrow> \<not> base \<le>s d)"

definition digit_val :: "u8 \<Rightarrow> i64" where
  "digit_val c = (case strtol_digit c of None \<Rightarrow> 0 | Some d \<Rightarrow> scast d)"

lemma strtol_digits_eval:
  "(\<forall>i < length ds. m (s + of_nat i) = ds ! i) \<Longrightarrow> (\<forall>c \<in> set ds. digit_below base c) \<Longrightarrow>
   \<not> digit_below base (m (s + of_nat (length ds))) \<Longrightarrow>
   strtol_digits m s base val =
     Some (foldl (\<lambda>v c. v * scast base + digit_val c) val ds, s + of_nat (length ds))"
proof (induction ds arbitrary: s val)
  case Nil
  then show ?case
    by (subst strtol_digits.simps) (auto simp: digit_below_def split: option.splits)
next
  case (Cons c ds)
  have 1: "m s = c" using Cons.prems(1) by force
  have 2: "\<forall>i < length ds. m (s + 1 + of_nat i) = ds ! i"
    using Cons.prems(1) by (auto simp: All_less_Suc2 add.assoc)
  obtain d where d: "strtol_digit c = Some d" "\<not> base \<le>s d"
    using Cons.prems(2) by (auto simp: digit_below_def split: option.splits)
  have "strtol_digits m s base val = strtol_digits m (s + 1) base (val * scast base + digit_val c)"
    using 1 d by (subst strtol_digits.simps) (simp add: digit_val_def)
  with Cons.IH [OF 2] Cons.prems(2,3) show ?case by (simp add: add.assoc)
qed

section \<open>Properties\<close>

text \<open>
  \<^verbatim>\<open>strlen\<close> returns exactly on NUL-terminated strings, and then the result is the
  number of bytes before the NUL (as an \<^verbatim>\<open>int\<close>); on anything else it never returns.
\<close>

theorem strlen_exact: "strlen m s = Some n \<longleftrightarrow> (\<exists>xs. cstr m s xs \<and> n = of_nat (length xs))"
  using strlen_loop_cstr [of m s _ 0] strlen_loop_Some [of m s 0 n] by (auto simp: strlen_def)

text \<open>
  \<^verbatim>\<open>strcpy\<close> into a block that does not overlap the source returns the destination,
  leaves the source string there and at its old place, and changes no other byte.
\<close>

theorem strcpy_correct:
  assumes "cstr m src xs" "disjoint_blocks dst (Suc (length xs)) src (Suc (length xs))"
  shows "\<exists>m'. strcpy m dst src = Some (m', dst) \<and> cstr m' dst xs \<and> cstr m' src xs
    \<and> (\<forall>a. length xs < unat (a - dst) \<longrightarrow> m' a = m a)"
proof -
  let ?m = "copy m dst src (Suc (length xs))"
  have sep: "length xs < unat (dst - src)" "length xs < unat (src - dst)"
    using assms(2) by (auto simp: disjoint_blocks_def)
  have "cstr ?m src xs"
  proof (rule cstr_cong [OF _ assms(1)])
    fix i assume i: "i \<le> length xs"
    have "\<not> unat (src + of_nat i - dst) < Suc (length xs)"
    proof -
      have "unat (src + of_nat i - dst) = (unat (src - dst) + i) mod 2 ^ 64"
        using i cstr_length [OF assms(1)] unat_word_ariths(1) [of "src - dst" "of_nat i"]
        by (simp add: unat_of_nat diff_add_eq)
      moreover have "unat (src - dst) + i < 2 ^ 64"
        using sep i unat_sub_if' [of "0 :: u64" "dst - src"] unat_lt64 [of "dst - src"]
        by (auto split: if_splits)
      ultimately show ?thesis using sep by simp
    qed
    then show "?m (src + of_nat i) = m (src + of_nat i)" by (simp add: copy_def)
  qed
  moreover have "cstr ?m dst xs" by (rule cstr_copy [OF assms(1)]) simp
  ultimately show ?thesis using strcpy_copy [OF assms(1), of dst] sep by (auto simp: copy_def)
qed

theorem strcpy_correct_witness:
  "\<exists>m'. strcpy ((\<lambda>_. 0)(100 := 0x68, 101 := 0x69)) 200 100 = Some (m', 200) \<and> cstr m' 200 [0x68, 0x69]"
proof -
  have c: "cstr ((\<lambda>_. 0)(100 := 0x68, 101 := 0x69)) 100 [0x68, 0x69]" by simp
  have d: "disjoint_blocks 200 (Suc (length [0x68, 0x69 :: u8])) 100 (Suc (length [0x68, 0x69 :: u8]))"
    by (simp add: disjoint_blocks_def)
  from strcpy_correct [OF c d] show ?thesis by blast
qed

text \<open>
  C28. \<^verbatim>\<open>strlcpy\<close> into a block of \<^verbatim>\<open>size\<close> bytes never writes outside that block, whatever
  the length of the source; for a positive size it leaves there the longest prefix of the source
  that fits with its NUL, and returns the length of that prefix.
\<close>

theorem strlcpy_bounded:
  assumes "cstr m src xs" "disjoint_blocks dst (unat sz) src (Suc (length xs))"
    and res: "strlcpy m dst src sz = (m', r)"
  shows "(\<forall>a. unat sz \<le> unat (a - dst) \<longrightarrow> m' a = m a) \<and>
    (0 < sz \<longrightarrow> cstr m' dst (take (unat sz - 1) xs) \<and> r = of_nat (min (length xs) (unat sz - 1)))"
proof (intro conjI)
  let ?k = "min (length xs) (unat sz - 1)"
  have k64: "?k < 2 ^ 64" using cstr_length [OF assms(1)] by simp
  have eq: "m' = (copy m dst src ?k)(dst + of_nat ?k := 0) \<and> r = of_nat ?k" if "sz \<noteq> 0"
    using res strlcpy_loop_copy [OF assms(1,2) that refl] that
    by (auto simp: strlcpy_def word_gt_0)
  show "\<forall>a. unat sz \<le> unat (a - dst) \<longrightarrow> m' a = m a"
  proof (cases "sz = 0")
    case True
    with res show ?thesis by (simp add: strlcpy_def)
  next
    case False
    have "unat (dst + of_nat ?k - dst) = ?k" using k64 by (simp add: unat_of_nat)
    moreover have "0 < unat sz" using False by (simp add: unat_gt_0)
    ultimately show ?thesis using eq [OF False] by (auto simp: copy_def)
  qed
  show "0 < sz \<longrightarrow> cstr m' dst (take (unat sz - 1) xs) \<and> r = of_nat ?k"
  proof
    assume "0 < sz"
    then have nz: "sz \<noteq> 0" by (simp add: word_gt_0)
    let ?ys = "take (unat sz - 1) xs"
    have "m' (dst + of_nat i) = ?ys ! i \<and> ?ys ! i \<noteq> 0" if "i < length ?ys" for i
    proof -
      have i: "i < ?k" "unat (of_nat i :: u64) = i" using that k64 by (auto simp: unat_of_nat)
      then have "(of_nat i :: u64) \<noteq> of_nat ?k"
        using k64 unat_of_nat [of ?k, where 'a = 64] by auto
      with eq [OF nz] i cstr_nth [OF assms(1), of i] that show ?thesis
        by (simp add: copy_def add.commute)
    qed
    moreover have "m' (dst + of_nat (length ?ys)) = 0" using eq [OF nz] by simp
    ultimately have "cstr m' dst (?ys @ [])"
      unfolding cstr_append by (auto simp: in_set_conv_nth)
    then show "cstr m' dst ?ys \<and> r = of_nat ?k" using eq [OF nz] by simp
  qed
qed

theorem strlcpy_bounded_witness:
  "\<exists>m' r. strlcpy ((\<lambda>_. 0)(100 := 0x68, 101 := 0x69)) 200 100 2 = (m', r) \<and> cstr m' 200 [0x68] \<and> r = 1"
proof -
  let ?m = "(\<lambda>_. 0)(100 := 0x68, 101 := 0x69) :: mem"
  have c: "cstr ?m 100 [0x68, 0x69]" by simp
  have d: "disjoint_blocks 200 (unat (2 :: u64)) 100 (Suc (length [0x68, 0x69 :: u8]))"
    by (simp add: disjoint_blocks_def)
  obtain m' r where r: "strlcpy ?m 200 100 2 = (m', r)" by fastforce
  from strlcpy_bounded [OF c d r] r show ?thesis by auto
qed

text \<open>
  \<^verbatim>\<open>strcmp\<close> returns on two NUL-terminated strings, its result is zero exactly when they
  are equal and negative exactly when the first comes before the second in the lexicographic order
  of unsigned bytes.
\<close>

theorem strcmp_order:
  assumes "cstr m p xs" "cstr m q ys"
  shows "\<exists>r. strcmp m p q = Some r \<and> (r = 0 \<longleftrightarrow> xs = ys) \<and> (sint r < 0 \<longleftrightarrow> ord_class.lexordp xs ys)"
  using strcmp_byte_cmp [OF assms] cstr_no_zero [OF assms(1)] cstr_no_zero [OF assms(2)]
  by (auto simp: byte_cmp_0_iff byte_cmp_less_iff)

theorem strcmp_order_witness:
  "\<exists>r. strcmp ((\<lambda>_. 0)(100 := 0x61, 200 := 0xE9)) 100 200 = Some r \<and> sint r < 0"
proof -
  have "cstr ((\<lambda>_. 0)(100 := 0x61, 200 := 0xE9)) 100 [0x61]"
    "cstr ((\<lambda>_. 0)(100 := 0x61, 200 := 0xE9)) 200 [0xE9]" by simp_all
  from strcmp_order [OF this] show ?thesis by auto
qed

lemma memmove_copy:
  assumes "unat src + unat n < 2 ^ 64" "unat dst + unat n < 2 ^ 64"
  shows "memmove m dst src n = (copy m dst src (unat n), dst)
    \<and> memmove_c m dst src n = memmove m dst src n"
proof -
  note sep = overlap_distance [OF assms]
  have n: "unat n < 2 ^ 64" by (rule unat_lt64)
  note n4 = unat_div_4
  show ?thesis
  proof (cases "src < dst \<and> src + n > dst")
    case True
    note down = sep(1) [OF True]
    have b: "rep_movsb True (unat n) (dst + n - 1) (src + n - 1) m = copy m dst src (unat n)"
      using rep_movsb_down [of "unat n" src dst m] down n by simp
    have l: "rep_movsl True (unat (n div 4)) (dst + n - 4) (src + n - 4) m = copy m dst src (unat n)"
      if "n mod 4 = 0"
      using rep_movsl_down [of "unat (n div 4)" src dst m] down n n4 [OF that] by simp
    from b l show ?thesis
      unfolding memmove_def memmove_c_def Let_def if_P [OF True] memmove_c_down_movsb by simp
  next
    case False
    note up = sep(2) [OF False]
    have b: "rep_movsb False (unat n) dst src m = copy m dst src (unat n)"
      using rep_movsb_up [of "unat n" dst src m] up n by simp
    have l: "rep_movsl False (unat (n div 4)) dst src m = copy m dst src (unat n)"
      if "n mod 4 = 0"
      using rep_movsl_up [of "unat (n div 4)" dst src m] up n n4 [OF that] by simp
    from b l show ?thesis
      unfolding memmove_def memmove_c_def Let_def if_not_P [OF False] memmove_c_up_movsb by simp
  qed
qed

text \<open>
  C17. \<^verbatim>\<open>memmove\<close> as compiled (the string instructions, by bytes or by double words, upwards
  or downwards) and the portable \<^verbatim>\<open>memmove\<close> of the \<^verbatim>\<open>#else\<close> branch are the same function, and
  both move the block as if through a temporary buffer, also when source and destination
  overlap. The blocks must not run past the top of the address space.
\<close>

theorem memmove_moves:
  assumes "unat src + unat n < 2 ^ 64" "unat dst + unat n < 2 ^ 64"
  shows "memmove m dst src n = (copy m dst src (unat n), dst)
    \<and> memmove_c m dst src n = memmove m dst src n"
  using assms by (rule memmove_copy)

theorem memmove_moves_witness:
  "unat (100 :: u64) + unat (8 :: u64) < 2 ^ 64 \<and> unat (104 :: u64) + unat (8 :: u64) < 2 ^ 64
   \<and> memmove (\<lambda>a. ucast a) 104 100 8 = (copy (\<lambda>a. ucast a) 104 100 8, 104)"
proof -
  have "unat (100 :: u64) + unat (8 :: u64) < 2 ^ 64" "unat (104 :: u64) + unat (8 :: u64) < 2 ^ 64"
    by simp_all
  from memmove_moves [OF this, of "\<lambda>a. ucast a"] this show ?thesis by simp
qed

text \<open>
  \<^verbatim>\<open>memset\<close> sets exactly the \<^verbatim>\<open>n\<close> bytes at \<^verbatim>\<open>v\<close> to the low byte of \<^verbatim>\<open>c\<close>, whether it stores
  bytes or double words, and agrees with the portable version for the block sizes an
  \<^verbatim>\<open>int\<close> counter can hold.
\<close>

theorem memset_fills:
  "memset m v c n = (fill m v (ucast c) (unat n), v)
   \<and> (unat n < 2 ^ 31 \<longrightarrow> memset_c m v c n = memset m v c n)"
proof -
  have "memset_c m v c n = (fill m v (ucast c) (unat n), v)" if "unat n < 2 ^ 31"
  proof -
    have "(ucast n :: i32) = of_nat (unat n)" by simp
    then have "memset_c m v c n = (rep_stosb (unat n) v (ucast c) m, v)"
      using memset_c_loop_stosb [OF that] by (simp only: memset_c_def)
    then show ?thesis using that rep_stosb_fill [of "unat n"] by simp
  qed
  then show ?thesis by (simp add: memset_fill)
qed

theorem memset_fills_witness:
  "unat (8 :: u64) < 2 ^ 31 \<and> memset_c (\<lambda>_. 0) 64 0x41 8 = (fill (\<lambda>_. 0) 64 0x41 8, 64)"
  using memset_fills [of "\<lambda>_. 0" 64 "0x41" 8] by simp

text \<open>
  C29. \<^verbatim>\<open>strstr\<close> on NUL-terminated strings returns the address of the first occurrence of the
  second string in the first, and the null pointer when there is none. (The length of the
  second string is passed on as an \<^verbatim>\<open>int\<close>, hence the bound.)
\<close>

theorem strstr_first:
  assumes "cstr m inp xs" "cstr m str ys" "length ys < 2 ^ 31"
  shows "\<exists>r. strstr m inp str = Some r \<and>
    ((\<exists>i \<le> length xs. prefix ys (drop i xs) \<and> (\<forall>j < i. \<not> prefix ys (drop j xs)) \<and> r = inp + of_nat i)
     \<or> ((\<forall>i \<le> length xs. \<not> prefix ys (drop i xs)) \<and> r = 0))"
proof (cases ys)
  case Nil
  with assms(2) show ?thesis by (auto simp: strstr_def intro: exI [of _ 0])
next
  case (Cons c zs)
  with assms(2) have c: "m str = c" "c \<noteq> 0" "cstr m (str + 1) zs" by auto
  have "strlen m (str + 1) = Some (of_nat (length zs))"
    using strlen_loop_cstr [OF c(3), of 0] by (simp add: strlen_def)
  moreover have "(scast (of_nat (length zs) :: i32) :: u64) = of_nat (length zs)"
    using assms(3) Cons by (intro scast_nat_small) simp
  ultimately have "strstr m inp str
      = Some (case find_sub ys xs of None \<Rightarrow> 0 | Some i \<Rightarrow> inp + of_nat i)"
    using strstr_loop_find [OF c(3,2) assms(1)] c Cons by (simp add: strstr_def)
  moreover note find_sub_Some [of ys xs] find_sub_None [of ys xs]
  ultimately show ?thesis by (cases "find_sub ys xs") auto
qed

theorem strstr_first_witness:
  "\<exists>r. strstr ((\<lambda>_. 0)(100 := 0x7A, 101 := 0x65, 102 := 0x68, 200 := 0x65, 201 := 0x68)) 100 200 = Some r"
proof -
  let ?m = "(\<lambda>_. 0)(100 := 0x7A, 101 := 0x65, 102 := 0x68, 200 := 0x65, 201 := 0x68) :: mem"
  have "cstr ?m 100 [0x7A, 0x65, 0x68]" "cstr ?m 200 [0x65, 0x68]" by simp_all
  from strstr_first [OF this] show ?thesis by auto
qed

end
