(* ===== verification/Dwarf_Read.thy ===== *)
theory Dwarf_Read
  imports Cstring
begin

text \<open>
  The data readers at the head of \<^verbatim>\<open>kern/libdwarf_rw.c\<close>: fixed-size integers in either byte order, at an
  offset into a section (\<^verbatim>\<open>_dwarf_read_*\<close>) or through a moving pointer (\<^verbatim>\<open>_dwarf_decode_*\<close>), LEB128
  numbers, strings and blocks. Each returns its value with the new offset or pointer.

  The rest of the DWARF code calls the fixed-size readers through the function pointers \<^verbatim>\<open>dbg->read\<close>
  and \<^verbatim>\<open>dbg->decode\<close>. The locale \<open>byte_order\<close> is that interface; both byte orders interpret it.

  In C, shifting an \<^verbatim>\<open>int\<close> by 32 or more is undefined. \<open>shl32\<close> takes the count modulo 32, which is
  what the \<^verbatim>\<open>shl\<close> instruction of this target does; no theorem relies on it.
\<close>

section \<open>Definitions\<close>

type_synonym reader = "mem \<Rightarrow> u64 \<Rightarrow> u64 \<Rightarrow> i32 \<Rightarrow> u64 \<times> u64"
type_synonym decoder = "mem \<Rightarrow> u64 \<Rightarrow> i32 \<Rightarrow> u64 \<times> u64"

text \<open>The values the readers and decoders compute, each from its own function in the source.\<close>

definition lsb_value :: "mem \<Rightarrow> u64 \<Rightarrow> i32 \<Rightarrow> u64" where
  "lsb_value m src n =
     (let b = (\<lambda>i. ucast (m (src + i)) :: u64);
          ret = 0;
          ret = (if n = 8 then ret OR (push_bit 32 (b 4) OR push_bit 40 (b 5)) else ret);
          ret = (if n = 8 then ret OR (push_bit 48 (b 6) OR push_bit 56 (b 7)) else ret);
          ret = (if n = 8 \<or> n = 4 then ret OR (push_bit 16 (b 2) OR push_bit 24 (b 3)) else ret);
          ret = (if n = 8 \<or> n = 4 \<or> n = 2 then ret OR push_bit 8 (b 1) else ret)
      in ret OR b 0)"

definition dwarf_read_lsb :: reader where
  "dwarf_read_lsb m data off n =
     (if n = 8 \<or> n = 4 \<or> n = 2 \<or> n = 1 then (lsb_value m (data + off) n, off + scast n) else (0, off))"

definition decode_lsb_value :: "mem \<Rightarrow> u64 \<Rightarrow> i32 \<Rightarrow> u64" where
  "decode_lsb_value m src n =
     (let b = (\<lambda>i. ucast (m (src + i)) :: u64);
          ret = 0;
          ret = (if n = 8 then ret OR (push_bit 32 (b 4) OR push_bit 40 (b 5)) else ret);
          ret = (if n = 8 then ret OR (push_bit 48 (b 6) OR push_bit 56 (b 7)) else ret);
          ret = (if n = 8 \<or> n = 4 then ret OR (push_bit 16 (b 2) OR push_bit 24 (b 3)) else ret);
          ret = (if n = 8 \<or> n = 4 \<or> n = 2 then ret OR push_bit 8 (b 1) else ret)
      in ret OR b 0)"

definition dwarf_decode_lsb :: decoder where
  "dwarf_decode_lsb m data n =
     (if n = 8 \<or> n = 4 \<or> n = 2 \<or> n = 1 then (decode_lsb_value m data n, data + scast n) else (0, data))"

definition msb_value :: "mem \<Rightarrow> u64 \<Rightarrow> i32 \<Rightarrow> u64" where
  "msb_value m src n =
     (let b = (\<lambda>i. ucast (m (src + i)) :: u64) in
      if n = 1 then b 0
      else if n = 2 then b 1 OR push_bit 8 (b 0)
      else if n = 4 then
        (b 3 OR push_bit 8 (b 2)) OR (push_bit 16 (b 1) OR push_bit 24 (b 0))
      else
        (((b 7 OR push_bit 8 (b 6)) OR (push_bit 16 (b 5) OR push_bit 24 (b 4)))
           OR (push_bit 32 (b 3) OR push_bit 40 (b 2))) OR (push_bit 48 (b 1) OR push_bit 56 (b 0)))"

definition dwarf_read_msb :: reader where
  "dwarf_read_msb m data off n =
     (if n = 1 \<or> n = 2 \<or> n = 4 \<or> n = 8 then (msb_value m (data + off) n, off + scast n) else (0, off))"

definition decode_msb_value :: "mem \<Rightarrow> u64 \<Rightarrow> i32 \<Rightarrow> u64" where
  "decode_msb_value m src n =
     (let b = (\<lambda>i. ucast (m (src + i)) :: u64) in
      if n = 1 then b 0
      else if n = 2 then b 1 OR push_bit 8 (b 0)
      else if n = 4 then
        (b 3 OR push_bit 8 (b 2)) OR (push_bit 16 (b 1) OR push_bit 24 (b 0))
      else
        (((b 7 OR push_bit 8 (b 6)) OR (push_bit 16 (b 5) OR push_bit 24 (b 4)))
           OR (push_bit 32 (b 3) OR push_bit 40 (b 2))) OR (push_bit 48 (b 1) OR push_bit 56 (b 0)))"

definition dwarf_decode_msb :: decoder where
  "dwarf_decode_msb m data n =
     (if n = 1 \<or> n = 2 \<or> n = 4 \<or> n = 8 then (decode_msb_value m data n, data + scast n) else (0, data))"

definition shl32 :: "i32 \<Rightarrow> i32 \<Rightarrow> i32" where
  "shl32 x k = push_bit (unat k mod 32) x"

text \<open>The loop of the \<^verbatim>\<open>read\<close> versions counts \<^verbatim>\<open>*offsetp\<close>; that of the \<^verbatim>\<open>decode\<close> versions does not.\<close>

partial_function (option) read_leb_loop ::
    "mem \<Rightarrow> u64 \<Rightarrow> u64 \<Rightarrow> u64 \<Rightarrow> i32 \<Rightarrow> (u64 \<times> u64 \<times> i32 \<times> u8) option" where
  "read_leb_loop m src off ret shift =
     (let b = m src;
          ret = ret OR scast (shl32 (ucast b AND 0x7f) shift);
          off = off + 1;
          shift = shift + 7
      in if b AND 0x80 \<noteq> 0 then read_leb_loop m (src + 1) off ret shift
         else Some (ret, off, shift, b))"

partial_function (option) decode_leb_loop ::
    "mem \<Rightarrow> u64 \<Rightarrow> u64 \<Rightarrow> i32 \<Rightarrow> (u64 \<times> u64 \<times> i32 \<times> u8) option" where
  "decode_leb_loop m src ret shift =
     (let b = m src;
          ret = ret OR scast (shl32 (ucast b AND 0x7f) shift);
          shift = shift + 7
      in if b AND 0x80 \<noteq> 0 then decode_leb_loop m (src + 1) ret shift
         else Some (ret, src + 1, shift, b))"

definition sleb_sign :: "u64 \<Rightarrow> i32 \<Rightarrow> u8 \<Rightarrow> i64" where
  "sleb_sign ret shift b =
     (if shift <s 32 \<and> b AND 0x40 \<noteq> 0 then ret OR scast (shl32 (- 1) shift) else ret)"

definition dwarf_read_sleb128 :: "mem \<Rightarrow> u64 \<Rightarrow> u64 \<Rightarrow> (i64 \<times> u64) option" where
  "dwarf_read_sleb128 m data off =
     map_option (\<lambda>(ret, off, shift, b). (sleb_sign ret shift b, off))
       (read_leb_loop m (data + off) off 0 0)"

definition dwarf_read_uleb128 :: "mem \<Rightarrow> u64 \<Rightarrow> u64 \<Rightarrow> (u64 \<times> u64) option" where
  "dwarf_read_uleb128 m data off =
     map_option (\<lambda>(ret, off, shift, b). (ret, off)) (read_leb_loop m (data + off) off 0 0)"

definition dwarf_decode_sleb128 :: "mem \<Rightarrow> u64 \<Rightarrow> (i64 \<times> u64) option" where
  "dwarf_decode_sleb128 m dp =
     map_option (\<lambda>(ret, src, shift, b). (sleb_sign ret shift b, src)) (decode_leb_loop m dp 0 0)"

definition dwarf_decode_uleb128 :: "mem \<Rightarrow> u64 \<Rightarrow> (u64 \<times> u64) option" where
  "dwarf_decode_uleb128 m dp =
     map_option (\<lambda>(ret, src, shift, b). (ret, src)) (decode_leb_loop m dp 0 0)"

function read_string_loop :: "mem \<Rightarrow> u64 \<Rightarrow> u64 \<Rightarrow> u64 \<Rightarrow> u64 \<times> u64" where
  "read_string_loop m src sz off =
     (if m src \<noteq> 0 \<and> off < sz then read_string_loop m (src + 1) sz (off + 1) else (src, off))"
  by pat_completeness auto
termination
  by (relation "measure (\<lambda>(m, src, sz, off). unat sz - unat off)")
    (auto simp: word_less_nat_alt unat_Suc_less)

definition dwarf_read_string :: "mem \<Rightarrow> u64 \<Rightarrow> u64 \<Rightarrow> u64 \<Rightarrow> u64 \<times> u64" where
  "dwarf_read_string m data sz off =
     (let ret = data + off; (src, off) = read_string_loop m ret sz off
      in (ret, if m src = 0 \<and> off < sz then off + 1 else off))"

definition dwarf_read_block :: "u64 \<Rightarrow> u64 \<Rightarrow> u64 \<Rightarrow> u64 \<times> u64" where
  "dwarf_read_block data off len = (data + off, off + len)"

section \<open>Byte orders as an interface\<close>

fun le_val :: "u8 list \<Rightarrow> nat" where
  "le_val [] = 0"
| "le_val (b # bs) = unat b + 256 * le_val bs"

definition read_sizes :: "i32 set" where
  "read_sizes = {1, 2, 4, 8}"

text \<open>
  What the callers of \<^verbatim>\<open>dbg->read\<close> and \<^verbatim>\<open>dbg->decode\<close> rely on: the four supported sizes yield
  the number their bytes stand for and advance by that size; any other size yields 0 and
  does not advance; \<^verbatim>\<open>decode\<close> at a pointer is \<^verbatim>\<open>read\<close> at offset 0 of it.
\<close>

locale byte_order =
  fixes rd :: reader and dec :: decoder and val :: "u8 list \<Rightarrow> nat"
  assumes rd_size: "n \<in> read_sizes \<Longrightarrow>
      rd m data off n = (of_nat (val (bytes m (data + off) (unat n))), off + scast n)"
    and rd_other: "n \<notin> read_sizes \<Longrightarrow> rd m data off n = (0, off)"
    and dec_rd: "dec m p n = (fst (rd m p 0 n), p + snd (rd m p 0 n))"
    and val_less: "val bs < 256 ^ length bs"
begin

lemma rd_next: "snd (rd m data off n) = (if n \<in> read_sizes then off + scast n else off)"
  by (simp add: rd_size rd_other)

lemma rd_shift: "fst (rd m data off n) = fst (rd m (data + off) 0 n)"
  by (cases "n \<in> read_sizes") (simp_all add: rd_size rd_other)

lemma dec_eq_rd: "dec m (data + off) n = (fst (rd m data off n), data + snd (rd m data off n))"
  by (simp add: dec_rd rd_next rd_shift [of m data off] add.assoc)

lemma rd_local:
  assumes "bytes m (data + off) (unat n) = bytes m' (data + off) (unat n)"
  shows "rd m data off n = rd m' data off n"
  using assms by (cases "n \<in> read_sizes") (simp_all add: rd_size rd_other)

lemma rd_less: "n \<in> read_sizes \<Longrightarrow> unat (fst (rd m data off n)) < 256 ^ unat n"
proof -
  assume n: "n \<in> read_sizes"
  let ?v = "val (bytes m (data + off) (unat n))"
  have "?v < 256 ^ unat n" using val_less [of "bytes m (data + off) (unat n)"] by simp
  moreover have "unat (of_nat ?v :: u64) \<le> ?v" by (simp add: unat_of_nat)
  ultimately show ?thesis using n by (simp add: rd_size)
qed

end

lemma le_val_less: "le_val bs < 256 ^ length bs"
proof (induction bs)
  case (Cons b bs)
  have "unat b < 2 ^ LENGTH(8)" by (rule unsigned_less)
  with Cons show ?case by simp
qed simp

lemma of_nat_le_val_Cons:
  "(of_nat (le_val (b # bs)) :: u64) = ucast b OR push_bit 8 (of_nat (le_val bs))"
proof -
  have "(ucast b :: u64) OR push_bit 8 (of_nat (le_val bs)) = ucast b + push_bit 8 (of_nat (le_val bs))"
    by (rule disjunctive_add [symmetric]) (auto simp: bit_simps dest: bit_imp_le_length)
  then show ?thesis by (simp add: push_bit_eq_mult)
qed

lemma bytes_sizes:
  "bytes m s 1 = [m s]"
  "bytes m s 2 = [m s, m (s + 1)]"
  "bytes m s 4 = [m s, m (s + 1), m (s + 2), m (s + 3)]"
  "bytes m s 8 = [m s, m (s + 1), m (s + 2), m (s + 3), m (s + 4), m (s + 5), m (s + 6), m (s + 7)]"
  by (simp_all add: eval_nat_numeral add.assoc)

lemma read_sizes_cases:
  assumes "n \<in> read_sizes"
  obtains "n = 1" | "n = 2" | "n = 4" | "n = 8"
  using assms by (auto simp: read_sizes_def)

lemmas val_nest = of_nat_le_val_Cons push_bit_or push_bit_push_bit bytes_sizes
  or.assoc or.commute or.left_commute

lemma decode_value_eq: "decode_lsb_value m src n = lsb_value m src n" "decode_msb_value m src n = msb_value m src n"
  by (simp_all add: decode_lsb_value_def lsb_value_def decode_msb_value_def msb_value_def)

lemma lsb_value_val:
  assumes "n \<in> read_sizes"
  shows "lsb_value m src n = of_nat (le_val (bytes m src (unat n)))"
  using assms
  by (cases rule: read_sizes_cases)
    (simp_all add: lsb_value_def bytes_sizes(1) [unfolded One_nat_def] val_nest del: le_val.simps(2))

lemma msb_value_val:
  assumes "n \<in> read_sizes"
  shows "msb_value m src n = of_nat (le_val (rev (bytes m src (unat n))))"
  using assms
  by (cases rule: read_sizes_cases)
    (simp_all add: msb_value_def bytes_sizes(1) [unfolded One_nat_def] val_nest del: le_val.simps(2))

interpretation lsb: byte_order dwarf_read_lsb dwarf_decode_lsb le_val
proof
  show "dwarf_read_lsb m data off n
      = (of_nat (le_val (bytes m (data + off) (unat n))), off + scast n)" if "n \<in> read_sizes"
    for m data off n
    using that lsb_value_val [OF that] by (auto simp: dwarf_read_lsb_def read_sizes_def)
qed (auto simp: dwarf_read_lsb_def dwarf_decode_lsb_def decode_value_eq read_sizes_def intro: le_val_less)

interpretation msb: byte_order dwarf_read_msb dwarf_decode_msb "\<lambda>bs. le_val (rev bs)"
proof
  show "dwarf_read_msb m data off n
      = (of_nat (le_val (rev (bytes m (data + off) (unat n)))), off + scast n)" if "n \<in> read_sizes"
    for m data off n
    using that msb_value_val [OF that] by (auto simp: dwarf_read_msb_def read_sizes_def)
  show "le_val (rev bs) < 256 ^ length bs" for bs
    using le_val_less [of "rev bs"] by simp
qed (auto simp: dwarf_read_msb_def dwarf_decode_msb_def decode_value_eq read_sizes_def)

section \<open>LEB128\<close>

text \<open>
  The encodings of the DWARF standard, least significant group of seven bits first, with the
  high bit of a byte set when more follow.
\<close>

function sleb_encode :: "int \<Rightarrow> u8 list" where
  "sleb_encode n =
     (if - 64 \<le> n \<and> n < 64 then [of_int (n mod 128)]
      else of_int (n mod 128 + 128) # sleb_encode (n div 128))"
  by pat_completeness auto
termination
  by (relation "measure (\<lambda>n. nat \<bar>n\<bar>)") auto

fun uleb_encode :: "nat \<Rightarrow> u8 list" where
  "uleb_encode n =
     (if n < 128 then [of_nat n] else of_nat (n mod 128 + 128) # uleb_encode (n div 128))"

declare sleb_encode.simps [simp del] uleb_encode.simps [simp del]

lemma of_int_or_shift:
  assumes "0 \<le> r" "r < 2 ^ k"
  shows "(of_int r OR of_int (a * 2 ^ k) :: u64) = of_int (r + a * 2 ^ k)"
proof -
  have "r = take_bit k r" using assms by (simp add: take_bit_int_eq_self)
  then have "\<not> bit r i \<or> \<not> bit (push_bit k a) i" for i
    by (metis bit_push_bit_iff_int bit_take_bit_iff not_less)
  then have "r + push_bit k a = r OR push_bit k a" by (intro disjunctive_add) blast
  then show ?thesis by (simp add: push_bit_eq_mult of_int_or_eq [symmetric] del: of_int_add of_int_mult)
qed

lemma scast_of_int:
  assumes "- (2 ^ 31) \<le> v" "v < 2 ^ 31"
  shows "(scast (of_int v :: i32) :: u64) = of_int v"
  using assms by (simp add: signed_of_int signed_take_bit_int_eq_self)

lemma shl32_of_int: "k < 32 \<Longrightarrow> shl32 (of_int x) (of_nat k) = of_int (x * 2 ^ k)"
  by (simp add: shl32_def push_bit_eq_mult unat_of_nat mult.commute)

lemma byte_fields:
  fixes b :: int
  assumes "0 \<le> b" "b < 128"
  shows "(ucast (of_int b :: u8) AND 0x7f :: i32) = of_int b"
    and "(ucast (of_int (b + 128) :: u8) AND 0x7f :: i32) = of_int b"
    and "(of_int b :: u8) AND 0x80 = 0" and "(of_int (b + 128) :: u8) AND 0x80 \<noteq> 0"
    and "(of_int b :: u8) AND 0x40 \<noteq> 0 \<longleftrightarrow> 64 \<le> b"
proof -
  have m: "(x :: int) AND 127 = x mod 128" for x
    using take_bit_eq_mask [of 7 x] by (simp add: take_bit_eq_mod mask_eq_exp_minus_1)
  have u: "(ucast (of_int x :: u8) AND 0x7f :: i32) = of_int (x AND 127)" if "0 \<le> x" "x < 256" for x
    using that by (simp add: unsigned_of_int take_bit_int_eq_self of_int_and_eq)
  show "(ucast (of_int b :: u8) AND 0x7f :: i32) = of_int b"
    and "(ucast (of_int (b + 128) :: u8) AND 0x7f :: i32) = of_int b"
    using assms u [of b] u [of "b + 128"] by (simp_all add: m)
  have t: "(of_int x :: u8) AND 2 ^ k = 0 \<longleftrightarrow> even (x div 2 ^ k)" if "k < 8" for x k
    using that by (simp add: and_exp_eq_0_iff_not_bit bit_word_of_int_iff bit_iff_odd [of x])
  show "(of_int b :: u8) AND 0x80 = 0" and "(of_int (b + 128) :: u8) AND 0x80 \<noteq> 0"
    and "(of_int b :: u8) AND 0x40 \<noteq> 0 \<longleftrightarrow> 64 \<le> b"
    using assms t [of 7 b] t [of 7 "b + 128"] t [of 6 b] by (auto simp: div_add_self2) presburger+
qed

text \<open>One round of the loop on an encoded group.\<close>

lemma decode_leb_more:
  assumes "m p = of_int (n mod 128 + 128)" "k + 7 < 32" "0 \<le> r" "r < 2 ^ k"
  shows "decode_leb_loop m p (of_int r) (of_nat k)
    = decode_leb_loop m (p + 1) (of_int (r + n mod 128 * 2 ^ k)) (of_nat (k + 7))"
proof -
  have b: "0 \<le> n mod 128" "n mod 128 < 128" by simp_all
  have "n mod 128 * 2 ^ k < 128 * 2 ^ k" using b by simp
  also have "(128 :: int) * 2 ^ k = 2 ^ (k + 7)" by (simp add: power_add)
  also have "\<dots> \<le> 2 ^ 31" using assms(2) by (intro power_increasing) auto
  finally have "n mod 128 * 2 ^ k < 2 ^ 31" .
  moreover have "- (2 ^ 31) \<le> n mod 128 * 2 ^ k"
    by (rule order_trans [of _ 0]) simp_all
  moreover have "shl32 (of_int (n mod 128)) (of_nat k) = of_int (n mod 128 * 2 ^ k)"
    using assms(2) by (intro shl32_of_int) simp
  ultimately have "(scast (shl32 (of_int (n mod 128)) (of_nat k)) :: u64) = of_int (n mod 128 * 2 ^ k)"
    by (metis scast_of_int)
  then show ?thesis
    using byte_fields [OF b] of_int_or_shift [OF assms(3,4), of "n mod 128"] assms(1)
    by (subst decode_leb_loop.simps) (simp add: Let_def)
qed

lemma decode_leb_last:
  assumes "m p = of_int b" "0 \<le> b" "b < 128"
  shows "decode_leb_loop m p ret shift
    = Some (ret OR scast (shl32 (of_int b) shift), p + 1, shift + 7, of_int b)"
  using assms byte_fields [OF assms(2,3)] by (subst decode_leb_loop.simps) (simp add: Let_def)

lemma group_bound:
  fixes r n :: int
  assumes "0 \<le> r" "r < 2 ^ k"
  shows "0 \<le> r + n mod 128 * 2 ^ k" "r + n mod 128 * 2 ^ k < 2 ^ (k + 7)"
proof -
  have "n mod 128 * 2 ^ k \<le> 127 * 2 ^ k" by (intro mult_right_mono) auto
  moreover have "0 \<le> n mod 128 * 2 ^ k" by simp
  moreover have "(2 :: int) ^ (k + 7) = 128 * 2 ^ k" by (simp add: power_add)
  ultimately show "0 \<le> r + n mod 128 * 2 ^ k" "r + n mod 128 * 2 ^ k < 2 ^ (k + 7)"
    using assms by linarith+
qed

lemma sleb_last_low:
  assumes n: "- 64 \<le> n" "n < 64" and r: "0 \<le> r" "r < 2 ^ k" and k: "k \<in> {0, 7, 14, 21}"
  shows "sleb_sign (of_int r OR scast (shl32 (of_int (n mod 128)) (of_nat k))) (of_nat k + 7)
      (of_int (n mod 128)) = of_int (r + n * 2 ^ k)"
proof -
  have b: "0 \<le> n mod 128" "n mod 128 < 128" by simp_all
  have k32: "k + 7 < 32" using k by auto
  have P: "(2 :: int) ^ (k + 7) = 128 * 2 ^ k" by (simp add: power_add)
  have "(128 :: int) * 2 ^ k \<le> 2 ^ 31" using k by auto
  moreover have "n mod 128 * 2 ^ k < 128 * 2 ^ k" using b(2) by simp
  moreover have "0 \<le> n mod 128 * 2 ^ k" by simp
  ultimately have lt: "n mod 128 * 2 ^ k < 2 ^ 31" "- (2 ^ 31) \<le> n mod 128 * 2 ^ k"
    by linarith+
  have ret: "(of_int r OR scast (shl32 (of_int (n mod 128)) (of_nat k)) :: u64)
      = of_int (r + n mod 128 * 2 ^ k)"
    using shl32_of_int [of k "n mod 128"] scast_of_int [OF lt(2,1)] of_int_or_shift [OF r, of "n mod 128"]
      k32 by (simp del: of_int_mult of_int_add)
  note r' = group_bound [OF r, of n]
  have sh: "of_nat k + 7 <s (32 :: i32)" using k by (auto simp: word_sless_alt)
  have "- (2 ^ 31) \<le> (- 1 :: int) * 2 ^ (k + 7)" "(- 1 :: int) * 2 ^ (k + 7) < 2 ^ 31"
    using k by auto
  then have "(scast (of_int (- 1 * 2 ^ (k + 7)) :: i32) :: u64) = of_int (- 1 * 2 ^ (k + 7))"
    by (rule scast_of_int)
  moreover have "shl32 (- 1) (of_nat k + 7) = of_int (- 1 * 2 ^ (k + 7))"
    using shl32_of_int [OF k32, of "- 1"] by (simp add: add.commute)
  ultimately have ext: "(scast (shl32 (- 1) (of_nat k + 7)) :: u64) = of_int (- 1 * 2 ^ (k + 7))"
    by simp
  have "64 \<le> n mod 128 \<longleftrightarrow> n < 0" and neg: "n < 0 \<Longrightarrow> n mod 128 = n + 128"
    and pos: "\<not> n < 0 \<Longrightarrow> n mod 128 = n" using n by presburger+
  then show ?thesis
    using byte_fields(5) [OF b] of_int_or_shift [OF r', of "- 1"] sh ext P
    unfolding sleb_sign_def ret by (auto simp: algebra_simps)
qed

lemma sleb_last_28:
  assumes n: "- (2 ^ 31) \<le> n * 2 ^ 28" "n * 2 ^ 28 < 2 ^ 31" and r: "0 \<le> r" "r < 2 ^ 28"
  shows "sleb_sign (of_int r OR scast (shl32 (of_int (n mod 128)) (of_nat 28))) (of_nat 28 + 7) b
    = of_int (r + n * 2 ^ 28)"
proof -
  have "(of_int (n mod 128 * 2 ^ 28) :: i32) = of_int (n * 2 ^ 28) - of_int (n div 128) * of_int (2 ^ 35)"
    by (simp add: minus_div_mult_eq_mod [symmetric] algebra_simps)
  also have "(of_int (2 ^ 35) :: i32) = 0" by simp
  finally have "shl32 (of_int (n mod 128)) (of_nat 28) = of_int (n * 2 ^ 28)"
    using shl32_of_int [of 28 "n mod 128"] by simp
  then show ?thesis
    using scast_of_int [OF n] of_int_or_shift [OF r, of n] by (simp add: sleb_sign_def word_sless_alt)
qed

lemma decode_sleb_loop:
  "bytes m p (length (sleb_encode n)) = sleb_encode n \<Longrightarrow> 0 \<le> r \<Longrightarrow> r < 2 ^ k \<Longrightarrow>
   k \<in> {0, 7, 14, 21, 28} \<Longrightarrow> - (2 ^ 31) \<le> n * 2 ^ k \<Longrightarrow> n * 2 ^ k < 2 ^ 31 \<Longrightarrow>
   map_option (\<lambda>(ret, src, shift, b). (sleb_sign ret shift b, src))
     (decode_leb_loop m p (of_int r) (of_nat k))
   = Some (of_int (r + n * 2 ^ k), p + of_nat (length (sleb_encode n)))"
proof (induction n arbitrary: p r k rule: sleb_encode.induct)
  case (1 n)
  have b: "0 \<le> n mod 128" "n mod 128 < 128" by simp_all
  show ?case
  proof (cases "- 64 \<le> n \<and> n < 64")
    case True
    then have enc: "sleb_encode n = [of_int (n mod 128)]" by (simp add: sleb_encode.simps [of n])
    with "1.prems"(1) have mp: "m p = of_int (n mod 128)" by simp
    have "sleb_sign (of_int r OR scast (shl32 (of_int (n mod 128)) (of_nat k))) (of_nat k + 7)
        (of_int (n mod 128)) = of_int (r + n * 2 ^ k)"
    proof (cases "k = 28")
      case True
      show ?thesis using "1.prems"(2,3,5,6) unfolding True by (intro sleb_last_28)
    next
      case False
      with True "1.prems" show ?thesis by (intro sleb_last_low) auto
    qed
    with decode_leb_last [of m p "n mod 128", OF mp b] enc show ?thesis by simp
  next
    case False
    let ?q = "n div 128"
    have enc: "sleb_encode n = of_int (n mod 128 + 128) # sleb_encode ?q"
      using False by (simp add: sleb_encode.simps [of n] if_not_P)
    have k: "k \<in> {0, 7, 14, 21}" using "1.prems"(4,5,6) False by auto
    have mp: "m p = of_int (n mod 128 + 128)"
      and bs: "bytes m (p + 1) (length (sleb_encode ?q)) = sleb_encode ?q"
      using "1.prems"(1) enc by simp_all
    let ?r = "r + n mod 128 * 2 ^ k"
    have P: "(2 :: int) ^ (k + 7) = 128 * 2 ^ k" by (simp add: power_add)
    note r = group_bound [OF "1.prems"(2,3), of n]
    have q: "?r + ?q * 2 ^ (k + 7) = r + n * 2 ^ k"
      unfolding P by (simp add: minus_mod_eq_mult_div [symmetric] algebra_simps)
    have rng: "- (2 ^ 31) \<le> ?q * 2 ^ (k + 7)" "?q * 2 ^ (k + 7) < 2 ^ 31"
      using k "1.prems"(5,6) by auto
    have step: "decode_leb_loop m p (of_int r) (of_nat k)
        = decode_leb_loop m (p + 1) (of_int ?r) (of_nat (k + 7))"
      using k "1.prems"(2,3) by (intro decode_leb_more [of m p n, OF mp]) auto
    have k7: "k + 7 \<in> {0, 7, 14, 21, 28}" using k by auto
    show ?thesis
      unfolding step "1.IH" [OF False bs r k7 rng] q by (simp add: enc add.assoc)
  qed
qed

lemma decode_uleb_loop:
  "bytes m p (length (uleb_encode n)) = uleb_encode n \<Longrightarrow> 0 \<le> r \<Longrightarrow> r < 2 ^ k \<Longrightarrow>
   k \<in> {0, 7, 14, 21, 28} \<Longrightarrow> n * 2 ^ k < 2 ^ 31 \<Longrightarrow>
   map_option (\<lambda>(ret, src, shift, b). (ret, src)) (decode_leb_loop m p (of_int r) (of_nat k))
   = Some (of_int (r + int n * 2 ^ k), p + of_nat (length (uleb_encode n)))"
proof (induction n arbitrary: p r k rule: uleb_encode.induct)
  case (1 n)
  have "int (n * 2 ^ k) < int (2 ^ 31)" using "1.prems"(5) by (simp only: of_nat_less_iff)
  then have nk: "int n * 2 ^ k < 2 ^ 31" by simp
  show ?case
  proof (cases "n < 128")
    case True
    then have enc: "uleb_encode n = [of_nat n]" by (simp add: uleb_encode.simps [of n])
    with "1.prems"(1) have mp: "m p = of_int (int n)" by simp
    have "(of_int r OR scast (shl32 (of_int (int n)) (of_nat k)) :: u64) = of_int (r + int n * 2 ^ k)"
    proof -
      have "- (2 ^ 31) \<le> int n * 2 ^ k" by (rule order_trans [of _ 0]) auto
      moreover have "shl32 (of_int (int n)) (of_nat k) = of_int (int n * 2 ^ k)"
        using "1.prems"(4) by (intro shl32_of_int) auto
      ultimately show ?thesis
        using nk of_int_or_shift [OF "1.prems"(2,3), of "int n"] by (metis scast_of_int)
    qed
    with decode_leb_last [of m p "int n", OF mp, of "of_int r" "of_nat k"] enc True show ?thesis by simp
  next
    case False
    let ?q = "n div 128" and ?r = "r + int n mod 128 * 2 ^ k"
    have enc: "uleb_encode n = of_nat (n mod 128 + 128) # uleb_encode ?q"
      using False by (simp add: uleb_encode.simps [of n])
    have k: "k \<in> {0, 7, 14, 21}" using "1.prems"(4,5) False by auto
    have mp: "m p = of_int (int n mod 128 + 128)"
      and bs: "bytes m (p + 1) (length (uleb_encode ?q)) = uleb_encode ?q"
      using "1.prems"(1) enc by (simp_all add: zmod_int [symmetric, of n 128, simplified])
    note r = group_bound [OF "1.prems"(2,3), of "int n"]
    have "int n mod 128 * 2 ^ k + int ?q * 2 ^ (k + 7) = (int n mod 128 + 128 * int ?q) * 2 ^ k"
      by (simp add: power_add algebra_simps)
    also have "int n mod 128 + 128 * int ?q = int n" by (simp add: zdiv_int)
    finally have q: "?r + int ?q * 2 ^ (k + 7) = r + int n * 2 ^ k" by simp
    have rng: "?q * 2 ^ (k + 7) < 2 ^ 31" using k "1.prems"(5) by auto
    have step: "decode_leb_loop m p (of_int r) (of_nat k)
        = decode_leb_loop m (p + 1) (of_int ?r) (of_nat (k + 7))"
      using k "1.prems"(2,3) by (intro decode_leb_more [of m p "int n", OF mp]) auto
    have k7: "k + 7 \<in> {0, 7, 14, 21, 28}" using k by auto
    show ?thesis
      unfolding step "1.IH" [OF False bs r k7 rng] q by (simp add: enc add.assoc)
  qed
qed

text \<open>The \<^verbatim>\<open>read\<close> loop is the \<^verbatim>\<open>decode\<close> loop with the offset moving in step with the pointer.\<close>

lemma read_leb_decode_Some:
  assumes ret: "decode_leb_loop m src ret shift = Some r"
  shows "read_leb_loop m src off ret shift
    = Some (case r of (v, p, k, b) \<Rightarrow> (v, off + (p - src), k, b))"
proof -
  let ?P = "\<lambda>m src ret shift r. \<forall>off. read_leb_loop m src off ret shift
      = Some (case r of (v, p, k, b) \<Rightarrow> (v, off + (p - src), k, b))"
  have "?P m src ret shift r"
  proof (rule decode_leb_loop.raw_induct [where P = ?P, OF _ ret])
    fix f :: "mem \<Rightarrow> u64 \<Rightarrow> u64 \<Rightarrow> i32 \<Rightarrow> (u64 \<times> u64 \<times> i32 \<times> u8) option" and m src ret shift r
    assume IH: "\<And>m src ret shift r. f m src ret shift = Some r \<Longrightarrow> ?P m src ret shift r"
      and eq: "(let b = m src; ret = ret OR scast (shl32 (ucast b AND 0x7f) shift); shift = shift + 7
        in if b AND 0x80 \<noteq> 0 then f m (src + 1) ret shift else Some (ret, src + 1, shift, b)) = Some r"
    show "?P m src ret shift r"
    proof
      fix off
      show "read_leb_loop m src off ret shift = Some (case r of (v, p, k, b) \<Rightarrow> (v, off + (p - src), k, b))"
      proof (cases "m src AND 0x80 = 0")
        case True
        with eq show ?thesis by (subst read_leb_loop.simps) (auto simp: Let_def)
      next
        case False
        with eq have "?P m (src + 1) (ret OR scast (shl32 (ucast (m src) AND 0x7f) shift)) (shift + 7) r"
          by (intro IH) (simp add: Let_def)
        with False show ?thesis
          by (subst read_leb_loop.simps) (auto simp: Let_def split: prod.splits)
      qed
    qed
  qed
  then show ?thesis by blast
qed

lemma decode_leb_read_Some:
  assumes ret: "read_leb_loop m src off ret shift = Some r"
  shows "\<exists>r'. decode_leb_loop m src ret shift = Some r'"
proof (rule read_leb_loop.raw_induct
    [where P = "\<lambda>m src off ret shift r. \<exists>r'. decode_leb_loop m src ret shift = Some r'", OF _ ret])
  fix f :: "mem \<Rightarrow> u64 \<Rightarrow> u64 \<Rightarrow> u64 \<Rightarrow> i32 \<Rightarrow> (u64 \<times> u64 \<times> i32 \<times> u8) option" and m src off ret shift r
  assume IH: "\<And>m src off ret shift r. f m src off ret shift = Some r \<Longrightarrow>
      \<exists>r'. decode_leb_loop m src ret shift = Some r'"
    and eq: "(let b = m src; ret = ret OR scast (shl32 (ucast b AND 0x7f) shift);
          off = off + 1; shift = shift + 7
        in if b AND 0x80 \<noteq> 0 then f m (src + 1) off ret shift else Some (ret, off, shift, b)) = Some r"
  show "\<exists>r'. decode_leb_loop m src ret shift = Some r'"
  proof (cases "m src AND 0x80 = 0")
    case True
    then show ?thesis by (subst decode_leb_loop.simps) (simp add: Let_def)
  next
    case False
    with eq IH [of m "src + 1" "off + 1" "ret OR scast (shl32 (ucast (m src) AND 0x7f) shift)" "shift + 7" r]
    show ?thesis by (subst decode_leb_loop.simps) (simp add: Let_def)
  qed
qed

lemma read_leb_decode:
  "read_leb_loop m src off ret shift =
   map_option (\<lambda>(v, p, k, b). (v, off + (p - src), k, b)) (decode_leb_loop m src ret shift)"
proof (cases "decode_leb_loop m src ret shift")
  case None
  then have "read_leb_loop m src off ret shift = None"
    by (cases "read_leb_loop m src off ret shift") (auto dest: decode_leb_read_Some)
  with None show ?thesis by simp
next
  case (Some r)
  then show ?thesis using read_leb_decode_Some [OF Some] by (simp add: case_prod_unfold)
qed

section \<open>Strings in a section\<close>

declare read_string_loop.simps [simp del]

lemma read_string_loop_bound: "off \<le> sz \<Longrightarrow> snd (read_string_loop m src sz off) \<le> sz"
proof (induction m src sz off rule: read_string_loop.induct)
  case (1 m src sz off)
  show ?case
  proof (cases "m src \<noteq> 0 \<and> off < sz")
    case True
    then have "off + 1 \<le> sz" using inc_le by blast
    with 1 True show ?thesis by (simp add: read_string_loop.simps [of m src])
  next
    case False
    with 1 show ?thesis by (auto simp: read_string_loop.simps [of m src])
  qed
qed

lemma read_string_loop_cstr:
  "cstr m src xs \<Longrightarrow> unat off + length xs < unat sz \<Longrightarrow>
   read_string_loop m src sz off = (src + of_nat (length xs), off + of_nat (length xs))"
proof (induction xs arbitrary: src off)
  case Nil
  then show ?case by (simp add: read_string_loop.simps [of m src])
next
  case (Cons x xs)
  then have lt: "off < sz" by (simp add: word_less_nat_alt)
  then have "unat (off + 1) = Suc (unat off)" by (simp add: word_less_nat_alt unat_Suc_less)
  with Cons lt show ?case by (simp add: read_string_loop.simps [of m src] add.assoc)
qed

section \<open>Properties\<close>

text \<open>
  The fixed-size readers, in both byte orders: for 1, 2, 4 and 8 bytes the result is the
  number the bytes encode in that order (the two orders are each other's mirror image) and the offset
  advances by the size; for any other size the result is 0 and the offset stays.
\<close>

theorem read_fixed_sizes:
  "dwarf_read_lsb m data off n =
     (if n \<in> read_sizes then (of_nat (le_val (bytes m (data + off) (unat n))), off + scast n) else (0, off))
   \<and> dwarf_read_msb m data off n =
     (if n \<in> read_sizes then (of_nat (le_val (rev (bytes m (data + off) (unat n)))), off + scast n) else (0, off))"
  by (simp add: lsb.rd_size lsb.rd_other msb.rd_size msb.rd_other)

text \<open>
  C32. The \<^verbatim>\<open>decode\<close> readers, which move a pointer, agree with the \<^verbatim>\<open>read\<close> readers, which move an
  offset, for both byte orders and for both LEB128 forms, including on whether they return.
\<close>

theorem decode_agrees_with_read:
  "dwarf_decode_lsb m (data + off) n = (fst (dwarf_read_lsb m data off n), data + snd (dwarf_read_lsb m data off n))
   \<and> dwarf_decode_msb m (data + off) n = (fst (dwarf_read_msb m data off n), data + snd (dwarf_read_msb m data off n))
   \<and> dwarf_decode_uleb128 m (data + off) = map_option (\<lambda>(v, off). (v, data + off)) (dwarf_read_uleb128 m data off)
   \<and> dwarf_decode_sleb128 m (data + off) = map_option (\<lambda>(v, off). (v, data + off)) (dwarf_read_sleb128 m data off)"
proof -
  have "data + (off + (p - (data + off))) = p" for p by simp
  then show ?thesis
    by (simp add: lsb.dec_eq_rd msb.dec_eq_rd dwarf_decode_uleb128_def dwarf_read_uleb128_def
        dwarf_decode_sleb128_def dwarf_read_sleb128_def read_leb_decode option.map_comp
        comp_def case_prod_unfold)
qed

text \<open>
  C31. Unsigned LEB128 round trip: the decoder, started on the standard encoding of any number
  below \<open>2 ^ 31\<close>, returns that number and a pointer just past the encoding.
\<close>

theorem uleb128_roundtrip:
  assumes "bytes m p (length (uleb_encode n)) = uleb_encode n" "n < 2 ^ 31"
  shows "dwarf_decode_uleb128 m p = Some (of_nat n, p + of_nat (length (uleb_encode n)))"
  using decode_uleb_loop [OF assms(1), of 0 0] assms(2) by (simp add: dwarf_decode_uleb128_def)

theorem uleb128_roundtrip_witness:
  "uleb_encode 300 = [0xAC, 0x02] \<and>
   dwarf_decode_uleb128 ((\<lambda>_. 0)(64 := 0xAC, 65 := 0x02)) 64 = Some (300, 66)"
proof -
  have e: "uleb_encode 300 = [0xAC, 0x02]" by (simp add: uleb_encode.simps)
  have "bytes ((\<lambda>_. 0)(64 := 0xAC, 65 := 0x02)) 64 (length (uleb_encode 300)) = uleb_encode 300"
    unfolding e by simp
  from uleb128_roundtrip [OF this] e show ?thesis by simp
qed

text \<open>
  C30. Signed LEB128 round trip: every 32-bit signed number is decoded from its standard encoding,
  sign included, with the pointer left just past it.
\<close>

theorem sleb128_roundtrip:
  assumes "bytes m p (length (sleb_encode n)) = sleb_encode n" "- (2 ^ 31) \<le> n" "n < 2 ^ 31"
  shows "dwarf_decode_sleb128 m p = Some (of_int n, p + of_nat (length (sleb_encode n)))"
  using decode_sleb_loop [OF assms(1), of 0 0] assms(2,3) by (simp add: dwarf_decode_sleb128_def)

theorem sleb128_roundtrip_witness:
  "sleb_encode (- 129) = [0xFF, 0x7E] \<and>
   dwarf_decode_sleb128 ((\<lambda>_. 0)(64 := 0xFF, 65 := 0x7E)) 64 = Some (- 129, 66)"
proof -
  have e: "sleb_encode (- 129) = [0xFF, 0x7E]" by (simp add: sleb_encode.simps)
  have "bytes ((\<lambda>_. 0)(64 := 0xFF, 65 := 0x7E)) 64 (length (sleb_encode (- 129))) = sleb_encode (- 129)"
    unfolding e by simp
  from sleb128_roundtrip [OF this] e show ?thesis by simp
qed

text \<open>
  The bound of the unsigned round trip is sharp: the group of bits 28 to 34 is shifted as
  an \<^verbatim>\<open>int\<close> and sign-extended, so the encoding of \<open>2 ^ 31\<close> decodes to \<open>2 ^ 64 - 2 ^ 31\<close>.
\<close>

theorem uleb128_sign_extends:
  "uleb_encode (2 ^ 31) = [0x80, 0x80, 0x80, 0x80, 0x08]
   \<and> dwarf_decode_uleb128 ((\<lambda>_. 0)(0 := 0x80, 1 := 0x80, 2 := 0x80, 3 := 0x80, 4 := 0x08)) 0
     = Some (0xFFFFFFFF80000000, 5)"
  by (simp add: uleb_encode.simps dwarf_decode_uleb128_def decode_leb_loop.simps shl32_def)

text \<open>
  \<^verbatim>\<open>_dwarf_read_string\<close> never moves the offset past the section, and on a string that
  ends inside the section returns its address and the offset just past its NUL.
\<close>

theorem read_string_in_section:
  assumes "off \<le> sz"
  shows "snd (dwarf_read_string m data sz off) \<le> sz
    \<and> (\<forall>xs. cstr m (data + off) xs \<and> unat off + length xs < unat sz \<longrightarrow>
         dwarf_read_string m data sz off = (data + off, off + of_nat (Suc (length xs))))"
proof (intro conjI allI impI)
  have "o' < sz \<Longrightarrow> o' + 1 \<le> sz" for o' by (rule inc_le)
  then show "snd (dwarf_read_string m data sz off) \<le> sz"
    using read_string_loop_bound [OF assms, of m "data + off"]
    by (auto simp: dwarf_read_string_def Let_def split: prod.splits)
next
  fix xs assume x: "cstr m (data + off) xs \<and> unat off + length xs < unat sz"
  have "off + of_nat (length xs) < sz"
    using x unat_lt64 [of sz] unat_add_less [of off "length xs"] by (simp add: word_less_nat_alt)
  with x read_string_loop_cstr [of m "data + off" xs off sz] cstr_end [of m "data + off" xs]
  show "dwarf_read_string m data sz off = (data + off, off + of_nat (Suc (length xs)))"
    by (simp add: dwarf_read_string_def add.commute add.left_commute)
qed

theorem read_string_in_section_witness:
  "(2 :: u64) \<le> 8 \<and> dwarf_read_string ((\<lambda>_. 0)(102 := 0x61)) 100 8 2 = (102, 4)"
proof -
  have "(2 :: u64) \<le> 8" by simp
  from read_string_in_section [OF this, of "(\<lambda>_. 0)(102 := 0x61)" 100]
  have "cstr ((\<lambda>_. 0)(102 := 0x61)) (100 + 2) [0x61] \<and> unat (2 :: u64) + length [0x61 :: u8] < unat (8 :: u64)
      \<Longrightarrow> dwarf_read_string ((\<lambda>_. 0)(102 := 0x61)) 100 8 2 = (100 + 2, 2 + of_nat (Suc (length [0x61 :: u8])))"
    by blast
  then show ?thesis by simp
qed

end
