(* ===== verification/Printfmt.thy ===== *)
theory Printfmt
  imports Cstring
begin

text \<open>
  \<^verbatim>\<open>lib/printfmt.c\<close>: the formatting engine behind \<^verbatim>\<open>cprintf\<close> and \<^verbatim>\<open>snprintf\<close>.

  The state the engine touches is memory (it reads the format and the strings it prints) and the two
  globals \<^verbatim>\<open>color_flag\<close> and \<^verbatim>\<open>color_parsing\<close>; the console extends this record. The caller's \<^verbatim>\<open>putch\<close> is
  a function on the object behind \<^verbatim>\<open>putdat\<close> and that state, so it may write to memory while the
  engine is reading, as \<^verbatim>\<open>sprintputch\<close> does.

  A \<^verbatim>\<open>va_list\<close> is the list of the 64-bit slots still to be read; reading past its end is undefined.
  The string literals of the file and the table \<^verbatim>\<open>error_string\<close> lie in memory at addresses the linker
  chooses: these addresses are a parameter, and \<open>rodata_ok\<close> says what lies there.
\<close>

section \<open>State and parameters\<close>

record pstate =
  mem :: mem
  color_flag :: i32
  color_parsing :: i32

type_synonym ('d, 's) pst = "'d \<times> 's pstate_scheme"
type_synonym ('d, 's) putch = "i32 \<Rightarrow> ('d, 's) pst \<Rightarrow> ('d, 's) pst"

record rodata =
  null_str :: u64
  error_fmt :: u64
  s_fmt :: u64
  error_string :: "u64 list"

abbreviation "pmem w \<equiv> mem (snd w)"

definition MAXERROR :: nat where
  "MAXERROR = 8"

text \<open>Characters the engine tests for.\<close>

abbreviation (input) "c_esc \<equiv> 0x1b"
abbreviation (input) "c_space \<equiv> 0x20"
abbreviation (input) "c_hash \<equiv> 0x23"
abbreviation (input) "c_pct \<equiv> 0x25"
abbreviation (input) "c_star \<equiv> 0x2a"
abbreviation (input) "c_minus \<equiv> 0x2d"
abbreviation (input) "c_dot \<equiv> 0x2e"
abbreviation (input) "c_0 \<equiv> 0x30"
abbreviation (input) "c_9 \<equiv> 0x39"
abbreviation (input) "c_semi \<equiv> 0x3b"
abbreviation (input) "c_lbrack \<equiv> 0x5b"
abbreviation (input) "c_c \<equiv> 0x63"
abbreviation (input) "c_d \<equiv> 0x64"
abbreviation (input) "c_e \<equiv> 0x65"
abbreviation (input) "c_l \<equiv> 0x6c"
abbreviation (input) "c_m \<equiv> 0x6d"
abbreviation (input) "c_o \<equiv> 0x6f"
abbreviation (input) "c_p \<equiv> 0x70"
abbreviation (input) "c_s \<equiv> 0x73"
abbreviation (input) "c_u \<equiv> 0x75"
abbreviation (input) "c_x \<equiv> 0x78"

section \<open>Numbers\<close>

text \<open>\<^verbatim>\<open>while (--width > 0) putch(padc, putdat)\<close> of \<^verbatim>\<open>printnum\<close>, with the decrement done before the call.\<close>

function put_pad :: "('d, 's) putch \<Rightarrow> i32 \<Rightarrow> i32 \<Rightarrow> ('d, 's) pst \<Rightarrow> ('d, 's) pst" where
  "put_pad putch padc width w =
     (if 0 <s width then put_pad putch padc (width - 1) (putch padc w) else w)"
  by pat_completeness auto
termination
  by (relation "measure (\<lambda>(putch, padc, width, w). nat (sint width))")
    (auto simp: word_sless_alt sint32_pred)

definition hexdigit :: "u64 \<Rightarrow> u8" where
  "hexdigit d = (if d < 10 then 0x30 + ucast d else 0x61 + ucast (d - 10))"

partial_function (option) printnum ::
    "('d, 's) putch \<Rightarrow> u64 \<Rightarrow> u32 \<Rightarrow> i32 \<Rightarrow> i32 \<Rightarrow> ('d, 's) pst \<Rightarrow> ('d, 's) pst cres" where
  "printnum putch num base width padc w =
     (if base = 0 then cfail Undefined
      else cbind
        (if ucast base \<le> num then printnum putch (num div ucast base) base (width - 1) padc w
         else cret (put_pad putch padc (width - 1) w))
        (\<lambda>w. if num mod ucast base < 16
             then cret (putch (ucast (hexdigit (num mod ucast base))) w)
             else cfail Undefined))"

section \<open>Arguments\<close>

definition va_arg64 :: "u64 list \<Rightarrow> (u64 \<times> u64 list) cres" where
  "va_arg64 ap = (case ap of [] \<Rightarrow> cfail Undefined | x # ap' \<Rightarrow> cret (x, ap'))"

definition va_arg32 :: "u64 list \<Rightarrow> (u32 \<times> u64 list) cres" where
  "va_arg32 ap = cbind (va_arg64 ap) (\<lambda>(x, ap'). cret (ucast x, ap'))"

definition getuint :: "u64 list \<Rightarrow> i32 \<Rightarrow> (u64 \<times> u64 list) cres" where
  "getuint ap lflag =
     (if 2 \<le>s lflag then va_arg64 ap
      else if lflag \<noteq> 0 then va_arg64 ap
      else cbind (va_arg32 ap) (\<lambda>(x, ap'). cret (ucast x, ap')))"

definition getint :: "u64 list \<Rightarrow> i32 \<Rightarrow> (i64 \<times> u64 list) cres" where
  "getint ap lflag =
     (if 2 \<le>s lflag then va_arg64 ap
      else if lflag \<noteq> 0 then va_arg64 ap
      else cbind (va_arg32 ap) (\<lambda>(x, ap'). cret (scast x, ap')))"

section \<open>Escape sequences\<close>

definition color_fun :: "i32 \<Rightarrow> i32" where
  "color_fun c = drop_bit 2 (c AND 0x04) OR (c AND 0x02) OR push_bit 2 (c AND 0x01)"

text \<open>
  The macro has no parentheses around its body, so in \<^verbatim>\<open>color_fun(esc_color) << 4\<close> the shift binds to its last
  operand only.
\<close>

definition color_fun_shl4 :: "i32 \<Rightarrow> i32" where
  "color_fun_shl4 c = drop_bit 2 (c AND 0x04) OR (c AND 0x02) OR push_bit 4 (push_bit 2 (c AND 0x01))"

definition set_color :: "i32 \<Rightarrow> i32 \<Rightarrow> i32" where
  "set_color esc_color flag =
     (if esc_color = 0 then 0x07
      else if 30 \<le>s esc_color \<and> esc_color \<le>s 37 then (flag AND 0xf8) OR color_fun (esc_color - 30)
      else if 40 \<le>s esc_color \<and> esc_color \<le>s 47 then (flag AND 0x8f) OR color_fun_shl4 (esc_color - 40)
      else flag)"

partial_function (option) esc_number ::
    "('d, 's) putch \<Rightarrow> u64 \<Rightarrow> i32 \<Rightarrow> ('d, 's) pst \<Rightarrow> (u8 \<times> i32 \<times> u64 \<times> ('d, 's) pst) cres" where
  "esc_number putch fmt esc_color w =
     (let ch = pmem w fmt in
      if ch \<noteq> c_semi \<and> ch \<noteq> c_m
      then esc_number putch (fmt + 1) (esc_color * 10 + (ucast ch - 0x30)) (putch (ucast ch) w)
      else cret (ch, esc_color, fmt, w))"

partial_function (option) esc_loop ::
    "('d, 's) putch \<Rightarrow> u64 \<Rightarrow> ('d, 's) pst \<Rightarrow> (u64 \<times> ('d, 's) pst) cres" where
  "esc_loop putch fmt w =
     cbind (esc_number putch (fmt + 1) 0 w) (\<lambda>(ch, esc_color, fmt, w).
       let w = (fst w, (snd w)\<lparr>color_flag := set_color esc_color (color_flag (snd w))\<rparr>);
           w = putch (ucast ch) w
       in if ch = c_m then cret (fmt + 1, w) else esc_loop putch fmt w)"

definition escape :: "('d, 's) putch \<Rightarrow> u64 \<Rightarrow> ('d, 's) pst \<Rightarrow> (u64 \<times> ('d, 's) pst) cres" where
  "escape putch fmt w =
     (let w = (fst w, (snd w)\<lparr>color_parsing := 1\<rparr>);
          w = putch c_esc w;
          w = putch c_lbrack w
      in cbind (esc_loop putch fmt w) (\<lambda>(fmt, w).
           cret (fmt, (fst w, (snd w)\<lparr>color_parsing := 0\<rparr>))))"

section \<open>Conversion specifications\<close>

record pspec =
  padc :: u8
  width :: i32
  precision :: i32
  lflag :: i32
  altflag :: bool

definition pspec0 :: pspec where
  "pspec0 = \<lparr>padc = c_space, width = - 1, precision = - 1, lflag = 0, altflag = False\<rparr>"

definition process_precision :: "pspec \<Rightarrow> pspec" where
  "process_precision sp =
     (if width sp <s 0 then sp\<lparr>width := precision sp, precision := - 1\<rparr> else sp)"

partial_function (option) width_digits :: "mem \<Rightarrow> u64 \<Rightarrow> u8 \<Rightarrow> i32 \<Rightarrow> (i32 \<times> u64) option" where
  "width_digits m fmt ch prec =
     (let prec = prec * 10 + ucast ch - 0x30; ch = m fmt in
      if ch < c_0 \<or> c_9 < ch then Some (prec, fmt) else width_digits m (fmt + 1) ch prec)"

text \<open>The part of the \<^verbatim>\<open>switch\<close> that comes back to \<^verbatim>\<open>reswitch\<close>: flags, width, precision, length.\<close>

partial_function (option) reswitch ::
    "mem \<Rightarrow> u64 \<Rightarrow> u64 list \<Rightarrow> pspec \<Rightarrow> (u8 \<times> u64 \<times> u64 list \<times> pspec) cres" where
  "reswitch m fmt aq sp =
     (let ch = m fmt; fmt = fmt + 1 in
      if ch = c_minus then reswitch m fmt aq (sp\<lparr>padc := c_minus\<rparr>)
      else if ch = c_0 then reswitch m fmt aq (sp\<lparr>padc := c_0\<rparr>)
      else if c_0 < ch \<and> ch \<le> c_9 then
        cbind (clift (width_digits m fmt ch 0)) (\<lambda>(prec, fmt).
          reswitch m fmt aq (process_precision (sp\<lparr>precision := prec\<rparr>)))
      else if ch = c_star then
        cbind (va_arg32 aq) (\<lambda>(prec, aq).
          reswitch m fmt aq (process_precision (sp\<lparr>precision := prec\<rparr>)))
      else if ch = c_dot then
        reswitch m fmt aq (if width sp <s 0 then sp\<lparr>width := 0\<rparr> else sp)
      else if ch = c_hash then reswitch m fmt aq (sp\<lparr>altflag := True\<rparr>)
      else if ch = c_l then reswitch m fmt aq (sp\<lparr>lflag := lflag sp + 1\<rparr>)
      else cret (ch, fmt, aq, sp))"

partial_function (option) put_str ::
    "('d, 's) putch \<Rightarrow> bool \<Rightarrow> u64 \<Rightarrow> i32 \<Rightarrow> i32 \<Rightarrow> ('d, 's) pst \<Rightarrow> (i32 \<times> ('d, 's) pst) cres" where
  "put_str putch alt p prec wid w =
     (let ch = (scast (pmem w p) :: i32) in
      if ch \<noteq> 0 \<and> (prec <s 0 \<or> 0 \<le>s prec - 1)
      then put_str putch alt (p + 1) (if prec <s 0 then prec else prec - 1) (wid - 1)
             (putch (if alt \<and> (ch <s 0x20 \<or> 0x7e <s ch) then 0x3f else ch) w)
      else cret (wid, w))"

definition put_string :: "rodata \<Rightarrow> ('d, 's) putch \<Rightarrow> u64 \<Rightarrow> pspec \<Rightarrow> ('d, 's) pst \<Rightarrow> ('d, 's) pst cres" where
  "put_string L putch p sp w =
     (let p = (if p = 0 then null_str L else p);
          (wid, w) =
            (if 0 <s width sp \<and> padc sp \<noteq> c_minus then
               let wid = width sp - strnlen (pmem w) p (scast (precision sp))
               in (if 0 <s wid then 0 else wid, put_pad putch (ucast (padc sp)) wid w)
             else (width sp, w))
      in cbind (put_str putch (altflag sp) p (precision sp) wid w) (\<lambda>(wid, w).
           cret (put_pad putch c_space wid w)))"

partial_function (option) back_up :: "mem \<Rightarrow> u64 \<Rightarrow> u64 option" where
  "back_up m fmt = (if m (fmt - 1) \<noteq> c_pct then back_up m (fmt - 1) else Some fmt)"

definition put_signed :: "('d, 's) putch \<Rightarrow> i64 \<Rightarrow> u32 \<Rightarrow> pspec \<Rightarrow> ('d, 's) pst \<Rightarrow> ('d, 's) pst cres" where
  "put_signed putch num base sp w =
     (if num <s 0 then printnum putch (- num) base (width sp) (ucast (padc sp)) (putch c_minus w)
      else printnum putch num base (width sp) (ucast (padc sp)) w)"

text \<open>The conversions, \<^verbatim>\<open>%e\<close> apart, which calls \<^verbatim>\<open>printfmt\<close> again.\<close>

definition directive ::
    "rodata \<Rightarrow> ('d, 's) putch \<Rightarrow> u8 \<Rightarrow> u64 \<Rightarrow> u64 list \<Rightarrow> pspec \<Rightarrow> ('d, 's) pst
      \<Rightarrow> (u64 \<times> u64 list \<times> ('d, 's) pst) cres" where
  "directive L putch ch fmt aq sp w =
     (if ch = c_c then
        cbind (va_arg32 aq) (\<lambda>(c, aq). cret (fmt, aq, putch c w))
      else if ch = c_s then
        cbind (va_arg64 aq) (\<lambda>(p, aq). cbind (put_string L putch p sp w) (\<lambda>w. cret (fmt, aq, w)))
      else if ch = c_d then
        cbind (getint aq 3) (\<lambda>(num, aq). cbind (put_signed putch num 10 sp w) (\<lambda>w. cret (fmt, aq, w)))
      else if ch = c_u then
        cbind (getuint aq 3) (\<lambda>(num, aq).
          cbind (printnum putch num 10 (width sp) (ucast (padc sp)) w) (\<lambda>w. cret (fmt, aq, w)))
      else if ch = c_o then
        cbind (getint aq 3) (\<lambda>(num, aq). cbind (put_signed putch num 8 sp w) (\<lambda>w. cret (fmt, aq, w)))
      else if ch = c_p then
        cbind (va_arg64 aq) (\<lambda>(num, aq).
          cbind (printnum putch num 16 (width sp) (ucast (padc sp)) (putch c_x (putch c_0 w)))
            (\<lambda>w. cret (fmt, aq, w)))
      else if ch = c_x then
        cbind (getuint aq 3) (\<lambda>(num, aq).
          cbind (printnum putch num 16 (width sp) (ucast (padc sp)) w) (\<lambda>w. cret (fmt, aq, w)))
      else if ch = c_pct then cret (fmt, aq, putch c_pct w)
      else let w = putch c_pct w in
        cbind (clift (back_up (pmem w) (fmt - 1))) (\<lambda>fmt. cret (fmt, aq, w)))"

section \<open>The engine\<close>

partial_function (option) plain_text ::
    "('d, 's) putch \<Rightarrow> u64 \<Rightarrow> ('d, 's) pst \<Rightarrow> (u8 \<times> u64 \<times> ('d, 's) pst) cres" where
  "plain_text putch fmt w =
     (let ch = pmem w fmt in
      if ch \<noteq> c_pct \<and> ch \<noteq> c_esc \<and> ch \<noteq> 0 then plain_text putch (fmt + 1) (putch (ucast ch) w)
      else cret (ch, fmt + 1, w))"

text \<open>
  \<^verbatim>\<open>%e\<close> takes the absolute value of its argument; \<^verbatim>\<open>INT_MIN\<close> has none, and indexes the table out of
  bounds. The \<^verbatim>\<open>int\<close> handed on to \<^verbatim>\<open>"error %d"\<close> is not negative, and its slot holds it zero-extended.
\<close>

definition error_call :: "rodata \<Rightarrow> u32 \<Rightarrow> (u64 \<times> u64 list) cres" where
  "error_call L arg =
     (let err = (if arg <s 0 then - arg else arg) in
      if err <s 0 then cfail Undefined
      else if of_nat MAXERROR \<le>s err \<or> error_string L ! unat err = 0
      then cret (error_fmt L, [ucast err])
      else cret (s_fmt L, [error_string L ! unat err]))"

partial_function (option) vprintfmt ::
    "rodata \<Rightarrow> ('d, 's) putch \<Rightarrow> u64 \<Rightarrow> u64 list \<Rightarrow> ('d, 's) pst \<Rightarrow> ('d, 's) pst cres" where
  "vprintfmt L putch fmt aq w =
     cbind (plain_text putch fmt w) (\<lambda>(ch, fmt, w).
       if ch = 0 then cret w
       else if ch = c_esc then
         cbind (escape putch fmt w) (\<lambda>(fmt, w). vprintfmt L putch fmt aq w)
       else
         cbind (reswitch (pmem w) fmt aq pspec0) (\<lambda>(ch, fmt, aq, sp).
           if ch = c_e then
             cbind (va_arg32 aq) (\<lambda>(err, aq).
               cbind (error_call L err) (\<lambda>(efmt, eargs).
                 cbind (vprintfmt L putch efmt eargs w) (\<lambda>w. vprintfmt L putch fmt aq w)))
           else
             cbind (directive L putch ch fmt aq sp w) (\<lambda>(fmt, aq, w). vprintfmt L putch fmt aq w)))"

definition printfmt ::
    "rodata \<Rightarrow> ('d, 's) putch \<Rightarrow> u64 \<Rightarrow> u64 list \<Rightarrow> ('d, 's) pst \<Rightarrow> ('d, 's) pst cres" where
  "printfmt L putch fmt ap w = vprintfmt L putch fmt ap w"

section \<open>Printing to a buffer\<close>

record sprintbuf =
  buf :: u64
  ebuf :: u64
  cnt :: i32

definition sprintputch :: "(sprintbuf, 's) putch" where
  "sprintputch ch w =
     (let (b, s) = w; b = b\<lparr>cnt := cnt b + 1\<rparr> in
      if buf b < ebuf b
      then (b\<lparr>buf := buf b + 1\<rparr>, s\<lparr>mem := (mem s)(buf b := ucast ch)\<rparr>)
      else (b, s))"

definition E_INVAL :: i32 where
  "E_INVAL = 3"

definition vsnprintf ::
    "rodata \<Rightarrow> u64 \<Rightarrow> i32 \<Rightarrow> u64 \<Rightarrow> u64 list \<Rightarrow> 's pstate_scheme \<Rightarrow> (i32 \<times> 's pstate_scheme) cres" where
  "vsnprintf L b n fmt ap s =
     (let sb = \<lparr>buf = b, ebuf = b + scast n - 1, cnt = 0\<rparr> in
      if b = 0 \<or> n <s 1 then cret (- E_INVAL, s)
      else cbind (vprintfmt L sprintputch fmt ap (sb, s)) (\<lambda>(sb, s).
        cret (cnt sb, s\<lparr>mem := (mem s)(buf sb := 0)\<rparr>)))"

definition snprintf ::
    "rodata \<Rightarrow> u64 \<Rightarrow> i32 \<Rightarrow> u64 \<Rightarrow> u64 list \<Rightarrow> 's pstate_scheme \<Rightarrow> (i32 \<times> 's pstate_scheme) cres" where
  "snprintf L b n fmt ap s = vsnprintf L b n fmt ap s"

section \<open>What the literals hold\<close>

definition ascii :: "string \<Rightarrow> u8 list" where
  "ascii s = map of_char s"

text \<open>The initialiser of \<^verbatim>\<open>error_string\<close>: entries 0 and 7 (\<^verbatim>\<open>E_NO_SYS\<close>) have none and are null.\<close>

definition error_text :: "string option list" where
  "error_text =
     [None, Some ''unspecified error'', Some ''bad environment'', Some ''invalid parameter'',
      Some ''out of memory'', Some ''out of environments'', Some ''segmentation fault'', None]"

definition literal_at :: "mem \<Rightarrow> u64 \<Rightarrow> string option \<Rightarrow> bool" where
  "literal_at m p t = (case t of None \<Rightarrow> p = 0 | Some s \<Rightarrow> p \<noteq> 0 \<and> cstr m p (ascii s))"

definition rodata_ok :: "rodata \<Rightarrow> mem \<Rightarrow> bool" where
  "rodata_ok L m \<longleftrightarrow>
     literal_at m (null_str L) (Some ''(null)'') \<and> literal_at m (error_fmt L) (Some ''error %d'')
     \<and> literal_at m (s_fmt L) (Some ''%s'') \<and> list_all2 (literal_at m) (error_string L) error_text"

section \<open>Padding\<close>

declare put_pad.simps [simp del]

lemma put_pad_fold: "put_pad putch pc wd w = fold putch (replicate (nat (sint wd)) pc) w"
proof (induction putch pc wd w rule: put_pad.induct)
  case (1 putch pc wd w)
  show ?case
  proof (cases "0 <s wd")
    case True
    then have "nat (sint wd) = Suc (nat (sint (wd - 1)))"
      by (simp add: word_sless_alt sint32_pred)
    with 1 True show ?thesis by (simp add: put_pad.simps [of putch pc wd])
  next
    case False
    then show ?thesis by (simp add: put_pad.simps [of putch pc wd] word_sless_alt)
  qed
qed

section \<open>Invariants through the engine\<close>

text \<open>
  What the engine asks of \<^verbatim>\<open>putch\<close> to keep an invariant of the caller's: that \<^verbatim>\<open>putch\<close> and the changes of
  the two colour globals keep it. Every routine of the engine then keeps it, whatever the format.
\<close>

locale putch_inv =
  fixes putch :: "('d, 's) putch" and I :: "('d, 's) pst \<Rightarrow> bool"
  assumes putch_I: "I w \<Longrightarrow> I (putch c w)"
    and flag_I: "I (d, s) \<Longrightarrow> I (d, s\<lparr>color_flag := f\<rparr>)"
    and parsing_I: "I (d, s) \<Longrightarrow> I (d, s\<lparr>color_parsing := f\<rparr>)"
begin

lemma fold_I: "I w \<Longrightarrow> I (fold putch cs w)"
  by (induction cs arbitrary: w) (simp_all add: putch_I)

lemma put_pad_I: "I w \<Longrightarrow> I (put_pad putch pc wd w)"
  unfolding put_pad_fold by (rule fold_I)

text \<open>One induction per loop: \<open>f\<close> stands for the recursive call.\<close>

lemma printnum_I: "I w \<Longrightarrow> ok I (printnum putch num base wd pc w)"
proof (rule ok_of_Some)
  fix r assume "I w" and ret: "printnum putch num base wd pc w = Some r"
  have "putch = putch \<longrightarrow> I w \<longrightarrow> ok I (Some r)"
  proof (rule printnum.raw_induct
      [where P = "\<lambda>p num base wd pc w r. p = putch \<longrightarrow> I w \<longrightarrow> ok I (Some r)", OF _ ret], intro impI)
    fix f p num base wd pc w r
    assume IH: "\<And>p num base wd pc w r. f p num base wd pc w = Some r \<Longrightarrow> p = putch \<longrightarrow> I w \<longrightarrow> ok I (Some r)"
      and eq: "(if base = 0 then cfail Undefined
      else cbind (if ucast base \<le> num then f p (num div ucast base) base (wd - 1) pc w
           else cret (put_pad p pc (wd - 1) w))
        (\<lambda>w. if num mod ucast base < 16 then cret (p (ucast (hexdigit (num mod ucast base))) w)
             else cfail Undefined)) = Some r"
      and p: "p = putch" and w: "I w"
    have f: "ok I (f putch num base wd pc w)" if "I w" for num base wd pc w
      using IH that by (blast intro: ok_of_Some)
    have "ok I (if ucast base \<le> num then f putch (num div ucast base) base (wd - 1) pc w
           else cret (put_pad putch pc (wd - 1) w))"
      using f [OF w] put_pad_I [OF w] by simp
    then show "ok I (Some r)"
      unfolding eq [symmetric] p by (auto intro: ok_bind [where P = I] simp: putch_I simp del: split_paired_All)
  qed
  with \<open>I w\<close> show "ok I (Some r)" by simp
qed

lemma plain_text_I: "I w \<Longrightarrow> ok (\<lambda>(_, _, w). I w) (plain_text putch fmt w)"
proof (rule ok_of_Some)
  fix r assume "I w" and ret: "plain_text putch fmt w = Some r"
  let ?Q = "\<lambda>(_, _, w). I w"
  have "putch = putch \<longrightarrow> I w \<longrightarrow> ok ?Q (Some r)"
  proof (rule plain_text.raw_induct
      [where P = "\<lambda>p fmt w r. p = putch \<longrightarrow> I w \<longrightarrow> ok ?Q (Some r)", OF _ ret], intro impI)
    fix f p fmt w r
    assume IH: "\<And>p fmt w r. f p fmt w = Some r \<Longrightarrow> p = putch \<longrightarrow> I w \<longrightarrow> ok ?Q (Some r)"
      and eq: "(let ch = pmem w fmt in
        if ch \<noteq> c_pct \<and> ch \<noteq> c_esc \<and> ch \<noteq> 0 then f p (fmt + 1) (p (ucast ch) w)
        else cret (ch, fmt + 1, w)) = Some r"
      and p: "p = putch" and w: "I w"
    have "ok ?Q (f putch fmt w)" if "I w" for fmt w
      using IH that by (blast intro: ok_of_Some)
    with w show "ok ?Q (Some r)"
      unfolding eq [symmetric] p by (simp add: Let_def putch_I)
  qed
  with \<open>I w\<close> show "ok ?Q (Some r)" by simp
qed

lemma put_str_I: "I w \<Longrightarrow> ok (\<lambda>(_, w). I w) (put_str putch alt q prec wid w)"
proof (rule ok_of_Some)
  fix r assume "I w" and ret: "put_str putch alt q prec wid w = Some r"
  let ?Q = "\<lambda>(_, w). I w"
  have "putch = putch \<longrightarrow> I w \<longrightarrow> ok ?Q (Some r)"
  proof (rule put_str.raw_induct
      [where P = "\<lambda>p alt q prec wid w r. p = putch \<longrightarrow> I w \<longrightarrow> ok ?Q (Some r)", OF _ ret], intro impI)
    fix f p alt q prec wid w r
    assume IH: "\<And>p alt q prec wid w r. f p alt q prec wid w = Some r \<Longrightarrow> p = putch \<longrightarrow> I w \<longrightarrow> ok ?Q (Some r)"
      and eq: "(let ch = (scast (pmem w q) :: i32) in
        if ch \<noteq> 0 \<and> (prec <s 0 \<or> 0 \<le>s prec - 1)
        then f p alt (q + 1) (if prec <s 0 then prec else prec - 1) (wid - 1)
               (p (if alt \<and> (ch <s 0x20 \<or> 0x7e <s ch) then 0x3f else ch) w)
        else cret (wid, w)) = Some r"
      and p: "p = putch" and w: "I w"
    have "ok ?Q (f putch alt q prec wid w)" if "I w" for alt q prec wid w
      using IH that by (blast intro: ok_of_Some)
    with w show "ok ?Q (Some r)"
      unfolding eq [symmetric] p by (simp add: Let_def putch_I)
  qed
  with \<open>I w\<close> show "ok ?Q (Some r)" by simp
qed

lemma esc_number_I: "I w \<Longrightarrow> ok (\<lambda>(_, _, _, w). I w) (esc_number putch fmt n w)"
proof (rule ok_of_Some)
  fix r assume "I w" and ret: "esc_number putch fmt n w = Some r"
  let ?Q = "\<lambda>(_, _, _, w). I w"
  have "putch = putch \<longrightarrow> I w \<longrightarrow> ok ?Q (Some r)"
  proof (rule esc_number.raw_induct
      [where P = "\<lambda>p fmt n w r. p = putch \<longrightarrow> I w \<longrightarrow> ok ?Q (Some r)", OF _ ret], intro impI)
    fix f p fmt n w r
    assume IH: "\<And>p fmt n w r. f p fmt n w = Some r \<Longrightarrow> p = putch \<longrightarrow> I w \<longrightarrow> ok ?Q (Some r)"
      and eq: "(let ch = pmem w fmt in
        if ch \<noteq> c_semi \<and> ch \<noteq> c_m
        then f p (fmt + 1) (n * 10 + (ucast ch - 0x30)) (p (ucast ch) w)
        else cret (ch, n, fmt, w)) = Some r"
      and p: "p = putch" and w: "I w"
    have "ok ?Q (f putch fmt n w)" if "I w" for fmt n w
      using IH that by (blast intro: ok_of_Some)
    with w show "ok ?Q (Some r)"
      unfolding eq [symmetric] p by (simp add: Let_def putch_I)
  qed
  with \<open>I w\<close> show "ok ?Q (Some r)" by simp
qed

lemma esc_loop_I: "I w \<Longrightarrow> ok (\<lambda>(_, w). I w) (esc_loop putch fmt w)"
proof (rule ok_of_Some)
  fix r assume "I w" and ret: "esc_loop putch fmt w = Some r"
  let ?Q = "\<lambda>(_, w). I w"
  have "putch = putch \<longrightarrow> I w \<longrightarrow> ok ?Q (Some r)"
  proof (rule esc_loop.raw_induct
      [where P = "\<lambda>p fmt w r. p = putch \<longrightarrow> I w \<longrightarrow> ok ?Q (Some r)", OF _ ret], intro impI)
    fix f p fmt w r
    assume IH: "\<And>p fmt w r. f p fmt w = Some r \<Longrightarrow> p = putch \<longrightarrow> I w \<longrightarrow> ok ?Q (Some r)"
      and eq: "cbind (esc_number p (fmt + 1) 0 w) (\<lambda>(ch, esc_color, fmt, w).
        let w = (fst w, (snd w)\<lparr>color_flag := set_color esc_color (color_flag (snd w))\<rparr>);
            w = p (ucast ch) w
        in if ch = c_m then cret (fmt + 1, w) else f p fmt w) = Some r"
      and p: "p = putch" and w: "I w"
    have f: "ok ?Q (f putch fmt w)" if "I w" for fmt w
      using IH that by (blast intro: ok_of_Some)
    show "ok ?Q (Some r)"
      unfolding eq [symmetric] p
      by (rule ok_bind [OF esc_number_I [OF w]]) (auto simp: Let_def intro!: f putch_I flag_I)
  qed
  with \<open>I w\<close> show "ok ?Q (Some r)" by simp
qed

lemma escape_I: "I w \<Longrightarrow> ok (\<lambda>(_, w). I w) (escape putch fmt w)"
proof -
  assume "I w"
  then have "I (putch c_lbrack (putch c_esc (fst w, (snd w)\<lparr>color_parsing := 1\<rparr>)))"
    by (intro putch_I parsing_I) simp
  then show ?thesis
    unfolding escape_def Let_def
    by (rule ok_bind [OF esc_loop_I]) (auto intro: parsing_I)
qed

lemma put_string_I: "I w \<Longrightarrow> ok I (put_string L putch q sp w)"
proof -
  assume "I w"
  then have "ok I (cbind (put_str putch alt q prec wid (put_pad putch c k w))
      (\<lambda>(wid, w). cret (put_pad putch c_space wid w)))" for alt q prec wid c k
    by (intro ok_bind [OF put_str_I]) (auto intro: put_pad_I)
  from this [where k = 0] this show ?thesis
    by (simp add: put_string_def Let_def put_pad_fold)
qed

lemma put_signed_I: "I w \<Longrightarrow> ok I (put_signed putch num base sp w)"
  by (simp add: put_signed_def printnum_I putch_I)

lemma directive_I: "I w \<Longrightarrow> ok (\<lambda>(_, _, w). I w) (directive L putch ch fmt aq sp w)"
proof -
  assume w: "I w"
  have ret: "ok I r \<Longrightarrow> ok (\<lambda>(_, _, w). I w) (cbind r (\<lambda>w. cret (fmt, aq, w)))" for r aq
    by (rule ok_bind) auto
  note * = ret [OF printnum_I] ret [OF put_signed_I] ret [OF put_string_I]
  show ?thesis
    unfolding directive_def Let_def
    using w by (auto intro!: ok_bind_any * putch_I)
qed

text \<open>The engine keeps the invariant on every format and every argument list.\<close>

lemma vprintfmt_I: "I w \<Longrightarrow> ok I (vprintfmt L putch fmt aq w)"
proof (rule ok_of_Some)
  fix r assume "I w" and ret: "vprintfmt L putch fmt aq w = Some r"
  have "putch = putch \<longrightarrow> I w \<longrightarrow> ok I (Some r)"
  proof (rule vprintfmt.raw_induct
      [where P = "\<lambda>L p fmt aq w r. p = putch \<longrightarrow> I w \<longrightarrow> ok I (Some r)", OF _ ret], intro impI)
    fix f L p fmt aq w r
    assume IH: "\<And>L p fmt aq w r. f L p fmt aq w = Some r \<Longrightarrow> p = putch \<longrightarrow> I w \<longrightarrow> ok I (Some r)"
      and eq: "cbind (plain_text p fmt w) (\<lambda>(ch, fmt, w).
       if ch = 0 then cret w
       else if ch = c_esc then cbind (escape p fmt w) (\<lambda>(fmt, w). f L p fmt aq w)
       else cbind (reswitch (pmem w) fmt aq pspec0) (\<lambda>(ch, fmt, aq, sp).
         if ch = c_e then
           cbind (va_arg32 aq) (\<lambda>(err, aq).
             cbind (error_call L err) (\<lambda>(efmt, eargs).
               cbind (f L p efmt eargs w) (\<lambda>w. f L p fmt aq w)))
         else cbind (directive L p ch fmt aq sp w) (\<lambda>(fmt, aq, w). f L p fmt aq w))) = Some r"
      and p: "p = putch" and w: "I w"
    have f: "ok I (f L putch fmt aq w)" if "I w" for L fmt aq w
      using IH that by (blast intro: ok_of_Some)
    have f2: "ok I (cbind (f L putch efmt eargs w) (\<lambda>w. f L putch fmt aq w))" if "I w" for efmt eargs fmt aq w
      using f [OF that] by (rule ok_bind) (rule f)
    have e: "ok I (cbind (escape putch fmt w) (\<lambda>(fmt, w). f L putch fmt aq w))" if "I w" for fmt w
      by (rule ok_bind [OF escape_I [OF that]]) (auto intro: f)
    have d: "ok I (cbind (directive L putch ch fmt aq sp w) (\<lambda>(fmt, aq, w). f L putch fmt aq w))"
      if "I w" for ch fmt aq sp w
      by (rule ok_bind [OF directive_I [OF that]]) (auto intro: f)
    show "ok I (Some r)"
      unfolding eq [symmetric] p
      by (rule ok_bind [OF plain_text_I [OF w]]) (auto intro!: ok_bind_any e d f2)
  qed
  with \<open>I w\<close> show "ok I (Some r)" by simp
qed

end

section \<open>Buffers\<close>

text \<open>
  The buffer is the \<open>k + 1\<close> bytes at \<open>b\<close>, inside the address space; \<^verbatim>\<open>sprintputch\<close> may fill its first
  \<open>k\<close> bytes and never leaves them.
\<close>

definition sprint_inv :: "u64 \<Rightarrow> nat \<Rightarrow> mem \<Rightarrow> (sprintbuf, 's) pst \<Rightarrow> bool" where
  "sprint_inv b k m0 w \<longleftrightarrow>
     unat b + k < 2 ^ 64 \<and> unat (ebuf (fst w)) = unat b + k
     \<and> unat b \<le> unat (buf (fst w)) \<and> unat (buf (fst w)) \<le> unat b + k
     \<and> (\<forall>a. unat b \<le> unat a \<and> unat a < unat b + k \<or> pmem w a = m0 a)"

lemma sprintputch_inv:
  assumes "sprint_inv b k m0 w"
  shows "sprint_inv b k m0 (sprintputch c w)"
proof (cases "buf (fst w) < ebuf (fst w)")
  case True
  then have lt: "unat (buf (fst w)) < unat b + k"
    using assms by (simp add: sprint_inv_def word_less_nat_alt)
  then have "unat (buf (fst w) + 1) = Suc (unat (buf (fst w)))"
    using True by (simp add: unat_Suc_less word_less_nat_alt)
  with assms lt True show ?thesis
    by (auto simp: sprint_inv_def sprintputch_def case_prod_unfold Let_def)
next
  case False
  with assms show ?thesis by (simp add: sprint_inv_def sprintputch_def case_prod_unfold Let_def)
qed

interpretation sprint: putch_inv sprintputch "sprint_inv b k m0" for b k m0
  by unfold_locales (auto simp: sprintputch_inv, auto simp: sprint_inv_def)

lemma sprint_inv_start:
  assumes n: "1 \<le>s (n :: i32)" and b: "unat b + nat (sint n) \<le> 2 ^ 64"
  shows "sprint_inv b (nat (sint n) - 1) (mem s) (\<lparr>buf = b, ebuf = b + scast n - 1, cnt = 0\<rparr>, s)"
proof -
  have n1: "1 \<le> sint n" using n by (simp add: word_sle_eq)
  define k where "k = nat (sint n) - 1"
  have "(scast n :: u64) = of_int (sint n)" by simp
  also have "sint n = int (Suc k)" using n1 by (simp add: k_def)
  finally have e: "b + scast n - 1 = b + of_nat k" by simp
  have k: "unat b + k < 2 ^ 64" using b n1 by (simp add: k_def)
  show ?thesis
    unfolding e k_def [symmetric] using k unat_add_less [OF k] by (simp add: sprint_inv_def)
qed

text \<open>
  C20. \<^verbatim>\<open>vsnprintf\<close> is memory-safe for every format string and every argument list: when it
  returns, no byte outside the \<^verbatim>\<open>n\<close> bytes at \<^verbatim>\<open>buf\<close> has changed and the buffer holds a NUL
  inside it; a null buffer or a size below 1 is refused with \<^verbatim>\<open>-E_INVAL\<close> and changes nothing.
\<close>

theorem vsnprintf_safe:
  assumes "unat b + nat (sint n) \<le> 2 ^ 64" "vsnprintf L b n fmt ap s = cret (r, s')"
  shows "(b = 0 \<or> n <s 1 \<longrightarrow> r = - 3 \<and> s' = s)
    \<and> (\<forall>a. unat b \<le> unat a \<and> unat a < unat b + nat (sint n) \<or> mem s' a = mem s a)
    \<and> (b \<noteq> 0 \<and> 1 \<le>s n \<longrightarrow> (\<exists>i < nat (sint n). mem s' (b + of_nat i) = 0))"
proof (cases "b = 0 \<or> n <s 1")
  case True
  with assms(2) have "r = - 3 \<and> s' = s" by (auto simp: vsnprintf_def E_INVAL_def)
  moreover from True have "\<not> (b \<noteq> 0 \<and> 1 \<le>s n)"
    by (auto simp: word_sle_eq word_sless_alt)
  ultimately show ?thesis by blast
next
  case False
  then have n: "1 \<le>s n" by (simp add: word_sle_eq word_sless_alt)
  let ?sb = "\<lparr>buf = b, ebuf = b + scast n - 1, cnt = 0\<rparr>"
  from False assms(2) obtain sb t where
    ret: "vprintfmt L sprintputch fmt ap (?sb, s) = cret (sb, t)" and s': "s' = t\<lparr>mem := (mem t)(buf sb := 0)\<rparr>"
    by (auto simp: vsnprintf_def cbind_eq_cret)
  have inv: "sprint_inv b (nat (sint n) - 1) (mem s) (sb, t)"
    using okD [OF sprint.vprintfmt_I [OF sprint_inv_start [OF n assms(1)]] ret] .
  have n1: "1 \<le> sint n" using n by (simp add: word_sle_eq)
  let ?i = "unat (buf sb) - unat b"
  from inv have "b + of_nat ?i = buf sb" by (simp add: sprint_inv_def of_nat_diff)
  moreover from inv n1 have "?i < nat (sint n)" by (auto simp: sprint_inv_def)
  ultimately have "\<exists>i < nat (sint n). mem s' (b + of_nat i) = 0"
    unfolding s' by (intro exI [of _ ?i]) simp
  moreover have "unat b \<le> unat a \<and> unat a < unat b + nat (sint n) \<or> mem s' a = mem s a" for a
  proof -
    have "unat b \<le> unat a \<and> unat a < unat b + (nat (sint n) - 1) \<or> mem t a = mem s a"
      using inv by (auto simp: sprint_inv_def)
    moreover have "a = buf sb \<Longrightarrow> unat b \<le> unat a \<and> unat a < unat b + nat (sint n)"
      using inv n1 by (auto simp: sprint_inv_def)
    ultimately show ?thesis by (auto simp: s')
  qed
  ultimately show ?thesis using False by blast
qed

text \<open>\<^verbatim>\<open>snprintf(buf, 3, "hey")\<close> with \<^verbatim>\<open>buf\<close> at 100: the buffer gets \<^verbatim>\<open>"he"\<close>, the result is 3.\<close>

definition demo_mem :: mem where
  "demo_mem = (\<lambda>_. 0)(64 := 0x68, 65 := 0x65, 66 := 0x79, 102 := 7, 103 := 9)"

definition demo_rodata :: rodata where
  "demo_rodata = \<lparr>null_str = 0, error_fmt = 0, s_fmt = 0, error_string = []\<rparr>"

lemma demo_vsnprintf:
  "vsnprintf L 100 3 64 [] \<lparr>mem = demo_mem, color_flag = 7, color_parsing = 0\<rparr>
   = cret (3, \<lparr>mem = demo_mem(100 := 0x68, 101 := 0x65, 102 := 0), color_flag = 7, color_parsing = 0\<rparr>)"
  by (simp add: vsnprintf_def vprintfmt.simps plain_text.simps sprintputch_def demo_mem_def word_sless_alt)

theorem vsnprintf_safe_witness:
  "unat (100 :: u64) + nat (sint (3 :: i32)) \<le> 2 ^ 64
   \<and> (\<exists>r s'. vsnprintf demo_rodata 100 3 64 [] \<lparr>mem = demo_mem, color_flag = 7, color_parsing = 0\<rparr> = cret (r, s')
      \<and> mem s' 103 = 9 \<and> (\<exists>i < 3. mem s' (100 + of_nat i) = 0))"
proof -
  have b: "unat (100 :: u64) + nat (sint (3 :: i32)) \<le> 2 ^ 64" by simp
  have c: "1 \<le>s (3 :: i32)" by (simp add: word_sle_eq)
  note v = vsnprintf_safe [OF b demo_vsnprintf [of demo_rodata]]
  have "\<exists>i < 3. mem (\<lparr>mem = demo_mem(100 := 0x68, 101 := 0x65, 102 := 0), color_flag = 7, color_parsing = 0\<rparr> :: pstate)
      (100 + of_nat i) = 0"
    using v c by simp
  then show ?thesis
    using b demo_vsnprintf by (auto simp: demo_mem_def)
qed

section \<open>Colours\<close>

lemma bit_small_consts: "bit (4 :: i32) i \<longleftrightarrow> i = 2" "bit (2 :: i32) i \<longleftrightarrow> i = 1"
proof -
  have 4: "(4 :: i32) = 2 ^ 2" by simp
  show "bit (4 :: i32) i \<longleftrightarrow> i = 2" unfolding 4 bit_exp_iff by auto
  show "bit (2 :: i32) i \<longleftrightarrow> i = 1" by (auto simp: bit_2_iff)
qed

lemma bit_color_fun:
  assumes "i < 8"
  shows "bit (color_fun x) i \<longleftrightarrow> (i = 0 \<and> bit x 2) \<or> (i = 1 \<and> bit x 1) \<or> (i = 2 \<and> bit x 0)"
    and "bit (color_fun_shl4 x) i \<longleftrightarrow> (i = 0 \<and> bit x 2) \<or> (i = 1 \<and> bit x 1) \<or> (i = 6 \<and> bit x 0)"
  unfolding color_fun_def color_fun_shl4_def bit_or_iff bit_and_iff bit_drop_bit_eq bit_push_bit_iff
    bit_small_consts comp_def bit_1_iff
  using assms by (auto simp: numeral_2_eq_2)

lemma bit_attr_masks:
  assumes "i < 8"
  shows "bit (0xf8 :: i32) i \<longleftrightarrow> 3 \<le> i" "bit (0x8f :: i32) i \<longleftrightarrow> i < 4 \<or> i = 7"
proof -
  from assms have "i \<in> {0, 1, 2, 3, 4, 5, 6, 7}" by auto
  then show "bit (0xf8 :: i32) i \<longleftrightarrow> 3 \<le> i" "bit (0x8f :: i32) i \<longleftrightarrow> i < 4 \<or> i = 7" by auto
qed

lemma set_color_codes:
  assumes "c < 8"
  shows "set_color (of_nat (30 + c)) f = (f AND 0xf8) OR color_fun (of_nat c)"
    and "set_color (of_nat (40 + c)) f = (f AND 0x8f) OR color_fun_shl4 (of_nat c)"
proof -
  have "sint (of_nat (30 + c) :: i32) = 30 + int c" "sint (of_nat (40 + c) :: i32) = 40 + int c"
    using assms by (subst sint32_of_nat; simp)+
  moreover from this have "(of_nat (30 + c) :: i32) \<noteq> 0" "(of_nat (40 + c) :: i32) \<noteq> 0"
    by (metis add_eq_0_iff2 signed_0 zero_neq_numeral add_nonneg_eq_0_iff of_nat_0_le_iff zero_le_numeral)+
  ultimately show "set_color (of_nat (30 + c)) f = (f AND 0xf8) OR color_fun (of_nat c)"
    "set_color (of_nat (40 + c)) f = (f AND 0x8f) OR color_fun_shl4 (of_nat c)"
    using assms unfolding set_color_def word_sle_eq by auto
qed

text \<open>
  The escape codes 30 to 37 set the three foreground bits of \<^verbatim>\<open>color_flag\<close> to the code's
  bits in reverse order (the code counts red, green, blue; the display blue, green, red) and
  keep the other bits of the attribute byte. The background codes 40 to 47 do not do the same one nibble up:
  the shift reaches only the last operand of the macro, so only the red bit 6 follows the code, bits 5 and 4
  are always cleared, and the green and blue bits of the code are added to the foreground.
\<close>

theorem escape_colours:
  assumes "c < 8" "i < 8"
  shows "bit (set_color (of_nat (30 + c)) f) i = (if i < 3 then bit c (2 - i) else bit f i)
    \<and> bit (set_color (of_nat (40 + c)) f) i =
        (if i = 6 then bit c 0 else if i = 5 \<or> i = 4 then False
         else if i = 1 then bit f 1 \<or> bit c 1 else if i = 0 then bit f 0 \<or> bit c 2 else bit f i)"
proof -
  have n: "bit (of_nat c :: i32) 0 = bit c 0" "bit (of_nat c :: i32) 1 = bit c 1" "bit (of_nat c :: i32) 2 = bit c 2"
    by (simp_all only: bit_of_nat_iff) simp_all
  have fg: "bit (set_color (of_nat (30 + c)) f) i \<longleftrightarrow>
      bit f i \<and> 3 \<le> i \<or> i = 0 \<and> bit c 2 \<or> i = 1 \<and> bit c 1 \<or> i = 2 \<and> bit c 0"
    unfolding set_color_codes [OF assms(1)] bit_or_iff bit_and_iff bit_color_fun [OF assms(2)]
      bit_attr_masks [OF assms(2)] by (simp only: n)
  have bg: "bit (set_color (of_nat (40 + c)) f) i \<longleftrightarrow>
      bit f i \<and> (i < 4 \<or> i = 7) \<or> i = 0 \<and> bit c 2 \<or> i = 1 \<and> bit c 1 \<or> i = 6 \<and> bit c 0"
    unfolding set_color_codes [OF assms(1)] bit_or_iff bit_and_iff bit_color_fun [OF assms(2)]
      bit_attr_masks [OF assms(2)] by (simp only: n)
  have "i = 0 \<or> i = 1 \<or> i = 2 \<or> i = 3 \<or> i = 4 \<or> i = 5 \<or> i = 6 \<or> i = 7" using assms(2) by linarith
  then show ?thesis unfolding fg bg by (elim disjE) simp_all
qed

theorem escape_colours_witness:
  "bit (set_color (of_nat (30 + 1)) 7) 2 \<and> \<not> bit (set_color (of_nat (30 + 1)) 7) 0
   \<and> \<not> bit (set_color (of_nat (40 + 2)) 0) 5 \<and> bit (set_color (of_nat (40 + 2)) 0) 1"
  using escape_colours [of 1 2 7] escape_colours [of 1 0 7] escape_colours [of 2 5 0] escape_colours [of 2 1 0]
  by (simp add: bit_0)

end
