(* ===== verification/Dwarf_Defs.thy ===== *)
theory Dwarf_Defs
  imports Dwarf_Read Printfmt
begin

text \<open>
  The structures of \<^verbatim>\<open>kern/dwarf.h\<close>, the codes of \<^verbatim>\<open>kern/dwarf_error.h\<close> and \<^verbatim>\<open>kern/dwarf_define.h\<close> the library uses, and the section
  table of \<^verbatim>\<open>kern/elf_rw.c\<close> with its lookup.

  Pointers to structures that the callers always pass non-null are the structures themselves, passed and
  returned; fields that no modelled code reads are left out.
\<close>

section \<open>Result codes\<close>

definition DW_DLV_NO_ENTRY :: i32 where "DW_DLV_NO_ENTRY = - 1"
definition DW_DLV_OK :: i32 where "DW_DLV_OK = 0"
definition DW_DLV_ERROR :: i32 where "DW_DLV_ERROR = 1"
definition DW_DLE_NONE :: i32 where "DW_DLE_NONE = 0"
definition DW_DLE_NO_ENTRY :: i32 where "DW_DLE_NO_ENTRY = 4"
definition DW_DLE_MEMORY :: i32 where "DW_DLE_MEMORY = 5"
definition DW_DLE_ATTR_FORM_BAD :: i32 where "DW_DLE_ATTR_FORM_BAD = 14"
definition DW_DLE_DEBUG_LINE_LENGTH_BAD :: i32 where "DW_DLE_DEBUG_LINE_LENGTH_BAD = 15"
definition DW_DLE_DEBUG_FRAME_LENGTH_BAD :: i32 where "DW_DLE_DEBUG_FRAME_LENGTH_BAD = 18"
definition DW_DLE_FRAME_AUGMENTATION_UNKNOWN :: i32 where "DW_DLE_FRAME_AUGMENTATION_UNKNOWN = 20"
definition DW_DLE_FRAME_INSTR_EXEC_ERROR :: i32 where "DW_DLE_FRAME_INSTR_EXEC_ERROR = 21"
definition DW_DLE_FRAME_VERSION_BAD :: i32 where "DW_DLE_FRAME_VERSION_BAD = 22"
definition DW_DLE_DF_REG_NUM_TOO_HIGH :: i32 where "DW_DLE_DF_REG_NUM_TOO_HIGH = 24"

lemmas dw_codes = DW_DLV_NO_ENTRY_def DW_DLV_OK_def DW_DLV_ERROR_def DW_DLE_NONE_def DW_DLE_NO_ENTRY_def
  DW_DLE_MEMORY_def DW_DLE_ATTR_FORM_BAD_def DW_DLE_DEBUG_LINE_LENGTH_BAD_def DW_DLE_DEBUG_FRAME_LENGTH_BAD_def
  DW_DLE_FRAME_AUGMENTATION_UNKNOWN_def DW_DLE_FRAME_INSTR_EXEC_ERROR_def DW_DLE_FRAME_VERSION_BAD_def
  DW_DLE_DF_REG_NUM_TOO_HIGH_def

section \<open>Sections\<close>

record dwarf_section =
  ds_name :: "u8 list"
  ds_data :: u64
  ds_addr :: u64
  ds_size :: u64

definition section_names :: "string list" where
  "section_names = [''.debug_info'', ''.debug_abbrev'', ''.eh_frame'', ''.debug_line'', ''.debug_str'']"

definition section_info0 :: "dwarf_section list" where
  "section_info0 = map (\<lambda>n. \<lparr>ds_name = ascii n, ds_data = 0, ds_addr = 0, ds_size = 0\<rparr>) section_names"

text \<open>The names compared are literals, on which \<^verbatim>\<open>strcmp\<close> is 0 exactly when they are equal.\<close>

definition dwarf_find_section :: "dwarf_section list \<Rightarrow> string \<Rightarrow> dwarf_section option" where
  "dwarf_find_section secs name = find (\<lambda>d. ds_name d = ascii name) secs"

definition find_section :: "dwarf_section list \<Rightarrow> string \<Rightarrow> dwarf_section cres" where
  "find_section secs name =
     (case dwarf_find_section secs name of None \<Rightarrow> cfail Undefined | Some d \<Rightarrow> cret d)"

section \<open>Compilation units, abbreviations, attributes and entries\<close>

definition NATTRDEF :: nat where "NATTRDEF = 32"
definition NATTRVAL :: nat where "NATTRVAL = 120"

record dwarf_attrdef =
  ad_attrib :: u64
  ad_form :: u64
  ad_offset :: u64

record dwarf_abbrev =
  ab_entry :: u64
  ab_tag :: u64
  ab_children :: u8
  ab_offset :: u64
  ab_length :: u64
  ab_atnum :: u64
  ab_attrdef :: "dwarf_attrdef list"

record dwarf_cu =
  cu_length :: u64
  cu_version :: u16
  addr_size :: u8
  debug_abbrev_offset :: u64
  cu_length_size :: u8
  cu_dwarf_size :: u8
  cu_next_offset :: u64
  cu_die_offset :: u64
  cu_offset :: u64

record dwarf_attribute =
  at_attrib :: u64
  at_form :: u64
  at_indirect :: i32
  at_u0 :: u64
  at_u1 :: u64
  bl_len :: u64
  bl_data :: u64

record dwarf_die =
  die_offset :: u64
  die_next_off :: u64
  die_abnum :: u64
  die_tag :: u64
  die_ab :: dwarf_abbrev
  die_name :: u64
  die_attr_count :: u8
  cu_header :: dwarf_cu
  die_attr :: "dwarf_attribute list"

section \<open>Register tables and the debug handle\<close>

record regtable_entry3 =
  dw_offset_relevant :: u8
  dw_value_type :: u8
  dw_regnum :: u16
  dw_offset_or_block_len :: u64
  dw_block_ptr :: u64

record regtable3 =
  rt3_cfa_rule :: regtable_entry3
  rt3_reg_table_size :: u16
  rt3_rules :: "regtable_entry3 list"

record dwarf_debug =
  curr_off_dbginfo :: u64
  dbg_info_offset_elf :: u64
  dbg_info_size :: u64
  dbg_read :: reader
  dbg_decode :: decoder
  dbg_pointer_size :: i32
  dbg_eh_offset :: u64
  dbg_eh_size :: u64
  dbg_frame_rule_table_size :: u16
  dbg_frame_rule_initial_value :: u16
  dbg_frame_cfa_value :: u16
  dbg_frame_same_value :: u16
  dbg_frame_undefined_value :: u16

end
