(* ===== verification/Dwarf_Info.thy ===== *)
theory Dwarf_Info
  imports Dwarf_Defs
begin

text \<open>
  \<^verbatim>\<open>kern/libdwarf_rw.c\<close> after the readers: the debug handle, compilation unit headers, abbreviation tables, attributes and
  the walk over debugging information entries.
\<close>

section \<open>The debug handle\<close>

datatype endianness = DW_OBJECT_MSB | DW_OBJECT_LSB

text \<open>\<^verbatim>\<open>e_ident\<close> starts the ELF header; \<^verbatim>\<open>EI_DATA\<close> is 5, \<^verbatim>\<open>ELFDATA2MSB\<close> 2, \<^verbatim>\<open>ELFCLASS32\<close> 1.\<close>

definition dwarf_elf_get_byte_order :: "mem \<Rightarrow> u64 \<Rightarrow> endianness cres" where
  "dwarf_elf_get_byte_order m obj =
     cassert (obj \<noteq> 0) (cret (if m (obj + 5) = 2 then DW_OBJECT_MSB else DW_OBJECT_LSB))"

definition dwarf_elf_get_pointer_size :: "mem \<Rightarrow> u64 \<Rightarrow> u8 cres" where
  "dwarf_elf_get_pointer_size m obj = cassert (obj \<noteq> 0) (cret (if m (obj + 4) = 1 then 4 else 8))"

definition dwarf_frame_params_init :: "dwarf_debug \<Rightarrow> dwarf_debug" where
  "dwarf_frame_params_init dbg =
     dbg\<lparr>dbg_frame_rule_table_size := 66, dbg_frame_rule_initial_value := 1035,
       dbg_frame_cfa_value := 1436, dbg_frame_same_value := 1035, dbg_frame_undefined_value := 1034\<rparr>"

definition dwarf_init :: "mem \<Rightarrow> u64 \<Rightarrow> (i32 \<times> dwarf_debug) cres" where
  "dwarf_init m obj =
     cbind (dwarf_elf_get_pointer_size m obj) (\<lambda>sz.
     cbind (dwarf_elf_get_byte_order m obj) (\<lambda>e.
       let dbg = \<lparr>curr_off_dbginfo = 0, dbg_info_offset_elf = 0, dbg_info_size = 0,
             dbg_read = (if e = DW_OBJECT_MSB then dwarf_read_msb else dwarf_read_lsb),
             dbg_decode = (if e = DW_OBJECT_MSB then dwarf_decode_msb else dwarf_decode_lsb),
             dbg_pointer_size = ucast sz, dbg_eh_offset = 0, dbg_eh_size = 0, dbg_frame_rule_table_size = 0,
             dbg_frame_rule_initial_value = 0, dbg_frame_cfa_value = 0, dbg_frame_same_value = 0,
             dbg_frame_undefined_value = 0\<rparr>
       in cret (0, dwarf_frame_params_init dbg)))"

section \<open>Compilation units\<close>

definition get_next_cu :: "mem \<Rightarrow> dwarf_debug \<Rightarrow> dwarf_cu \<Rightarrow> i32 \<times> dwarf_debug \<times> dwarf_cu" where
  "get_next_cu m dbg cu =
     (if curr_off_dbginfo dbg > dbg_info_size dbg then (- 1, dbg, cu)
      else
        let rd = dbg_read dbg m (dbg_info_offset_elf dbg);
            off = curr_off_dbginfo dbg;
            cu = cu\<lparr>cu_offset := off\<rparr>;
            (v, off) = rd off 4;
            len = (ucast v :: u32);
            (len, off, dwarf_size) =
              (if len = 0xffffffff then let (v, off) = rd off 8 in (ucast v, off, 8) else (len, off, 4));
            cu = cu\<lparr>cu_dwarf_size := dwarf_size\<rparr>;
            dbg = dbg\<lparr>curr_off_dbginfo := off + ucast len\<rparr>;
            cu = cu\<lparr>cu_next_offset := curr_off_dbginfo dbg, cu_length := ucast len,
                    cu_length_size := (if dwarf_size = 4 then 4 else 12)\<rparr>;
            (v, off) = rd off 2;
            cu = cu\<lparr>cu_version := ucast v\<rparr>;
            (v, off) = rd off (ucast dwarf_size);
            cu = cu\<lparr>debug_abbrev_offset := v\<rparr>;
            (v, off) = rd off 1;
            cu = cu\<lparr>addr_size := ucast v\<rparr>
        in if cu_version cu < 2 \<or> cu_version cu > 4 then (- 1, dbg, cu)
           else (0, dbg, cu\<lparr>cu_die_offset := off\<rparr>))"

section \<open>Abbreviations\<close>

text \<open>Definitions beyond the last counted one are never read, so the list holds the counted ones.\<close>

partial_function (option) abbrev_attrs :: "mem \<Rightarrow> u64 \<Rightarrow> u64 \<Rightarrow> dwarf_abbrev \<Rightarrow> (u64 \<times> dwarf_abbrev) cres" where
  "abbrev_attrs m data off abp =
     (let adoff = off in
      cbind (clift (dwarf_read_uleb128 m data off)) (\<lambda>(attr, off).
      cbind (clift (dwarf_read_uleb128 m data off)) (\<lambda>(form, off).
        if attr \<noteq> 0 then
          if unat (ab_atnum abp) < NATTRDEF then
            abbrev_attrs m data off
              (abp\<lparr>ab_attrdef := ab_attrdef abp @ [\<lparr>ad_attrib = attr, ad_form = form, ad_offset = adoff\<rparr>],
                   ab_atnum := ab_atnum abp + 1\<rparr>)
          else cfail Undefined
        else cret (off, abp))))"

definition abbrev_parse ::
    "mem \<Rightarrow> dwarf_debug \<Rightarrow> u64 \<Rightarrow> dwarf_abbrev \<Rightarrow> dwarf_section \<Rightarrow> (i32 \<times> u64 \<times> dwarf_abbrev) cres" where
  "abbrev_parse m dbg off abp ds =
     (if ds_size ds \<le> off then cret (DW_DLE_NO_ENTRY, off, abp)
      else
        let aboff = off; data = ds_data ds in
        cbind (clift (dwarf_read_uleb128 m data off)) (\<lambda>(entry, off).
          if entry = 0 then cret (DW_DLE_NONE, off, abp\<lparr>ab_entry := 0\<rparr>)
          else
            cbind (clift (dwarf_read_uleb128 m data off)) (\<lambda>(tag, off).
              let (v, off) = dbg_read dbg m data off 1;
                  abp = \<lparr>ab_entry = entry, ab_tag = tag, ab_children = ucast v, ab_offset = aboff, ab_length = 0,
                         ab_atnum = 0, ab_attrdef = []\<rparr>
              in cbind (abbrev_attrs m data off abp) (\<lambda>(off, abp).
                   cret (DW_DLV_OK, off, abp\<lparr>ab_length := off - aboff\<rparr>)))))"

partial_function (option) abbrev_search ::
    "mem \<Rightarrow> dwarf_debug \<Rightarrow> dwarf_section \<Rightarrow> u64 \<Rightarrow> u64 \<Rightarrow> dwarf_abbrev \<Rightarrow> (i32 \<times> dwarf_abbrev) cres" where
  "abbrev_search m dbg ds entry off abp =
     (if off < ds_size ds then
        cbind (abbrev_parse m dbg off abp ds) (\<lambda>(ret, off, abp).
          if ret \<noteq> DW_DLE_NONE then cret (ret, abp)
          else if ab_entry abp = entry then cret (DW_DLE_NONE, abp)
          else if ab_entry abp = 0 then cret (DW_DLE_NO_ENTRY, abp)
          else abbrev_search m dbg ds entry off abp)
      else cret (DW_DLE_NO_ENTRY, abp))"

definition abbrev_find ::
    "mem \<Rightarrow> dwarf_section list \<Rightarrow> dwarf_debug \<Rightarrow> dwarf_cu \<Rightarrow> u64 \<Rightarrow> dwarf_abbrev \<Rightarrow> (i32 \<times> dwarf_abbrev) cres" where
  "abbrev_find m secs dbg cu entry abp =
     (if entry = 0 then cret (DW_DLE_NO_ENTRY, abp)
      else case dwarf_find_section secs ''.debug_abbrev'' of
        None \<Rightarrow> cfail Panic
      | Some ds \<Rightarrow> abbrev_search m dbg ds entry (debug_abbrev_offset cu) abp)"

section \<open>Attributes\<close>

text \<open>The value of an attribute of the given form: return code, new offset and the two value words.\<close>

definition read_form ::
    "mem \<Rightarrow> dwarf_section list \<Rightarrow> dwarf_debug \<Rightarrow> dwarf_cu \<Rightarrow> dwarf_section \<Rightarrow> u64 \<Rightarrow> u64
      \<Rightarrow> (i32 \<times> u64 \<times> u64 \<times> u64) cres" where
  "read_form m secs dbg cu ds form off =
     (let data = ds_data ds;
          fixed = (\<lambda>n. let (v, off) = dbg_read dbg m data off n in cret (DW_DLE_NONE, off, v, 0));
          block = (\<lambda>(len, off). let (p, off) = dwarf_read_block data off len in cret (DW_DLE_NONE, off, len, p))
      in
      if form = 0x01 then fixed (ucast (addr_size cu))
      else if form = 0x09 \<or> form = 0x18 then cbind (clift (dwarf_read_uleb128 m data off)) block
      else if form = 0x0a then block (dbg_read dbg m data off 1)
      else if form = 0x03 then block (dbg_read dbg m data off 2)
      else if form = 0x04 then block (dbg_read dbg m data off 4)
      else if form = 0x0b \<or> form = 0x0c \<or> form = 0x11 then fixed 1
      else if form = 0x05 \<or> form = 0x12 then fixed 2
      else if form = 0x06 \<or> form = 0x13 then fixed 4
      else if form = 0x07 \<or> form = 0x14 then fixed 8
      else if form = 0x10 then
        if cu_version cu = 2 then fixed (ucast (addr_size cu))
        else if cu_version cu = 3 then fixed (ucast (cu_dwarf_size cu))
        else cret (DW_DLE_NONE, off, 0, 0)
      else if form = 0x15 \<or> form = 0x0f then
        cbind (clift (dwarf_read_uleb128 m data off)) (\<lambda>(v, off). cret (DW_DLE_NONE, off, v, 0))
      else if form = 0x0d then
        cbind (clift (dwarf_read_sleb128 m data off)) (\<lambda>(v, off). cret (DW_DLE_NONE, off, v, 0))
      else if form = 0x17 then fixed (ucast (cu_dwarf_size cu))
      else if form = 0x08 then
        let (p, off) = dwarf_read_string m data (ds_size ds) off in cret (DW_DLE_NONE, off, p, 0)
      else if form = 0x0e then
        let (v, off) = dbg_read dbg m data off (ucast (cu_dwarf_size cu)) in
        (case dwarf_find_section secs ''.debug_str'' of
           None \<Rightarrow> cfail Panic
         | Some str \<Rightarrow> cret (DW_DLE_NONE, off, v, ds_data str + v))
      else if form = 0x20 then block (8, off)
      else if form = 0x19 then cret (DW_DLE_NONE, off, 1, 0)
      else cret (DW_DLE_ATTR_FORM_BAD, off, 0, 0))"

text \<open>\<^verbatim>\<open>ret_die->die_attr[ret_die->die_attr_count++] = atref\<close>; entries beyond the count are never read.\<close>

definition add_attr :: "dwarf_die \<Rightarrow> dwarf_attribute \<Rightarrow> dwarf_die cres" where
  "add_attr die at =
     (if unat (die_attr_count die) < NATTRVAL then
        cret (die\<lparr>die_attr := take (unat (die_attr_count die)) (die_attr die) @ [at],
                  die_attr_count := die_attr_count die + 1\<rparr>)
      else cfail Undefined)"

partial_function (option) attr_init ::
    "mem \<Rightarrow> dwarf_section list \<Rightarrow> dwarf_debug \<Rightarrow> u64 \<Rightarrow> dwarf_cu \<Rightarrow> dwarf_die \<Rightarrow> dwarf_attrdef \<Rightarrow> u64 \<Rightarrow> i32
      \<Rightarrow> (i32 \<times> u64 \<times> dwarf_die) cres" where
  "attr_init m secs dbg off cu die ad form indirect =
     cbind (find_section secs ''.debug_info'') (\<lambda>ds.
       if form = 0x16 then
         cbind (clift (dwarf_read_uleb128 m (ds_data ds) off)) (\<lambda>(form, off).
           attr_init m secs dbg off cu die ad form 1)
       else
         cbind (read_form m secs dbg cu ds form off) (\<lambda>(ret, off, u0, u1).
           if ret = DW_DLE_NONE then
             let isblock = (form = 0x09 \<or> form = 0x0a \<or> form = 0x03 \<or> form = 0x04);
                 at = \<lparr>at_attrib = ad_attrib ad, at_form = ad_form ad, at_indirect = indirect, at_u0 = u0, at_u1 = u1,
                       bl_len = (if isblock then u0 else 0), bl_data = (if isblock then u1 else 0)\<rparr>;
                 die = (if at_attrib at = 0x03 \<and> at_form at = 0x0e then die\<lparr>die_name := u1\<rparr>
                        else if at_attrib at = 0x03 \<and> at_form at = 0x08 then die\<lparr>die_name := u0\<rparr>
                        else die)
             in cbind (add_attr die at) (\<lambda>die. cret (ret, off, die))
           else cret (ret, off, die)))"

section \<open>Entries\<close>

fun attr_inits ::
    "mem \<Rightarrow> dwarf_section list \<Rightarrow> dwarf_debug \<Rightarrow> dwarf_cu \<Rightarrow> dwarf_attrdef list \<Rightarrow> u64 \<Rightarrow> dwarf_die
      \<Rightarrow> (i32 \<times> u64 \<times> dwarf_die) cres" where
  "attr_inits m secs dbg cu [] off die = cret (DW_DLE_NONE, off, die)"
| "attr_inits m secs dbg cu (ad # ads) off die =
     cbind (attr_init m secs dbg off cu die ad (ad_form ad) 0) (\<lambda>(ret, off, die).
       if ret \<noteq> DW_DLE_NONE then cret (ret, off, die) else attr_inits m secs dbg cu ads off die)"

text \<open>
  The part of the loop that reads one entry whose number \<open>abnum\<close> is not 0. The abbreviation is a local variable,
  uninitialised at first, that \<^verbatim>\<open>_dwarf_abbrev_find\<close> fills in whenever it reports success; on failure nothing reads it.
\<close>

definition abbrev0 :: dwarf_abbrev where
  "abbrev0 = \<lparr>ab_entry = 0, ab_tag = 0, ab_children = 0, ab_offset = 0, ab_length = 0, ab_atnum = 0, ab_attrdef = []\<rparr>"

definition read_die ::
    "mem \<Rightarrow> dwarf_section list \<Rightarrow> dwarf_debug \<Rightarrow> dwarf_cu \<Rightarrow> u64 \<Rightarrow> u64 \<Rightarrow> u64 \<Rightarrow> dwarf_die
      \<Rightarrow> (i32 \<times> u64 \<times> dwarf_abbrev \<times> dwarf_die) cres" where
  "read_die m secs dbg cu die_off abnum off die =
     cbind (abbrev_find m secs dbg cu abnum abbrev0) (\<lambda>(ret, ab).
       if ret \<noteq> DW_DLE_NONE then cret (ret, off, ab, die)
       else
         let die = die\<lparr>die_offset := die_off, die_abnum := abnum, die_ab := ab, die_attr_count := 0,
                       die_tag := ab_tag ab\<rparr>
         in cbind (attr_inits m secs dbg cu (ab_attrdef ab) off die) (\<lambda>(ret, off, die).
              if ret \<noteq> DW_DLE_NONE then cret (ret, off, ab, die)
              else cret (DW_DLE_NONE, off, ab, die\<lparr>die_next_off := off\<rparr>)))"

partial_function (option) search_die ::
    "mem \<Rightarrow> dwarf_section list \<Rightarrow> dwarf_debug \<Rightarrow> dwarf_cu \<Rightarrow> bool \<Rightarrow> i32 \<Rightarrow> u64 \<Rightarrow> dwarf_die \<Rightarrow> (i32 \<times> dwarf_die) cres" where
  "search_die m secs dbg cu search_sibling level off die =
     (if off < cu_next_offset cu \<and> off < dbg_info_size dbg then
        let die_off = off in
        cbind (clift (dwarf_read_uleb128 m (dbg_info_offset_elf dbg) off)) (\<lambda>(abnum, off).
          if abnum = 0 then
            if level = 0 \<or> \<not> search_sibling then cret (DW_DLE_NO_ENTRY, die)
            else search_die m secs dbg cu search_sibling (level - 1) off die
          else
            cbind (read_die m secs dbg cu die_off abnum off die) (\<lambda>(ret, off, ab, die).
              if ret \<noteq> DW_DLE_NONE then cret (ret, die)
              else if search_sibling \<and> 0 <s level then
                search_die m secs dbg cu search_sibling (if ab_children ab = 0x01 then level + 1 else level) off die
              else cret (DW_DLE_NONE, die)))
      else cret (DW_DLE_NO_ENTRY, die))"

definition dwarf_search_die_within_cu ::
    "mem \<Rightarrow> dwarf_section list \<Rightarrow> dwarf_debug \<Rightarrow> dwarf_cu \<Rightarrow> u64 \<Rightarrow> dwarf_die \<Rightarrow> bool \<Rightarrow> (i32 \<times> dwarf_die) cres" where
  "dwarf_search_die_within_cu m secs dbg cu off ret_die search_sibling =
     search_die m secs dbg cu search_sibling 1 off ret_die"

definition dwarf_offdie ::
    "mem \<Rightarrow> dwarf_section list \<Rightarrow> dwarf_debug \<Rightarrow> u64 \<Rightarrow> dwarf_die \<Rightarrow> dwarf_cu \<Rightarrow> (i32 \<times> dwarf_die) cres" where
  "dwarf_offdie m secs dbg off ret_die cu =
     (if off < cu_next_offset cu then dwarf_search_die_within_cu m secs dbg cu off ret_die False
      else cret (DW_DLV_OK, ret_die))"

definition attr_find :: "dwarf_die \<Rightarrow> u16 \<Rightarrow> dwarf_attribute option" where
  "attr_find die attr = find (\<lambda>a. at_attrib a = ucast attr) (take (unat (die_attr_count die)) (die_attr die))"

definition sibling_start :: "dwarf_die \<Rightarrow> dwarf_cu \<Rightarrow> u64 \<times> bool" where
  "sibling_start die cu =
     (if ab_children (die_ab die) = 0x00 then (die_next_off die, False)
      else case attr_find die 0x01 of
        Some at \<Rightarrow> (if at_form at \<noteq> 0x10 then at_u0 at + cu_offset cu else at_u0 at, False)
      | None \<Rightarrow> (die_next_off die, True))"

definition dlv_result :: "i32 \<Rightarrow> i32" where
  "dlv_result ret =
     (if ret = DW_DLE_NO_ENTRY then DW_DLV_NO_ENTRY else if ret \<noteq> DW_DLE_NONE then DW_DLV_ERROR else DW_DLV_OK)"

definition dwarf_siblingof ::
    "mem \<Rightarrow> dwarf_section list \<Rightarrow> dwarf_debug \<Rightarrow> dwarf_die option \<Rightarrow> dwarf_die \<Rightarrow> dwarf_cu \<Rightarrow> (i32 \<times> dwarf_die) cres" where
  "dwarf_siblingof m secs dbg die ret_die cu =
     (case die of
        None \<Rightarrow> dwarf_offdie m secs dbg (cu_die_offset cu) ret_die cu
      | Some d \<Rightarrow>
          let (off, search_sibling) = sibling_start d cu in
          cbind (dwarf_search_die_within_cu m secs dbg cu off ret_die search_sibling) (\<lambda>(ret, die).
            cret (dlv_result ret, die)))"

definition dwarf_child ::
    "mem \<Rightarrow> dwarf_section list \<Rightarrow> dwarf_debug \<Rightarrow> dwarf_cu \<Rightarrow> dwarf_die \<Rightarrow> dwarf_die \<Rightarrow> (i32 \<times> dwarf_die) cres" where
  "dwarf_child m secs dbg cu die ret_die =
     (if ab_children (die_ab die) = 0x00 then cret (DW_DLE_NO_ENTRY, ret_die)
      else cbind (dwarf_search_die_within_cu m secs dbg cu (die_next_off die) ret_die False) (\<lambda>(ret, d).
        cret (dlv_result ret, d)))"

definition dwarf_find_section_enhanced :: "dwarf_section list \<Rightarrow> dwarf_section \<Rightarrow> dwarf_section cres" where
  "dwarf_find_section_enhanced secs ds =
     (case find (\<lambda>d. ds_name d = ds_name ds) secs of
        None \<Rightarrow> cfail Undefined
      | Some sh \<Rightarrow> cret (ds\<lparr>ds_data := ds_data sh, ds_addr := ds_addr sh, ds_size := ds_size sh\<rparr>))"

section \<open>Compilation unit headers\<close>

text \<open>
  What a unit header in the 32-bit format says, with \<open>val\<close> reading numbers in the byte order of the file: a length,
  a version, an abbreviation table offset and an address size.
\<close>

definition cu_of_header :: "(u8 list \<Rightarrow> nat) \<Rightarrow> mem \<Rightarrow> u64 \<Rightarrow> u64 \<Rightarrow> dwarf_cu" where
  "cu_of_header val m data off =
     (let num = (\<lambda>k n. val (bytes m (data + off + k) n)) in
      \<lparr>cu_length = of_nat (num 0 4), cu_version = of_nat (num 4 2), addr_size = of_nat (num 10 1),
       debug_abbrev_offset = of_nat (num 6 4), cu_length_size = 4, cu_dwarf_size = 4,
       cu_next_offset = off + 4 + of_nat (num 0 4), cu_die_offset = off + 11, cu_offset = off\<rparr>)"

lemma ucast_of_nat_64 [simp]:
  "(ucast (of_nat n :: u64) :: u32) = of_nat n" "(ucast (of_nat n :: u64) :: u16) = of_nat n"
  "(ucast (of_nat n :: u64) :: u8) = of_nat n"
  by (simp_all add: unsigned_of_nat word_of_nat_eq_iff)

lemma ucast_of_nat_32: "n < 2 ^ 32 \<Longrightarrow> (ucast (of_nat n :: u32) :: u64) = of_nat n"
  by (simp add: unsigned_of_nat take_bit_nat_eq_self)

lemma of_nat_32_escape: "n < 0xffffffff \<Longrightarrow> (of_nat n :: u32) \<noteq> 0xffffffff"
proof
  assume n: "n < 0xffffffff" and eq: "(of_nat n :: u32) = 0xffffffff"
  from n have "unat (of_nat n :: u32) = n" by (simp add: unat_of_nat)
  moreover have "unat (0xffffffff :: u32) = 0xffffffff" by simp
  ultimately show False using n eq by simp
qed

context byte_order
begin

lemma rd_sizes:
  "rd m data off 1 = (of_nat (val (bytes m (data + off) 1)), off + 1)"
  "rd m data off 2 = (of_nat (val (bytes m (data + off) 2)), off + 2)"
  "rd m data off 4 = (of_nat (val (bytes m (data + off) 4)), off + 4)"
  "rd m data off 8 = (of_nat (val (bytes m (data + off) 8)), off + 8)"
  using rd_size [of 1] rd_size [of 2] rd_size [of 4] rd_size [of 8] by (simp_all add: read_sizes_def)

lemma get_next_cu_header:
  assumes rd: "dbg_read dbg = rd" and off: "off = curr_off_dbginfo dbg" "off \<le> dbg_info_size dbg"
    and len: "len = val (bytes m (dbg_info_offset_elf dbg + off) 4)" "len < 0xffffffff"
    and ver: "ver = val (bytes m (dbg_info_offset_elf dbg + off + 4) 2)" "2 \<le> ver" "ver \<le> 4"
  shows "get_next_cu m dbg cu =
     (0, dbg\<lparr>curr_off_dbginfo := off + 4 + of_nat len\<rparr>, cu_of_header val m (dbg_info_offset_elf dbg) off)"
proof -
  have n: "(of_nat len :: u32) \<noteq> 0xffffffff"
    using len(2) by (rule of_nat_32_escape)
  have v: "\<not> (of_nat ver :: u16) < 2" "\<not> 4 < (of_nat ver :: u16)"
    using ver(2,3) by (simp_all add: word_less_nat_alt unat_of_nat)
  have u: "(ucast (of_nat len :: u32) :: u64) = of_nat len" using len(2) by (intro ucast_of_nat_32) simp
  show ?thesis
    using n v u off(2) unfolding len(1) ver(1) off(1)
    by (simp add: get_next_cu_def rd rd_sizes Let_def cu_of_header_def add.assoc)
qed

lemma get_next_cu_bad_version:
  assumes rd: "dbg_read dbg = rd" and off: "off = curr_off_dbginfo dbg" "off \<le> dbg_info_size dbg"
    and len: "val (bytes m (dbg_info_offset_elf dbg + off) 4) < 0xffffffff"
    and ver: "ver = val (bytes m (dbg_info_offset_elf dbg + off + 4) 2)" "\<not> (2 \<le> ver \<and> ver \<le> 4)"
  shows "fst (get_next_cu m dbg cu) = - 1"
proof -
  let ?len = "val (bytes m (dbg_info_offset_elf dbg + off) 4)"
  have n: "(of_nat ?len :: u32) \<noteq> 0xffffffff"
    using len by (rule of_nat_32_escape)
  have "ver < 256 ^ 2" using val_less [of "bytes m (dbg_info_offset_elf dbg + off + 4) 2"] ver(1) by simp
  then have v: "(of_nat ver :: u16) < 2 \<or> 4 < (of_nat ver :: u16)"
    using ver(2) by (auto simp: word_less_nat_alt unat_of_nat)
  show ?thesis
    using n v off(2) unfolding ver(1) off(1)
    by (auto simp: get_next_cu_def rd rd_sizes Let_def add.assoc)
qed

end

section \<open>Abbreviation tables\<close>

text \<open>
  An abbreviation declaration of the DWARF standard and its encoding: code, tag, children flag, pairs of attribute
  name and form, and a pair of zeroes. A table is a sequence of declarations ended by a zero byte.
\<close>

record abbrev_decl =
  decl_code :: nat
  decl_tag :: nat
  decl_children :: u8
  decl_attrs :: "(nat \<times> nat) list"

definition attrs_bytes :: "(nat \<times> nat) list \<Rightarrow> u8 list" where
  "attrs_bytes ats = concat (map (\<lambda>(a, f). uleb_encode a @ uleb_encode f) ats) @ [0, 0]"

definition decl_bytes :: "abbrev_decl \<Rightarrow> u8 list" where
  "decl_bytes d = uleb_encode (decl_code d) @ uleb_encode (decl_tag d) @ [decl_children d] @ attrs_bytes (decl_attrs d)"

definition table_bytes :: "abbrev_decl list \<Rightarrow> u8 list" where
  "table_bytes ds = concat (map decl_bytes ds) @ [0]"

definition decl_ok :: "abbrev_decl \<Rightarrow> bool" where
  "decl_ok d \<longleftrightarrow> 0 < decl_code d \<and> decl_code d < 2 ^ 31 \<and> decl_tag d < 2 ^ 31 \<and> length (decl_attrs d) \<le> NATTRDEF
     \<and> (\<forall>(a, f) \<in> set (decl_attrs d). 0 < a \<and> a < 2 ^ 31 \<and> f < 2 ^ 31)"

text \<open>What the parser makes of them, each with the offset at which it was found.\<close>

fun attrdefs_of :: "u64 \<Rightarrow> (nat \<times> nat) list \<Rightarrow> dwarf_attrdef list" where
  "attrdefs_of off [] = []"
| "attrdefs_of off ((a, f) # ats) = \<lparr>ad_attrib = of_nat a, ad_form = of_nat f, ad_offset = off\<rparr>
     # attrdefs_of (off + of_nat (length (uleb_encode a @ uleb_encode f))) ats"

definition abbrev_of :: "u64 \<Rightarrow> abbrev_decl \<Rightarrow> dwarf_abbrev" where
  "abbrev_of off d =
     \<lparr>ab_entry = of_nat (decl_code d), ab_tag = of_nat (decl_tag d), ab_children = decl_children d, ab_offset = off,
      ab_length = of_nat (length (decl_bytes d)), ab_atnum = of_nat (length (decl_attrs d)),
      ab_attrdef = attrdefs_of (off + of_nat (length (uleb_encode (decl_code d) @ uleb_encode (decl_tag d)) + 1))
        (decl_attrs d)\<rparr>"

fun table_find :: "u64 \<Rightarrow> abbrev_decl list \<Rightarrow> nat \<Rightarrow> dwarf_abbrev option" where
  "table_find off [] e = None"
| "table_find off (d # ds) e =
     (if decl_code d = e then Some (abbrev_of off d) else table_find (off + of_nat (length (decl_bytes d))) ds e)"

text \<open>\<open>holds m p xs\<close>: the bytes \<open>xs\<close> lie at \<open>p\<close>.\<close>

definition holds :: "mem \<Rightarrow> u64 \<Rightarrow> u8 list \<Rightarrow> bool" where
  "holds m p xs \<longleftrightarrow> bytes m p (length xs) = xs"

lemma holds_simps [simp]:
  "holds m p []" "holds m p (x # xs) \<longleftrightarrow> m p = x \<and> holds m (p + 1) xs"
  "holds m p (xs @ ys) \<longleftrightarrow> holds m p xs \<and> holds m (p + of_nat (length xs)) ys"
proof -
  show "holds m p []" by (simp add: holds_def)
  show c: "holds m p (x # xs) \<longleftrightarrow> m p = x \<and> holds m (p + 1) xs" for p x xs by (simp add: holds_def)
  show "holds m p (xs @ ys) \<longleftrightarrow> holds m p xs \<and> holds m (p + of_nat (length xs)) ys"
    by (induction xs arbitrary: p) (simp_all add: c add.assoc, simp add: holds_def)
qed

lemma read_uleb_encoded:
  assumes "holds m (data + off) (uleb_encode n)" "n < 2 ^ 31"
  shows "dwarf_read_uleb128 m data off = Some (of_nat n, off + of_nat (length (uleb_encode n)))"
proof -
  have "map_option (\<lambda>(ret, src, shift, b). (ret, src)) (decode_leb_loop m (data + off) 0 0)
      = Some (of_nat n, data + off + of_nat (length (uleb_encode n)))"
    using decode_uleb_loop [of m "data + off" n 0 0] assms by (simp add: holds_def)
  then show ?thesis
    by (auto simp: dwarf_read_uleb128_def read_leb_decode)
qed

lemma uleb_encode_0: "uleb_encode 0 = [0]"
  by (simp add: uleb_encode.simps)

lemma read_uleb_0: "m (data + off) = 0 \<Longrightarrow> dwarf_read_uleb128 m data off = Some (0, off + 1)"
  using read_uleb_encoded [of m data off 0] by (simp add: uleb_encode_0)

lemma of_nat_neq_0: "0 < n \<Longrightarrow> n < 2 ^ 31 \<Longrightarrow> (of_nat n :: u64) \<noteq> 0"
  by (auto simp: word_of_nat_eq_0_iff dest: dvd_imp_le)

lemma abbrev_attrs_encoded:
  "holds m (data + off) (attrs_bytes ats) \<Longrightarrow> \<forall>(a, f) \<in> set ats. 0 < a \<and> a < 2 ^ 31 \<and> f < 2 ^ 31 \<Longrightarrow>
   ab_atnum abp = of_nat (length (ab_attrdef abp)) \<Longrightarrow> length (ab_attrdef abp) + length ats \<le> NATTRDEF \<Longrightarrow>
   abbrev_attrs m data off abp =
     cret (off + of_nat (length (attrs_bytes ats)),
       abp\<lparr>ab_attrdef := ab_attrdef abp @ attrdefs_of off ats,
           ab_atnum := of_nat (length (ab_attrdef abp) + length ats)\<rparr>)"
proof (induction ats arbitrary: off abp)
  case Nil
  then have "dwarf_read_uleb128 m data off = Some (0, off + 1)"
    "dwarf_read_uleb128 m data (off + 1) = Some (0, off + 2)"
    by (simp_all add: attrs_bytes_def read_uleb_0 add.assoc)
  with Nil show ?case by (subst abbrev_attrs.simps) (simp add: attrs_bytes_def)
next
  case (Cons af ats)
  obtain a f where af: "af = (a, f)" by (cases af)
  let ?o1 = "off + of_nat (length (uleb_encode a))" and ?o2 = "off + of_nat (length (uleb_encode a @ uleb_encode f))"
  have enc: "attrs_bytes (af # ats) = uleb_encode a @ uleb_encode f @ attrs_bytes ats"
    by (simp add: attrs_bytes_def af)
  have h: "holds m (data + off) (uleb_encode a)" "holds m (data + ?o1) (uleb_encode f)"
    "holds m (data + ?o2) (attrs_bytes ats)"
    using Cons.prems(1) unfolding enc by (simp_all add: add.assoc)
  have r: "dwarf_read_uleb128 m data off = Some (of_nat a, ?o1)"
    "dwarf_read_uleb128 m data ?o1 = Some (of_nat f, ?o2)" and a0: "(of_nat a :: u64) \<noteq> 0"
    using read_uleb_encoded [OF h(1)] read_uleb_encoded [OF h(2)] Cons.prems(2) of_nat_neq_0 [of a]
    by (simp_all add: af add.assoc)
  let ?abp = "abp\<lparr>ab_attrdef := ab_attrdef abp @ [\<lparr>ad_attrib = of_nat a, ad_form = of_nat f, ad_offset = off\<rparr>],
      ab_atnum := ab_atnum abp + 1\<rparr>"
  have lt: "length (ab_attrdef abp) < NATTRDEF" using Cons.prems(4) by simp
  then have room: "unat (ab_atnum abp) < NATTRDEF"
    using Cons.prems(3) by (simp add: NATTRDEF_def unat_of_nat)
  have "abbrev_attrs m data off abp = abbrev_attrs m data ?o2 ?abp"
    using r a0 room by (subst abbrev_attrs.simps) simp
  also have "\<dots> = cret (?o2 + of_nat (length (attrs_bytes ats)),
       ?abp\<lparr>ab_attrdef := ab_attrdef ?abp @ attrdefs_of ?o2 ats,
           ab_atnum := of_nat (length (ab_attrdef ?abp) + length ats)\<rparr>)"
    using h(3) Cons.prems by (intro Cons.IH) auto
  finally show ?case using enc by (simp add: af add.assoc)
qed

text \<open>\<open>byte_reader rd\<close>: a one-byte read returns the byte there; both byte orders are such readers.\<close>

definition byte_reader :: "reader \<Rightarrow> bool" where
  "byte_reader rd \<longleftrightarrow> (\<forall>m data off. rd m data off 1 = (ucast (m (data + off)), off + 1))"

lemma byte_readers [simp]: "byte_reader dwarf_read_lsb" "byte_reader dwarf_read_msb"
  by (simp_all add: byte_reader_def dwarf_read_lsb_def dwarf_read_msb_def lsb_value_def msb_value_def)

lemma decl_bytes_pos: "0 < length (decl_bytes d)"
  by (simp add: decl_bytes_def)

lemma abbrev_parse_encoded:
  assumes h: "holds m (ds_data ds + off) (decl_bytes d)" and d: "decl_ok d" and off: "off < ds_size ds"
    and rd: "byte_reader (dbg_read dbg)"
  shows "abbrev_parse m dbg off abp ds = cret (DW_DLV_OK, off + of_nat (length (decl_bytes d)), abbrev_of off d)"
proof -
  let ?c = "uleb_encode (decl_code d)" and ?t = "uleb_encode (decl_tag d)"
  let ?o1 = "off + of_nat (length ?c)"
  let ?o2 = "?o1 + of_nat (length ?t)"
  have h: "holds m (ds_data ds + off) ?c" "holds m (ds_data ds + ?o1) ?t" "m (ds_data ds + ?o2) = decl_children d"
    "holds m (ds_data ds + (?o2 + 1)) (attrs_bytes (decl_attrs d))"
    using h by (simp_all add: decl_bytes_def add.assoc)
  have r: "dwarf_read_uleb128 m (ds_data ds) off = Some (of_nat (decl_code d), ?o1)"
    "dwarf_read_uleb128 m (ds_data ds) ?o1 = Some (of_nat (decl_tag d), ?o2)"
    using read_uleb_encoded [OF h(1)] read_uleb_encoded [OF h(2)] d by (simp_all add: decl_ok_def)
  have c: "(of_nat (decl_code d) :: u64) \<noteq> 0" using d of_nat_neq_0 by (simp add: decl_ok_def)
  have b: "dbg_read dbg m (ds_data ds) ?o2 1 = (ucast (decl_children d), ?o2 + 1)"
    using rd h(3) by (simp add: byte_reader_def)
  let ?abp = "\<lparr>ab_entry = of_nat (decl_code d), ab_tag = of_nat (decl_tag d), ab_children = decl_children d,
      ab_offset = off, ab_length = 0, ab_atnum = 0, ab_attrdef = []\<rparr>"
  have a: "abbrev_attrs m (ds_data ds) (?o2 + 1) ?abp =
      cret (?o2 + 1 + of_nat (length (attrs_bytes (decl_attrs d))),
        ?abp\<lparr>ab_attrdef := attrdefs_of (?o2 + 1) (decl_attrs d), ab_atnum := of_nat (length (decl_attrs d))\<rparr>)"
    using abbrev_attrs_encoded [OF h(4), of ?abp] d by (simp add: decl_ok_def)
  have u: "(ucast (ucast (x :: u8) :: u64) :: u8) = x" for x
    by (rule bit_word_eqI) (auto simp: bit_simps)
  show ?thesis
    using off [unfolded not_le [symmetric]] c r b a u [of "decl_children d"]
    by (simp add: abbrev_parse_def Let_def abbrev_of_def decl_bytes_def ac_simps)
qed

lemma abbrev_search_encoded:
  "holds m (ds_data ds + off) (table_bytes ts) \<Longrightarrow> \<forall>d \<in> set ts. decl_ok d \<Longrightarrow>
   unat off + length (table_bytes ts) \<le> unat (ds_size ds) \<Longrightarrow> byte_reader (dbg_read dbg) \<Longrightarrow> 0 < e \<Longrightarrow> e < 2 ^ 31 \<Longrightarrow>
   \<exists>ab. abbrev_search m dbg ds (of_nat e) off abp =
     (case table_find off ts e of
        Some d \<Rightarrow> cret (DW_DLE_NONE, d)
      | None \<Rightarrow> cret (DW_DLE_NO_ENTRY, ab))"
proof (induction ts arbitrary: off abp)
  case Nil
  then have off: "off < ds_size ds" and z: "dwarf_read_uleb128 m (ds_data ds) off = Some (0, off + 1)"
    by (simp_all add: table_bytes_def word_less_nat_alt read_uleb_0)
  from off z of_nat_neq_0 [OF Nil.prems(5,6)] show ?case
    by (subst abbrev_search.simps) (auto simp: abbrev_parse_def)
next
  case (Cons d ts)
  let ?o = "off + of_nat (length (decl_bytes d))"
  have enc: "table_bytes (d # ts) = decl_bytes d @ table_bytes ts" by (simp add: table_bytes_def)
  have h: "holds m (ds_data ds + off) (decl_bytes d)" "holds m (ds_data ds + ?o) (table_bytes ts)"
    using Cons.prems(1) unfolding enc by (simp_all add: add.assoc)
  have len: "unat off + length (decl_bytes d) + length (table_bytes ts) \<le> unat (ds_size ds)"
    using Cons.prems(3) by (simp add: enc)
  then have "unat off < unat (ds_size ds)" using decl_bytes_pos [of d] by linarith
  then have off: "off < ds_size ds" by (simp add: word_less_nat_alt)
  have d: "decl_ok d" using Cons.prems(2) by simp
  have o: "unat ?o = unat off + length (decl_bytes d)"
    using len unat_lt64 [of "ds_size ds"] by (intro unat_add_less) linarith
  have p: "abbrev_parse m dbg off abp ds = cret (DW_DLV_OK, ?o, abbrev_of off d)"
    by (rule abbrev_parse_encoded [OF h(1) d off Cons.prems(4)])
  have eq: "(of_nat (decl_code d) :: u64) = of_nat e \<longleftrightarrow> decl_code d = e"
    and nz: "(of_nat (decl_code d) :: u64) \<noteq> 0"
    using d Cons.prems(6) of_nat_neq_0 [of "decl_code d"]
    by (auto simp: decl_ok_def word_of_nat_eq_iff take_bit_nat_eq_self)
  have step: "abbrev_search m dbg ds (of_nat e) off abp =
      (if decl_code d = e then cret (DW_DLE_NONE, abbrev_of off d)
       else abbrev_search m dbg ds (of_nat e) ?o (abbrev_of off d))"
    using off p eq nz by (subst abbrev_search.simps) (simp add: dw_codes abbrev_of_def)
  show ?case
  proof (cases "decl_code d = e")
    case False
    with Cons.IH [OF h(2), of "abbrev_of off d"] Cons.prems o len step show ?thesis by simp
  qed (simp add: step)
qed

section \<open>Entries and their siblings\<close>

definition in_cu :: "dwarf_debug \<Rightarrow> dwarf_cu \<Rightarrow> u64 \<Rightarrow> bool" where
  "in_cu dbg cu off \<longleftrightarrow> off < cu_next_offset cu \<and> off < dbg_info_size dbg"

text \<open>A null entry at \<open>off\<close>, and an entry there that is read in full, with the abbreviation it has.\<close>

definition null_at :: "mem \<Rightarrow> dwarf_debug \<Rightarrow> dwarf_cu \<Rightarrow> u64 \<Rightarrow> u64 \<Rightarrow> bool" where
  "null_at m dbg cu off off' \<longleftrightarrow>
     in_cu dbg cu off \<and> dwarf_read_uleb128 m (dbg_info_offset_elf dbg) off = Some (0, off')"

definition die_at ::
    "mem \<Rightarrow> dwarf_section list \<Rightarrow> dwarf_debug \<Rightarrow> dwarf_cu \<Rightarrow> u64 \<Rightarrow> dwarf_die \<Rightarrow> dwarf_abbrev \<Rightarrow> u64 \<Rightarrow> dwarf_die \<Rightarrow> bool" where
  "die_at m secs dbg cu off die ab off' die' \<longleftrightarrow>
     in_cu dbg cu off \<and>
     (case dwarf_read_uleb128 m (dbg_info_offset_elf dbg) off of
        None \<Rightarrow> False
      | Some (abnum, o1) \<Rightarrow>
          abnum \<noteq> 0 \<and> read_die m secs dbg cu off abnum o1 die = cret (DW_DLE_NONE, off', ab, die'))"

text \<open>
  A list of entries ended by a null entry, where an entry flagged as having children is followed by such a list
  of its own, nested at most \<open>k\<close> deep. \<open>die\<close> is the buffer the entries are read into, one after the other.
\<close>

inductive children ::
    "mem \<Rightarrow> dwarf_section list \<Rightarrow> dwarf_debug \<Rightarrow> dwarf_cu \<Rightarrow> nat \<Rightarrow> u64 \<Rightarrow> dwarf_die \<Rightarrow> u64 \<Rightarrow> dwarf_die \<Rightarrow> bool"
  for m secs dbg cu where
  null: "null_at m dbg cu off off' \<Longrightarrow> children m secs dbg cu k off die off' die"
| leaf: "die_at m secs dbg cu off die ab o1 d1 \<Longrightarrow> ab_children ab \<noteq> 0x01 \<Longrightarrow> children m secs dbg cu k o1 d1 off' die'
    \<Longrightarrow> children m secs dbg cu k off die off' die'"
| node: "die_at m secs dbg cu off die ab o1 d1 \<Longrightarrow> ab_children ab = 0x01 \<Longrightarrow> children m secs dbg cu k o1 d1 o2 d2
    \<Longrightarrow> children m secs dbg cu (Suc k) o2 d2 off' die' \<Longrightarrow> children m secs dbg cu (Suc k) off die off' die'"

lemma search_null:
  assumes "null_at m dbg cu off off'"
  shows "search_die m secs dbg cu True level off die =
    (if level = 0 then cret (DW_DLE_NO_ENTRY, die) else search_die m secs dbg cu True (level - 1) off' die)"
  using assms by (subst search_die.simps) (simp add: null_at_def in_cu_def)

lemma search_entry:
  assumes "die_at m secs dbg cu off die ab off' die'"
  shows "search_die m secs dbg cu sib level off die =
    (if sib \<and> 0 <s level then
       search_die m secs dbg cu sib (if ab_children ab = 0x01 then level + 1 else level) off' die'
     else cret (DW_DLE_NONE, die'))"
  using assms by (subst search_die.simps) (auto simp: die_at_def in_cu_def dw_codes split: option.splits)

lemma level_pos: "0 < n \<Longrightarrow> n < 2147483648 \<Longrightarrow> 0 <s (of_nat n :: i32)"
  by (simp add: word_sless_alt sint32_of_nat)

lemma search_children:
  assumes "children m secs dbg cu k off die off' die'" and "n + k < 2147483647"
  shows "search_die m secs dbg cu True (of_nat (Suc n)) off die = search_die m secs dbg cu True (of_nat n) off' die'"
  using assms
proof (induction arbitrary: n rule: children.induct)
  case (null off off' k die)
  then have "(of_nat (Suc n) :: i32) \<noteq> 0"
    using level_pos [of "Suc n"] by (auto simp: word_sless_alt)
  then show ?case by (simp only: search_null [OF null(1)] if_False) simp
next
  case (leaf off die ab o1 d1 k off' die')
  then have "0 <s (of_nat (Suc n) :: i32)" by (intro level_pos) auto
  then have "search_die m secs dbg cu True (of_nat (Suc n)) off die
      = search_die m secs dbg cu True (of_nat (Suc n)) o1 d1"
    using search_entry [OF leaf(1), of True "of_nat (Suc n)"] leaf(2) by simp
  with leaf show ?case by simp
next
  case (node off die ab o1 d1 k o2 d2 off' die')
  then have pos: "0 <s (of_nat (Suc n) :: i32)" by (intro level_pos) auto
  have "search_die m secs dbg cu True (of_nat (Suc n)) off die
      = search_die m secs dbg cu True (of_nat (Suc n) + 1) o1 d1"
    using search_entry [OF node(1), of True "of_nat (Suc n)"] node(2) pos by simp
  also have "of_nat (Suc n) + 1 = (of_nat (Suc (Suc n)) :: i32)" by simp
  also have "search_die m secs dbg cu True (of_nat (Suc (Suc n))) o1 d1
      = search_die m secs dbg cu True (of_nat (Suc n)) o2 d2"
    using node.prems by (intro node.IH(1)) simp
  also have "\<dots> = search_die m secs dbg cu True (of_nat n) off' die'"
    using node.prems by (intro node.IH(2)) simp
  finally show ?case .
qed

text \<open>What reading one attribute, and all attributes of an abbreviation, does to the entry.\<close>

definition die_frame :: "dwarf_die \<Rightarrow> dwarf_die \<Rightarrow> bool" where
  "die_frame d d' \<longleftrightarrow> die_offset d' = die_offset d \<and> die_abnum d' = die_abnum d \<and> die_tag d' = die_tag d
     \<and> die_ab d' = die_ab d \<and> cu_header d' = cu_header d"

definition attrs_added :: "dwarf_attrdef list \<Rightarrow> dwarf_die \<Rightarrow> dwarf_die \<Rightarrow> bool" where
  "attrs_added ads d d' \<longleftrightarrow> die_frame d d' \<and>
     (\<exists>ats. map at_attrib ats = map ad_attrib ads \<and> map at_form ats = map ad_form ads
        \<and> take (unat (die_attr_count d')) (die_attr d') = take (unat (die_attr_count d)) (die_attr d) @ ats)
     \<and> unat (die_attr_count d') = unat (die_attr_count d) + length ads
     \<and> unat (die_attr_count d') \<le> NATTRVAL
     \<and> (0x03 \<notin> ad_attrib ` set ads \<longrightarrow> die_name d' = die_name d)"

definition attrs_filled :: "dwarf_die \<Rightarrow> bool" where
  "attrs_filled d \<longleftrightarrow> unat (die_attr_count d) \<le> length (die_attr d) \<and> unat (die_attr_count d) \<le> NATTRVAL"

lemma attrs_added_filled: "attrs_added ads d d' \<Longrightarrow> attrs_filled d \<Longrightarrow> attrs_filled d'"
proof -
  assume a: "attrs_added ads d d'" and f: "attrs_filled d"
  from a [unfolded attrs_added_def] obtain ats where ats: "map at_attrib ats = map ad_attrib ads"
    "take (unat (die_attr_count d')) (die_attr d') = take (unat (die_attr_count d)) (die_attr d) @ ats"
    by blast
  have "length ats = length ads" using ats(1) map_eq_imp_length_eq by blast
  with arg_cong [OF ats(2), of length] a f show ?thesis
    by (auto simp: attrs_added_def attrs_filled_def)
qed

lemma attrs_added_Nil: "attrs_filled d \<Longrightarrow> attrs_added [] d d"
  by (simp add: attrs_added_def attrs_filled_def die_frame_def)

lemma attrs_added_trans:
  assumes 1: "attrs_added as d d1" and 2: "attrs_added bs d1 d2"
  shows "attrs_added (as @ bs) d d2"
proof -
  from 1 [unfolded attrs_added_def] 2 [unfolded attrs_added_def] obtain xs ys where
    "map at_attrib xs = map ad_attrib as" "map at_form xs = map ad_form as"
    "map at_attrib ys = map ad_attrib bs" "map at_form ys = map ad_form bs"
    "take (unat (die_attr_count d1)) (die_attr d1) = take (unat (die_attr_count d)) (die_attr d) @ xs"
    "take (unat (die_attr_count d2)) (die_attr d2) = take (unat (die_attr_count d1)) (die_attr d1) @ ys"
    by blast
  then have "\<exists>ats. map at_attrib ats = map ad_attrib (as @ bs) \<and> map at_form ats = map ad_form (as @ bs)
      \<and> take (unat (die_attr_count d2)) (die_attr d2) = take (unat (die_attr_count d)) (die_attr d) @ ats"
    by (intro exI [of _ "xs @ ys"]) simp
  with 1 2 show ?thesis by (auto simp: attrs_added_def die_frame_def)
qed

lemma add_attr_ok:
  assumes d: "attrs_filled d" and at: "at_attrib at = ad_attrib ad" "at_form at = ad_form ad"
    and n: "d1 = d \<or> ad_attrib ad = 0x03 \<and> d1 = d\<lparr>die_name := nm\<rparr>"
  shows "ok (\<lambda>d'. attrs_added [ad] d d') (add_attr d1 at)"
proof (cases "unat (die_attr_count d1) < NATTRVAL")
  case True
  have c: "die_attr_count d1 = die_attr_count d" "die_attr d1 = die_attr d" using n by auto
  then have "unat (die_attr_count d + 1) = unat (die_attr_count d) + 1"
    using True by (simp add: NATTRVAL_def unat_word_ariths)
  with True d at n show ?thesis
    by (auto simp: add_attr_def attrs_added_def die_frame_def attrs_filled_def min_def intro!: exI [of _ "[at]"])
qed (simp add: add_attr_def)

lemma attr_init_ok:
  assumes "attrs_filled die"
  shows "ok (\<lambda>(ret, off', die'). ret = DW_DLE_NONE \<longrightarrow> attrs_added [ad] die die')
    (attr_init m secs dbg off cu die ad form indirect)"
proof (rule ok_of_Some)
  let ?Q = "\<lambda>ad die (ret, off', die'). ret = DW_DLE_NONE \<longrightarrow> attrs_added [ad] die die'"
  fix y assume y: "attr_init m secs dbg off cu die ad form indirect = Some y"
  let ?P = "\<lambda>m secs dbg off cu die ad form indirect y. attrs_filled die \<longrightarrow> ok (?Q ad die) (Some y)"
  have "?P m secs dbg off cu die ad form indirect y"
  proof (rule attr_init.raw_induct [where P = ?P, OF _ y])
    fix f :: "mem \<Rightarrow> dwarf_section list \<Rightarrow> dwarf_debug \<Rightarrow> u64 \<Rightarrow> dwarf_cu \<Rightarrow> dwarf_die \<Rightarrow> dwarf_attrdef \<Rightarrow> u64 \<Rightarrow> i32
        \<Rightarrow> (i32 \<times> u64 \<times> dwarf_die) cres"
      and m secs dbg off cu die ad form indirect y
    assume IH: "\<And>m secs dbg off cu die ad form indirect y.
        f m secs dbg off cu die ad form indirect = Some y \<Longrightarrow> ?P m secs dbg off cu die ad form indirect y"
      and eq: "cbind (find_section secs ''.debug_info'') (\<lambda>ds.
       if form = 0x16 then
         cbind (clift (dwarf_read_uleb128 m (ds_data ds) off)) (\<lambda>(form, off).
           f m secs dbg off cu die ad form 1)
       else
         cbind (read_form m secs dbg cu ds form off) (\<lambda>(ret, off, u0, u1).
           if ret = DW_DLE_NONE then
             let isblock = (form = 0x09 \<or> form = 0x0a \<or> form = 0x03 \<or> form = 0x04);
                 at = \<lparr>at_attrib = ad_attrib ad, at_form = ad_form ad, at_indirect = indirect, at_u0 = u0, at_u1 = u1,
                       bl_len = (if isblock then u0 else 0), bl_data = (if isblock then u1 else 0)\<rparr>;
                 die = (if at_attrib at = 0x03 \<and> at_form at = 0x0e then die\<lparr>die_name := u1\<rparr>
                        else if at_attrib at = 0x03 \<and> at_form at = 0x08 then die\<lparr>die_name := u0\<rparr>
                        else die)
             in cbind (add_attr die at) (\<lambda>die. cret (ret, off, die))
           else cret (ret, off, die))) = Some y"
    show "?P m secs dbg off cu die ad form indirect y"
    proof
      assume d: "attrs_filled die"
      have rec: "ok (?Q ad die) (f m secs dbg off cu die ad form 1)" for form off
        by (rule ok_of_Some) (use IH d in blast)
      have add: "ok (?Q ad die) (cbind (add_attr d1 at) (\<lambda>d. cret (ret, off, d)))"
        if "at_attrib at = ad_attrib ad" "at_form at = ad_form ad"
          "d1 = die \<or> ad_attrib ad = 0x03 \<and> d1 = die\<lparr>die_name := nm\<rparr>" for at d1 ret off nm
        by (rule ok_bind [OF add_attr_ok [OF d that]]) simp
      have val: "ok (?Q ad die) (let isblock = b;
                 at = \<lparr>at_attrib = ad_attrib ad, at_form = ad_form ad, at_indirect = indirect, at_u0 = u0, at_u1 = u1,
                       bl_len = (if isblock then u0 else 0), bl_data = (if isblock then u1 else 0)\<rparr>;
                 die = (if at_attrib at = 0x03 \<and> at_form at = 0x0e then die\<lparr>die_name := u1\<rparr>
                        else if at_attrib at = 0x03 \<and> at_form at = 0x08 then die\<lparr>die_name := u0\<rparr>
                        else die)
             in cbind (add_attr die at) (\<lambda>die. cret (ret, off, die)))" for u0 u1 ret off b
        unfolding Let_def by (rule add [of _ _ "if ad_form ad = 0x0e then u1 else u0"]) auto
      show "ok (?Q ad die) (Some y)"
        unfolding eq [symmetric]
        apply (intro ok_bind_any ok_if)
         apply (simp only: split: prod.split, intro allI impI rec)
        apply (simp only: split: prod.split, intro allI impI ok_if val)
        apply simp
        done
    qed
  qed
  with assms show "ok (?Q ad die) (Some y)" by blast
qed

lemma attr_inits_ok:
  "attrs_filled die \<Longrightarrow> ok (\<lambda>(ret, off', die'). ret = DW_DLE_NONE \<longrightarrow> attrs_added ads die die')
     (attr_inits m secs dbg cu ads off die)"
proof (induction ads arbitrary: off die)
  case (Cons ad ads)
  have "ok (\<lambda>(ret, off', die'). ret = DW_DLE_NONE \<longrightarrow> attrs_added (ad # ads) die die')
      (attr_inits m secs dbg cu ads off1 die1)" if "attrs_added [ad] die die1" for off1 die1
    using Cons.IH [OF attrs_added_filled [OF that Cons.prems], of off1] attrs_added_trans [OF that, of ads]
    by (auto elim!: ok_mono)
  with attr_init_ok [OF Cons.prems, of ad m secs dbg off cu "ad_form ad" 0] show ?case
    by (auto elim!: ok_bind)
qed (simp add: attrs_added_Nil)

lemma abbrev_search_entry: "ok (\<lambda>(ret, ab). ret = DW_DLE_NONE \<longrightarrow> ab_entry ab = entry) (abbrev_search m dbg ds entry off abp)"
proof (rule ok_of_Some)
  let ?Q = "\<lambda>entry (ret, ab). ret = DW_DLE_NONE \<longrightarrow> ab_entry ab = entry"
  fix y assume y: "abbrev_search m dbg ds entry off abp = Some y"
  let ?P = "\<lambda>m dbg ds entry off abp y. ok (?Q entry) (Some y)"
  show "?P m dbg ds entry off abp y"
  proof (rule abbrev_search.raw_induct [where P = ?P, OF _ y])
    fix f :: "mem \<Rightarrow> dwarf_debug \<Rightarrow> dwarf_section \<Rightarrow> u64 \<Rightarrow> u64 \<Rightarrow> dwarf_abbrev \<Rightarrow> (i32 \<times> dwarf_abbrev) cres"
      and m dbg ds entry off abp y
    assume IH: "\<And>m dbg ds entry off abp y. f m dbg ds entry off abp = Some y \<Longrightarrow> ?P m dbg ds entry off abp y"
      and eq: "(if off < ds_size ds then
        cbind (abbrev_parse m dbg off abp ds) (\<lambda>(ret, off, abp).
          if ret \<noteq> DW_DLE_NONE then cret (ret, abp)
          else if ab_entry abp = entry then cret (DW_DLE_NONE, abp)
          else if ab_entry abp = 0 then cret (DW_DLE_NO_ENTRY, abp)
          else f m dbg ds entry off abp)
      else cret (DW_DLE_NO_ENTRY, abp)) = Some y"
    have rec: "ok (?Q entry) (f m dbg ds entry off abp)" for off abp
      by (rule ok_of_Some) (rule IH)
    show "ok (?Q entry) (Some y)"
      unfolding eq [symmetric]
      by (intro ok_if ok_bind_any) (auto simp: dw_codes rec [unfolded dw_codes] split: prod.split)
  qed
qed

lemma read_die_ok:
  "ok (\<lambda>(ret, off', ab, d). ret = DW_DLE_NONE \<longrightarrow>
       ab_entry ab = abnum \<and> die_ab d = ab \<and> die_offset d = die_off \<and> die_abnum d = abnum \<and> die_tag d = ab_tag ab
       \<and> die_next_off d = off' \<and> cu_header d = cu_header die
       \<and> unat (die_attr_count d) = length (ab_attrdef ab) \<and> length (ab_attrdef ab) \<le> NATTRVAL
       \<and> map at_attrib (take (unat (die_attr_count d)) (die_attr d)) = map ad_attrib (ab_attrdef ab)
       \<and> map at_form (take (unat (die_attr_count d)) (die_attr d)) = map ad_form (ab_attrdef ab)
       \<and> (0x03 \<notin> ad_attrib ` set (ab_attrdef ab) \<longrightarrow> die_name d = die_name die))
     (read_die m secs dbg cu die_off abnum off die)" (is "ok ?Q _")
proof -
  have find: "ok (\<lambda>(ret, ab). ret = DW_DLE_NONE \<longrightarrow> ab_entry ab = abnum) (abbrev_find m secs dbg cu abnum abbrev0)"
    by (auto simp: abbrev_find_def dw_codes abbrev_search_entry [unfolded dw_codes] split: option.split)
  have rest: "ok ?Q (cbind (attr_inits m secs dbg cu (ab_attrdef ab) off (die\<lparr>die_offset := die_off,
      die_abnum := abnum, die_ab := ab, die_attr_count := 0, die_tag := ab_tag ab\<rparr>)) (\<lambda>(ret, off, die).
        if ret \<noteq> DW_DLE_NONE then cret (ret, off, ab, die)
        else cret (DW_DLE_NONE, off, ab, die\<lparr>die_next_off := off\<rparr>)))" if "ab_entry ab = abnum" for ab
    using that
    by (intro ok_bind [OF attr_inits_ok])
      (auto simp: attrs_filled_def attrs_added_def die_frame_def intro!: ok_if)
  show ?thesis
    unfolding read_die_def
    by (rule ok_bind [OF find]) (simp add: Let_def rest [simplified] split: prod.splits)
qed

section \<open>An example file\<close>

declare read_leb_loop.simps [code] abbrev_attrs.simps [code] abbrev_search.simps [code] attr_init.simps [code]
  search_die.simps [code]

definition demo_table :: "abbrev_decl list" where
  "demo_table =
     [\<lparr>decl_code = 1, decl_tag = 0x2e, decl_children = 1, decl_attrs = [(0x3f, 0x0c)]\<rparr>,
      \<lparr>decl_code = 2, decl_tag = 0x34, decl_children = 0, decl_attrs = [(0x0b, 0x0b)]\<rparr>]"

text \<open>A unit with a subprogram that has two variables as children, and a variable after it.\<close>

definition demo_info :: "u8 list" where
  "demo_info = [17, 0, 0, 0, 2, 0, 0, 0, 0, 0, 8, 1, 1, 2, 5, 2, 6, 0, 2, 7, 0]"

definition demo_dwarf :: mem where
  "demo_dwarf = write_bytes (write_bytes (\<lambda>_. 0) 0x1000 demo_info) 0x2000 (table_bytes demo_table)"

definition demo_sections :: "dwarf_section list" where
  "demo_sections =
     [\<lparr>ds_name = ascii ''.debug_info'', ds_data = 0x1000, ds_addr = 0, ds_size = 21\<rparr>,
      \<lparr>ds_name = ascii ''.debug_abbrev'', ds_data = 0x2000, ds_addr = 0, ds_size = 15\<rparr>]"

definition demo_dbg :: dwarf_debug where
  "demo_dbg =
     \<lparr>curr_off_dbginfo = 0, dbg_info_offset_elf = 0x1000, dbg_info_size = 21, dbg_read = dwarf_read_lsb,
      dbg_decode = dwarf_decode_lsb, dbg_pointer_size = 8, dbg_eh_offset = 0, dbg_eh_size = 0,
      dbg_frame_rule_table_size = 66, dbg_frame_rule_initial_value = 1035, dbg_frame_cfa_value = 1436,
      dbg_frame_same_value = 1035, dbg_frame_undefined_value = 1034\<rparr>"

definition demo_cu :: dwarf_cu where
  "demo_cu =
     \<lparr>cu_length = 17, cu_version = 2, addr_size = 8, debug_abbrev_offset = 0, cu_length_size = 4, cu_dwarf_size = 4,
      cu_next_offset = 21, cu_die_offset = 11, cu_offset = 0\<rparr>"

definition die0 :: dwarf_die where
  "die0 = \<lparr>die_offset = 0, die_next_off = 0, die_abnum = 0, die_tag = 0, die_ab = abbrev0, die_name = 0,
     die_attr_count = 0, cu_header = demo_cu, die_attr = []\<rparr>"

section \<open>Properties\<close>

text \<open>
  C23. Unit headers in the 32-bit format, in either byte order: \<^verbatim>\<open>_get_next_cu\<close> returns 0 exactly for versions 2 to 4;
  it then fills in every field of the unit from the header and moves to the unit that follows. Beyond the end of
  the section it returns -1 and changes nothing.
\<close>

theorem get_next_cu_parses:
  assumes "(dbg_read dbg, val) = (dwarf_read_lsb, le_val) \<or> (dbg_read dbg, val) = (dwarf_read_msb, \<lambda>bs. le_val (rev bs))"
    and "data = dbg_info_offset_elf dbg" and "off = curr_off_dbginfo dbg"
    and "len = val (bytes m (data + off) 4)" and "len < 0xffffffff" and "ver = val (bytes m (data + off + 4) 2)"
  shows "(off \<le> dbg_info_size dbg \<and> 2 \<le> ver \<and> ver \<le> 4 \<longrightarrow> get_next_cu m dbg cu =
        (0, dbg\<lparr>curr_off_dbginfo := off + 4 + of_nat len\<rparr>, cu_of_header val m data off))
     \<and> (off \<le> dbg_info_size dbg \<and> \<not> (2 \<le> ver \<and> ver \<le> 4) \<longrightarrow> fst (get_next_cu m dbg cu) = - 1)
     \<and> (dbg_info_size dbg < off \<longrightarrow> get_next_cu m dbg cu = (- 1, dbg, cu))"
  using assms lsb.get_next_cu_header [of dbg off len m ver cu] msb.get_next_cu_header [of dbg off len m ver cu]
    lsb.get_next_cu_bad_version [of dbg off m ver cu] msb.get_next_cu_bad_version [of dbg off m ver cu]
  by (auto simp: get_next_cu_def)

theorem get_next_cu_parses_witness:
  "get_next_cu demo_dwarf demo_dbg demo_cu = (0, demo_dbg\<lparr>curr_off_dbginfo := 21\<rparr>, demo_cu)
   \<and> get_next_cu demo_dwarf (demo_dbg\<lparr>curr_off_dbginfo := 22\<rparr>) demo_cu
     = (- 1, demo_dbg\<lparr>curr_off_dbginfo := 22\<rparr>, demo_cu)"
proof -
  have b: "le_val (bytes demo_dwarf 0x1000 4) = 17" "le_val (bytes demo_dwarf 0x1004 2) = 2" by code_simp+
  have h: "cu_of_header le_val demo_dwarf 0x1000 0 = demo_cu" by code_simp
  have z: "le_val (bytes demo_dwarf 0x1016 4) = 0" by code_simp
  show ?thesis
    using get_next_cu_parses [of demo_dbg le_val "0x1000" 0 17 demo_dwarf 2 demo_cu]
      get_next_cu_parses [of "demo_dbg\<lparr>curr_off_dbginfo := 22\<rparr>" le_val "0x1000" 22 0 demo_dwarf _ demo_cu, OF _ _ _ _ _ refl]
    by (simp add: b h z) (simp add: demo_dbg_def z)
qed

text \<open>
  The end test of \<^verbatim>\<open>_get_next_cu\<close> is off by one: when the last unit ends exactly at the end of the section, as
  units do, the next call reads a header from the bytes behind the section. On the example, followed
  by a copy of itself in memory, it reports that copy as one more unit.
\<close>

theorem get_next_cu_reads_past_end:
  "dbg_info_size demo_dbg = 21
   \<and> fst (get_next_cu (write_bytes demo_dwarf (0x1000 + 21) demo_info) (demo_dbg\<lparr>curr_off_dbginfo := 21\<rparr>) demo_cu) = 0
   \<and> cu_offset (snd (snd (get_next_cu (write_bytes demo_dwarf (0x1000 + 21) demo_info)
       (demo_dbg\<lparr>curr_off_dbginfo := 21\<rparr>) demo_cu))) = 21"
  by code_simp

text \<open>
  C21. Abbreviation tables round trip: in a section that holds the encoding of a list of declarations (codes, tags,
  attribute names and forms below \<open>2 ^ 31\<close>, at most 32 attributes each) at the unit's offset, \<^verbatim>\<open>_dwarf_abbrev_find\<close>
  returns the first declaration with the wanted code, with all its attributes and offsets, and reports
  \<^verbatim>\<open>DW_DLE_NO_ENTRY\<close> when there is none. In particular it returns.
\<close>

theorem abbrev_table_roundtrip:
  assumes "dwarf_find_section secs ''.debug_abbrev'' = Some ds"
    and "holds m (ds_data ds + debug_abbrev_offset cu) (table_bytes ts)" and "\<forall>d \<in> set ts. decl_ok d"
    and "unat (debug_abbrev_offset cu) + length (table_bytes ts) \<le> unat (ds_size ds)"
    and "dbg_read dbg = dwarf_read_lsb \<or> dbg_read dbg = dwarf_read_msb" and "0 < e" and "e < 2 ^ 31"
  shows "\<exists>ab. abbrev_find m secs dbg cu (of_nat e) abp =
     (case table_find (debug_abbrev_offset cu) ts e of
        Some d \<Rightarrow> cret (DW_DLE_NONE, d)
      | None \<Rightarrow> cret (DW_DLE_NO_ENTRY, ab))"
proof -
  have "byte_reader (dbg_read dbg)" using assms(5) by auto
  from abbrev_search_encoded [OF assms(2,3,4) this assms(6,7)] assms(1) of_nat_neq_0 [OF assms(6,7)]
  show ?thesis by (simp add: abbrev_find_def)
qed

theorem abbrev_table_roundtrip_witness:
  "abbrev_find demo_dwarf demo_sections demo_dbg demo_cu 2 abbrev0 = cret (DW_DLE_NONE, abbrev_of 7 (demo_table ! 1))"
proof -
  have "dwarf_find_section demo_sections ''.debug_abbrev'' = Some (demo_sections ! 1)" by code_simp
  moreover have "holds demo_dwarf (ds_data (demo_sections ! 1) + debug_abbrev_offset demo_cu) (table_bytes demo_table)"
    by code_simp
  moreover have "\<forall>d \<in> set demo_table. decl_ok d" by (simp add: demo_table_def decl_ok_def NATTRDEF_def)
  moreover have "unat (debug_abbrev_offset demo_cu) + length (table_bytes demo_table) \<le> unat (ds_size (demo_sections ! 1))"
    by code_simp
  ultimately have "\<exists>ab. abbrev_find demo_dwarf demo_sections demo_dbg demo_cu (of_nat 2) abbrev0 =
      (case table_find (debug_abbrev_offset demo_cu) demo_table 2 of
         Some d \<Rightarrow> cret (DW_DLE_NONE, d) | None \<Rightarrow> cret (DW_DLE_NO_ENTRY, ab))"
    by (rule abbrev_table_roundtrip) (simp_all add: demo_dbg_def)
  moreover have "table_find (debug_abbrev_offset demo_cu) demo_table 2 = Some (abbrev_of 7 (demo_table ! 1))" by code_simp
  ultimately show ?thesis by simp
qed

text \<open>
  What an entry holds once \<^verbatim>\<open>dwarf_search_die_within_cu\<close> has read it: the abbreviation with the entry's number, that
  abbreviation's tag, its attributes by name and form and in order, never more than the 120 the
  structure has room for, and the offset just past it; \<^verbatim>\<open>_dwarf_attr_find\<close> finds an attribute exactly
  when the abbreviation has it. The name is not reset: an entry without \<^verbatim>\<open>DW_AT_name\<close> keeps the name of the entry read
  into the buffer before it.
\<close>

theorem entry_read:
  assumes "read_die m secs dbg cu die_off abnum off die = cret (DW_DLE_NONE, off', ab, d)"
  shows "ab_entry ab = abnum \<and> die_ab d = ab \<and> die_offset d = die_off \<and> die_tag d = ab_tag ab \<and> die_next_off d = off'
     \<and> unat (die_attr_count d) = length (ab_attrdef ab) \<and> length (ab_attrdef ab) \<le> NATTRVAL
     \<and> map at_attrib (take (unat (die_attr_count d)) (die_attr d)) = map ad_attrib (ab_attrdef ab)
     \<and> map at_form (take (unat (die_attr_count d)) (die_attr d)) = map ad_form (ab_attrdef ab)
     \<and> (\<forall>a. attr_find d a = None \<longleftrightarrow> ucast a \<notin> ad_attrib ` set (ab_attrdef ab))
     \<and> (0x03 \<notin> ad_attrib ` set (ab_attrdef ab) \<longrightarrow> die_name d = die_name die)"
proof -
  note r = okD [OF read_die_ok assms, simplified]
  then have names: "ad_attrib ` set (ab_attrdef ab) = at_attrib ` set (take (unat (die_attr_count d)) (die_attr d))"
    by (metis list.set_map)
  have "attr_find d a = None \<longleftrightarrow> ucast a \<notin> ad_attrib ` set (ab_attrdef ab)" for a
    unfolding attr_find_def find_None_iff names by (metis (no_types, lifting) image_iff)
  with r show ?thesis by auto
qed

text \<open>The entries of the example as they are read: the variable with the value \<open>v\<close> at \<open>off\<close>, and the subprogram.\<close>

definition demo_var :: "u64 \<Rightarrow> u64 \<Rightarrow> dwarf_die" where
  "demo_var off v =
     \<lparr>die_offset = off, die_next_off = off + 2, die_abnum = 2, die_tag = 0x34, die_ab = abbrev_of 7 (demo_table ! 1),
      die_name = 0, die_attr_count = 1, cu_header = demo_cu,
      die_attr = [\<lparr>at_attrib = 0x0b, at_form = 0x0b, at_indirect = 0, at_u0 = v, at_u1 = 0, bl_len = 0, bl_data = 0\<rparr>]\<rparr>"

definition demo_func :: dwarf_die where
  "demo_func =
     \<lparr>die_offset = 11, die_next_off = 13, die_abnum = 1, die_tag = 0x2e, die_ab = abbrev_of 0 (demo_table ! 0),
      die_name = 0, die_attr_count = 1, cu_header = demo_cu,
      die_attr = [\<lparr>at_attrib = 0x3f, at_form = 0x0c, at_indirect = 0, at_u0 = 1, at_u1 = 0, bl_len = 0, bl_data = 0\<rparr>]\<rparr>"

theorem entry_read_witness:
  "read_die demo_dwarf demo_sections demo_dbg demo_cu 13 2 14 die0
     = cret (DW_DLE_NONE, 15, abbrev_of 7 (demo_table ! 1), (demo_var 13 5))
   \<and> die_tag (demo_var 13 5) = 0x34 \<and> attr_find (demo_var 13 5) 0x0b \<noteq> None \<and> attr_find (demo_var 13 5) 0x01 = None"
proof -
  have r: "read_die demo_dwarf demo_sections demo_dbg demo_cu 13 2 14 die0
      = cret (DW_DLE_NONE, 15, abbrev_of 7 (demo_table ! 1), (demo_var 13 5))" by code_simp
  have t: "ab_tag (abbrev_of 7 (demo_table ! 1)) = 0x34" "ad_attrib ` set (ab_attrdef (abbrev_of 7 (demo_table ! 1))) = {0x0b}"
    by (simp_all add: abbrev_of_def demo_table_def)
  have f: "attr_find (demo_var 13 5) a = None \<longleftrightarrow> ucast a \<noteq> (0x0b :: u64)" for a using entry_read [OF r] t by auto
  show ?thesis using entry_read [OF r] t r f [of "0x0b"] f [of "0x01"] by simp
qed

text \<open>
  C16. Siblings: for an entry with children and no \<^verbatim>\<open>DW_AT_sibling\<close> attribute, \<^verbatim>\<open>dwarf_siblingof\<close> skips the whole list of its
  children, nested lists included, and returns the entry behind it, or \<^verbatim>\<open>DW_DLV_NO_ENTRY\<close> when a null
  entry is there instead.
\<close>

theorem sibling_skips_children:
  assumes "ab_children (die_ab d) \<noteq> 0" and "attr_find d 0x01 = None"
    and "children m secs dbg cu k (die_next_off d) tmp off' tmp'" and "k < 2 ^ 31 - 1"
  shows "(die_at m secs dbg cu off' tmp' ab off'' sib \<longrightarrow>
        dwarf_siblingof m secs dbg (Some d) tmp cu = cret (DW_DLV_OK, sib))
     \<and> (null_at m dbg cu off' off'' \<longrightarrow> dwarf_siblingof m secs dbg (Some d) tmp cu = cret (DW_DLV_NO_ENTRY, tmp'))"
proof -
  have "search_die m secs dbg cu True 1 (die_next_off d) tmp = search_die m secs dbg cu True 0 off' tmp'"
    using search_children [OF assms(3), of 0] assms(4) by simp
  then have "dwarf_siblingof m secs dbg (Some d) tmp cu =
      cbind (search_die m secs dbg cu True 0 off' tmp') (\<lambda>(ret, die). cret (dlv_result ret, die))"
    using assms(1,2) by (simp add: dwarf_siblingof_def sibling_start_def dwarf_search_die_within_cu_def)
  moreover have "die_at m secs dbg cu off' tmp' ab off'' sib \<Longrightarrow>
      search_die m secs dbg cu True 0 off' tmp' = cret (DW_DLE_NONE, sib)"
    by (simp add: search_entry)
  moreover have "null_at m dbg cu off' off'' \<Longrightarrow> search_die m secs dbg cu True 0 off' tmp' = cret (DW_DLE_NO_ENTRY, tmp')"
    by (simp add: search_null)
  ultimately show ?thesis by (simp add: dlv_result_def dw_codes)
qed

theorem sibling_skips_children_witness:
  "dwarf_siblingof demo_dwarf demo_sections demo_dbg (Some demo_func) die0 demo_cu = cret (DW_DLV_OK, demo_var 18 7)"
proof -
  let ?ab = "abbrev_of 7 (demo_table ! 1)"
  have e: "die_at demo_dwarf demo_sections demo_dbg demo_cu 13 die0 ?ab 15 (demo_var 13 5)"
    "die_at demo_dwarf demo_sections demo_dbg demo_cu 15 (demo_var 13 5) ?ab 17 (demo_var 15 6)"
    "die_at demo_dwarf demo_sections demo_dbg demo_cu 18 (demo_var 15 6) ?ab 20 (demo_var 18 7)"
    "null_at demo_dwarf demo_dbg demo_cu 17 18" by code_simp+
  have leaf: "ab_children ?ab \<noteq> 0x01" by code_simp
  have d: "ab_children (die_ab demo_func) \<noteq> 0" "attr_find demo_func 0x01 = None" by code_simp+
  have "children demo_dwarf demo_sections demo_dbg demo_cu 0 13 die0 18 (demo_var 15 6)"
    by (rule children.leaf [OF e(1) leaf], rule children.leaf [OF e(2) leaf], rule children.null [OF e(4)])
  then have "children demo_dwarf demo_sections demo_dbg demo_cu 0 (die_next_off demo_func) die0 18 (demo_var 15 6)"
    by (simp add: demo_func_def)
  from sibling_skips_children [OF d this] e(3) show ?thesis by auto
qed

end
