(* ===== verification/Dwarf_Line.thy ===== *)
theory Dwarf_Line
  imports Dwarf_Info
begin

text \<open>
  \<^verbatim>\<open>kern/libdwarf_lineno.c\<close>: the line number program of a unit, run up to the row that covers a given address.

  The registers of the line number machine are a record; \<^verbatim>\<open>isa\<close>, which is assigned and never read, is left
  out. A special opcode with a line range of 0 divides by 0, which C leaves undefined.

  The second half defines the instructions of the standard, their encoding and the rows they denote, and shows that
  running the encoding finds the row of the denoted table.
\<close>

section \<open>Definitions\<close>

record dwarf_line =
  ln_addr :: u64
  ln_symndx :: u64
  ln_fileno :: u64
  ln_lineno :: u64
  ln_column :: i64
  ln_bblock :: i32
  ln_stmt :: i32
  ln_endseq :: i32

record dwarf_lineinfo =
  li_length :: u64
  li_version :: u16
  li_hdrlen :: u64
  li_minlen :: u8
  li_defstmt :: u8
  li_lbase :: u8
  li_lrange :: u8
  li_opbase :: u8
  li_oplen :: "u8 list"
  li_inclen :: u64
  li_line :: dwarf_line
  li_lnlen :: u64

record line_regs =
  address :: u64
  lfile :: u64
  line :: u64
  column :: u64
  is_stmt :: i32
  basic_block :: i32
  end_sequence :: i32
  prologue_end :: i32
  epilogue_begin :: i32

definition reset_registers :: "dwarf_lineinfo \<Rightarrow> line_regs" where
  "reset_registers li =
     \<lparr>address = 0, lfile = 1, line = 1, column = 0, is_stmt = ucast (li_defstmt li), basic_block = 0, end_sequence = 0,
      prologue_end = 0, epilogue_begin = 0\<rparr>"

text \<open>\<^verbatim>\<open>APPEND_ROW\<close>: \<open>None\<close> is its early return, taken when the row lies beyond \<^verbatim>\<open>pc\<close>.\<close>

definition row_of :: "line_regs \<Rightarrow> dwarf_line" where
  "row_of r =
     \<lparr>ln_addr = address r, ln_symndx = 0, ln_fileno = lfile r, ln_lineno = line r, ln_column = column r,
      ln_bblock = basic_block r, ln_stmt = is_stmt r, ln_endseq = end_sequence r\<rparr>"

definition append_row :: "u64 \<Rightarrow> line_regs \<Rightarrow> dwarf_lineinfo \<Rightarrow> dwarf_lineinfo option" where
  "append_row pc r li =
     (if pc < address r then None else Some (li\<lparr>li_line := row_of r, li_lnlen := li_lnlen li + 1\<rparr>))"

text \<open>
  \<^verbatim>\<open>LINE\<close> and \<^verbatim>\<open>ADDRESS\<close> compute in \<^verbatim>\<open>int\<close>, on an operand that is at least \<^verbatim>\<open>li_opbase\<close>, so the division is one of
  nonnegative numbers. \<^verbatim>\<open>li_lbase\<close> is an \<^verbatim>\<open>int8_t\<close>.
\<close>

definition LINE :: "dwarf_lineinfo \<Rightarrow> u8 \<Rightarrow> u64" where
  "LINE li x = scast (li_lbase li) + ((ucast x - ucast (li_opbase li)) mod ucast (li_lrange li))"

definition ADDRESS :: "dwarf_lineinfo \<Rightarrow> u8 \<Rightarrow> u64" where
  "ADDRESS li x = ((ucast x - ucast (li_opbase li)) div ucast (li_lrange li)) * ucast (li_minlen li)"

definition lineno_add_file :: "mem \<Rightarrow> u64 \<Rightarrow> (i32 \<times> u64) cres" where
  "lineno_add_file m p =
     cbind (clift (strlen m p)) (\<lambda>n.
       let src = p + scast (n + 1) in
       cbind (clift (dwarf_decode_uleb128 m src)) (\<lambda>(_, src).
       cbind (clift (dwarf_decode_uleb128 m src)) (\<lambda>(_, src).
       cbind (clift (dwarf_decode_uleb128 m src)) (\<lambda>(_, src).
         cret (DW_DLE_NONE, src)))))"

text \<open>
  One round of the loop ends in a new pointer, registers and line information, or leaves the function with a return
  code.
\<close>

datatype line_next = LNext u64 line_regs dwarf_lineinfo | LReturn i32 dwarf_lineinfo

definition append_next :: "u64 \<Rightarrow> u64 \<Rightarrow> line_regs \<Rightarrow> dwarf_lineinfo \<Rightarrow> line_next" where
  "append_next pc p r li =
     (case append_row pc r li of
        None \<Rightarrow> LReturn DW_DLE_NONE li
      | Some li \<Rightarrow> LNext p (r\<lparr>basic_block := 0, prologue_end := 0, epilogue_begin := 0\<rparr>) li)"

definition extended_op ::
    "mem \<Rightarrow> dwarf_debug \<Rightarrow> dwarf_cu \<Rightarrow> u64 \<Rightarrow> line_regs \<Rightarrow> dwarf_lineinfo \<Rightarrow> line_next cres" where
  "extended_op m dbg cu p r li =
     cbind (clift (dwarf_decode_uleb128 m (p + 1))) (\<lambda>(opsize, p).
       let op = m p in
       if op = 0x01 then cret (LNext (p + 1) (reset_registers li) li)
       else if op = 0x02 then
         let (a, p) = dbg_decode dbg m (p + 1) (ucast (addr_size cu)) in cret (LNext p (r\<lparr>address := a\<rparr>) li)
       else if op = 0x03 then
         cbind (lineno_add_file m (p + 1)) (\<lambda>(ret, p).
           if ret \<noteq> DW_DLE_NONE then cret (LReturn ret li) else cret (LNext p r li))
       else cret (LNext (p + opsize) r li))"

definition standard_op ::
    "mem \<Rightarrow> dwarf_debug \<Rightarrow> u64 \<Rightarrow> u64 \<Rightarrow> line_regs \<Rightarrow> dwarf_lineinfo \<Rightarrow> line_next cres" where
  "standard_op m dbg pc p r li =
     (let op = m p; p = p + 1 in
      if op = 0x01 then cret (append_next pc p r li)
      else if op = 0x02 then
        cbind (clift (dwarf_decode_uleb128 m p)) (\<lambda>(v, p).
          cret (LNext p (r\<lparr>address := address r + v * ucast (li_minlen li)\<rparr>) li))
      else if op = 0x03 then
        cbind (clift (dwarf_decode_sleb128 m p)) (\<lambda>(v, p). cret (LNext p (r\<lparr>line := line r + v\<rparr>) li))
      else if op = 0x04 then
        cbind (clift (dwarf_decode_uleb128 m p)) (\<lambda>(v, p). cret (LNext p (r\<lparr>lfile := v\<rparr>) li))
      else if op = 0x05 then
        cbind (clift (dwarf_decode_uleb128 m p)) (\<lambda>(v, p). cret (LNext p (r\<lparr>column := v\<rparr>) li))
      else if op = 0x06 then cret (LNext p (r\<lparr>is_stmt := (if is_stmt r = 0 then 1 else 0)\<rparr>) li)
      else if op = 0x07 then cret (LNext p (r\<lparr>basic_block := 1\<rparr>) li)
      else if op = 0x08 then
        if li_lrange li = 0 then cfail Undefined
        else cret (LNext p (r\<lparr>address := address r + ADDRESS li 255\<rparr>) li)
      else if op = 0x09 then
        let (v, p) = dbg_decode dbg m p 2 in cret (LNext p (r\<lparr>address := address r + v\<rparr>) li)
      else if op = 0x0a then cret (LNext p (r\<lparr>prologue_end := 1\<rparr>) li)
      else if op = 0x0b then cret (LNext p (r\<lparr>epilogue_begin := 1\<rparr>) li)
      else if op = 0x0c then
        cbind (clift (dwarf_decode_uleb128 m p)) (\<lambda>(v, p). cret (LNext p r li))
      else cret (LNext p r li))"

definition special_op :: "mem \<Rightarrow> u64 \<Rightarrow> u64 \<Rightarrow> line_regs \<Rightarrow> dwarf_lineinfo \<Rightarrow> line_next cres" where
  "special_op m pc p r li =
     (if li_lrange li = 0 then cfail Undefined
      else cret (append_next pc (p + 1)
        (r\<lparr>line := line r + LINE li (m p), address := address r + ADDRESS li (m p)\<rparr>) li))"

partial_function (option) line_loop ::
    "mem \<Rightarrow> dwarf_debug \<Rightarrow> dwarf_cu \<Rightarrow> u64 \<Rightarrow> u64 \<Rightarrow> u64 \<Rightarrow> line_regs \<Rightarrow> dwarf_lineinfo
      \<Rightarrow> (i32 \<times> dwarf_lineinfo) cres" where
  "line_loop m dbg cu pc pe p r li =
     (if p < pe then
        cbind
          (if m p = 0 then extended_op m dbg cu p r li
           else if m p < li_opbase li then standard_op m dbg pc p r li
           else special_op m pc p r li)
          (\<lambda>nxt. case nxt of LReturn ret li \<Rightarrow> cret (ret, li) | LNext p r li \<Rightarrow> line_loop m dbg cu pc pe p r li)
      else cret (DW_DLE_NONE, li))"

definition lineno_run_program ::
    "mem \<Rightarrow> dwarf_debug \<Rightarrow> dwarf_cu \<Rightarrow> dwarf_lineinfo \<Rightarrow> u64 \<Rightarrow> u64 \<Rightarrow> u64 \<Rightarrow> (i32 \<times> dwarf_lineinfo) cres" where
  "lineno_run_program m dbg cu li p pe pc = line_loop m dbg cu pc pe p (reset_registers li) li"

text \<open>The loops of \<^verbatim>\<open>_dwarf_lineno_init\<close>: operand counts, include directories, files.\<close>

fun read_oplens :: "mem \<Rightarrow> dwarf_debug \<Rightarrow> u64 \<Rightarrow> u64 \<Rightarrow> nat \<Rightarrow> u8 list \<times> u64" where
  "read_oplens m dbg data off 0 = ([], off)"
| "read_oplens m dbg data off (Suc n) =
     (let (v, off) = dbg_read dbg m data off 1; (vs, off) = read_oplens m dbg data off n in (ucast v # vs, off))"

partial_function (option) skip_string :: "mem \<Rightarrow> u64 \<Rightarrow> u64 option" where
  "skip_string m p = (if m p \<noteq> 0 then skip_string m (p + 1) else Some (p + 1))"

partial_function (option) include_dirs :: "mem \<Rightarrow> u64 \<Rightarrow> u64 \<Rightarrow> (u64 \<times> u64) option" where
  "include_dirs m p n =
     (if m p \<noteq> 0 then Option.bind (skip_string m p) (\<lambda>p. include_dirs m p (n + 1)) else Some (p, n))"

partial_function (option) line_files :: "mem \<Rightarrow> u64 \<Rightarrow> u64 cres" where
  "line_files m p =
     (if m p \<noteq> 0 then cbind (lineno_add_file m p) (\<lambda>(_, p). line_files m p) else cret p)"

definition lineno_init ::
    "mem \<Rightarrow> dwarf_section list \<Rightarrow> dwarf_debug \<Rightarrow> dwarf_die \<Rightarrow> u64 \<Rightarrow> dwarf_lineinfo \<Rightarrow> u64
      \<Rightarrow> (i32 \<times> dwarf_lineinfo) cres" where
  "lineno_init m secs dbg die off li pc =
     cbind (dwarf_find_section_enhanced secs \<lparr>ds_name = ascii ''.debug_line'', ds_data = 0, ds_addr = 0, ds_size = 0\<rparr>) (\<lambda>ds.
       let rd = dbg_read dbg m (ds_data ds);
           (len, off) = rd off 4;
           (dwarf_size, len, off) =
             (if len = 0xffffffff then let (len, off) = rd off 8 in (8, len, off) else (4, len, off))
       in if len > ds_size ds - off then cret (DW_DLE_DEBUG_LINE_LENGTH_BAD, li)
       else
         let endoff = off + len;
             (version, off) = rd off 2;
             (hdrlen, off) = rd off dwarf_size;
             hdroff = off;
             (minlen, off) = rd off 1;
             (defstmt, off) = rd off 1;
             (lbase, off) = rd off 1;
             (lrange, off) = rd off 1;
             (opbase, off) = rd off 1;
             li = li\<lparr>li_length := len, li_version := ucast version, li_hdrlen := hdrlen, li_minlen := ucast minlen,
                     li_defstmt := ucast defstmt, li_lbase := ucast lbase, li_lrange := ucast lrange,
                     li_opbase := ucast opbase\<rparr>
         in if (ucast hdrlen :: i32) - 5 <s ucast (li_opbase li) - 1 then cret (DW_DLE_DEBUG_LINE_LENGTH_BAD, li)
         else
           let (lens, off) = read_oplens m dbg (ds_data ds) off (unat (li_opbase li) - 1);
               li = li\<lparr>li_oplen := lens\<rparr>
           in cbind (clift (include_dirs m (ds_data ds + off) 0)) (\<lambda>(p, n).
             let li = li\<lparr>li_inclen := n\<rparr> in
             if (scast (ucast (ds_size ds) :: i32) :: i64) <s p - ds_data ds then cret (DW_DLE_DEBUG_LINE_LENGTH_BAD, li)
             else cbind (line_files m (p + 1)) (\<lambda>p.
               let p = p + 1 in
               if p - ds_data ds - hdroff \<noteq> li_hdrlen li then cret (DW_DLE_DEBUG_LINE_LENGTH_BAD, li)
               else lineno_run_program m dbg (cu_header die) li p (ds_data ds + endoff) pc)))"

definition line0 :: dwarf_line where
  "line0 = \<lparr>ln_addr = 0, ln_symndx = 0, ln_fileno = 0, ln_lineno = 0, ln_column = 0, ln_bblock = 0, ln_stmt = 0, ln_endseq = 0\<rparr>"

definition lineinfo0 :: dwarf_lineinfo where
  "lineinfo0 =
     \<lparr>li_length = 0, li_version = 0, li_hdrlen = 0, li_minlen = 0, li_defstmt = 0, li_lbase = 0, li_lrange = 0,
      li_opbase = 0, li_oplen = [], li_inclen = 0, li_line = line0, li_lnlen = 0\<rparr>"

definition dwarf_srclines ::
    "mem \<Rightarrow> dwarf_section list \<Rightarrow> dwarf_debug \<Rightarrow> dwarf_die \<Rightarrow> dwarf_line \<Rightarrow> u64 \<Rightarrow> (i32 \<times> dwarf_line) cres" where
  "dwarf_srclines m secs dbg die linebuf pc =
     (case attr_find die 0x10 of
        None \<Rightarrow> cret (DW_DLV_NO_ENTRY, linebuf)
      | Some at \<Rightarrow>
          cbind (lineno_init m secs dbg die (at_u0 at) lineinfo0 pc) (\<lambda>(ret, li).
            if ret \<noteq> DW_DLE_NONE then cret (DW_DLV_ERROR, linebuf) else cret (DW_DLV_OK, li_line li)))"

declare decode_leb_loop.simps [code] strlen_loop.simps [code] line_loop.simps [code] skip_string.simps [code]
  include_dirs.simps [code] line_files.simps [code]

section \<open>Line number programs of the standard\<close>

datatype line_instr =
    ICopy | IAdvance_pc nat | IAdvance_line int | ISet_file nat | ISet_column nat | INegate_stmt | ISet_basic_block
  | IConst_add_pc | IFixed_advance_pc u16 | ISet_prologue_end | ISet_epilogue_begin | ISet_isa nat | ISpecial u8
  | IEnd_sequence | ISet_address u64 | IDefine_file "u8 list" nat nat nat

primrec le_bytes :: "nat \<Rightarrow> u64 \<Rightarrow> u8 list" where
  "le_bytes 0 w = []"
| "le_bytes (Suc n) w = ucast w # le_bytes n (drop_bit 8 w)"

definition file_bytes :: "u8 list \<Rightarrow> nat \<Rightarrow> nat \<Rightarrow> nat \<Rightarrow> u8 list" where
  "file_bytes name d t l = (name @ [0]) @ uleb_encode d @ uleb_encode t @ uleb_encode l"

fun instr_bytes :: "line_instr \<Rightarrow> u8 list" where
  "instr_bytes ICopy = [0x01]"
| "instr_bytes (IAdvance_pc n) = 0x02 # uleb_encode n"
| "instr_bytes (IAdvance_line i) = 0x03 # sleb_encode i"
| "instr_bytes (ISet_file n) = 0x04 # uleb_encode n"
| "instr_bytes (ISet_column n) = 0x05 # uleb_encode n"
| "instr_bytes INegate_stmt = [0x06]"
| "instr_bytes ISet_basic_block = [0x07]"
| "instr_bytes IConst_add_pc = [0x08]"
| "instr_bytes (IFixed_advance_pc w) = 0x09 # le_bytes 2 (ucast w)"
| "instr_bytes ISet_prologue_end = [0x0a]"
| "instr_bytes ISet_epilogue_begin = [0x0b]"
| "instr_bytes (ISet_isa n) = 0x0c # uleb_encode n"
| "instr_bytes (ISpecial b) = [b]"
| "instr_bytes IEnd_sequence = [0x00, 0x01, 0x01]"
| "instr_bytes (ISet_address a) = [0x00, 0x09, 0x02] @ le_bytes 8 a"
| "instr_bytes (IDefine_file name d t l) =
     [0x00] @ uleb_encode (1 + length (file_bytes name d t l)) @ [0x03] @ file_bytes name d t l"

definition file_ok :: "u8 list \<Rightarrow> nat \<Rightarrow> nat \<Rightarrow> nat \<Rightarrow> bool" where
  "file_ok name d t l \<longleftrightarrow> 0 \<notin> set name \<and> length (file_bytes name d t l) < 2 ^ 31 - 1 \<and> d < 2 ^ 31 \<and> t < 2 ^ 31 \<and> l < 2 ^ 31"

text \<open>An instruction whose operands the readers can represent and whose opcode means what it should in this program.\<close>

fun instr_ok :: "dwarf_lineinfo \<Rightarrow> line_instr \<Rightarrow> bool" where
  "instr_ok li (ISpecial b) \<longleftrightarrow> li_opbase li \<le> b \<and> b \<noteq> 0 \<and> li_lrange li \<noteq> 0"
| "instr_ok li IConst_add_pc \<longleftrightarrow> 0x08 < li_opbase li \<and> li_lrange li \<noteq> 0"
| "instr_ok li (IAdvance_pc n) \<longleftrightarrow> 0x02 < li_opbase li \<and> n < 2 ^ 31"
| "instr_ok li (IAdvance_line i) \<longleftrightarrow> 0x03 < li_opbase li \<and> - (2 ^ 31) \<le> i \<and> i < 2 ^ 31"
| "instr_ok li (ISet_file n) \<longleftrightarrow> 0x04 < li_opbase li \<and> n < 2 ^ 31"
| "instr_ok li (ISet_column n) \<longleftrightarrow> 0x05 < li_opbase li \<and> n < 2 ^ 31"
| "instr_ok li (ISet_isa n) \<longleftrightarrow> 0x0c < li_opbase li \<and> n < 2 ^ 31"
| "instr_ok li IEnd_sequence \<longleftrightarrow> True"
| "instr_ok li (ISet_address a) \<longleftrightarrow> True"
| "instr_ok li (IDefine_file name d t l) \<longleftrightarrow> file_ok name d t l"
| "instr_ok li i \<longleftrightarrow> hd (instr_bytes i) < li_opbase li"

text \<open>
  What an instruction does to the registers before it emits a row, if it emits one. The advances of a special opcode
  are those of the standard, over the integers.
\<close>

definition line_advance :: "dwarf_lineinfo \<Rightarrow> u8 \<Rightarrow> int" where
  "line_advance li b = sint (li_lbase li) + int ((unat b - unat (li_opbase li)) mod unat (li_lrange li))"

definition addr_advance :: "dwarf_lineinfo \<Rightarrow> u8 \<Rightarrow> nat" where
  "addr_advance li b = (unat b - unat (li_opbase li)) div unat (li_lrange li) * unat (li_minlen li)"

fun instr_regs :: "dwarf_lineinfo \<Rightarrow> line_instr \<Rightarrow> line_regs \<Rightarrow> line_regs" where
  "instr_regs li (IAdvance_pc n) r = r\<lparr>address := address r + of_nat (n * unat (li_minlen li))\<rparr>"
| "instr_regs li (IAdvance_line i) r = r\<lparr>line := line r + of_int i\<rparr>"
| "instr_regs li (ISet_file n) r = r\<lparr>lfile := of_nat n\<rparr>"
| "instr_regs li (ISet_column n) r = r\<lparr>column := of_nat n\<rparr>"
| "instr_regs li INegate_stmt r = r\<lparr>is_stmt := (if is_stmt r = 0 then 1 else 0)\<rparr>"
| "instr_regs li ISet_basic_block r = r\<lparr>basic_block := 1\<rparr>"
| "instr_regs li IConst_add_pc r = r\<lparr>address := address r + of_nat (addr_advance li 255)\<rparr>"
| "instr_regs li (IFixed_advance_pc w) r = r\<lparr>address := address r + ucast w\<rparr>"
| "instr_regs li ISet_prologue_end r = r\<lparr>prologue_end := 1\<rparr>"
| "instr_regs li ISet_epilogue_begin r = r\<lparr>epilogue_begin := 1\<rparr>"
| "instr_regs li (ISpecial b) r =
     r\<lparr>line := line r + of_int (line_advance li b), address := address r + of_nat (addr_advance li b)\<rparr>"
| "instr_regs li IEnd_sequence r = reset_registers li"
| "instr_regs li (ISet_address a) r = r\<lparr>address := a\<rparr>"
| "instr_regs li _ r = r"

fun emits :: "line_instr \<Rightarrow> bool" where
  "emits ICopy = True"
| "emits (ISpecial b) = True"
| "emits _ = False"

definition clear_flags :: "line_regs \<Rightarrow> line_regs" where
  "clear_flags r = r\<lparr>basic_block := 0, prologue_end := 0, epilogue_begin := 0\<rparr>"

text \<open>
  The table of the standard: \<^verbatim>\<open>DW_LNE_end_sequence\<close> emits a row too, with the first address behind the sequence and its flag set. A row
  covers the addresses from its own up to that of the row after it, unless it ends a sequence.
\<close>

fun std_table :: "dwarf_lineinfo \<Rightarrow> line_instr list \<Rightarrow> line_regs \<Rightarrow> dwarf_line list" where
  "std_table li [] r = []"
| "std_table li (IEnd_sequence # prog) r = row_of (r\<lparr>end_sequence := 1\<rparr>) # std_table li prog (reset_registers li)"
| "std_table li (i # prog) r =
     (let r = instr_regs li i r in
      if emits i then row_of r # std_table li prog (clear_flags r) else std_table li prog r)"

definition covers :: "dwarf_line list \<Rightarrow> nat \<Rightarrow> u64 \<Rightarrow> bool" where
  "covers T i pc \<longleftrightarrow> Suc i < length T \<and> ln_endseq (T ! i) = 0 \<and> ln_addr (T ! i) \<le> pc \<and> pc < ln_addr (T ! Suc i)"

text \<open>The rows the code sees, which does nothing with the end of a sequence but reset the registers.\<close>

fun line_table :: "dwarf_lineinfo \<Rightarrow> line_instr list \<Rightarrow> line_regs \<Rightarrow> dwarf_line list" where
  "line_table li [] r = []"
| "line_table li (i # prog) r =
     (let r = instr_regs li i r in
      if emits i then row_of r # line_table li prog (clear_flags r) else line_table li prog r)"

text \<open>The last row not beyond \<open>pc\<close> before the first row that is.\<close>

definition rows_to :: "u64 \<Rightarrow> dwarf_line list \<Rightarrow> dwarf_line list" where
  "rows_to pc rows = takeWhile (\<lambda>row. ln_addr row \<le> pc) rows"

definition found_line :: "dwarf_lineinfo \<Rightarrow> dwarf_line list \<Rightarrow> dwarf_lineinfo" where
  "found_line li rows = li\<lparr>li_line := last (li_line li # rows), li_lnlen := li_lnlen li + of_nat (length rows)\<rparr>"

section \<open>Running an encoded program\<close>

lemma unat_ucast_8 [simp]: "unat (ucast (x :: u8) :: u64) = unat x"
proof -
  have "unat x < 2 ^ LENGTH(8)" by (rule unsigned_less)
  then show ?thesis by (simp add: unsigned_ucast_eq take_bit_nat_eq_self)
qed

lemma unat_ucast_diff:
  assumes "(y :: u8) \<le> x"
  shows "unat (ucast x - ucast y :: u64) = unat x - unat y"
proof -
  have "(ucast y :: u64) \<le> ucast x" using assms by (simp add: word_le_nat_alt)
  then show ?thesis by (simp add: unat_sub)
qed

lemma LINE_advance: "li_opbase li \<le> b \<Longrightarrow> LINE li b = of_int (line_advance li b)"
  by (simp add: LINE_def line_advance_def word_arith_nat_mod unat_ucast_diff)

lemma ADDRESS_advance: "li_opbase li \<le> b \<Longrightarrow> ADDRESS li b = of_nat (addr_advance li b)"
  by (simp add: ADDRESS_def addr_advance_def word_arith_nat_div unat_ucast_diff)

lemma decode_uleb_encoded:
  "holds m p (uleb_encode n) \<Longrightarrow> n < 2 ^ 31 \<Longrightarrow>
   dwarf_decode_uleb128 m p = Some (of_nat n, p + of_nat (length (uleb_encode n)))"
  using decode_uleb_loop [of m p n 0 0] by (simp add: dwarf_decode_uleb128_def holds_def)

lemma decode_sleb_encoded:
  "holds m p (sleb_encode i) \<Longrightarrow> - (2 ^ 31) \<le> i \<Longrightarrow> i < 2 ^ 31 \<Longrightarrow>
   dwarf_decode_sleb128 m p = Some (of_int i, p + of_nat (length (sleb_encode i)))"
  using decode_sleb_loop [of m p i 0 0] by (simp add: dwarf_decode_sleb128_def holds_def)

lemma length_le_bytes [simp]: "length (le_bytes n w) = n"
  by (induction n arbitrary: w) simp_all

lemma le_val_le_bytes: "le_val (le_bytes n w) = unat w mod 256 ^ n"
proof (induction n arbitrary: w)
  case (Suc n)
  have "unat (ucast w :: u8) = unat w mod 256" by (simp add: unsigned_ucast_eq take_bit_eq_mod)
  moreover have "unat (drop_bit 8 w) = unat w div 256" by (simp add: drop_bit_eq_div unat_div)
  ultimately show ?case using Suc by (simp add: mod_mult2_eq)
qed simp

lemma decode_le_bytes:
  assumes "holds m p (le_bytes (unat n) w)" "n \<in> read_sizes"
  shows "dwarf_decode_lsb m p n = (of_nat (unat w mod 256 ^ unat n), p + scast n)"
  using assms lsb.dec_eq_rd [of m p 0 n]
  by (simp add: lsb.rd_size holds_def le_val_le_bytes)

lemma cstr_holds: "0 \<notin> set xs \<Longrightarrow> holds m p (xs @ [0]) \<longleftrightarrow> cstr m p xs"
  by (induction xs arbitrary: p) (simp_all del: holds_simps(3))

lemma add_file_encoded:
  assumes f: "file_ok name d t l" and h: "holds m p (file_bytes name d t l)"
  shows "lineno_add_file m p = cret (DW_DLE_NONE, p + of_nat (length (file_bytes name d t l)))"
proof -
  let ?p1 = "p + of_nat (length name + 1)"
  let ?p2 = "?p1 + of_nat (length (uleb_encode d))"
  let ?p3 = "?p2 + of_nat (length (uleb_encode t))"
  have "holds m p (name @ [0])" and u: "holds m ?p1 (uleb_encode d)" "holds m ?p2 (uleb_encode t)" "holds m ?p3 (uleb_encode l)"
    using h by (simp_all add: file_bytes_def ac_simps)
  then have "cstr m p name" using f cstr_holds [of name m p] by (simp add: file_ok_def)
  then have s: "strlen m p = Some (of_nat (length name))" using strlen_loop_cstr [of m p name 0] by (simp add: strlen_def)
  have "length name + 1 < 2 ^ 31" using f by (simp add: file_ok_def file_bytes_def)
  from scast_nat_small [OF this] have "(scast (of_nat (length name) + 1 :: i32) :: u64) = of_nat (length name + 1)"
    by (simp add: add.commute)
  with s decode_uleb_encoded [OF u(1)] decode_uleb_encoded [OF u(2)] decode_uleb_encoded [OF u(3)] f
  show ?thesis by (simp add: lineno_add_file_def file_ok_def file_bytes_def ac_simps)
qed

definition line_op :: "mem \<Rightarrow> dwarf_debug \<Rightarrow> dwarf_cu \<Rightarrow> u64 \<Rightarrow> u64 \<Rightarrow> line_regs \<Rightarrow> dwarf_lineinfo \<Rightarrow> line_next cres" where
  "line_op m dbg cu pc p r li =
     (if m p = 0 then extended_op m dbg cu p r li
      else if m p < li_opbase li then standard_op m dbg pc p r li
      else special_op m pc p r li)"

lemma line_op_encoded:
  assumes h: "holds m p (instr_bytes i)" and ok: "instr_ok li i"
    and dbg: "dbg_decode dbg = dwarf_decode_lsb" "addr_size cu = 8"
  shows "line_op m dbg cu pc p r li =
     cret (let r = instr_regs li i r; q = p + of_nat (length (instr_bytes i))
       in if emits i then append_next pc q r li else LNext q r li)"
proof -
  have ext: "dwarf_decode_uleb128 m (p + 1) = Some (of_nat n, p + (1 + of_nat (length (uleb_encode n))))"
    if "holds m (p + 1) (uleb_encode n)" "n < 2 ^ 31" for n
    using decode_uleb_encoded [OF that] by (simp add: add.assoc)
  have op1: "dwarf_decode_uleb128 m (p + 1) = Some (of_nat n, p + 2)" if "m (p + 1) = of_nat n" "n < 128" for n
    using ext [of n] that by (simp add: uleb_encode.simps)
  show ?thesis
  proof (cases i)
    case (IAdvance_line k)
    with h ok decode_sleb_encoded [of m "p + 1" k] show ?thesis
      by (simp add: line_op_def standard_op_def Let_def add.assoc)
  next
    case (IFixed_advance_pc w)
    have "unat w < 2 ^ LENGTH(16)" by (rule unsigned_less)
    then have "unat (ucast w :: u64) mod 65536 = unat w" by (simp add: unsigned_ucast_eq take_bit_nat_eq_self)
    with IFixed_advance_pc have "dwarf_decode_lsb m (p + 1) 2 = (ucast w, p + 1 + 2)"
      using h decode_le_bytes [of m "p + 1" 2 "ucast w"] by (simp add: read_sizes_def)
    with IFixed_advance_pc h ok dbg show ?thesis
      by (simp add: line_op_def standard_op_def Let_def add.assoc)
  next
    case (ISpecial b)
    with h ok show ?thesis
      by (auto simp: line_op_def special_op_def Let_def LINE_advance ADDRESS_advance not_less)
  next
    case IConst_add_pc
    have "unat (li_opbase li) < 2 ^ LENGTH(8)" by (rule unsigned_less)
    then have "li_opbase li \<le> 255" by (simp add: word_le_nat_alt)
    with IConst_add_pc h ok show ?thesis
      by (auto simp: line_op_def standard_op_def Let_def ADDRESS_advance)
  next
    case (ISet_address a)
    then have "dwarf_decode_lsb m (p + 3) 8 = (a, p + 3 + 8)"
      using h decode_le_bytes [of m "p + 3" 8 a] unat_lt64 [of a] by (simp add: read_sizes_def add.assoc)
    with ISet_address h op1 [of 9] dbg show ?thesis
      by (simp add: line_op_def extended_op_def Let_def add.assoc)
  next
    case (IDefine_file name d t l)
    let ?n = "1 + length (file_bytes name d t l)"
    let ?q = "p + (1 + of_nat (length (uleb_encode ?n)))"
    have f: "file_ok name d t l" using IDefine_file ok by simp
    have "holds m (?q + 1) (file_bytes name d t l)" using IDefine_file h by (simp add: add.assoc)
    from add_file_encoded [OF f this]
    have a: "lineno_add_file m (?q + 1) = cret (DW_DLE_NONE, ?q + 1 + of_nat (length (file_bytes name d t l)))" .
    have "dwarf_decode_uleb128 m (p + 1) = Some (of_nat ?n, ?q)"
      using IDefine_file h f by (intro ext) (simp_all add: file_ok_def)
    moreover have "m p = 0" "m ?q = 3" using IDefine_file h by (simp_all add: add.assoc)
    ultimately show ?thesis
      using IDefine_file a by (simp add: line_op_def extended_op_def Let_def ac_simps)
  qed (use h ok in \<open>auto simp: line_op_def standard_op_def extended_op_def Let_def add.assoc op1 [of 1] decode_uleb_encoded\<close>)
qed

lemma header_cong:
  "instr_regs (li\<lparr>li_line := a, li_lnlen := b\<rparr>) i r = instr_regs li i r"
  "instr_ok (li\<lparr>li_line := a, li_lnlen := b\<rparr>) i = instr_ok li i"
  by (cases i; simp add: line_advance_def addr_advance_def reset_registers_def)+

lemma line_table_cong: "line_table (li\<lparr>li_line := a, li_lnlen := b\<rparr>) prog r = line_table li prog r"
  by (induction prog arbitrary: r) (simp_all add: Let_def header_cong)

lemma found_line_Nil [simp]: "found_line li [] = li"
  by (simp add: found_line_def)

lemma found_line_Cons: "found_line li (row # rows) = found_line (li\<lparr>li_line := row, li_lnlen := li_lnlen li + 1\<rparr>) rows"
  by (simp add: found_line_def ac_simps)

lemma instr_bytes_pos: "0 < length (instr_bytes i)"
  by (cases i) simp_all

lemma line_loop_encoded:
  "holds m p (concat (map instr_bytes prog)) \<Longrightarrow> \<forall>i \<in> set prog. instr_ok li i \<Longrightarrow>
   unat p + length (concat (map instr_bytes prog)) < 2 ^ 64 \<Longrightarrow>
   dbg_decode dbg = dwarf_decode_lsb \<Longrightarrow> addr_size cu = 8 \<Longrightarrow>
   line_loop m dbg cu pc (p + of_nat (length (concat (map instr_bytes prog)))) p r li
     = cret (DW_DLE_NONE, found_line li (rows_to pc (line_table li prog r)))"
proof (induction prog arbitrary: p r li)
  case Nil
  then show ?case by (subst line_loop.simps) (simp add: rows_to_def)
next
  case (Cons i prog)
  let ?q = "p + of_nat (length (instr_bytes i))" and ?n = "length (concat (map instr_bytes prog))"
  let ?r = "instr_regs li i r"
  define pe where "pe = p + of_nat (length (concat (map instr_bytes (i # prog))))"
  have pe: "pe = ?q + of_nat ?n" by (simp add: pe_def add.assoc)
  have h: "holds m p (instr_bytes i)" "holds m ?q (concat (map instr_bytes prog))"
    using Cons.prems(1) by simp_all
  have len: "unat p + length (instr_bytes i) + ?n < 2 ^ 64" using Cons.prems(3) by simp
  have q: "unat ?q = unat p + length (instr_bytes i)" using len by (intro unat_add_less) linarith
  have "unat pe = unat ?q + ?n" unfolding pe using len q by (intro unat_add_less) linarith
  then have lt: "p < pe" using q instr_bytes_pos [of i] by (simp add: word_less_nat_alt)
  have op: "line_op m dbg cu pc p r li = cret (if emits i then append_next pc ?q ?r li else LNext ?q ?r li)"
    using line_op_encoded [OF h(1)] Cons.prems by (simp add: Let_def)
  have step: "line_loop m dbg cu pc pe p r li =
      (case (if emits i then append_next pc ?q ?r li else LNext ?q ?r li) of
         LReturn ret li \<Rightarrow> cret (ret, li) | LNext p r li \<Rightarrow> line_loop m dbg cu pc pe p r li)"
    using lt op unfolding line_op_def by (subst line_loop.simps) simp
  have rest: "line_loop m dbg cu pc pe ?q r' li' = cret (DW_DLE_NONE, found_line li' (rows_to pc (line_table li' prog r')))"
    if "\<forall>i \<in> set prog. instr_ok li' i" for r' li'
    unfolding pe using Cons.prems that q len h(2) by (intro Cons.IH) auto
  have next_row: "rows_to pc (line_table li (i # prog) r) =
      (if pc < address ?r then [] else row_of ?r # rows_to pc (line_table li prog (clear_flags ?r)))" if "emits i"
    using that by (auto simp: rows_to_def row_of_def Let_def)
  show ?case
  proof (cases "emits i")
    case True
    let ?li = "li\<lparr>li_line := row_of ?r, li_lnlen := li_lnlen li + 1\<rparr>"
    have "line_loop m dbg cu pc pe ?q (clear_flags ?r) ?li
        = cret (DW_DLE_NONE, found_line ?li (rows_to pc (line_table li prog (clear_flags ?r))))"
      using rest [of ?li] Cons.prems(2) by (simp add: header_cong line_table_cong)
    with True step next_row show ?thesis
      unfolding pe_def [symmetric]
      by (simp add: append_next_def append_row_def found_line_Cons clear_flags_def)
  next
    case False
    with step rest [of li ?r] Cons.prems(2) show ?thesis
      unfolding pe_def [symmetric] by (simp add: Let_def)
  qed
qed

section \<open>Encoded line number units\<close>

record line_unit =
  lu_version :: u16
  lu_minlen :: u8
  lu_defstmt :: u8
  lu_lbase :: u8
  lu_lrange :: u8
  lu_opbase :: u8
  lu_oplens :: "u8 list"
  lu_dirs :: "u8 list list"
  lu_files :: "(u8 list \<times> nat \<times> nat \<times> nat) list"
  lu_prog :: "line_instr list"

definition dirs_bytes :: "u8 list list \<Rightarrow> u8 list" where
  "dirs_bytes ds = concat (map (\<lambda>d. d @ [0]) ds) @ [0]"

definition files_bytes :: "(u8 list \<times> nat \<times> nat \<times> nat) list \<Rightarrow> u8 list" where
  "files_bytes fs = concat (map (\<lambda>(name, d, t, l). file_bytes name d t l) fs) @ [0]"

definition prog_bytes :: "line_instr list \<Rightarrow> u8 list" where
  "prog_bytes prog = concat (map instr_bytes prog)"

definition header_bytes :: "line_unit \<Rightarrow> u8 list" where
  "header_bytes u =
     [lu_minlen u, lu_defstmt u, lu_lbase u, lu_lrange u, lu_opbase u] @ lu_oplens u
       @ dirs_bytes (lu_dirs u) @ files_bytes (lu_files u)"

definition body_bytes :: "line_unit \<Rightarrow> u8 list" where
  "body_bytes u =
     le_bytes 2 (ucast (lu_version u)) @ le_bytes 4 (of_nat (length (header_bytes u))) @ header_bytes u @ prog_bytes (lu_prog u)"

definition unit_bytes :: "line_unit \<Rightarrow> u8 list" where
  "unit_bytes u = le_bytes 4 (of_nat (length (body_bytes u))) @ body_bytes u"

definition unit_info :: "line_unit \<Rightarrow> dwarf_lineinfo" where
  "unit_info u = lineinfo0\<lparr>li_length := of_nat (length (body_bytes u)), li_version := lu_version u,
     li_hdrlen := of_nat (length (header_bytes u)), li_minlen := lu_minlen u, li_defstmt := lu_defstmt u,
     li_lbase := lu_lbase u, li_lrange := lu_lrange u, li_opbase := lu_opbase u, li_oplen := lu_oplens u,
     li_inclen := of_nat (length (lu_dirs u))\<rparr>"

definition unit_ok :: "line_unit \<Rightarrow> bool" where
  "unit_ok u \<longleftrightarrow> length (lu_oplens u) + 1 = unat (lu_opbase u) \<and> (\<forall>d \<in> set (lu_dirs u). d \<noteq> [] \<and> 0 \<notin> set d)
     \<and> (\<forall>(name, d, t, l) \<in> set (lu_files u). name \<noteq> [] \<and> file_ok name d t l)
     \<and> (\<forall>i \<in> set (lu_prog u). instr_ok (unit_info u) i)"

lemma read_le_bytes:
  assumes "holds m (data + off) (le_bytes (unat n) w)" "n \<in> read_sizes" "unat w < 256 ^ unat n"
  shows "dwarf_read_lsb m data off n = (w, off + scast n)"
  using assms by (simp add: lsb.rd_size holds_def le_val_le_bytes)

lemma read_byte: "dwarf_read_lsb m data off 1 = (ucast (m (data + off)), off + 1)"
  using byte_readers(1) by (simp add: byte_reader_def)

lemma read_oplens_encoded:
  "holds m (data + off) bs \<Longrightarrow> dbg_read dbg = dwarf_read_lsb \<Longrightarrow>
   read_oplens m dbg data off (length bs) = (bs, off + of_nat (length bs))"
proof (induction bs arbitrary: off)
  case (Cons b bs)
  have "(ucast (ucast b :: u64) :: u8) = b" by (rule bit_word_eqI) (auto simp: bit_simps)
  with Cons show ?case by (simp add: read_byte add.assoc)
qed simp

lemma skip_string_cstr: "cstr m p xs \<Longrightarrow> skip_string m p = Some (p + of_nat (length xs + 1))"
  by (induction xs arbitrary: p) (subst skip_string.simps; simp add: add.assoc)+

lemma include_dirs_encoded:
  "holds m p (dirs_bytes ds) \<Longrightarrow> \<forall>d \<in> set ds. d \<noteq> [] \<and> 0 \<notin> set d \<Longrightarrow>
   include_dirs m p n = Some (p + of_nat (length (dirs_bytes ds)) - 1, n + of_nat (length ds))"
proof (induction ds arbitrary: p n)
  case Nil
  then show ?case by (subst include_dirs.simps) (simp add: dirs_bytes_def)
next
  case (Cons d ds)
  have enc: "dirs_bytes (d # ds) = (d @ [0]) @ dirs_bytes ds" by (simp add: dirs_bytes_def)
  have h: "holds m p (d @ [0])" "holds m (p + of_nat (length d + 1)) (dirs_bytes ds)"
    using Cons.prems(1) unfolding enc by (simp_all add: ac_simps)
  from Cons.prems(2) have d: "d \<noteq> []" "0 \<notin> set d" by simp_all
  then have c: "cstr m p d" using h(1) cstr_holds [of d m p] by simp
  then have "m p \<noteq> 0" using d(1) by (cases d) auto
  with skip_string_cstr [OF c] Cons.IH [OF h(2), of "n + 1"] Cons.prems(2) show ?case
    unfolding enc by (subst include_dirs.simps) (simp add: ac_simps)
qed

lemma line_files_encoded:
  "holds m p (files_bytes fs) \<Longrightarrow> \<forall>(name, d, t, l) \<in> set fs. name \<noteq> [] \<and> file_ok name d t l \<Longrightarrow>
   line_files m p = cret (p + of_nat (length (files_bytes fs)) - 1)"
proof (induction fs arbitrary: p)
  case Nil
  then show ?case by (subst line_files.simps) (simp add: files_bytes_def)
next
  case (Cons f fs)
  obtain name d t l where f: "f = (name, d, t, l)" by (cases f)
  let ?n = "of_nat (length (file_bytes name d t l)) :: u64"
  have enc: "files_bytes (f # fs) = file_bytes name d t l @ files_bytes fs" by (simp add: files_bytes_def f)
  have h: "holds m p (file_bytes name d t l)" "holds m (p + ?n) (files_bytes fs)"
    using Cons.prems(1) unfolding enc by simp_all
  have ok: "name \<noteq> []" "file_ok name d t l" using Cons.prems(2) f by auto
  then have "m p \<noteq> 0" using h(1) by (cases name) (auto simp: file_bytes_def file_ok_def)
  with add_file_encoded [OF ok(2) h(1)] Cons.IH [OF h(2)] Cons.prems(2) show ?case
    unfolding enc by (subst line_files.simps) (simp add: ac_simps)
qed

lemma header_room:
  assumes "length (lu_oplens u) + 1 = unat (lu_opbase u)" "length (header_bytes u) < 2 ^ 31"
  shows "\<not> (of_nat (length (header_bytes u)) :: i32) - 5 <s ucast (lu_opbase u) - 1"
proof -
  have ob: "(ucast (lu_opbase u) :: i32) = of_nat (length (lu_oplens u) + 1)"
    unfolding assms(1) by simp
  have le: "5 + length (lu_oplens u) \<le> length (header_bytes u)" by (simp add: header_bytes_def)
  have "sint (of_nat (length (header_bytes u)) - 5 :: i32) = int (length (header_bytes u)) - 5"
    using sint32_sub [of "of_nat (length (header_bytes u))" 5] sint32_of_nat [of "length (header_bytes u)"] assms(2) le
    by simp
  moreover have "sint (of_nat (length (lu_oplens u) + 1) - 1 :: i32) = int (length (lu_oplens u))"
    using sint32_of_nat [of "length (lu_oplens u)"] assms(2) le by simp
  ultimately show ?thesis using le unfolding ob by (simp add: word_sless_alt)
qed

lemma size_room:
  assumes "k \<le> unat s" "unat s < 2 ^ 31"
  shows "\<not> (scast (ucast (s :: u64) :: i32) :: i64) <s of_nat k"
proof -
  have "(ucast s :: i32) = of_nat (unat s)" by simp
  then have "sint (ucast s :: i32) = int (unat s)" using assms(2) sint32_of_nat [of "unat s"] by simp
  moreover have "sint (scast (ucast s :: i32) :: i64) = sint (ucast s :: i32)"
    using sint32_bounds [of "ucast s"] by (simp add: signed_scast_eq signed_take_bit_int_eq_self)
  moreover have "sint (of_nat k :: i64) = int k"
    using assms by (simp add: signed_of_nat signed_take_bit_int_eq_self)
  ultimately show ?thesis using assms(1) unfolding word_sless_alt by linarith
qed

lemma lineno_init_encoded:
  assumes ds: "dwarf_find_section secs ''.debug_line'' = Some ds"
    and h: "holds m (ds_data ds + off) (unit_bytes u)" and u: "unit_ok u"
    and room: "unat off + length (unit_bytes u) \<le> unat (ds_size ds)" "unat (ds_size ds) < 2 ^ 31"
      "unat (ds_data ds) + unat (ds_size ds) < 2 ^ 64"
    and dbg: "dbg_read dbg = dwarf_read_lsb" "dbg_decode dbg = dwarf_decode_lsb" "addr_size (cu_header die) = 8"
  shows "lineno_init m secs dbg die off lineinfo0 pc =
     cret (DW_DLE_NONE, found_line (unit_info u)
       (rows_to pc (line_table (unit_info u) (lu_prog u) (reset_registers (unit_info u)))))"
proof -
  let ?D = "ds_data ds" and ?B = "length (body_bytes u)" and ?H = "length (header_bytes u)"
  let ?pos = "off + of_nat 15 + of_nat (length (lu_oplens u))"
  let ?dirs = "dirs_bytes (lu_dirs u)" and ?files = "files_bytes (lu_files u)" and ?prog = "prog_bytes (lu_prog u)"
  have B: "?B = 6 + ?H + length ?prog" "?H = 5 + length (lu_oplens u) + length ?dirs + length ?files"
    "length (unit_bytes u) = 4 + ?B"
    by (simp_all add: body_bytes_def header_bytes_def unit_bytes_def)
  then have small: "?B < 2 ^ 31" "?H < 2 ^ 31" using room by linarith+
  have mem: "holds m (?D + off) (le_bytes 4 (of_nat ?B))"
    "holds m (?D + (off + 4)) (le_bytes 2 (ucast (lu_version u)))" "holds m (?D + (off + 6)) (le_bytes 4 (of_nat ?H))"
    "m (?D + (off + 10)) = lu_minlen u" "m (?D + (off + 11)) = lu_defstmt u" "m (?D + (off + 12)) = lu_lbase u"
    "m (?D + (off + 13)) = lu_lrange u" "m (?D + (off + 14)) = lu_opbase u"
    "holds m (?D + (off + 15)) (lu_oplens u)" "holds m (?D + ?pos) ?dirs"
    "holds m (?D + ?pos + of_nat (length ?dirs)) ?files"
    "holds m (?D + ?pos + of_nat (length ?dirs) + of_nat (length ?files)) ?prog"
    using h by (simp_all add: unit_bytes_def body_bytes_def header_bytes_def add.assoc)
  have "unat (lu_version u) < 2 ^ LENGTH(16)" by (rule unsigned_less)
  then have v: "unat (ucast (lu_version u) :: u64) < 256 ^ 2"
    by (simp add: unsigned_ucast_eq take_bit_nat_eq_self)
  have w: "(ucast (ucast x :: u64) :: u8) = x" "(ucast (ucast y :: u64) :: u16) = y" for x :: u8 and y :: u16
    by (rule bit_word_eqI, auto simp: bit_simps)+
  have rd: "dwarf_read_lsb m ?D off 4 = (of_nat ?B, off + 4)"
    "dwarf_read_lsb m ?D (off + 4) 2 = (ucast (lu_version u), off + 6)"
    "dwarf_read_lsb m ?D (off + 6) 4 = (of_nat ?H, off + 10)"
    using read_le_bytes [of m ?D off 4 "of_nat ?B"] read_le_bytes [of m ?D "off + 4" 2 "ucast (lu_version u)"]
      read_le_bytes [of m ?D "off + 6" 4 "of_nat ?H"] mem(1-3) small v
    by (simp_all add: read_sizes_def unat_of_nat add.assoc)
  have bytes: "dwarf_read_lsb m ?D (off + 10) 1 = (ucast (lu_minlen u), off + 11)"
    "dwarf_read_lsb m ?D (off + 11) 1 = (ucast (lu_defstmt u), off + 12)"
    "dwarf_read_lsb m ?D (off + 12) 1 = (ucast (lu_lbase u), off + 13)"
    "dwarf_read_lsb m ?D (off + 13) 1 = (ucast (lu_lrange u), off + 14)"
    "dwarf_read_lsb m ?D (off + 14) 1 = (ucast (lu_opbase u), off + 15)"
    using mem(4-8) by (simp_all add: read_byte)
  have lens: "read_oplens m dbg ?D (off + 15) (unat (lu_opbase u) - 1) = (lu_oplens u, ?pos)"
  proof -
    have "unat (lu_opbase u) - 1 = length (lu_oplens u)" using u unfolding unit_ok_def by linarith
    then show ?thesis using read_oplens_encoded [OF mem(9) dbg(1)] by simp
  qed
  let ?p1 = "?D + ?pos + of_nat (length ?dirs) - 1"
  have dirs: "include_dirs m (?D + ?pos) 0 = Some (?p1, of_nat (length (lu_dirs u)))"
    using include_dirs_encoded [OF mem(10), of 0] u by (simp add: unit_ok_def)
  let ?p2 = "?D + ?pos + of_nat (length ?dirs) + of_nat (length ?files)"
  have p1: "?p1 + 1 = ?D + ?pos + of_nat (length ?dirs)" by simp
  have files: "line_files m (?p1 + 1) = cret (?p2 - 1)"
    unfolding p1 by (rule line_files_encoded [OF mem(11)]) (use u in \<open>simp add: unit_ok_def\<close>)
  have uB: "unat (of_nat ?B :: u64) = ?B" using small(1) by (simp add: unat_of_nat)
  then have esc: "(of_nat ?B :: u64) \<noteq> 0xffffffff" using small(1) by auto
  have "unat (off + of_nat 4) = unat off + 4" using room B(3) by (intro unat_add_less) linarith
  then have fits: "\<not> ds_size ds - (off + 4) < of_nat ?B"
    using room(1) B(3) uB by (simp add: word_less_nat_alt unat_sub word_le_nat_alt)
  obtain k where k: "length ?dirs = Suc k" by (simp add: dirs_bytes_def)
  then have pd: "?p1 - ?D = of_nat (unat off + 15 + length (lu_oplens u) + k)" by simp
  have dirs_room: "\<not> (scast (ucast (ds_size ds) :: i32) :: i64) <s ?p1 - ?D"
    unfolding pd by (rule size_room) (use room(1,2) B k in linarith)+
  have hdr: "?p2 = ?D + (off + 10) + of_nat ?H" unfolding B(2) by simp
  have prog: "?D + (off + 4 + of_nat ?B) = ?p2 + of_nat (length ?prog)" unfolding B(1,2) by simp
  have e2: "?p2 = ?D + of_nat (unat off + 10 + ?H)" unfolding B(2) by simp
  have p2: "unat ?p2 = unat ?D + (unat off + 10 + ?H)"
    unfolding e2 by (rule unat_add_less) (use room B in linarith)
  have run: "lineno_run_program m dbg (cu_header die) (unit_info u) ?p2 (?p2 + of_nat (length ?prog)) pc
      = cret (DW_DLE_NONE, found_line (unit_info u)
       (rows_to pc (line_table (unit_info u) (lu_prog u) (reset_registers (unit_info u)))))"
    unfolding lineno_run_program_def prog_bytes_def
  proof (rule line_loop_encoded [OF mem(12) [unfolded prog_bytes_def] _ _ dbg(2,3)])
    show "\<forall>i \<in> set (lu_prog u). instr_ok (unit_info u) i" using u by (simp add: unit_ok_def)
    show "unat ?p2 + length (concat (map instr_bytes (lu_prog u))) < 2 ^ 64"
      unfolding p2 using room B(1,3) by (fold prog_bytes_def) linarith
  qed
  have init: "lineno_init m secs dbg die off lineinfo0 pc =
      lineno_run_program m dbg (cu_header die) (unit_info u) p2 (?D + (off + 4 + of_nat ?B)) pc"
    if "read_oplens m dbg ?D (off + 15) (unat (lu_opbase u) - 1) = (lu_oplens u, pos)"
      "include_dirs m (?D + pos) 0 = Some (p1, of_nat (length (lu_dirs u)))"
      "\<not> (scast (ucast (ds_size ds) :: i32) :: i64) <s p1 - ?D" "line_files m (p1 + 1) = cret (p2 - 1)"
      "p2 = ?D + (off + 10) + of_nat ?H" for pos p1 p2
    using ds esc fits that header_room [of u] u small(2)
    by (simp add: lineno_init_def dwarf_find_section_enhanced_def dwarf_find_section_def dbg(1) rd bytes
        Let_def w unit_ok_def unit_info_def algebra_simps)
  show ?thesis
    unfolding init [OF lens dirs dirs_room files hdr] prog by (rule run)
qed

section \<open>Bytes written are there\<close>

lemma holds_write: "length xs < 2 ^ 64 \<Longrightarrow> holds (write_bytes m p xs) p xs"
proof (induction xs arbitrary: m p)
  case (Cons x xs)
  have "unat (p - (p + 1)) = 2 ^ 64 - 1" using unat_minus_small [of 1] by simp
  then have "write_bytes (m(p := x)) (p + 1) xs p = x"
    using Cons.prems by (subst write_bytes_outside) auto
  with Cons show ?case by simp
qed simp

section \<open>Properties\<close>

lemma line_table_std:
  "end_sequence r = 0 \<Longrightarrow> line_table li prog r = filter (\<lambda>row. ln_endseq row = 0) (std_table li prog r)"
proof (induction prog arbitrary: r)
  case (Cons i prog)
  have "end_sequence (instr_regs li i r) = 0" using Cons.prems by (cases i) (simp_all add: reset_registers_def)
  then have "line_table li prog (instr_regs li i r) = filter (\<lambda>row. ln_endseq row = 0) (std_table li prog (instr_regs li i r))"
    "line_table li prog (clear_flags (instr_regs li i r)) = filter (\<lambda>row. ln_endseq row = 0) (std_table li prog (clear_flags (instr_regs li i r)))"
    "ln_endseq (row_of (instr_regs li i r)) = 0"
    by (simp_all add: Cons.IH clear_flags_def row_of_def)
  then show ?case by (cases i) (simp_all add: Let_def row_of_def)
qed simp

lemma covering_row_found:
  assumes "sorted (map ln_addr T)" "covers T i pc"
  shows "last (line0 # rows_to pc (filter (\<lambda>row. ln_endseq row = 0) T)) = T ! i"
proof -
  let ?P = "\<lambda>row. ln_endseq row = 0" and ?Q = "\<lambda>row. ln_addr row \<le> pc"
  have i: "Suc i < length T" "?P (T ! i)" "?Q (T ! i)" "\<not> ?Q (T ! Suc i)" using assms(2) by (auto simp: covers_def)
  have le: "ln_addr (T ! j) \<le> ln_addr (T ! k)" if "j \<le> k" "k < length T" for j k
    using sorted_nth_mono [OF assms(1) that(1)] that by simp
  have T: "T = take i T @ T ! i # drop (Suc i) T" using i(1) by (simp add: id_take_nth_drop)
  have before: "?Q row" if "row \<in> set (take i T)" for row
  proof -
    from that obtain k where "k < i" "row = T ! k" by (auto simp: in_set_conv_nth)
    then have "ln_addr row \<le> ln_addr (T ! i)" using le [of k i] i(1) by simp
    with i(3) show ?thesis by simp
  qed
  have after: "\<not> ?Q row" if "row \<in> set (drop (Suc i) T)" for row
  proof -
    from that obtain k where k: "k < length T - Suc i" "row = T ! (Suc i + k)" by (auto simp: in_set_conv_nth)
    then have "ln_addr (T ! Suc i) \<le> ln_addr row" using le [of "Suc i" "Suc i + k"] by simp
    with i(4) show ?thesis by simp
  qed
  have none: "takeWhile ?Q (filter ?P (drop (Suc i) T)) = []"
  proof (cases "filter ?P (drop (Suc i) T)")
    case (Cons x xs)
    then have "x \<in> set (filter ?P (drop (Suc i) T))" by simp
    then have "x \<in> set (drop (Suc i) T)" by (simp only: set_filter mem_Collect_eq)
    with after Cons show ?thesis by simp
  qed simp
  have "filter ?P T = filter ?P (take i T) @ T ! i # filter ?P (drop (Suc i) T)"
    by (subst T) (simp only: filter_append filter.simps i(2) if_True simp_thms)
  also have "takeWhile ?Q \<dots> = filter ?P (take i T) @ [T ! i]"
    using before none i(3) by (subst takeWhile_append2) auto
  finally show ?thesis by (simp add: rows_to_def)
qed

lemma srclines_rows:
  assumes "attr_find die 0x10 = Some at" and "dwarf_find_section secs ''.debug_line'' = Some ds"
    and "holds m (ds_data ds + at_u0 at) (unit_bytes u)" and "unit_ok u"
    and "unat (at_u0 at) + length (unit_bytes u) \<le> unat (ds_size ds)" and "unat (ds_size ds) < 2 ^ 31"
    and "unat (ds_data ds) + unat (ds_size ds) < 2 ^ 64"
    and "dbg_read dbg = dwarf_read_lsb" and "dbg_decode dbg = dwarf_decode_lsb" and "addr_size (cu_header die) = 8"
  shows "dwarf_srclines m secs dbg die linebuf pc =
     cret (DW_DLV_OK, last (line0 # rows_to pc
       (filter (\<lambda>row. ln_endseq row = 0) (std_table (unit_info u) (lu_prog u) (reset_registers (unit_info u))))))"
proof -
  have "li_line (unit_info u) = line0" by (simp add: unit_info_def lineinfo0_def)
  moreover have "end_sequence (reset_registers (unit_info u)) = 0" by (simp add: reset_registers_def)
  ultimately show ?thesis using lineno_init_encoded [OF assms(2-10), of pc] assms(1)
    by (simp add: dwarf_srclines_def dw_codes found_line_def line_table_std)
qed

text \<open>
  C5. \<^verbatim>\<open>dwarf_srclines\<close> on an encoded line number unit (header, operand counts, include directories, files, program; 64-bit
  addresses, little endian, within a section smaller than 2 GB), whose table in the sense of the standard ascends in address:
  it returns, and for every address a row of the table covers the result is that row. For any table and address the program ends, and the
  result is the last row before the first row beyond the address, the rows that end a sequence left out (they are not recorded, so
  for an address between two sequences, or behind the last, this row does not cover it: \<open>end_sequence_loses_end\<close>).
\<close>

theorem srclines_finds_row:
  assumes "attr_find die 0x10 = Some at" and "dwarf_find_section secs ''.debug_line'' = Some ds"
    and "holds m (ds_data ds + at_u0 at) (unit_bytes u)" and "unit_ok u"
    and "unat (at_u0 at) + length (unit_bytes u) \<le> unat (ds_size ds)" and "unat (ds_size ds) < 2 ^ 31"
    and "unat (ds_data ds) + unat (ds_size ds) < 2 ^ 64"
    and "dbg_read dbg = dwarf_read_lsb" and "dbg_decode dbg = dwarf_decode_lsb" and "addr_size (cu_header die) = 8"
    and "T = std_table (unit_info u) (lu_prog u) (reset_registers (unit_info u))"
  shows "(sorted (map ln_addr T) \<and> covers T i pc \<longrightarrow> dwarf_srclines m secs dbg die linebuf pc = cret (DW_DLV_OK, T ! i))
    \<and> dwarf_srclines m secs dbg die linebuf pc =
        cret (DW_DLV_OK, last (line0 # rows_to pc (filter (\<lambda>row. ln_endseq row = 0) T)))"
  using srclines_rows [OF assms(1-10)] covering_row_found [of T i pc] unfolding assms(11) by simp

text \<open>
  Two rows, at \<open>0x1000\<close> and \<open>0x1004\<close>, then the end of the sequence at \<open>0x1014\<close>.
\<close>

definition demo_unit :: line_unit where
  "demo_unit =
     \<lparr>lu_version = 2, lu_minlen = 1, lu_defstmt = 1, lu_lbase = - 5, lu_lrange = 14, lu_opbase = 13,
      lu_oplens = [0, 1, 1, 1, 1, 0, 0, 0, 1, 0, 0, 1], lu_dirs = [[0x61]], lu_files = [([0x62], 1, 0, 0)],
      lu_prog = [ISet_address 0x1000, IAdvance_line 9, ICopy, ISpecial 75, IAdvance_pc 16, IEnd_sequence]\<rparr>"

definition demo_line_section :: dwarf_section where
  "demo_line_section = \<lparr>ds_name = ascii ''.debug_line'', ds_data = 0x4000, ds_addr = 0, ds_size = 0x100\<rparr>"

definition demo_stmt_list :: dwarf_attribute where
  "demo_stmt_list = \<lparr>at_attrib = 0x10, at_form = 0x06, at_indirect = 0, at_u0 = 0, at_u1 = 0, bl_len = 0, bl_data = 0\<rparr>"

definition demo_line_die :: dwarf_die where
  "demo_line_die = die0\<lparr>die_attr_count := 1,
     die_attr := [demo_stmt_list]\<rparr>"

definition demo_line_mem :: mem where
  "demo_line_mem = write_bytes (\<lambda>_. 0) 0x4000 (unit_bytes demo_unit)"

definition demo_rows :: "dwarf_line list" where
  "demo_rows = line_table (unit_info demo_unit) (lu_prog demo_unit) (reset_registers (unit_info demo_unit))"

lemma demo_line:
  "attr_find demo_line_die 0x10 = Some demo_stmt_list"
  "dwarf_find_section [demo_line_section] ''.debug_line'' = Some demo_line_section"
  "holds demo_line_mem (ds_data demo_line_section + at_u0 demo_stmt_list) (unit_bytes demo_unit)"
  "unit_ok demo_unit"
  "unat (at_u0 demo_stmt_list) + length (unit_bytes demo_unit) \<le> unat (ds_size demo_line_section)"
  "unat (ds_size demo_line_section) < 2 ^ 31" "unat (ds_data demo_line_section) + unat (ds_size demo_line_section) < 2 ^ 64"
  "dbg_read demo_dbg = dwarf_read_lsb" "dbg_decode demo_dbg = dwarf_decode_lsb" "addr_size (cu_header demo_line_die) = 8"
proof -
  show "attr_find demo_line_die 0x10 = Some demo_stmt_list" by code_simp
  show "dwarf_find_section [demo_line_section] ''.debug_line'' = Some demo_line_section" by code_simp
  show r: "unat (at_u0 demo_stmt_list) + length (unit_bytes demo_unit) \<le> unat (ds_size demo_line_section)" by code_simp
  then show "holds demo_line_mem (ds_data demo_line_section + at_u0 demo_stmt_list) (unit_bytes demo_unit)"
    by (simp add: holds_write demo_line_mem_def demo_line_section_def demo_stmt_list_def)
  show "unit_ok demo_unit"
    by (simp add: unit_ok_def demo_unit_def file_ok_def file_bytes_def unit_info_def uleb_encode.simps)
qed (simp_all add: demo_line_section_def demo_dbg_def demo_line_die_def die0_def demo_cu_def)

definition demo_std_rows :: "dwarf_line list" where
  "demo_std_rows = std_table (unit_info demo_unit) (lu_prog demo_unit) (reset_registers (unit_info demo_unit))"

lemma demo_std_facts:
  "map ln_addr demo_std_rows = [0x1000, 0x1004, 0x1014]" "map ln_endseq demo_std_rows = [0, 0, 1]" "map ln_lineno demo_std_rows = [10, 11, 11]"
  by code_simp+

theorem srclines_finds_row_witness:
  "dwarf_srclines demo_line_mem [demo_line_section] demo_dbg demo_line_die line0 0x1003 = cret (DW_DLV_OK, demo_std_rows ! 0)
   \<and> ln_addr (demo_std_rows ! 0) = 0x1000 \<and> ln_lineno (demo_std_rows ! 0) = 10"
proof -
  have len: "length demo_std_rows = 3" using arg_cong [OF demo_std_facts(1), of length] by simp
  have a: "map ln_addr demo_std_rows ! 0 = 0x1000" "map ln_addr demo_std_rows ! 1 = 0x1004" "map ln_endseq demo_std_rows ! 0 = 0"
    "map ln_lineno demo_std_rows ! 0 = 10"
    unfolding demo_std_facts by simp_all
  then have "covers demo_std_rows 0 0x1003" "ln_addr (demo_std_rows ! 0) = 0x1000" "ln_lineno (demo_std_rows ! 0) = 10"
    by (simp_all add: covers_def len)
  moreover have "sorted (map ln_addr demo_std_rows)" by (simp add: demo_std_facts)
  ultimately show ?thesis using srclines_finds_row [OF demo_line demo_std_rows_def, of 0 "0x1003" line0] by blast
qed

text \<open>
  \<^verbatim>\<open>DW_LNE_end_sequence\<close> adds no row, so the end address of a sequence is lost: for an address far behind the
  example's only sequence, which ends at \<open>0x1014\<close>, the sequence's last row is returned, although no row covers the address.
\<close>

theorem end_sequence_loses_end:
  "dwarf_srclines demo_line_mem [demo_line_section] demo_dbg demo_line_die line0 0x9000 = cret (DW_DLV_OK, demo_rows ! 1)
   \<and> ln_addr (demo_rows ! 1) = 0x1004 \<and> \<not> covers demo_std_rows i 0x9000"
proof -
  have len: "length demo_std_rows = 3" using arg_cong [OF demo_std_facts(1), of length] by simp
  have a: "map ln_addr demo_std_rows ! Suc 0 = 0x1004" "map ln_addr demo_std_rows ! Suc (Suc 0) = 0x1014"
    unfolding demo_std_facts by simp_all
  have no: "\<not> covers demo_std_rows i 0x9000"
  proof
    assume "covers demo_std_rows i 0x9000"
    then have "i = 0 \<or> i = Suc 0" "0x9000 < map ln_addr demo_std_rows ! Suc i" by (auto simp: covers_def len)
    with a show False by auto
  qed
  have "li_line (found_line (unit_info demo_unit) (rows_to 0x9000 demo_rows)) = demo_rows ! 1" "ln_addr (demo_rows ! 1) = 0x1004"
    by code_simp+
  with lineno_init_encoded [OF demo_line(2-), of "0x9000"] demo_line(1) no show ?thesis
    by (simp add: dwarf_srclines_def demo_rows_def demo_stmt_list_def dw_codes)
qed

end
