(* ===== verification/Dwarf_Frame.thy ===== *)
theory Dwarf_Frame
  imports Dwarf_Line
begin

text \<open>
  \<^verbatim>\<open>kern/libdwarf_frame.c\<close>: the call frame information of \<^verbatim>\<open>.eh_frame\<close>, that is the walk over its entries, the parsing of
  CIEs and FDEs, and the machine that runs call frame instructions to build the register table for an address.

  The static objects of the file are a record: the two register tables (with the arrays their rule pointers point
  to), whether \<^verbatim>\<open>dbg->dbg_internal_reg_table\<close> is set, and \<^verbatim>\<open>debug_frame_sec\<close>. In \<^verbatim>\<open>_dwarf_frame_run_inst\<close> both \<^verbatim>\<open>init_rt\<close> and
  \<^verbatim>\<open>saved_rt\<close> are pointers to the one \<^verbatim>\<open>global_rt_table_shadow\<close>: the model keeps that table once, and of
  \<^verbatim>\<open>saved_rt\<close> only whether it is set. The two diagnostic lines that \<^verbatim>\<open>DW_CFA_set_loc\<close> prints are left out.
\<close>

section \<open>Data\<close>

record dwarf_cie =
  cie_offset :: u64
  cie_length :: u64
  cie_version :: u16
  cie_augment :: u64
  cie_ehdata :: u64
  cie_caf :: u64
  cie_daf :: i64
  cie_ra :: u64
  cie_auglen :: u64
  cie_augdata :: u64
  cie_fde_encode :: u8
  cie_initinst :: u64
  cie_instlen :: u64

record dwarf_fde =
  fde_addr :: u64
  fde_offset :: u64
  fde_length :: u64
  fde_cieoff :: u64
  fde_initloc :: u64
  fde_adrange :: u64
  fde_auglen :: u64
  fde_augdata :: u64
  fde_inst :: u64
  fde_instlen :: u64

record frame_tables =
  rt :: regtable3
  shadow :: regtable3
  rt_set :: bool
  eh_sec :: dwarf_section

definition entry0 :: regtable_entry3 where
  "entry0 = \<lparr>dw_offset_relevant = 0, dw_value_type = 0, dw_regnum = 0, dw_offset_or_block_len = 0, dw_block_ptr = 0\<rparr>"

text \<open>The size of the static arrays, \<^verbatim>\<open>DW_FRAME_LAST_REG_NUM\<close>.\<close>

definition frame_tables0 :: frame_tables where
  "frame_tables0 =
     \<lparr>rt = \<lparr>rt3_cfa_rule = entry0, rt3_reg_table_size = 0, rt3_rules = replicate 66 entry0\<rparr>,
      shadow = \<lparr>rt3_cfa_rule = entry0, rt3_reg_table_size = 0, rt3_rules = replicate 66 entry0\<rparr>,
      rt_set = False, eh_sec = \<lparr>ds_name = ascii ''.eh_frame'', ds_data = 0, ds_addr = 0, ds_size = 0\<rparr>\<rparr>"

section \<open>Copying register tables\<close>

text \<open>
  \<open>fresh\<close>: \<^verbatim>\<open>*dest\<close> is null and becomes the shadow table, with the size of the source. Rules beyond the source's size
  become undefined. An index beyond the arrays would be undefined.
\<close>

definition copy_rules :: "u16 \<Rightarrow> nat \<Rightarrow> regtable_entry3 list \<Rightarrow> nat \<Rightarrow> regtable_entry3 list \<Rightarrow> regtable_entry3 list" where
  "copy_rules undef dsize drules ssize srules =
     map (\<lambda>i. if i < dsize then if i < ssize then srules ! i else (drules ! i)\<lparr>dw_regnum := undef\<rparr> else drules ! i)
       [0..<length drules]"

definition frame_regtable_copy :: "dwarf_debug \<Rightarrow> bool \<Rightarrow> regtable3 \<Rightarrow> regtable3 \<Rightarrow> regtable3 cres" where
  "frame_regtable_copy dbg fresh dest src =
     (let dest = (if fresh then dest\<lparr>rt3_reg_table_size := rt3_reg_table_size src\<rparr> else dest);
          dest = dest\<lparr>rt3_cfa_rule := rt3_cfa_rule src\<rparr>;
          dsize = unat (rt3_reg_table_size dest); ssize = unat (rt3_reg_table_size src)
      in if dsize \<le> length (rt3_rules dest) \<and> min dsize ssize \<le> length (rt3_rules src) then
           cret (dest\<lparr>rt3_rules := copy_rules (dbg_frame_undefined_value dbg) dsize (rt3_rules dest) ssize (rt3_rules src)\<rparr>)
         else cfail Undefined)"

section \<open>Call frame instructions\<close>

record frame_st =
  f_rt :: regtable3
  f_shadow :: regtable3
  f_saved :: bool
  f_pc :: u64
  f_row_pc :: u64
  f_p :: u64

text \<open>One instruction ends in a new state, or leaves the loop with a return code.\<close>

datatype cfa_next = CNext frame_st | CDone i32 frame_st

text \<open>\<^verbatim>\<open>CHECK_TABLE_SIZE\<close>, then the update of one rule.\<close>

definition set_rule :: "u64 \<Rightarrow> (regtable_entry3 \<Rightarrow> regtable_entry3) \<Rightarrow> frame_st \<Rightarrow> cfa_next cres" where
  "set_rule reg f s =
     (if ucast (rt3_reg_table_size (f_rt s)) \<le> reg then cret (CDone DW_DLE_DF_REG_NUM_TOO_HIGH s)
      else if unat reg < length (rt3_rules (f_rt s)) then
        cret (CNext (s\<lparr>f_rt := (f_rt s)\<lparr>rt3_rules := (rt3_rules (f_rt s))[unat reg := f (rt3_rules (f_rt s) ! unat reg)]\<rparr>\<rparr>))
      else cfail Undefined)"

definition restore_rule :: "u64 \<Rightarrow> frame_st \<Rightarrow> cfa_next cres" where
  "restore_rule reg s =
     (if ucast (rt3_reg_table_size (f_rt s)) \<le> reg then cret (CDone DW_DLE_DF_REG_NUM_TOO_HIGH s)
      else if unat reg < length (rt3_rules (f_shadow s)) then set_rule reg (\<lambda>_. rt3_rules (f_shadow s) ! unat reg) s
      else cfail Undefined)"

definition set_cfa :: "(regtable_entry3 \<Rightarrow> regtable_entry3) \<Rightarrow> frame_st \<Rightarrow> cfa_next" where
  "set_cfa f s = CNext (s\<lparr>f_rt := (f_rt s)\<lparr>rt3_cfa_rule := f (rt3_cfa_rule (f_rt s))\<rparr>\<rparr>)"

definition advance :: "u64 \<Rightarrow> u64 \<Rightarrow> frame_st \<Rightarrow> cfa_next" where
  "advance delta pc_req s =
     (let s = s\<lparr>f_pc := f_pc s + delta\<rparr> in if pc_req < f_pc s then CDone DW_DLE_NONE s else CNext s)"

definition mark_row :: "frame_st \<Rightarrow> frame_st" where
  "mark_row s = s\<lparr>f_row_pc := f_pc s\<rparr>"

definition offset_rule :: "u8 \<Rightarrow> u16 \<Rightarrow> u64 \<Rightarrow> regtable_entry3 \<Rightarrow> regtable_entry3" where
  "offset_rule type regnum off e =
     e\<lparr>dw_offset_relevant := 1, dw_value_type := type, dw_regnum := regnum, dw_offset_or_block_len := off\<rparr>"

definition plain_rule :: "u16 \<Rightarrow> regtable_entry3 \<Rightarrow> regtable_entry3" where
  "plain_rule regnum e = e\<lparr>dw_offset_relevant := 0, dw_regnum := regnum\<rparr>"

definition block_rule :: "u8 \<Rightarrow> u64 \<Rightarrow> u64 \<Rightarrow> regtable_entry3 \<Rightarrow> regtable_entry3" where
  "block_rule type len ptr e =
     e\<lparr>dw_offset_relevant := 0, dw_value_type := type, dw_offset_or_block_len := len, dw_block_ptr := ptr\<rparr>"

definition uleb_next :: "mem \<Rightarrow> frame_st \<Rightarrow> (u64 \<times> frame_st) cres" where
  "uleb_next m s = cbind (clift (dwarf_decode_uleb128 m (f_p s))) (\<lambda>(v, p). cret (v, s\<lparr>f_p := p\<rparr>))"

definition sleb_next :: "mem \<Rightarrow> frame_st \<Rightarrow> (i64 \<times> frame_st) cres" where
  "sleb_next m s = cbind (clift (dwarf_decode_sleb128 m (f_p s))) (\<lambda>(v, p). cret (v, s\<lparr>f_p := p\<rparr>))"

definition fixed_next :: "mem \<Rightarrow> dwarf_debug \<Rightarrow> i32 \<Rightarrow> frame_st \<Rightarrow> u64 \<times> frame_st" where
  "fixed_next m dbg n s = (let (v, p) = dbg_decode dbg m (f_p s) n in (v, s\<lparr>f_p := p\<rparr>))"

text \<open>The instructions with an operand in the opcode byte. The pointer is past that byte already.\<close>

definition primary_op ::
    "mem \<Rightarrow> dwarf_debug \<Rightarrow> u64 \<Rightarrow> i64 \<Rightarrow> u64 \<Rightarrow> u8 \<Rightarrow> u8 \<Rightarrow> frame_st \<Rightarrow> cfa_next cres" where
  "primary_op m dbg caf daf pc_req high2 low6 s =
     (if high2 = 0x40 then cret (advance (ucast low6 * caf) pc_req s)
      else if high2 = 0x80 then
        let s = mark_row s in
        if ucast (rt3_reg_table_size (f_rt s)) \<le> (ucast low6 :: u64) then cret (CDone DW_DLE_DF_REG_NUM_TOO_HIGH s)
        else cbind (uleb_next m s) (\<lambda>(v, s).
          set_rule (ucast low6) (offset_rule 0 (dbg_frame_cfa_value dbg) (v * daf)) s)
      else if high2 = 0xc0 then restore_rule (ucast low6) (mark_row s)
      else cret (CDone DW_DLE_FRAME_INSTR_EXEC_ERROR s))"

text \<open>The instructions from \<^verbatim>\<open>DW_CFA_def_cfa\<close> on.\<close>

definition define_cfa_op :: "mem \<Rightarrow> dwarf_debug \<Rightarrow> i64 \<Rightarrow> u8 \<Rightarrow> frame_st \<Rightarrow> cfa_next cres" where
  "define_cfa_op m dbg daf op s =
     (let cfav = dbg_frame_cfa_value dbg in
      if op = 0x0c then
        cbind (uleb_next m (mark_row s)) (\<lambda>(reg, s). cbind (uleb_next m s) (\<lambda>(off, s).
          cret (set_cfa (offset_rule 0 (ucast reg) off) s)))
      else if op = 0x0d then
        cbind (uleb_next m (mark_row s)) (\<lambda>(reg, s). cret (set_cfa (\<lambda>e. e\<lparr>dw_regnum := ucast reg\<rparr>) s))
      else if op = 0x0e then
        cbind (uleb_next m (mark_row s)) (\<lambda>(off, s). cret (set_cfa (\<lambda>e. offset_rule 0 (dw_regnum e) off e) s))
      else if op = 0x0f then
        cbind (uleb_next m (mark_row s)) (\<lambda>(len, s).
          cret (set_cfa (block_rule 2 len (f_p s)) (s\<lparr>f_p := f_p s + len\<rparr>)))
      else if op = 0x10 \<or> op = 0x16 then
        cbind (uleb_next m (mark_row s)) (\<lambda>(reg, s).
          if ucast (rt3_reg_table_size (f_rt s)) \<le> reg then cret (CDone DW_DLE_DF_REG_NUM_TOO_HIGH s)
          else cbind (uleb_next m s) (\<lambda>(len, s).
            set_rule reg (block_rule (if op = 0x10 then 2 else 3) len (f_p s)) (s\<lparr>f_p := f_p s + len\<rparr>)))
      else if op = 0x11 then
        cbind (uleb_next m (mark_row s)) (\<lambda>(reg, s). cbind (sleb_next m s) (\<lambda>(off, s).
          set_rule reg (offset_rule 0 cfav (off * daf)) s))
      else if op = 0x12 then
        cbind (uleb_next m (mark_row s)) (\<lambda>(reg, s). cbind (sleb_next m s) (\<lambda>(off, s).
          cret (set_cfa (offset_rule 0 (ucast reg) (off * daf)) s)))
      else if op = 0x13 then
        cbind (sleb_next m (mark_row s)) (\<lambda>(off, s). cret (set_cfa (\<lambda>e. offset_rule 0 (dw_regnum e) (off * daf) e) s))
      else if op = 0x14 then
        cbind (uleb_next m (mark_row s)) (\<lambda>(reg, s). cbind (uleb_next m s) (\<lambda>(off, s).
          set_rule reg (offset_rule 1 cfav (off * daf)) s))
      else if op = 0x15 then
        cbind (uleb_next m (mark_row s)) (\<lambda>(reg, s). cbind (sleb_next m s) (\<lambda>(off, s).
          set_rule reg (offset_rule 1 cfav (off * daf)) s))
      else cret (CDone DW_DLE_FRAME_INSTR_EXEC_ERROR s))"

text \<open>
  The other instructions. After \<^verbatim>\<open>DW_CFA_set_loc\<close> the \<^verbatim>\<open>goto program_done\<close> is taken always: the \<^verbatim>\<open>if\<close> before it guards only the
  print.
\<close>

definition extended_cfa_op ::
    "mem \<Rightarrow> dwarf_debug \<Rightarrow> u64 \<Rightarrow> i64 \<Rightarrow> u64 \<Rightarrow> u8 \<Rightarrow> frame_st \<Rightarrow> cfa_next cres" where
  "extended_cfa_op m dbg caf daf pc_req op s =
     (let cfav = dbg_frame_cfa_value dbg in
      if op = 0x01 then
        let (v, s) = fixed_next m dbg (dbg_pointer_size dbg) s in cret (CDone DW_DLE_NONE (s\<lparr>f_pc := v\<rparr>))
      else if op = 0x02 then let (v, s) = fixed_next m dbg 1 s in cret (advance (v * caf) pc_req s)
      else if op = 0x03 then let (v, s) = fixed_next m dbg 2 s in cret (advance (v * caf) pc_req s)
      else if op = 0x04 then let (v, s) = fixed_next m dbg 4 s in cret (advance (v * caf) pc_req s)
      else if op = 0x05 then
        cbind (uleb_next m (mark_row s)) (\<lambda>(reg, s). cbind (uleb_next m s) (\<lambda>(off, s).
          set_rule reg (offset_rule 0 cfav (off * daf)) s))
      else if op = 0x06 then cbind (uleb_next m (mark_row s)) (\<lambda>(reg, s). restore_rule reg s)
      else if op = 0x07 then
        cbind (uleb_next m (mark_row s)) (\<lambda>(reg, s). set_rule reg (plain_rule (dbg_frame_undefined_value dbg)) s)
      else if op = 0x08 then
        cbind (uleb_next m s) (\<lambda>(reg, s). set_rule reg (plain_rule (dbg_frame_same_value dbg)) s)
      else if op = 0x09 then
        cbind (uleb_next m (mark_row s)) (\<lambda>(reg, s). cbind (uleb_next m s) (\<lambda>(reg2, s).
          set_rule reg (plain_rule (ucast reg2)) s))
      else if op = 0x0a then
        cbind (frame_regtable_copy dbg (\<not> f_saved s) (f_shadow s) (f_rt s)) (\<lambda>t.
          cret (CNext (s\<lparr>f_shadow := t, f_saved := True\<rparr>)))
      else if op = 0x0b then
        cassert (f_saved s)
          (cbind (frame_regtable_copy dbg False (f_rt s) (f_shadow s)) (\<lambda>t.
             cret (CNext ((mark_row s)\<lparr>f_rt := t\<rparr>))))
      else define_cfa_op m dbg daf op s)"

definition cfa_op :: "mem \<Rightarrow> dwarf_debug \<Rightarrow> u64 \<Rightarrow> i64 \<Rightarrow> u64 \<Rightarrow> frame_st \<Rightarrow> cfa_next cres" where
  "cfa_op m dbg caf daf pc_req s =
     (let b = m (f_p s); s = s\<lparr>f_p := f_p s + 1\<rparr> in
      if b = 0 then cret (CNext s)
      else if b AND 0xc0 \<noteq> 0 then primary_op m dbg caf daf pc_req (b AND 0xc0) (b AND 0x3f) s
      else extended_cfa_op m dbg caf daf pc_req (b AND 0x3f) s)"

partial_function (option) cfa_loop ::
    "mem \<Rightarrow> dwarf_debug \<Rightarrow> u64 \<Rightarrow> i64 \<Rightarrow> u64 \<Rightarrow> u64 \<Rightarrow> frame_st \<Rightarrow> (i32 \<times> frame_st) cres" where
  "cfa_loop m dbg caf daf pc_req pe s =
     (if f_p s < pe then
        cbind (cfa_op m dbg caf daf pc_req s) (\<lambda>nxt.
          case nxt of CDone ret s \<Rightarrow> cret (ret, s) | CNext s \<Rightarrow> cfa_loop m dbg caf daf pc_req pe s)
      else cret (DW_DLE_NONE, s))"

definition frame_run_inst ::
    "mem \<Rightarrow> dwarf_debug \<Rightarrow> frame_tables \<Rightarrow> u64 \<Rightarrow> u64 \<Rightarrow> u64 \<Rightarrow> i64 \<Rightarrow> u64 \<Rightarrow> u64
      \<Rightarrow> (i32 \<times> u64 \<times> frame_tables) cres" where
  "frame_run_inst m dbg t insts len caf daf pc pc_req =
     cbind (frame_regtable_copy dbg True (shadow t) (rt t)) (\<lambda>sh.
     cbind (cfa_loop m dbg caf daf pc_req (insts + len)
              \<lparr>f_rt = rt t, f_shadow = sh, f_saved = False, f_pc = pc, f_row_pc = pc, f_p = insts\<rparr>) (\<lambda>(ret, s).
       cret (ret, f_row_pc s, t\<lparr>rt := f_rt s, shadow := f_shadow s\<rparr>)))"

definition frame_clear :: "dwarf_debug \<Rightarrow> regtable3 \<Rightarrow> regtable3 cres" where
  "frame_clear dbg t =
     (let n = unat (rt3_reg_table_size t) in
      if n \<le> length (rt3_rules t) then
        cret (t\<lparr>rt3_cfa_rule := entry0,
                rt3_rules := replicate n (entry0\<lparr>dw_regnum := dbg_frame_rule_initial_value dbg\<rparr>) @ drop n (rt3_rules t)\<rparr>)
      else cfail Undefined)"

definition frame_get_internal_table ::
    "mem \<Rightarrow> dwarf_debug \<Rightarrow> frame_tables \<Rightarrow> dwarf_cie \<Rightarrow> dwarf_fde \<Rightarrow> u64 \<Rightarrow> (i32 \<times> u64 \<times> frame_tables) cres" where
  "frame_get_internal_table m dbg t cie fde pc_req =
     (if rt_set t then
        cbind (frame_clear dbg (rt t)) (\<lambda>r.
        cbind (frame_run_inst m dbg (t\<lparr>rt := r\<rparr>) (cie_initinst cie) (cie_instlen cie) (cie_caf cie) (cie_daf cie) 0 (- 1)) (\<lambda>(ret, row_pc, t).
          if ret \<noteq> DW_DLE_NONE then cret (ret, row_pc, t)
          else if fde_initloc fde \<le> pc_req then
            frame_run_inst m dbg t (fde_inst fde) (fde_instlen fde) (cie_caf cie) (cie_daf cie) (fde_initloc fde) pc_req
          else cret (DW_DLE_NONE, row_pc, t)))
      else cfail Undefined)"

section \<open>The register table handed out\<close>

record reg_rule =
  rr_offset_relevant :: u8
  rr_regnum :: u16
  rr_offset :: u64

definition DW_REG_TABLE_SIZE :: nat where "DW_REG_TABLE_SIZE = 66"
definition DW_DLE_NO_CIE_FOR_FDE :: i32 where "DW_DLE_NO_CIE_FOR_FDE = 19"

definition rule_of :: "regtable_entry3 \<Rightarrow> reg_rule" where
  "rule_of e = \<lparr>rr_offset_relevant = dw_offset_relevant e, rr_regnum = dw_regnum e, rr_offset = dw_offset_or_block_len e\<rparr>"

text \<open>\<^verbatim>\<open>Dwarf_Regtable\<close> is its array of 66 rules. Every failure writes through the null pointer.\<close>

definition dwarf_get_fde_info_for_all_regs ::
    "mem \<Rightarrow> dwarf_debug \<Rightarrow> frame_tables \<Rightarrow> dwarf_cie \<Rightarrow> dwarf_fde \<Rightarrow> u64 \<Rightarrow> reg_rule list
      \<Rightarrow> (i32 \<times> reg_rule list \<times> u64 \<times> frame_tables) cres" where
  "dwarf_get_fde_info_for_all_regs m dbg t cie fde pc rules =
     (if pc < fde_initloc fde \<or> fde_initloc fde + fde_adrange fde \<le> pc then cfail Undefined
      else cbind (frame_get_internal_table m dbg t cie fde pc) (\<lambda>(ret, row_pc, t).
        if ret \<noteq> DW_DLE_NONE then cfail Undefined
        else
          let cfa = unat (dbg_frame_cfa_value dbg);
              rules = (if cfa < DW_REG_TABLE_SIZE then rules[cfa := rule_of (rt3_cfa_rule (rt t))] else rules);
              n = min DW_REG_TABLE_SIZE (unat (dbg_frame_rule_table_size dbg))
          in if n \<le> length (rt3_rules (rt t)) then
               cret (DW_DLV_OK,
                 map (\<lambda>i. if i < n \<and> i \<noteq> cfa then rule_of (rt3_rules (rt t) ! i) else rules ! i) [0..<length rules], row_pc, t)
             else cfail Undefined))"

section \<open>Parsing CIEs and FDEs\<close>

text \<open>\<^verbatim>\<open>*val\<close> is left alone when the encoding is \<^verbatim>\<open>DW_EH_PE_omit\<close>. Only \<^verbatim>\<open>DW_EH_PE_pcrel\<close> is applied.\<close>

definition read_lsb_encoded ::
    "mem \<Rightarrow> dwarf_debug \<Rightarrow> u64 \<Rightarrow> u64 \<Rightarrow> u64 \<Rightarrow> u8 \<Rightarrow> u64 \<Rightarrow> (i32 \<times> u64 \<times> u64) cres" where
  "read_lsb_encoded m dbg val data off encode pc =
     (if encode = 0xff then cret (DW_DLE_NONE, val, off)
      else
        let application = encode AND 0xf0; encode = encode AND 0x0f; rd = dbg_read dbg m data;
            add = (\<lambda>v. if application = 0x10 then v + pc else v)
        in
        if encode = 0x00 then let (v, off) = rd off (dbg_pointer_size dbg) in cret (DW_DLE_NONE, v, off)
        else if encode = 0x01 then
          cbind (clift (dwarf_read_uleb128 m data off)) (\<lambda>(v, off). cret (DW_DLE_NONE, add v, off))
        else if encode = 0x02 then let (v, off) = rd off 2 in cret (DW_DLE_NONE, add v, off)
        else if encode = 0x03 then let (v, off) = rd off 4 in cret (DW_DLE_NONE, add v, off)
        else if encode = 0x04 then let (v, off) = rd off 8 in cret (DW_DLE_NONE, add v, off)
        else if encode = 0x09 then
          cbind (clift (dwarf_read_sleb128 m data off)) (\<lambda>(v, off). cret (DW_DLE_NONE, add v, off))
        else if encode = 0x0a then
          let (v, off) = rd off 2 in cret (DW_DLE_NONE, add (scast (ucast v :: u16)), off)
        else if encode = 0x0b then
          let (v, off) = rd off 4 in cret (DW_DLE_NONE, add (scast (ucast v :: u32)), off)
        else if encode = 0x0c then let (v, off) = rd off 8 in cret (DW_DLE_NONE, add v, off)
        else cret (DW_DLE_FRAME_AUGMENTATION_UNKNOWN, val, off))"

partial_function (option) augment_loop ::
    "mem \<Rightarrow> dwarf_debug \<Rightarrow> dwarf_cie \<Rightarrow> u64 \<Rightarrow> u64 \<Rightarrow> (i32 \<times> dwarf_cie) cres" where
  "augment_loop m dbg cie aug_p augdata_p =
     (let c = m aug_p in
      if c = 0 then cret (DW_DLE_NONE, cie)
      else if c = 0x4c then augment_loop m dbg cie (aug_p + 1) (augdata_p + 1)
      else if c = 0x50 then
        cbind (read_lsb_encoded m dbg 0 (augdata_p + 1) 0 (m augdata_p) 0) (\<lambda>(ret, _, off).
          if ret \<noteq> DW_DLE_NONE then cret (ret, cie)
          else augment_loop m dbg cie (aug_p + 1) (augdata_p + 1 + off))
      else if c = 0x52 then
        augment_loop m dbg (cie\<lparr>cie_fde_encode := m augdata_p\<rparr>) (aug_p + 1) (augdata_p + 1)
      else cret (DW_DLE_FRAME_AUGMENTATION_UNKNOWN, cie))"

definition parse_lsb_cie_augment :: "mem \<Rightarrow> dwarf_debug \<Rightarrow> dwarf_cie \<Rightarrow> (i32 \<times> dwarf_cie) cres" where
  "parse_lsb_cie_augment m dbg cie =
     cassert (cie_augment cie \<noteq> 0 \<and> m (cie_augment cie) = 0x7a)
       (augment_loop m dbg cie (cie_augment cie + 1) (cie_augdata cie))"

text \<open>The initial length of an entry: the length, the size of offsets and the offset behind it.\<close>

definition entry_length :: "mem \<Rightarrow> dwarf_debug \<Rightarrow> u64 \<Rightarrow> u64 \<Rightarrow> u64 \<times> i32 \<times> u64" where
  "entry_length m dbg data off =
     (let (len, off) = dbg_read dbg m data off 4 in
      if len = 0xffffffff then let (len, off) = dbg_read dbg m data off 8 in (len, 8, off) else (len, 4, off))"

text \<open>\<open>eh\<close> is the address of the literal \<^verbatim>\<open>"eh"\<close>.\<close>

definition frame_set_cie ::
    "mem \<Rightarrow> u64 \<Rightarrow> dwarf_debug \<Rightarrow> dwarf_section \<Rightarrow> u64 \<Rightarrow> dwarf_cie \<Rightarrow> (i32 \<times> u64 \<times> dwarf_cie) cres" where
  "frame_set_cie m eh dbg ds off cie =
     (let data = ds_data ds;
          cie = cie\<lparr>cie_offset := off\<rparr>;
          (len, dwarf_size, off) = entry_length m dbg data off
      in if len > ds_size ds - off then cret (DW_DLE_DEBUG_FRAME_LENGTH_BAD, off, cie)
      else
        let (_, off) = dbg_read dbg m data off dwarf_size;
            cie = cie\<lparr>cie_length := len\<rparr>;
            (v, off) = dbg_read dbg m data off 1;
            cie = cie\<lparr>cie_version := ucast v\<rparr>
        in if cie_version cie \<noteq> 1 \<and> cie_version cie \<noteq> 3 \<and> cie_version cie \<noteq> 4 then
             cret (DW_DLE_FRAME_VERSION_BAD, off, cie)
        else
          let cie = cie\<lparr>cie_augment := data + off\<rparr> in
          cbind (clift (skip_string m (data + off))) (\<lambda>p.
            let off = p - data; aug = m (cie_augment cie); hdr = (if dwarf_size = 4 then 4 else 12) in
            if aug \<noteq> 0 \<and> aug \<noteq> 0x7a then cret (DW_DLE_NONE, cie_offset cie + hdr + cie_length cie, cie)
            else
              cbind (clift (strstr m (cie_augment cie) eh)) (\<lambda>q.
              let (cie, off) =
                (if q \<noteq> 0 then let (v, off) = dbg_read dbg m data off (dbg_pointer_size dbg) in (cie\<lparr>cie_ehdata := v\<rparr>, off)
                 else (cie, off))
              in cbind (clift (dwarf_read_uleb128 m data off)) (\<lambda>(caf, off).
              cbind (clift (dwarf_read_sleb128 m data off)) (\<lambda>(daf, off).
              cbind (if cie_version cie = 1 then cret (dbg_read dbg m data off 1) else clift (dwarf_read_uleb128 m data off)) (\<lambda>(ra, off).
                let cie = cie\<lparr>cie_caf := caf, cie_daf := daf, cie_ra := ra\<rparr>;
                    finish = (\<lambda>off cie.
                      let cie = cie\<lparr>cie_initinst := data + off, cie_instlen := cie_offset cie + hdr + len - off\<rparr>
                      in cret (DW_DLE_NONE, off + cie_instlen cie, cie))
                in if aug = 0x7a then
                     cbind (clift (dwarf_read_uleb128 m data off)) (\<lambda>(auglen, off).
                       let cie = cie\<lparr>cie_auglen := auglen, cie_augdata := data + off, cie_fde_encode := 0\<rparr>;
                           off = off + auglen
                       in cbind (parse_lsb_cie_augment m dbg cie) (\<lambda>(ret, cie).
                         if ret \<noteq> DW_DLE_NONE then cret (ret, off, cie) else finish off cie))
                   else finish off cie))))))"

text \<open>With \<^verbatim>\<open>DW_EH_PE_omit\<close> the initial location would be read uninitialised.\<close>

definition frame_set_fde ::
    "mem \<Rightarrow> dwarf_debug \<Rightarrow> dwarf_section \<Rightarrow> u64 \<Rightarrow> bool \<Rightarrow> dwarf_cie \<Rightarrow> dwarf_fde \<Rightarrow> (i32 \<times> u64 \<times> dwarf_fde) cres" where
  "frame_set_fde m dbg ds off eh_frame cie fde =
     (let data = ds_data ds;
          fde = fde\<lparr>fde_addr := data + off, fde_offset := off\<rparr>;
          (len, dwarf_size, off) = entry_length m dbg data off
      in if len > ds_size ds - off then cret (DW_DLE_DEBUG_FRAME_LENGTH_BAD, off, fde)
      else
        let fde = fde\<lparr>fde_length := len\<rparr>;
            (v, off) = dbg_read dbg m data off (if eh_frame then 4 else dwarf_size);
            fde = fde\<lparr>fde_cieoff := v\<rparr>;
            finish = (\<lambda>off fde.
              let fde = fde\<lparr>fde_inst := data + off,
                            fde_instlen := fde_offset fde + (if dwarf_size = 4 then 4 else 12) + len - off\<rparr>
              in cret (DW_DLE_NONE, off + fde_instlen fde, fde))
        in if eh_frame then
             if off - (4 + fde_cieoff fde) = fde_offset fde then cret (DW_DLE_NO_CIE_FOR_FDE, off, fde)
             else if cie_fde_encode cie = 0xff then cfail Undefined
             else
               cbind (read_lsb_encoded m dbg 0 data off (cie_fde_encode cie) (ds_addr ds + off)) (\<lambda>(ret, loc, off).
                 if ret \<noteq> DW_DLE_NONE then cret (ret, off, fde)
                 else
                   let fde = fde\<lparr>fde_initloc := loc\<rparr> in
                   cbind (read_lsb_encoded m dbg loc data off (cie_fde_encode cie) 0) (\<lambda>(ret, range, off).
                     if ret \<noteq> DW_DLE_NONE then cret (ret, off, fde)
                     else
                       let fde = fde\<lparr>fde_adrange := range\<rparr> in
                       if m (cie_augment cie) = 0x7a then
                         cbind (clift (dwarf_read_uleb128 m data off)) (\<lambda>(auglen, off).
                           finish (off + auglen) (fde\<lparr>fde_auglen := auglen, fde_augdata := data + off\<rparr>))
                       else finish off fde))
           else
             let (loc, off) = dbg_read dbg m data off (dbg_pointer_size dbg);
                 (range, off) = dbg_read dbg m data off (dbg_pointer_size dbg)
             in finish off (fde\<lparr>fde_initloc := loc, fde_adrange := range\<rparr>))"

section \<open>The walk over the section\<close>

definition frame_internal_table_init :: "dwarf_debug \<Rightarrow> frame_tables \<Rightarrow> i32 \<times> frame_tables" where
  "frame_internal_table_init dbg t =
     (if rt_set t then (DW_DLE_NONE, t)
      else (DW_DLE_NONE, t\<lparr>rt := (rt t)\<lparr>rt3_reg_table_size := dbg_frame_rule_table_size dbg\<rparr>, rt_set := True\<rparr>))"

definition get_next_fde ::
    "mem \<Rightarrow> u64 \<Rightarrow> dwarf_section \<Rightarrow> bool \<Rightarrow> dwarf_debug \<Rightarrow> dwarf_cie \<Rightarrow> dwarf_fde
      \<Rightarrow> (i32 \<times> dwarf_debug \<times> dwarf_cie \<times> dwarf_fde) cres" where
  "get_next_fde m eh ds eh_frame dbg cie fde =
     (let off = dbg_eh_offset dbg in
      if off < ds_size ds then
        let entry_off = off; (len, dwarf_size, off) = entry_length m dbg (ds_data ds) off in
        if len > ds_size ds - off \<or> len = 0 \<and> \<not> eh_frame then cret (DW_DLE_DEBUG_FRAME_LENGTH_BAD, dbg, cie, fde)
        else if eh_frame \<and> len = 0 then cret (- 1, dbg, cie, fde)
        else
          let (cie_id, off) = dbg_read dbg m (ds_data ds) off dwarf_size;
              is_cie = (if eh_frame then cie_id = 0
                        else dwarf_size = 4 \<and> cie_id = 0xffffffff \<or> dwarf_size = 8 \<and> cie_id = - 1)
          in cbind
               (if is_cie then
                  cbind (frame_set_cie m eh dbg ds entry_off cie) (\<lambda>(ret, off, cie). cret (ret, off, cie, fde))
                else
                  cbind (frame_set_fde m dbg ds entry_off eh_frame cie fde) (\<lambda>(ret, off, fde). cret (ret, off, cie, fde)))
               (\<lambda>(ret, off, cie, fde).
                 if ret \<noteq> DW_DLE_NONE then cret (- 1, dbg, cie, fde)
                 else cret (0, dbg\<lparr>dbg_eh_offset := off\<rparr>, cie, fde))
      else cret (0, dbg, cie, fde))"

definition fde0 :: dwarf_fde where
  "fde0 = \<lparr>fde_addr = 0, fde_offset = 0, fde_length = 0, fde_cieoff = 0, fde_initloc = 0, fde_adrange = 0,
     fde_auglen = 0, fde_augdata = 0, fde_inst = 0, fde_instlen = 0\<rparr>"

partial_function (option) fde_loop ::
    "mem \<Rightarrow> u64 \<Rightarrow> dwarf_section \<Rightarrow> bool \<Rightarrow> u64 \<Rightarrow> u64 \<times> u64 \<Rightarrow> dwarf_debug \<Rightarrow> dwarf_cie \<Rightarrow> dwarf_fde
      \<Rightarrow> (i32 \<times> (u64 \<times> u64) \<times> dwarf_debug \<times> dwarf_cie \<times> dwarf_fde) cres" where
  "fde_loop m eh ds eh_frame pc lohi dbg cie fde =
     (if dbg_eh_offset dbg < dbg_eh_size dbg then
        cbind (get_next_fde m eh ds eh_frame dbg cie fde) (\<lambda>(ret, dbg, cie, fde).
          if ret <s 0 then cret (DW_DLV_NO_ENTRY, lohi, dbg, cie, fde)
          else if fde_initloc fde \<le> pc \<and> pc < fde_initloc fde + fde_adrange fde then
            cret (DW_DLV_OK, (fde_initloc fde, fde_initloc fde + fde_adrange fde - 1), dbg, cie, fde)
          else fde_loop m eh ds eh_frame pc lohi dbg cie fde)
      else cret (DW_DLV_NO_ENTRY, lohi, dbg, cie, fde))"

definition dwarf_get_fde_at_pc ::
    "mem \<Rightarrow> u64 \<Rightarrow> frame_tables \<Rightarrow> bool \<Rightarrow> u64 \<Rightarrow> u64 \<times> u64 \<Rightarrow> dwarf_debug \<Rightarrow> dwarf_cie
      \<Rightarrow> (i32 \<times> (u64 \<times> u64) \<times> dwarf_debug \<times> dwarf_cie \<times> dwarf_fde) cres" where
  "dwarf_get_fde_at_pc m eh t eh_frame pc lohi dbg cie = fde_loop m eh (eh_sec t) eh_frame pc lohi dbg cie fde0"

definition dwarf_set_frame_cfa_value :: "dwarf_debug \<Rightarrow> u16 \<Rightarrow> u16 \<times> dwarf_debug" where
  "dwarf_set_frame_cfa_value dbg v = (dbg_frame_cfa_value dbg, dbg\<lparr>dbg_frame_cfa_value := v\<rparr>)"

definition frame_section_load_eh :: "dwarf_section list \<Rightarrow> frame_tables \<Rightarrow> (i32 \<times> frame_tables) cres" where
  "frame_section_load_eh secs t =
     cbind (dwarf_find_section_enhanced secs (eh_sec t)) (\<lambda>ds. cret (DW_DLE_NONE, t\<lparr>eh_sec := ds\<rparr>))"

definition dwarf_init_eh_section ::
    "dwarf_section list \<Rightarrow> dwarf_debug \<Rightarrow> frame_tables \<Rightarrow> (i32 \<times> dwarf_debug \<times> frame_tables) cres" where
  "dwarf_init_eh_section secs dbg t =
     (let (ret, t) = (if rt_set t then (DW_DLE_NONE, t) else frame_internal_table_init dbg t) in
      if ret \<noteq> DW_DLE_NONE then cret (DW_DLV_ERROR, dbg, t)
      else cbind (frame_section_load_eh secs t) (\<lambda>(ret, t).
        if ret \<noteq> DW_DLE_NONE then cret (DW_DLV_ERROR, dbg, t)
        else cret (DW_DLV_OK, dbg\<lparr>dbg_eh_size := ds_size (eh_sec t), dbg_eh_offset := 0\<rparr>, t)))"

declare cfa_loop.simps [code] augment_loop.simps [code] fde_loop.simps [code]

section \<open>Call frame programs of the standard\<close>

datatype cfa_instr =
    CNop | CAdvance u8 | CAdvance1 u8 | CAdvance2 u16 | CAdvance4 u32
  | COffset u8 nat | COffset_ext nat nat | COffset_sf nat int | CVal_offset nat nat | CVal_offset_sf nat int
  | CRestore u8 | CRestore_ext nat | CUndefined nat | CSame nat | CRegister nat nat
  | CExpr nat "u8 list" | CVal_expr nat "u8 list"
  | CDef_cfa nat nat | CDef_cfa_sf nat int | CDef_cfa_register nat | CDef_cfa_offset nat | CDef_cfa_offset_sf int
  | CDef_cfa_expr "u8 list" | CRemember | CRestore_state

fun cfa_bytes :: "cfa_instr \<Rightarrow> u8 list" where
  "cfa_bytes CNop = [0x00]"
| "cfa_bytes (CAdvance d) = [0x40 OR d]"
| "cfa_bytes (CAdvance1 d) = [0x02, d]"
| "cfa_bytes (CAdvance2 d) = 0x03 # le_bytes 2 (ucast d)"
| "cfa_bytes (CAdvance4 d) = 0x04 # le_bytes 4 (ucast d)"
| "cfa_bytes (COffset r n) = (0x80 OR r) # uleb_encode n"
| "cfa_bytes (COffset_ext r n) = 0x05 # uleb_encode r @ uleb_encode n"
| "cfa_bytes (COffset_sf r i) = 0x11 # uleb_encode r @ sleb_encode i"
| "cfa_bytes (CVal_offset r n) = 0x14 # uleb_encode r @ uleb_encode n"
| "cfa_bytes (CVal_offset_sf r i) = 0x15 # uleb_encode r @ sleb_encode i"
| "cfa_bytes (CRestore r) = [0xc0 OR r]"
| "cfa_bytes (CRestore_ext r) = 0x06 # uleb_encode r"
| "cfa_bytes (CUndefined r) = 0x07 # uleb_encode r"
| "cfa_bytes (CSame r) = 0x08 # uleb_encode r"
| "cfa_bytes (CRegister r q) = 0x09 # uleb_encode r @ uleb_encode q"
| "cfa_bytes (CExpr r e) = 0x10 # uleb_encode r @ uleb_encode (length e) @ e"
| "cfa_bytes (CVal_expr r e) = 0x16 # uleb_encode r @ uleb_encode (length e) @ e"
| "cfa_bytes (CDef_cfa r n) = 0x0c # uleb_encode r @ uleb_encode n"
| "cfa_bytes (CDef_cfa_sf r i) = 0x12 # uleb_encode r @ sleb_encode i"
| "cfa_bytes (CDef_cfa_register r) = 0x0d # uleb_encode r"
| "cfa_bytes (CDef_cfa_offset n) = 0x0e # uleb_encode n"
| "cfa_bytes (CDef_cfa_offset_sf i) = 0x13 # sleb_encode i"
| "cfa_bytes (CDef_cfa_expr e) = 0x0f # uleb_encode (length e) @ e"
| "cfa_bytes CRemember = [0x0a]"
| "cfa_bytes CRestore_state = [0x0b]"

text \<open>Operands the readers can represent, and registers inside a table of \<open>n\<close> rules.\<close>

definition int_ok :: "int \<Rightarrow> bool" where
  "int_ok i \<longleftrightarrow> - (2 ^ 31) \<le> i \<and> i < 2 ^ 31"

definition nat_ok :: "nat \<Rightarrow> bool" where
  "nat_ok n \<longleftrightarrow> n < 2 ^ 31"

fun cfa_ok :: "nat \<Rightarrow> cfa_instr \<Rightarrow> bool" where
  "cfa_ok k (CAdvance d) \<longleftrightarrow> d < 64"
| "cfa_ok k (COffset r n) \<longleftrightarrow> r < 64 \<and> unat r < k \<and> nat_ok n"
| "cfa_ok k (COffset_ext r n) \<longleftrightarrow> r < k \<and> nat_ok n"
| "cfa_ok k (COffset_sf r i) \<longleftrightarrow> r < k \<and> int_ok i"
| "cfa_ok k (CVal_offset r n) \<longleftrightarrow> r < k \<and> nat_ok n"
| "cfa_ok k (CVal_offset_sf r i) \<longleftrightarrow> r < k \<and> int_ok i"
| "cfa_ok k (CRestore r) \<longleftrightarrow> r < 64 \<and> unat r < k"
| "cfa_ok k (CRestore_ext r) \<longleftrightarrow> r < k"
| "cfa_ok k (CUndefined r) \<longleftrightarrow> r < k"
| "cfa_ok k (CSame r) \<longleftrightarrow> r < k"
| "cfa_ok k (CRegister r q) \<longleftrightarrow> r < k \<and> nat_ok q"
| "cfa_ok k (CExpr r e) \<longleftrightarrow> r < k \<and> nat_ok (length e)"
| "cfa_ok k (CVal_expr r e) \<longleftrightarrow> r < k \<and> nat_ok (length e)"
| "cfa_ok k (CDef_cfa r n) \<longleftrightarrow> nat_ok r \<and> nat_ok n"
| "cfa_ok k (CDef_cfa_sf r i) \<longleftrightarrow> nat_ok r \<and> int_ok i"
| "cfa_ok k (CDef_cfa_register r) \<longleftrightarrow> nat_ok r"
| "cfa_ok k (CDef_cfa_offset n) \<longleftrightarrow> nat_ok n"
| "cfa_ok k (CDef_cfa_offset_sf i) \<longleftrightarrow> int_ok i"
| "cfa_ok k (CDef_cfa_expr e) \<longleftrightarrow> nat_ok (length e)"
| "cfa_ok k _ \<longleftrightarrow> True"

text \<open>
  The machine of the standard: the current row, a stack of rows, the location and the location of the last
  change. \<open>init\<close> is the row at the start, which the restore instructions refer to; \<open>p\<close> is where the instruction's
  encoding ends, which the expressions refer to.
\<close>

record cfa_state =
  a_row :: regtable3
  a_stack :: "regtable3 list"
  a_loc :: u64
  a_change :: u64

definition upd_rule :: "nat \<Rightarrow> (regtable_entry3 \<Rightarrow> regtable_entry3) \<Rightarrow> cfa_state \<Rightarrow> cfa_state" where
  "upd_rule r f a =
     a\<lparr>a_row := (a_row a)\<lparr>rt3_rules := (rt3_rules (a_row a))[r := f (rt3_rules (a_row a) ! r)]\<rparr>, a_change := a_loc a\<rparr>"

definition upd_cfa :: "(regtable_entry3 \<Rightarrow> regtable_entry3) \<Rightarrow> cfa_state \<Rightarrow> cfa_state" where
  "upd_cfa f a = a\<lparr>a_row := (a_row a)\<lparr>rt3_cfa_rule := f (rt3_cfa_rule (a_row a))\<rparr>, a_change := a_loc a\<rparr>"

fun cfa_step :: "dwarf_debug \<Rightarrow> i64 \<Rightarrow> regtable3 \<Rightarrow> u64 \<Rightarrow> cfa_instr \<Rightarrow> cfa_state \<Rightarrow> cfa_state" where
  "cfa_step dbg daf init p (COffset r n) a = upd_rule (unat r) (offset_rule 0 (dbg_frame_cfa_value dbg) (of_nat n * daf)) a"
| "cfa_step dbg daf init p (COffset_ext r n) a = upd_rule r (offset_rule 0 (dbg_frame_cfa_value dbg) (of_nat n * daf)) a"
| "cfa_step dbg daf init p (COffset_sf r i) a = upd_rule r (offset_rule 0 (dbg_frame_cfa_value dbg) (of_int i * daf)) a"
| "cfa_step dbg daf init p (CVal_offset r n) a = upd_rule r (offset_rule 1 (dbg_frame_cfa_value dbg) (of_nat n * daf)) a"
| "cfa_step dbg daf init p (CVal_offset_sf r i) a = upd_rule r (offset_rule 1 (dbg_frame_cfa_value dbg) (of_int i * daf)) a"
| "cfa_step dbg daf init p (CRestore r) a = upd_rule (unat r) (\<lambda>_. rt3_rules init ! unat r) a"
| "cfa_step dbg daf init p (CRestore_ext r) a = upd_rule r (\<lambda>_. rt3_rules init ! r) a"
| "cfa_step dbg daf init p (CUndefined r) a = upd_rule r (plain_rule (dbg_frame_undefined_value dbg)) a"
| "cfa_step dbg daf init p (CSame r) a = (upd_rule r (plain_rule (dbg_frame_same_value dbg)) a)\<lparr>a_change := a_change a\<rparr>"
| "cfa_step dbg daf init p (CRegister r q) a = upd_rule r (plain_rule (of_nat q)) a"
| "cfa_step dbg daf init p (CExpr r e) a = upd_rule r (block_rule 2 (of_nat (length e)) (p - of_nat (length e))) a"
| "cfa_step dbg daf init p (CVal_expr r e) a = upd_rule r (block_rule 3 (of_nat (length e)) (p - of_nat (length e))) a"
| "cfa_step dbg daf init p (CDef_cfa r n) a = upd_cfa (offset_rule 0 (of_nat r) (of_nat n)) a"
| "cfa_step dbg daf init p (CDef_cfa_sf r i) a = upd_cfa (offset_rule 0 (of_nat r) (of_int i * daf)) a"
| "cfa_step dbg daf init p (CDef_cfa_register r) a = upd_cfa (\<lambda>e. e\<lparr>dw_regnum := of_nat r\<rparr>) a"
| "cfa_step dbg daf init p (CDef_cfa_offset n) a = upd_cfa (\<lambda>e. offset_rule 0 (dw_regnum e) (of_nat n) e) a"
| "cfa_step dbg daf init p (CDef_cfa_offset_sf i) a = upd_cfa (\<lambda>e. offset_rule 0 (dw_regnum e) (of_int i * daf) e) a"
| "cfa_step dbg daf init p (CDef_cfa_expr e) a = upd_cfa (block_rule 2 (of_nat (length e)) (p - of_nat (length e))) a"
| "cfa_step dbg daf init p CRemember a = a\<lparr>a_stack := a_row a # a_stack a\<rparr>"
| "cfa_step dbg daf init p CRestore_state a = a\<lparr>a_row := hd (a_stack a), a_stack := tl (a_stack a), a_change := a_loc a\<rparr>"
| "cfa_step dbg daf init p _ a = a"

fun cfa_delta :: "u64 \<Rightarrow> cfa_instr \<Rightarrow> u64 option" where
  "cfa_delta caf (CAdvance d) = Some (ucast d * caf)"
| "cfa_delta caf (CAdvance1 d) = Some (ucast d * caf)"
| "cfa_delta caf (CAdvance2 d) = Some (ucast d * caf)"
| "cfa_delta caf (CAdvance4 d) = Some (ucast d * caf)"
| "cfa_delta caf _ = None"

fun cfa_exec ::
    "dwarf_debug \<Rightarrow> u64 \<Rightarrow> i64 \<Rightarrow> u64 \<Rightarrow> regtable3 \<Rightarrow> u64 \<Rightarrow> cfa_instr list \<Rightarrow> cfa_state \<Rightarrow> cfa_state" where
  "cfa_exec dbg caf daf pc init p [] a = a"
| "cfa_exec dbg caf daf pc init p (i # prog) a =
     (let q = p + of_nat (length (cfa_bytes i)) in
      case cfa_delta caf i of
        Some d \<Rightarrow> if pc < a_loc a + d then a else cfa_exec dbg caf daf pc init q prog (a\<lparr>a_loc := a_loc a + d\<rparr>)
      | None \<Rightarrow> cfa_exec dbg caf daf pc init q prog (cfa_step dbg daf init q i a))"

text \<open>
  The programs on which one shadow table is enough: remembered states are not nested, each restored state was
  remembered, and no rule is restored to its initial value once a state has been remembered.
\<close>

fun shadow_ok :: "bool \<Rightarrow> bool \<Rightarrow> cfa_instr list \<Rightarrow> bool" where
  "shadow_ok ever open [] \<longleftrightarrow> True"
| "shadow_ok ever open (CRemember # prog) \<longleftrightarrow> \<not> open \<and> shadow_ok True True prog"
| "shadow_ok ever open (CRestore_state # prog) \<longleftrightarrow> open \<and> shadow_ok ever False prog"
| "shadow_ok ever open (CRestore r # prog) \<longleftrightarrow> \<not> ever \<and> shadow_ok ever open prog"
| "shadow_ok ever open (CRestore_ext r # prog) \<longleftrightarrow> \<not> ever \<and> shadow_ok ever open prog"
| "shadow_ok ever open (i # prog) \<longleftrightarrow> shadow_ok ever open prog"

section \<open>Running an encoded program\<close>

text \<open>A table whose size is that of its array, and two tables of the same size.\<close>

definition table_ok :: "nat \<Rightarrow> regtable3 \<Rightarrow> bool" where
  "table_ok k t \<longleftrightarrow> unat (rt3_reg_table_size t) = k \<and> length (rt3_rules t) = k"

lemma copy_rules_all: "length ds = k \<Longrightarrow> length ss = k \<Longrightarrow> copy_rules u k ds k ss = ss"
  by (rule nth_equalityI) (simp_all add: copy_rules_def)

lemma frame_regtable_copy_ok:
  assumes "table_ok k src" "length (rt3_rules dest) = k" "fresh \<or> rt3_reg_table_size dest = rt3_reg_table_size src"
  shows "frame_regtable_copy dbg fresh dest src = cret src"
proof (cases dest, cases src)
  fix cfa size rules cfa' size' rules'
  assume "dest = \<lparr>rt3_cfa_rule = cfa, rt3_reg_table_size = size, rt3_rules = rules\<rparr>"
    "src = \<lparr>rt3_cfa_rule = cfa', rt3_reg_table_size = size', rt3_rules = rules'\<rparr>"
  with assms copy_rules_all [of rules k rules' "dbg_frame_undefined_value dbg"] show ?thesis
    by (auto simp: frame_regtable_copy_def table_ok_def Let_def)
qed

lemma op_bits:
  fixes d :: u8
  assumes d: "d < 64" and h: "h = 0x40 \<or> h = 0x80 \<or> h = 0xc0"
  shows "(h OR d) AND 0xc0 = h" "(h OR d) AND 0x3f = d" "h OR d \<noteq> 0"
proof -
  have "unat (take_bit 6 d) = unat d"
    using d by (simp add: unsigned_take_bit_eq take_bit_nat_eq_self word_less_nat_alt)
  then have "take_bit 6 d = d" by (simp only: word_unat_eq_iff)
  then have m: "d AND 0x3f = d" by (simp add: take_bit_eq_mask mask_eq_exp_minus_1)
  have "d AND 0xc0 = (d AND 0x3f) AND 0xc0" unfolding m ..
  also have "\<dots> = 0" by (simp add: and.assoc)
  finally show "(h OR d) AND 0xc0 = h" "(h OR d) AND 0x3f = d"
    using h m by (auto simp: bit.conj_disj_distrib2)
  with h show "h OR d \<noteq> 0" by auto
qed

text \<open>The state before an instruction whose encoding ends at \<open>q\<close>, and after it.\<close>

definition at :: "u64 \<Rightarrow> cfa_state \<Rightarrow> bool \<Rightarrow> regtable3 \<Rightarrow> frame_st" where
  "at p a ever sh = \<lparr>f_rt = a_row a, f_shadow = sh, f_saved = ever, f_pc = a_loc a, f_row_pc = a_change a, f_p = p\<rparr>"

lemma at_sel [simp]:
  "f_rt (at p a ever sh) = a_row a" "f_shadow (at p a ever sh) = sh" "f_saved (at p a ever sh) = ever"
  "f_pc (at p a ever sh) = a_loc a" "f_row_pc (at p a ever sh) = a_change a" "f_p (at p a ever sh) = p"
  by (simp_all add: at_def)

lemma at_upd [simp]:
  "(at p a ever sh)\<lparr>f_p := q\<rparr> = at q a ever sh"
  "mark_row (at p a ever sh) = at p (a\<lparr>a_change := a_loc a\<rparr>) ever sh"
  by (simp_all add: at_def mark_row_def)

lemma uleb_next_at:
  "holds m p (uleb_encode n) \<Longrightarrow> nat_ok n \<Longrightarrow>
   uleb_next m (at p a ever sh) = cret (of_nat n, at (p + of_nat (length (uleb_encode n))) a ever sh)"
  by (simp add: uleb_next_def decode_uleb_encoded nat_ok_def)

lemma sleb_next_at:
  "holds m p (sleb_encode i) \<Longrightarrow> int_ok i \<Longrightarrow>
   sleb_next m (at p a ever sh) = cret (of_int i, at (p + of_nat (length (sleb_encode i))) a ever sh)"
  by (simp add: sleb_next_def decode_sleb_encoded int_ok_def)

lemma table_ok_size:
  assumes "table_ok k t"
  shows "k < 2 ^ 16" "unat (ucast (rt3_reg_table_size t) :: u64) = k" "r < k \<Longrightarrow> unat (of_nat r :: u64) = r"
    "r < k \<Longrightarrow> nat_ok r"
proof -
  have "unat (rt3_reg_table_size t) < 2 ^ LENGTH(16)" by (rule unsigned_less)
  with assms show k: "k < 2 ^ 16" by (simp add: table_ok_def)
  with assms show "unat (ucast (rt3_reg_table_size t) :: u64) = k"
    by (simp add: table_ok_def unsigned_ucast_eq take_bit_nat_eq_self)
  show "unat (of_nat r :: u64) = r" "nat_ok r" if "r < k" using that k by (simp_all add: unat_of_nat nat_ok_def)
qed

lemma set_rule_at:
  assumes "table_ok k (a_row a)" "r < k"
  shows "set_rule (of_nat r) f (at p a ever sh) = cret (CNext (at p ((upd_rule r f a)\<lparr>a_change := a_change a\<rparr>) ever sh))"
  using assms table_ok_size [OF assms(1)]
  by (simp add: set_rule_def word_le_nat_alt table_ok_def upd_rule_def at_def)

lemma restore_rule_at:
  assumes "table_ok k (a_row a)" "table_ok k sh" "r < k"
  shows "restore_rule (of_nat r) (at p a ever sh) =
    cret (CNext (at p ((upd_rule r (\<lambda>_. rt3_rules sh ! r) a)\<lparr>a_change := a_change a\<rparr>) ever sh))"
  using assms table_ok_size [OF assms(1)] set_rule_at [OF assms(1,3)]
  by (simp add: restore_rule_def word_le_nat_alt table_ok_def)

lemma upd_marked [simp]:
  "(upd_rule r f a)\<lparr>a_change := a_loc a\<rparr> = upd_rule r f a"
  "upd_cfa f (a\<lparr>a_change := a_loc a\<rparr>) = upd_cfa f a"
  "upd_rule r f (a\<lparr>a_change := a_loc a\<rparr>) = upd_rule r f a"
  by (simp_all add: upd_rule_def upd_cfa_def)

lemma set_cfa_at: "a_change a = a_loc a \<Longrightarrow> set_cfa f (at p a ever sh) = CNext (at p (upd_cfa f a) ever sh)"
  by (simp add: set_cfa_def upd_cfa_def at_def)

lemma advance_at:
  "advance d pc (at p a ever sh) =
     (let a = a\<lparr>a_loc := a_loc a + d\<rparr> in if pc < a_loc a then CDone DW_DLE_NONE (at p a ever sh) else CNext (at p a ever sh))"
  by (simp add: advance_def at_def Let_def)

lemmas extended_ops = extended_cfa_op_def define_cfa_op_def

lemma ext_op:
  assumes "m p = b" "b AND 0xc0 = 0" "b \<noteq> 0" "b AND 0x3f = b"
  shows "cfa_op m dbg caf daf pc (at p a ever sh) = extended_cfa_op m dbg caf daf pc b (at (p + 1) a ever sh)"
  using assms by (simp add: cfa_op_def)

lemma prim_op:
  assumes "m p = h OR d" "d < 64" "h = 0x40 \<or> h = 0x80 \<or> h = 0xc0"
  shows "cfa_op m dbg caf daf pc (at p a ever sh) = primary_op m dbg caf daf pc h d (at (p + 1) a ever sh)"
  using assms(1) op_bits [OF assms(2,3)] assms(3) by (auto simp: cfa_op_def)

fun is_stack :: "cfa_instr \<Rightarrow> bool" where
  "is_stack CRemember = True"
| "is_stack CRestore_state = True"
| "is_stack _ = False"

fun is_restore :: "cfa_instr \<Rightarrow> bool" where
  "is_restore (CRestore r) = True"
| "is_restore (CRestore_ext r) = True"
| "is_restore _ = False"

lemma cfa_op_rule:
  assumes h: "holds m p (cfa_bytes i)" and ok: "cfa_ok k i" and t: "table_ok k (a_row a)" "table_ok k sh"
    and init: "is_restore i \<Longrightarrow> sh = init" and i: "cfa_delta caf i = None" "\<not> is_stack i"
    and q: "q = p + of_nat (length (cfa_bytes i))"
  shows "cfa_op m dbg caf daf pc (at p a ever sh) = cret (CNext (at q (cfa_step dbg daf init q i a) ever sh))"
proof -
  note nums = uleb_next_at sleb_next_at table_ok_size [OF t(1)] extended_ops Let_def add.assoc
  have t': "table_ok k (a_row (a\<lparr>a_change := a_loc a\<rparr>))" using t by simp
  note set = set_rule_at [OF t'] restore_rule_at [OF t' t(2)] set_cfa_at
  show ?thesis
  proof (cases i)
    case CNop
    with h q show ?thesis by (simp add: cfa_op_def at_def)
  next
    case (COffset r n)
    then have "uleb_next m (at (p + 1) (a\<lparr>a_change := a_loc a\<rparr>) ever sh)
        = cret (of_nat n, at (p + 1 + of_nat (length (uleb_encode n))) (a\<lparr>a_change := a_loc a\<rparr>) ever sh)"
      using h ok by (intro uleb_next_at) simp_all
    with COffset h ok q t set(1) [of "unat r"] show ?thesis
      by (simp add: prim_op [of m p "0x80" r] primary_op_def Let_def add.assoc table_ok_size(2) word_le_nat_alt)
  next
    case (CRestore r)
    with h ok q init set(2) [of "unat r"] show ?thesis
      by (simp add: prim_op [of m p "0xc0" r] primary_op_def nums)
  next
    case (CRestore_ext r)
    with h ok q init set(2) [of r] show ?thesis
      by (auto simp: ext_op [of m p "0x06"] nums)
  next
    case (CSame r)
    with h ok q set_rule_at [OF t(1), of r] show ?thesis
      by (auto simp: ext_op [of m p "0x08"] nums)
  next
    case (CExpr r e)
    with h ok q show ?thesis
      by (auto simp: ext_op [of m p "0x10"] nums set word_le_nat_alt)
  next
    case (CVal_expr r e)
    with h ok q show ?thesis
      by (auto simp: ext_op [of m p "0x16"] nums set word_le_nat_alt)
  qed (use h ok q i init in \<open>auto simp: ext_op nums set\<close>)
qed

lemma decode_byte: "m p = b \<Longrightarrow> dwarf_decode_lsb m p 1 = (ucast b, p + 1)"
  using lsb.dec_eq_rd [of m p 0 1] read_byte [of m p 0] by simp

lemma cfa_op_advance:
  assumes h: "holds m p (cfa_bytes i)" and ok: "cfa_ok k i" and i: "cfa_delta caf i = Some d"
    and dbg: "dbg_decode dbg = dwarf_decode_lsb" and q: "q = p + of_nat (length (cfa_bytes i))"
  shows "cfa_op m dbg caf daf pc (at p a ever sh) = cret (advance d pc (at q a ever sh))"
proof (cases i)
  case (CAdvance x)
  with h ok i q show ?thesis by (simp add: prim_op [of m p "0x40" x] primary_op_def)
next
  case (CAdvance1 x)
  with h i q dbg decode_byte [of m "p + 1" x] show ?thesis
    by (auto simp: ext_op [of m p "0x02"] extended_ops fixed_next_def Let_def add.assoc)
next
  case (CAdvance2 x)
  have "unat x < 2 ^ LENGTH(16)" by (rule unsigned_less)
  then have "unat (ucast x :: u64) mod 65536 = unat x" by (simp add: unsigned_ucast_eq take_bit_nat_eq_self)
  with CAdvance2 h have "dwarf_decode_lsb m (p + 1) 2 = (ucast x, p + 1 + 2)"
    using decode_le_bytes [of m "p + 1" 2 "ucast x"] by (simp add: read_sizes_def)
  with CAdvance2 h i q dbg show ?thesis
    by (auto simp: ext_op [of m p "0x03"] extended_ops fixed_next_def Let_def add.assoc)
next
  case (CAdvance4 x)
  have "unat x < 2 ^ LENGTH(32)" by (rule unsigned_less)
  then have "unat (ucast x :: u64) mod 4294967296 = unat x" by (simp add: unsigned_ucast_eq take_bit_nat_eq_self)
  with CAdvance4 h have "dwarf_decode_lsb m (p + 1) 4 = (ucast x, p + 1 + 4)"
    using decode_le_bytes [of m "p + 1" 4 "ucast x"] by (simp add: read_sizes_def)
  with CAdvance4 h i q dbg show ?thesis
    by (auto simp: ext_op [of m p "0x04"] extended_ops fixed_next_def Let_def add.assoc)
qed (use i in simp_all)

lemma at_stack [simp]: "at p (a\<lparr>a_stack := st\<rparr>) ever sh = at p a ever sh"
  by (simp add: at_def)

lemma table_ok_same: "table_ok k s \<Longrightarrow> table_ok k t \<Longrightarrow> rt3_reg_table_size s = rt3_reg_table_size t"
  by (simp add: table_ok_def word_unat_eq_iff)

lemma cfa_op_remember:
  assumes "m p = 0x0a" "table_ok k (a_row a)" "table_ok k sh"
  shows "cfa_op m dbg caf daf pc (at p a ever sh) = cret (CNext (at (p + 1) a True (a_row a)))"
proof -
  have "frame_regtable_copy dbg (\<not> ever) sh (a_row a) = cret (a_row a)"
    using assms table_ok_same [OF assms(3,2)] by (intro frame_regtable_copy_ok) (auto simp: table_ok_def)
  with assms(1) show ?thesis by (simp add: ext_op [of m p "0x0a"] extended_ops at_def [of "p + 1"])
qed

lemma cfa_op_restore_state:
  assumes "m p = 0x0b" "table_ok k (a_row a)" "table_ok k sh"
  shows "cfa_op m dbg caf daf pc (at p a True sh) =
    cret (CNext (at (p + 1) (a\<lparr>a_row := sh, a_change := a_loc a\<rparr>) True sh))"
proof -
  have "frame_regtable_copy dbg False (a_row a) sh = cret sh"
    using assms table_ok_same [OF assms(2,3)] by (intro frame_regtable_copy_ok) (auto simp: table_ok_def)
  with assms(1) show ?thesis
    by (simp add: ext_op [of m p "0x0b"] extended_ops at_def [of "p + 1"] mark_row_def)
qed

lemma table_ok_step:
  "table_ok k (a_row a) \<Longrightarrow> \<not> is_stack i \<Longrightarrow> table_ok k (a_row (cfa_step dbg daf init q i a))"
  by (cases i) (simp_all add: table_ok_def upd_rule_def upd_cfa_def)

lemma step_stack: "\<not> is_stack i \<Longrightarrow> a_stack (cfa_step dbg daf init q i a) = a_stack a"
  by (cases i) (simp_all add: upd_rule_def upd_cfa_def)

lemma shadow_ok_other: "\<not> is_stack i \<Longrightarrow> shadow_ok ever open (i # prog) \<Longrightarrow> shadow_ok ever open prog \<and> (is_restore i \<longrightarrow> \<not> ever)"
  by (cases i) auto

text \<open>The shadow table is the initial row until a state is remembered, and then the remembered one.\<close>

definition shadow_is :: "regtable3 \<Rightarrow> cfa_state \<Rightarrow> bool \<Rightarrow> bool \<Rightarrow> regtable3 \<Rightarrow> bool" where
  "shadow_is init a ever open sh \<longleftrightarrow>
     (ever \<or> sh = init) \<and> (open \<longrightarrow> ever \<and> a_stack a \<noteq> [] \<and> hd (a_stack a) = sh)"

definition ends_as :: "nat \<Rightarrow> cfa_state \<Rightarrow> (i32 \<times> frame_st) cres \<Rightarrow> bool" where
  "ends_as k a r \<longleftrightarrow> (\<exists>s. r = cret (DW_DLE_NONE, s) \<and> f_rt s = a_row a \<and> f_row_pc s = a_change a
     \<and> table_ok k (a_row a) \<and> table_ok k (f_shadow s))"

lemma cfa_loop_next:
  assumes "p < pe" "cfa_op m dbg caf daf pc (at p a ever sh) = cret (CNext s)"
  shows "cfa_loop m dbg caf daf pc pe (at p a ever sh) = cfa_loop m dbg caf daf pc pe s"
  using assms by (subst cfa_loop.simps) simp

lemma cfa_loop_encoded:
  "holds m p (concat (map cfa_bytes prog)) \<Longrightarrow> \<forall>i \<in> set prog. cfa_ok k i \<Longrightarrow>
   unat p + length (concat (map cfa_bytes prog)) < 2 ^ 64 \<Longrightarrow> shadow_ok ever open prog \<Longrightarrow>
   table_ok k (a_row a) \<Longrightarrow> table_ok k sh \<Longrightarrow> shadow_is init a ever open sh \<Longrightarrow> dbg_decode dbg = dwarf_decode_lsb \<Longrightarrow>
   ends_as k (cfa_exec dbg caf daf pc init p prog a)
     (cfa_loop m dbg caf daf pc (p + of_nat (length (concat (map cfa_bytes prog)))) (at p a ever sh))"
proof (induction prog arbitrary: p a ever "open" sh)
  case Nil
  then show ?case by (subst cfa_loop.simps) (simp add: ends_as_def)
next
  case (Cons i prog)
  let ?q = "p + of_nat (length (cfa_bytes i))" and ?n = "length (concat (map cfa_bytes prog))"
  define pe where "pe = p + of_nat (length (concat (map cfa_bytes (i # prog))))"
  have pe: "pe = ?q + of_nat ?n" by (simp add: pe_def add.assoc)
  have h: "holds m p (cfa_bytes i)" "holds m ?q (concat (map cfa_bytes prog))"
    using Cons.prems(1) by simp_all
  have ok: "cfa_ok k i" using Cons.prems(2) by simp
  have pos: "0 < length (cfa_bytes i)" by (cases i) simp_all
  have len: "unat p + length (cfa_bytes i) + ?n < 2 ^ 64" using Cons.prems(3) by simp
  have q: "unat ?q = unat p + length (cfa_bytes i)" using len by (intro unat_add_less) linarith
  have "unat pe = unat ?q + ?n" unfolding pe using len q by (intro unat_add_less) linarith
  then have lt: "p < pe" using q pos by (simp add: word_less_nat_alt)
  have IH: "ends_as k (cfa_exec dbg caf daf pc init ?q prog a') (cfa_loop m dbg caf daf pc pe (at ?q a' ever' sh'))"
    if "shadow_ok ever' open' prog" "table_ok k (a_row a')" "table_ok k sh'" "shadow_is init a' ever' open' sh'"
    for a' ever' open' sh'
    unfolding pe using Cons.prems(2,8) that q len h(2) by (intro Cons.IH [of _ ever' open']) auto
  note t = Cons.prems(5,6) and si = Cons.prems(7) [unfolded shadow_is_def]
  show ?case
    unfolding pe_def [symmetric]
  proof (cases "cfa_delta caf i")
    case (Some d)
    then have i: "\<not> is_stack i" by (cases i) simp_all
    note sok = shadow_ok_other [OF i Cons.prems(4)]
    let ?a = "a\<lparr>a_loc := a_loc a + d\<rparr>"
    have op: "cfa_op m dbg caf daf pc (at p a ever sh) = cret (advance d pc (at ?q a ever sh))"
      by (rule cfa_op_advance [OF h(1) ok Some Cons.prems(8) refl])
    show "ends_as k (cfa_exec dbg caf daf pc init p (i # prog) a) (cfa_loop m dbg caf daf pc pe (at p a ever sh))"
    proof (cases "pc < a_loc a + d")
      case True
      with op lt have "cfa_loop m dbg caf daf pc pe (at p a ever sh) = cret (DW_DLE_NONE, at ?q ?a ever sh)"
        by (subst cfa_loop.simps) (simp add: advance_at)
      with True Some t show ?thesis by (simp add: ends_as_def)
    next
      case False
      with op have "cfa_op m dbg caf daf pc (at p a ever sh) = cret (CNext (at ?q ?a ever sh))"
        by (simp add: advance_at)
      with False Some IH [of ever "open" ?a sh] sok t si show ?thesis
        by (simp add: cfa_loop_next [OF lt] shadow_is_def)
    qed
  next
    case None
    let ?a = "cfa_step dbg daf init ?q i a"
    have "\<exists>ever' open' sh'. cfa_op m dbg caf daf pc (at p a ever sh) = cret (CNext (at ?q ?a ever' sh'))
        \<and> shadow_ok ever' open' prog \<and> table_ok k (a_row ?a) \<and> table_ok k sh' \<and> shadow_is init ?a ever' open' sh'"
    proof (cases "is_stack i")
      case False
      note sok = shadow_ok_other [OF False Cons.prems(4)]
      then have "is_restore i \<Longrightarrow> sh = init" using si by blast
      from cfa_op_rule [OF h(1) ok t this None False refl] sok t(2) table_ok_step [OF t(1) False] step_stack [OF False] si
      show ?thesis unfolding shadow_is_def by fastforce
    next
      case True
      then consider "i = CRemember" | "i = CRestore_state" by (cases i) simp_all
      then show ?thesis
      proof cases
        case 1
        have "cfa_op m dbg caf daf pc (at p a ever sh) = cret (CNext (at (p + 1) a True (a_row a)))"
          using h(1) 1 t by (intro cfa_op_remember) simp_all
        with 1 t Cons.prems(4) show ?thesis
          by (intro exI [of _ True] exI [of _ "a_row a"]) (simp add: shadow_is_def)
      next
        case 2
        with Cons.prems(4) si have o: "open" "ever" "hd (a_stack a) = sh" "shadow_ok ever False prog" by auto
        have "cfa_op m dbg caf daf pc (at p a True sh) =
            cret (CNext (at (p + 1) (a\<lparr>a_row := sh, a_change := a_loc a\<rparr>) True sh))"
          using h(1) 2 t by (intro cfa_op_restore_state) simp_all
        moreover have "at (p + 1) ?a True sh = at (p + 1) (a\<lparr>a_row := sh, a_change := a_loc a\<rparr>) True sh"
          using 2 o(3) by (simp add: at_def)
        ultimately show ?thesis using 2 t o
          by (intro exI [of _ True] exI [of _ False] exI [of _ sh]) (simp add: shadow_is_def)
      qed
    qed
    then obtain ever' open' sh' where op: "cfa_op m dbg caf daf pc (at p a ever sh) = cret (CNext (at ?q ?a ever' sh'))"
      and inv: "shadow_ok ever' open' prog" "table_ok k (a_row ?a)" "table_ok k sh'" "shadow_is init ?a ever' open' sh'"
      by blast
    from IH [OF inv] None show "ends_as k (cfa_exec dbg caf daf pc init p (i # prog) a) (cfa_loop m dbg caf daf pc pe (at p a ever sh))"
      by (simp add: cfa_loop_next [OF lt op] Let_def)
  qed
qed

definition cfa_start :: "regtable3 \<Rightarrow> u64 \<Rightarrow> cfa_state" where
  "cfa_start row loc = \<lparr>a_row = row, a_stack = [], a_loc = loc, a_change = loc\<rparr>"

definition cfa_prog_bytes :: "cfa_instr list \<Rightarrow> u8 list" where
  "cfa_prog_bytes prog = concat (map cfa_bytes prog)"

text \<open>A program for tables of \<open>k\<close> rules, encoded at \<open>p\<close> and not wrapping around the address space.\<close>

definition cfa_prog_at :: "nat \<Rightarrow> mem \<Rightarrow> u64 \<Rightarrow> cfa_instr list \<Rightarrow> bool" where
  "cfa_prog_at k m p prog \<longleftrightarrow> holds m p (cfa_prog_bytes prog) \<and> unat p + length (cfa_prog_bytes prog) < 2 ^ 64
     \<and> (\<forall>i \<in> set prog. cfa_ok k i) \<and> shadow_ok False False prog"

lemma frame_run_inst_encoded:
  assumes "cfa_prog_at k m p prog" "len = of_nat (length (cfa_prog_bytes prog))"
    "table_ok k (rt t)" "length (rt3_rules (shadow t)) = k" "dbg_decode dbg = dwarf_decode_lsb"
  shows "\<exists>sh. frame_run_inst m dbg t p len caf daf loc pc =
      cret (DW_DLE_NONE, a_change (cfa_exec dbg caf daf pc (rt t) p prog (cfa_start (rt t) loc)),
        t\<lparr>rt := a_row (cfa_exec dbg caf daf pc (rt t) p prog (cfa_start (rt t) loc)), shadow := sh\<rparr>)
    \<and> table_ok k (a_row (cfa_exec dbg caf daf pc (rt t) p prog (cfa_start (rt t) loc))) \<and> length (rt3_rules sh) = k"
proof -
  have c: "frame_regtable_copy dbg True (shadow t) (rt t) = cret (rt t)"
    using assms(3,4) by (intro frame_regtable_copy_ok) simp_all
  have "shadow_is (rt t) (cfa_start (rt t) loc) False False (rt t)" by (simp add: shadow_is_def)
  then have "ends_as k (cfa_exec dbg caf daf pc (rt t) p prog (cfa_start (rt t) loc))
      (cfa_loop m dbg caf daf pc (p + len) (at p (cfa_start (rt t) loc) False (rt t)))"
    unfolding assms(2) cfa_prog_bytes_def using assms(1,3,5)
    by (intro cfa_loop_encoded [of m p prog k False False]) (auto simp: cfa_prog_at_def cfa_prog_bytes_def cfa_start_def)
  with c show ?thesis
    by (auto simp: ends_as_def frame_run_inst_def at_def cfa_start_def table_ok_def)
qed

definition clear_row :: "dwarf_debug \<Rightarrow> regtable3 \<Rightarrow> regtable3" where
  "clear_row dbg t = t\<lparr>rt3_cfa_rule := entry0,
     rt3_rules := replicate (length (rt3_rules t)) (entry0\<lparr>dw_regnum := dbg_frame_rule_initial_value dbg\<rparr>)\<rparr>"

lemma frame_clear_row: "table_ok k t \<Longrightarrow> frame_clear dbg t = cret (clear_row dbg t) \<and> table_ok k (clear_row dbg t)"
  by (auto simp: frame_clear_def clear_row_def table_ok_def)

section \<open>Properties\<close>

text \<open>
  C4. The register table for an address: \<^verbatim>\<open>_dwarf_frame_get_internal_table\<close>, on the encodings of a CIE's and an FDE's programs,
  computes the row that the machine of the standard computes, which runs the first program from the
  cleared row and the second one from there up to the requested address, and the location where the row starts;
  and it returns. The programs may use every instruction but \<^verbatim>\<open>DW_CFA_set_loc\<close>, within the limits of the one shadow table.
\<close>

theorem frame_table_correct:
  assumes "rt_set t" and "table_ok k (rt t)" and "length (rt3_rules (shadow t)) = k" and "dbg_decode dbg = dwarf_decode_lsb"
    and "cfa_prog_at k m (cie_initinst cie) prog0" and "cie_instlen cie = of_nat (length (cfa_prog_bytes prog0))"
    and "cfa_prog_at k m (fde_inst fde) prog1" and "fde_instlen fde = of_nat (length (cfa_prog_bytes prog1))"
    and "fde_initloc fde \<le> pc"
    and "row0 = a_row (cfa_exec dbg (cie_caf cie) (cie_daf cie) (- 1) (clear_row dbg (rt t)) (cie_initinst cie) prog0
           (cfa_start (clear_row dbg (rt t)) 0))"
    and "a = cfa_exec dbg (cie_caf cie) (cie_daf cie) pc row0 (fde_inst fde) prog1 (cfa_start row0 (fde_initloc fde))"
  shows "\<exists>sh. frame_get_internal_table m dbg t cie fde pc = cret (DW_DLE_NONE, a_change a, t\<lparr>rt := a_row a, shadow := sh\<rparr>)"
proof -
  let ?t = "t\<lparr>rt := clear_row dbg (rt t)\<rparr>"
  note c = frame_clear_row [OF assms(2), of dbg]
  from frame_run_inst_encoded [OF assms(5,6), of ?t dbg "cie_caf cie" "cie_daf cie" 0 "- 1"] c assms(3,4)
  obtain sh0 row_pc where r0: "frame_run_inst m dbg ?t (cie_initinst cie) (cie_instlen cie) (cie_caf cie) (cie_daf cie) 0 (- 1) =
      cret (DW_DLE_NONE, row_pc, t\<lparr>rt := row0, shadow := sh0\<rparr>)" "table_ok k row0" "length (rt3_rules sh0) = k"
    by (auto simp: assms(10))
  from frame_run_inst_encoded [OF assms(7,8), of "t\<lparr>rt := row0, shadow := sh0\<rparr>" dbg "cie_caf cie" "cie_daf cie"
      "fde_initloc fde" pc] r0(2,3) assms(4)
  obtain sh where "frame_run_inst m dbg (t\<lparr>rt := row0, shadow := sh0\<rparr>) (fde_inst fde) (fde_instlen fde) (cie_caf cie)
      (cie_daf cie) (fde_initloc fde) pc = cret (DW_DLE_NONE, a_change a, t\<lparr>rt := a_row a, shadow := sh\<rparr>)"
    by (auto simp: assms(11))
  with c r0(1) assms(1,9) show ?thesis by (auto simp: frame_get_internal_table_def)
qed

text \<open>The frame of a function that pushes the frame pointer and then makes it the base of the frame.\<close>

definition demo_prog0 :: "cfa_instr list" where
  "demo_prog0 = [CDef_cfa 7 8, COffset 16 1]"

definition demo_prog1 :: "cfa_instr list" where
  "demo_prog1 = [CAdvance 1, CDef_cfa_offset 16, COffset 6 2, CAdvance 3, CDef_cfa_register 6]"

definition demo_cfa_mem :: mem where
  "demo_cfa_mem = write_bytes (write_bytes (\<lambda>_. 0) 0x5000 (cfa_prog_bytes demo_prog0)) 0x5100 (cfa_prog_bytes demo_prog1)"

definition demo_cie :: dwarf_cie where
  "demo_cie = \<lparr>cie_offset = 0, cie_length = 0, cie_version = 1, cie_augment = 0, cie_ehdata = 0, cie_caf = 1, cie_daf = - 8,
     cie_ra = 16, cie_auglen = 0, cie_augdata = 0, cie_fde_encode = 0, cie_initinst = 0x5000, cie_instlen = 5\<rparr>"

definition demo_fde :: dwarf_fde where
  "demo_fde = fde0\<lparr>fde_initloc := 0x800, fde_adrange := 0x20, fde_inst := 0x5100, fde_instlen := 8\<rparr>"

definition demo_tables :: frame_tables where
  "demo_tables = snd (frame_internal_table_init demo_dbg frame_tables0)"

lemma demo_prog_at: "cfa_prog_at 66 demo_cfa_mem 0x5000 demo_prog0" "cfa_prog_at 66 demo_cfa_mem 0x5100 demo_prog1"
proof -
  have h: "holds demo_cfa_mem 0x5000 (cfa_prog_bytes demo_prog0)" "holds demo_cfa_mem 0x5100 (cfa_prog_bytes demo_prog1)"
    "length (cfa_prog_bytes demo_prog0) = 5" "length (cfa_prog_bytes demo_prog1) = 8" by code_simp+
  show "cfa_prog_at 66 demo_cfa_mem 0x5000 demo_prog0" "cfa_prog_at 66 demo_cfa_mem 0x5100 demo_prog1"
    using h by (simp_all add: cfa_prog_at_def demo_prog0_def demo_prog1_def nat_ok_def word_less_nat_alt)
qed

theorem frame_table_correct_witness:
  "\<exists>row sh. frame_get_internal_table demo_cfa_mem demo_dbg demo_tables demo_cie demo_fde 0x802
       = cret (DW_DLE_NONE, 0x801, demo_tables\<lparr>rt := row, shadow := sh\<rparr>)
     \<and> rule_of (rt3_cfa_rule row) = \<lparr>rr_offset_relevant = 1, rr_regnum = 7, rr_offset = 16\<rparr>
     \<and> rule_of (rt3_rules row ! 6) = \<lparr>rr_offset_relevant = 1, rr_regnum = 1436, rr_offset = - 16\<rparr>"
proof -
  let ?t = demo_tables and ?c = demo_cie and ?m = demo_cfa_mem
  define row0 where "row0 = a_row (cfa_exec demo_dbg (cie_caf ?c) (cie_daf ?c) (- 1) (clear_row demo_dbg (rt ?t))
    (cie_initinst ?c) demo_prog0 (cfa_start (clear_row demo_dbg (rt ?t)) 0))"
  define a where "a = cfa_exec demo_dbg (cie_caf ?c) (cie_daf ?c) 0x802 row0 (fde_inst demo_fde) demo_prog1
    (cfa_start row0 (fde_initloc demo_fde))"
  have t: "rt_set ?t" "table_ok 66 (rt ?t)" "length (rt3_rules (shadow ?t)) = 66" "dbg_decode demo_dbg = dwarf_decode_lsb"
    by (simp_all add: demo_tables_def frame_internal_table_init_def frame_tables0_def demo_dbg_def table_ok_def)
  have p: "cfa_prog_at 66 ?m (cie_initinst ?c) demo_prog0" "cfa_prog_at 66 ?m (fde_inst demo_fde) demo_prog1"
    using demo_prog_at by (simp_all add: demo_cie_def demo_fde_def)
  have l: "cie_instlen ?c = of_nat (length (cfa_prog_bytes demo_prog0))"
    "fde_instlen demo_fde = of_nat (length (cfa_prog_bytes demo_prog1))" "fde_initloc demo_fde \<le> 0x802" by code_simp+
  from frame_table_correct [OF t p(1) l(1) p(2) l(2,3) row0_def a_def]
  obtain sh where r: "frame_get_internal_table ?m demo_dbg ?t ?c demo_fde 0x802
      = cret (DW_DLE_NONE, a_change a, ?t\<lparr>rt := a_row a, shadow := sh\<rparr>)" by blast
  have "a_change a = 0x801 \<and> rule_of (rt3_cfa_rule (a_row a)) = \<lparr>rr_offset_relevant = 1, rr_regnum = 7, rr_offset = 16\<rparr>
      \<and> rule_of (rt3_rules (a_row a) ! 6) = \<lparr>rr_offset_relevant = 1, rr_regnum = 1436, rr_offset = - 16\<rparr>"
    unfolding a_def row0_def by code_simp
  with r show ?thesis by auto
qed

text \<open>
  The limit is real: \<^verbatim>\<open>DW_CFA_remember_state\<close> overwrites the saved initial rules, so a later \<^verbatim>\<open>DW_CFA_restore\<close> restores the
  remembered rule of the register, here one set by \<^verbatim>\<open>DW_CFA_offset\<close>, where the standard's machine restores
  the initial one.
\<close>

definition demo_prog2 :: "cfa_instr list" where
  "demo_prog2 = [COffset 3 2, CRemember, CRestore 3]"

theorem remember_clobbers_initial:
  "map_option (map_sum id (\<lambda>(ret, row_pc, t). (ret, rt3_rules (rt t) ! 3)))
     (frame_run_inst (write_bytes (\<lambda>_. 0) 0x5000 (cfa_prog_bytes demo_prog2)) demo_dbg demo_tables 0x5000 4 1 (- 8) 0 0)
     = cret (DW_DLE_NONE, offset_rule 0 1436 (- 16) entry0)
   \<and> rt3_rules (a_row (cfa_exec demo_dbg 1 (- 8) 0 (rt demo_tables) 0x5000 demo_prog2 (cfa_start (rt demo_tables) 0))) ! 3 = entry0"
  by code_simp

text \<open>
  C40. An entry whose length exceeds the section makes \<^verbatim>\<open>dwarf_get_fde_at_pc\<close> loop forever: \<^verbatim>\<open>_dwarf_get_next_fde\<close> reports it with a
  positive code and does not advance, and the caller stops on negative codes only.
\<close>

theorem bad_length_never_returns:
  assumes "dbg_eh_offset dbg < dbg_eh_size dbg" and "dbg_eh_offset dbg < ds_size (eh_sec t)"
    and "entry_length m dbg (ds_data (eh_sec t)) (dbg_eh_offset dbg) = (len, n, off)" and "ds_size (eh_sec t) - off < len"
  shows "dwarf_get_fde_at_pc m eh t eh_frame pc lohi dbg cie = None"
proof (rule ccontr)
  let ?P = "\<lambda>m eh ds eh_frame pc lohi dbg cie fde (y :: fault + (i32 \<times> (u64 \<times> u64) \<times> dwarf_debug \<times> dwarf_cie \<times> dwarf_fde)).
    \<not> (dbg_eh_offset dbg < dbg_eh_size dbg \<and> dbg_eh_offset dbg < ds_size ds
       \<and> entry_length m dbg (ds_data ds) (dbg_eh_offset dbg) = (len, n, off) \<and> ds_size ds - off < len
       \<and> \<not> (fde_initloc fde \<le> pc \<and> pc < fde_initloc fde + fde_adrange fde))"
  assume "dwarf_get_fde_at_pc m eh t eh_frame pc lohi dbg cie \<noteq> None"
  then obtain y where y: "fde_loop m eh (eh_sec t) eh_frame pc lohi dbg cie fde0 = Some y"
    by (auto simp: dwarf_get_fde_at_pc_def)
  have "?P m eh (eh_sec t) eh_frame pc lohi dbg cie fde0 y"
  proof (rule fde_loop.raw_induct [where P = ?P, OF _ y])
    fix f :: "mem \<Rightarrow> u64 \<Rightarrow> dwarf_section \<Rightarrow> bool \<Rightarrow> u64 \<Rightarrow> u64 \<times> u64 \<Rightarrow> dwarf_debug \<Rightarrow> dwarf_cie \<Rightarrow> dwarf_fde
        \<Rightarrow> (i32 \<times> (u64 \<times> u64) \<times> dwarf_debug \<times> dwarf_cie \<times> dwarf_fde) cres"
      and m eh ds eh_frame pc lohi dbg cie fde y
    assume IH: "\<And>m eh ds eh_frame pc lohi dbg cie fde y.
        f m eh ds eh_frame pc lohi dbg cie fde = Some y \<Longrightarrow> ?P m eh ds eh_frame pc lohi dbg cie fde y"
      and eq: "(if dbg_eh_offset dbg < dbg_eh_size dbg then
        cbind (get_next_fde m eh ds eh_frame dbg cie fde) (\<lambda>(ret, dbg, cie, fde).
          if ret <s 0 then cret (DW_DLV_NO_ENTRY, lohi, dbg, cie, fde)
          else if fde_initloc fde \<le> pc \<and> pc < fde_initloc fde + fde_adrange fde then
            cret (DW_DLV_OK, (fde_initloc fde, fde_initloc fde + fde_adrange fde - 1), dbg, cie, fde)
          else f m eh ds eh_frame pc lohi dbg cie fde)
      else cret (DW_DLV_NO_ENTRY, lohi, dbg, cie, fde)) = Some y"
    show "?P m eh ds eh_frame pc lohi dbg cie fde y"
    proof
      assume bad: "dbg_eh_offset dbg < dbg_eh_size dbg \<and> dbg_eh_offset dbg < ds_size ds
       \<and> entry_length m dbg (ds_data ds) (dbg_eh_offset dbg) = (len, n, off) \<and> ds_size ds - off < len
       \<and> \<not> (fde_initloc fde \<le> pc \<and> pc < fde_initloc fde + fde_adrange fde)"
      then have "get_next_fde m eh ds eh_frame dbg cie fde = cret (DW_DLE_DEBUG_FRAME_LENGTH_BAD, dbg, cie, fde)"
        by (simp add: get_next_fde_def)
      with bad eq have "f m eh ds eh_frame pc lohi dbg cie fde = Some y"
        by (auto simp: dw_codes word_sless_alt)
      from IH [OF this] bad show False by blast
    qed
  qed
  with assms show False by (simp add: fde0_def)
qed

theorem bad_length_never_returns_witness:
  "dwarf_get_fde_at_pc (\<lambda>_. 0x11) 0 (frame_tables0\<lparr>eh_sec := (eh_sec frame_tables0)\<lparr>ds_size := 64\<rparr>\<rparr>) True 0x800 (0, 0)
     (demo_dbg\<lparr>dbg_eh_size := 64\<rparr>) demo_cie = None"
proof -
  have "entry_length (\<lambda>_. 0x11) (demo_dbg\<lparr>dbg_eh_size := 64\<rparr>) 0 0 = (0x11111111, 4, 4)" by code_simp
  then show ?thesis
    by (intro bad_length_never_returns [where len = "0x11111111" and n = 4 and off = 4]) (simp_all add: demo_dbg_def frame_tables0_def)
qed

end
