(* ===== verification/Dwarf_Fde.thy ===== *)
theory Dwarf_Fde
  imports Dwarf_Frame
begin

text \<open>
  The walk of \<^verbatim>\<open>dwarf_get_fde_at_pc\<close> over an encoded \<^verbatim>\<open>.eh_frame\<close> section: CIEs with the augmentation \<^verbatim>\<open>"zR"\<close> and FDEs with
  32-bit self-relative addresses, the form the compiler emits for this kernel, ended by a zero length.
\<close>

section \<open>Encoded sections\<close>

record eh_cie =
  ec_caf :: nat
  ec_daf :: int
  ec_ra :: u8
  ec_prog :: "u8 list"

record eh_fde =
  ef_cieptr :: u32
  ef_rel :: u32
  ef_range :: u32
  ef_prog :: "u8 list"

datatype eh_entry = ECie eh_cie | EFde eh_fde

definition cie_head :: "eh_cie \<Rightarrow> u8 list" where
  "cie_head c = uleb_encode (ec_caf c) @ sleb_encode (ec_daf c) @ [ec_ra c, 1, 0x1b]"

fun entry_body :: "eh_entry \<Rightarrow> u8 list" where
  "entry_body (ECie c) = le_bytes 4 0 @ [1, 0x7a, 0x52, 0] @ cie_head c @ ec_prog c"
| "entry_body (EFde f) =
     le_bytes 4 (ucast (ef_cieptr f)) @ le_bytes 4 (ucast (ef_rel f)) @ le_bytes 4 (ucast (ef_range f)) @ [0] @ ef_prog f"

definition entry_bytes :: "eh_entry \<Rightarrow> u8 list" where
  "entry_bytes e = le_bytes 4 (of_nat (length (entry_body e))) @ entry_body e"

definition section_bytes :: "eh_entry list \<Rightarrow> u8 list" where
  "section_bytes es = concat (map entry_bytes es) @ [0, 0, 0, 0]"

fun entry_ok :: "eh_entry \<Rightarrow> bool" where
  "entry_ok (ECie c) \<longleftrightarrow> nat_ok (ec_caf c) \<and> int_ok (ec_daf c) \<and> length (entry_body (ECie c)) < 0xffffffff"
| "entry_ok (EFde f) \<longleftrightarrow> ef_cieptr f \<noteq> 0 \<and> ef_cieptr f \<noteq> 4 \<and> length (entry_body (EFde f)) < 0xffffffff"

text \<open>What is read from an entry at offset \<open>off\<close>.\<close>

definition cie_of :: "dwarf_section \<Rightarrow> u64 \<Rightarrow> eh_cie \<Rightarrow> dwarf_cie \<Rightarrow> dwarf_cie" where
  "cie_of ds off c old =
     old\<lparr>cie_offset := off, cie_length := of_nat (length (entry_body (ECie c))), cie_version := 1,
         cie_augment := ds_data ds + (off + 9), cie_caf := of_nat (ec_caf c), cie_daf := of_int (ec_daf c),
         cie_ra := ucast (ec_ra c), cie_auglen := 1, cie_augdata := ds_data ds + (off + 11 + of_nat (length (cie_head c))),
         cie_fde_encode := 0x1b, cie_initinst := ds_data ds + (off + 12 + of_nat (length (cie_head c))),
         cie_instlen := of_nat (length (ec_prog c))\<rparr>"

definition fde_of :: "dwarf_section \<Rightarrow> u64 \<Rightarrow> eh_fde \<Rightarrow> dwarf_fde" where
  "fde_of ds off f =
     \<lparr>fde_addr = ds_data ds + off, fde_offset = off, fde_length = of_nat (length (entry_body (EFde f))),
      fde_cieoff = ucast (ef_cieptr f), fde_initloc = scast (ef_rel f) + (ds_addr ds + (off + 8)),
      fde_adrange = scast (ef_range f), fde_auglen = 0, fde_augdata = ds_data ds + (off + 17),
      fde_inst = ds_data ds + (off + 17), fde_instlen = of_nat (length (ef_prog f))\<rparr>"

definition covers :: "u64 \<Rightarrow> dwarf_fde \<Rightarrow> bool" where
  "covers pc fde \<longleftrightarrow> fde_initloc fde \<le> pc \<and> pc < fde_initloc fde + fde_adrange fde"

text \<open>The first FDE that covers \<open>pc\<close>, with the CIE read last before it and the offset behind it.\<close>

fun eh_find :: "dwarf_section \<Rightarrow> u64 \<Rightarrow> u64 \<Rightarrow> dwarf_cie \<Rightarrow> eh_entry list \<Rightarrow> (dwarf_fde \<times> dwarf_cie \<times> u64) option" where
  "eh_find ds pc off cie [] = None"
| "eh_find ds pc off cie (ECie c # es) =
     eh_find ds pc (off + of_nat (length (entry_bytes (ECie c)))) (cie_of ds off c cie) es"
| "eh_find ds pc off cie (EFde f # es) =
     (let next = off + of_nat (length (entry_bytes (EFde f))) in
      if covers pc (fde_of ds off f) then Some (fde_of ds off f, cie, next) else eh_find ds pc next cie es)"

section \<open>Reading an encoded entry\<close>

lemma read4:
  assumes "holds m (data + off) (le_bytes 4 w)" "unat w < 2 ^ 32"
  shows "dwarf_read_lsb m data off 4 = (w, off + 4)"
  using read_le_bytes [of m data off 4 w] assms by (simp add: read_sizes_def)

lemma unat_ucast_32: "unat (ucast (x :: u32) :: u64) < 2 ^ 32"
proof -
  have "unat x < 2 ^ LENGTH(32)" by (rule unsigned_less)
  then show ?thesis by (simp add: unsigned_ucast_eq take_bit_nat_eq_self)
qed

lemma ucast_ucast_32: "(ucast (ucast (x :: u32) :: u64) :: u32) = x"
  by (rule bit_word_eqI) (auto simp: bit_simps)

lemma entry_length_encoded:
  assumes h: "holds m (ds_data ds + off) (entry_bytes e)" and ok: "entry_ok e"
    and room: "unat off + length (entry_bytes e) \<le> unat (ds_size ds)" and rd: "dbg_read dbg = dwarf_read_lsb"
  shows "entry_length m dbg (ds_data ds) off = (of_nat (length (entry_body e)), 4, off + 4)"
    and "\<not> ds_size ds - (off + 4) < of_nat (length (entry_body e))" and "off < ds_size ds"
    and "(of_nat (length (entry_body e)) :: u64) \<noteq> 0"
proof -
  let ?n = "length (entry_body e)"
  have n: "?n < 0xffffffff" using ok by (cases e) simp_all
  then have u: "unat (of_nat ?n :: u64) = ?n" by (simp add: unat_of_nat)
  have "dwarf_read_lsb m (ds_data ds) off 4 = (of_nat ?n, off + 4)"
    using h n u by (intro read4) (simp_all add: entry_bytes_def)
  moreover have "(of_nat ?n :: u64) \<noteq> 0xffffffff" using n u by auto
  ultimately show "entry_length m dbg (ds_data ds) off = (of_nat ?n, 4, off + 4)"
    by (simp add: entry_length_def rd)
  have len: "length (entry_bytes e) = 4 + ?n" by (simp add: entry_bytes_def)
  have "unat (off + of_nat 4) = unat off + 4" using room len unat_lt64 [of "ds_size ds"] by (intro unat_add_less) linarith
  then show "\<not> ds_size ds - (off + 4) < of_nat ?n"
    using room len u by (simp add: word_less_nat_alt unat_sub word_le_nat_alt)
  show "off < ds_size ds" using room len by (simp add: word_less_nat_alt)
  have "0 < ?n" by (cases e) simp_all
  then show "(of_nat ?n :: u64) \<noteq> 0" using u by auto
qed

text \<open>The augmentation \<^verbatim>\<open>"zR"\<close> does not contain \<^verbatim>\<open>"eh"\<close>, whose literal lies at \<open>eh\<close>.\<close>

lemma strstr_zR:
  assumes "m p = 0x7a" "m (p + 1) = 0x52" "m (p + 2) = 0" "cstr m eh [0x65, 0x68]"
  shows "strstr m p eh = Some 0"
proof -
  have "strlen m (eh + 1) = Some 1"
    using assms(4) strlen_loop_cstr [of m "eh + 1" "[0x68]" 0] by (simp add: strlen_def)
  moreover have "strstr_loop m p (eh + 1) 0x65 (scast (1 :: i32)) = Some 0"
    using assms(1-3) by (subst strstr_loop.simps, subst strstr_loop.simps, subst strstr_loop.simps) (simp add: add.assoc)
  ultimately show ?thesis using assms(4) by (simp add: strstr_def)
qed

lemma skip_zR:
  assumes "m p = 0x7a" "m (p + 1) = 0x52" "m (p + 2) = 0"
  shows "skip_string m p = Some (p + 3)"
  using assms skip_string_cstr [of m p "[0x7a, 0x52]"] by (simp add: add.assoc)

lemma augment_zR:
  assumes "m (cie_augment cie) = 0x7a" "m (cie_augment cie + 1) = 0x52" "m (cie_augment cie + 2) = 0"
    "cie_augment cie \<noteq> 0"
  shows "parse_lsb_cie_augment m dbg cie = cret (DW_DLE_NONE, cie\<lparr>cie_fde_encode := m (cie_augdata cie)\<rparr>)"
  unfolding parse_lsb_cie_augment_def using assms
  by (subst augment_loop.simps, subst augment_loop.simps) (simp add: add.assoc)

lemma frame_set_cie_encoded:
  assumes h: "holds m (ds_data ds + off) (entry_bytes (ECie c))" and ok: "entry_ok (ECie c)"
    and room: "unat off + length (entry_bytes (ECie c)) \<le> unat (ds_size ds)" and rd: "dbg_read dbg = dwarf_read_lsb"
    and eh: "cstr m eh [0x65, 0x68]" and aug: "ds_data ds + (off + 9) \<noteq> 0"
  shows "frame_set_cie m eh dbg ds off cie =
     cret (DW_DLE_NONE, off + of_nat (length (entry_bytes (ECie c))), cie_of ds off c cie)"
proof -
  let ?D = "ds_data ds" and ?n = "length (entry_body (ECie c))"
  let ?u = "uleb_encode (ec_caf c)" and ?s = "sleb_encode (ec_daf c)"
  define o1 where "o1 = off + 12 + of_nat (length ?u)"
  define o2 where "o2 = o1 + of_nat (length ?s)"
  note len = entry_length_encoded [OF h ok room rd]
  have mem: "holds m (?D + (off + 4)) (le_bytes 4 0)" "m (?D + (off + 8)) = 1" "m (?D + (off + 9)) = 0x7a"
    "m (?D + (off + 9) + 1) = 0x52" "m (?D + (off + 9) + 2) = 0" "holds m (?D + (off + 12)) ?u" "holds m (?D + o1) ?s"
    "m (?D + o2) = ec_ra c" "m (?D + (o2 + 1)) = 1" "m (?D + (o2 + 2)) = 0x1b"
    using h by (simp_all add: entry_bytes_def cie_head_def o1_def o2_def add.assoc)
  have id: "dwarf_read_lsb m ?D (off + 4) 4 = (0, off + 8)" using read4 [OF mem(1)] by (simp add: add.assoc)
  have ver: "dwarf_read_lsb m ?D (off + 8) 1 = (1, off + 9)" using mem(2) by (simp add: read_byte)
  have caf: "dwarf_read_uleb128 m ?D (off + 12) = Some (of_nat (ec_caf c), o1)"
    using read_uleb_encoded [OF mem(6)] ok by (simp add: nat_ok_def o1_def)
  have daf: "dwarf_read_sleb128 m ?D o1 = Some (of_int (ec_daf c), o2)"
  proof -
    have "map_option (\<lambda>(ret, src, shift, b). (sleb_sign ret shift b, src)) (decode_leb_loop m (?D + o1) 0 0)
        = Some (of_int (ec_daf c), ?D + o1 + of_nat (length ?s))"
      using decode_sleb_loop [of m "?D + o1" "ec_daf c" 0 0] mem(7) ok by (simp add: holds_def int_ok_def)
    then show ?thesis by (auto simp: dwarf_read_sleb128_def read_leb_decode o2_def)
  qed
  have ra: "dwarf_read_lsb m ?D o2 1 = (ucast (ec_ra c), o2 + 1)" using mem(8) by (simp add: read_byte)
  have al: "dwarf_read_uleb128 m ?D (o2 + 1) = Some (1, o2 + 2)"
    using read_uleb_encoded [of m ?D "o2 + 1" 1] mem(9) by (simp add: uleb_encode.simps add.assoc)
  have n: "?n = 8 + length ?u + length ?s + 3 + length (ec_prog c)" by (simp add: cie_head_def)
  have o: "o2 + 2 = off + 11 + of_nat (length (cie_head c))" "o2 + 3 = off + 12 + of_nat (length (cie_head c))"
    "off + 4 + of_nat ?n - (o2 + 3) = of_nat (length (ec_prog c))"
    "o2 + 3 + of_nat (length (ec_prog c)) = off + of_nat (length (entry_bytes (ECie c)))"
    unfolding n entry_bytes_def o1_def o2_def by (simp_all add: cie_head_def)
  have skip: "skip_string m (?D + (off + 9)) = Some (?D + (off + 12))" using skip_zR [OF mem(3-5)] by (simp add: add.assoc)
  have ss: "strstr m (?D + (off + 9)) eh = Some 0" by (rule strstr_zR [OF mem(3-5) eh])
  have augm: "parse_lsb_cie_augment m dbg x = cret (DW_DLE_NONE, x\<lparr>cie_fde_encode := 0x1b\<rparr>)"
    if "cie_augment x = ?D + (off + 9)" "cie_augdata x = ?D + (o2 + 2)" for x
    using augment_zR [of m x] that mem(3-5,10) aug by simp
  have o3: "o2 + 2 + 1 = o2 + 3" by simp
  show ?thesis
    using len(2) unfolding frame_set_cie_def cie_of_def o(4) [symmetric] o(1,2) [symmetric] o(3) [symmetric]
    by (simp add: Let_def len(1) rd id ver skip mem(3) ss caf daf ra al augm o3 del: entry_body.simps)
qed

lemma read_rel4:
  assumes "holds m (data + off) (le_bytes 4 (ucast (x :: u32)))" "dbg_read dbg = dwarf_read_lsb"
  shows "read_lsb_encoded m dbg val data off 0x1b pc = cret (DW_DLE_NONE, scast x + pc, off + 4)"
  using read4 [OF assms(1) unat_ucast_32] assms(2) by (simp add: read_lsb_encoded_def Let_def ucast_ucast_32)

lemma frame_set_fde_encoded:
  assumes h: "holds m (ds_data ds + off) (entry_bytes (EFde f))" and ok: "entry_ok (EFde f)"
    and room: "unat off + length (entry_bytes (EFde f)) \<le> unat (ds_size ds)" and rd: "dbg_read dbg = dwarf_read_lsb"
    and cie: "cie_fde_encode cie = 0x1b" "m (cie_augment cie) = 0x7a"
  shows "frame_set_fde m dbg ds off True cie fde =
     cret (DW_DLE_NONE, off + of_nat (length (entry_bytes (EFde f))), fde_of ds off f)"
proof -
  let ?D = "ds_data ds" and ?n = "length (entry_body (EFde f))"
  note len = entry_length_encoded [OF h ok room rd]
  have mem: "holds m (?D + (off + 4)) (le_bytes 4 (ucast (ef_cieptr f)))" "holds m (?D + (off + 8)) (le_bytes 4 (ucast (ef_rel f)))"
    "holds m (?D + (off + 12)) (le_bytes 4 (ucast (ef_range f)))" "m (?D + (off + 16)) = 0"
    using h by (simp_all add: entry_bytes_def add.assoc)
  have ptr: "dwarf_read_lsb m ?D (off + 4) 4 = (ucast (ef_cieptr f), off + 8)"
    using read4 [OF mem(1) unat_ucast_32] by (simp add: add.assoc)
  have "(ucast (ef_cieptr f) :: u64) \<noteq> 4"
    using ok ucast_ucast_32 [of "ef_cieptr f"] by auto
  then have nz: "off + 8 - (4 + ucast (ef_cieptr f)) \<noteq> off" by (simp add: algebra_simps)
  have loc: "read_lsb_encoded m dbg v ?D (off + 8) 0x1b pc = cret (DW_DLE_NONE, scast (ef_rel f) + pc, off + 12)" for v pc
    using read_rel4 [OF mem(2) rd] by (simp add: add.assoc)
  have range: "read_lsb_encoded m dbg v ?D (off + 12) 0x1b 0 = cret (DW_DLE_NONE, scast (ef_range f), off + 16)" for v
    using read_rel4 [OF mem(3) rd, of v 0] by (simp add: add.assoc)
  have al: "dwarf_read_uleb128 m ?D (off + 16) = Some (0, off + 17)"
    using read_uleb_0 [of m ?D "off + 16"] mem(4) by (simp add: add.assoc)
  have n: "off + 4 + of_nat ?n - (off + 17) = of_nat (length (ef_prog f))"
    "off + 17 + of_nat (length (ef_prog f)) = off + of_nat (length (entry_bytes (EFde f)))"
    by (simp_all add: entry_bytes_def)
  show ?thesis
    using len(2) nz unfolding frame_set_fde_def fde_of_def n(2) [symmetric] n(1) [symmetric]
    by (simp add: Let_def len(1) rd ptr cie loc range al del: entry_body.simps)
qed

definition cie_read :: "mem \<Rightarrow> dwarf_cie \<Rightarrow> bool" where
  "cie_read m cie \<longleftrightarrow> cie_fde_encode cie = 0x1b \<and> m (cie_augment cie) = 0x7a"

lemma get_next_fde_encoded:
  assumes h: "holds m (ds_data ds + off) (entry_bytes e)" and ok: "entry_ok e" and off: "off = dbg_eh_offset dbg"
    and room: "unat off + length (entry_bytes e) \<le> unat (ds_size ds)" and rd: "dbg_read dbg = dwarf_read_lsb"
    and eh: "cstr m eh [0x65, 0x68]" and aug: "ds_data ds + (off + 9) \<noteq> 0"
    and cie: "(\<exists>f. e = EFde f) \<longrightarrow> cie_read m cie"
  shows "get_next_fde m eh ds True dbg cie fde =
     cret (0, dbg\<lparr>dbg_eh_offset := off + of_nat (length (entry_bytes e))\<rparr>,
       case e of ECie c \<Rightarrow> cie_of ds off c cie | EFde f \<Rightarrow> cie, case e of ECie c \<Rightarrow> fde | EFde f \<Rightarrow> fde_of ds off f)"
proof -
  note len = entry_length_encoded [OF h ok room rd]
  show ?thesis
  proof (cases e)
    case (ECie c)
    have "dwarf_read_lsb m (ds_data ds) (off + 4) 4 = (0, off + 4 + 4)"
      using h ECie by (intro read4) (simp_all add: entry_bytes_def add.assoc)
    with ECie len frame_set_cie_encoded [OF h [unfolded ECie] ok [unfolded ECie] room [unfolded ECie] rd eh aug, of cie] off
    show ?thesis by (simp add: get_next_fde_def Let_def rd dw_codes del: entry_body.simps)
  next
    case (EFde g)
    have "dwarf_read_lsb m (ds_data ds) (off + 4) 4 = (ucast (ef_cieptr g), off + 4 + 4)"
      using h EFde unat_ucast_32 by (intro read4) (simp_all add: entry_bytes_def add.assoc)
    moreover have "(ucast (ef_cieptr g) :: u64) \<noteq> 0" using ok EFde ucast_ucast_32 [of "ef_cieptr g"] by auto
    ultimately show ?thesis
      using EFde len frame_set_fde_encoded [OF h [unfolded EFde] ok [unfolded EFde] room [unfolded EFde] rd, of cie fde] cie off
      by (simp add: get_next_fde_def Let_def rd dw_codes cie_read_def del: entry_body.simps)
  qed
qed

section \<open>The walk\<close>

text \<open>No FDE comes before the first CIE.\<close>

fun cie_first :: "bool \<Rightarrow> eh_entry list \<Rightarrow> bool" where
  "cie_first seen [] \<longleftrightarrow> True"
| "cie_first seen (ECie c # es) \<longleftrightarrow> cie_first True es"
| "cie_first seen (EFde f # es) \<longleftrightarrow> seen \<and> cie_first seen es"

lemma cie_read_cie_of:
  "holds m (ds_data ds + off) (entry_bytes (ECie c)) \<Longrightarrow> cie_read m (cie_of ds off c cie)"
  by (simp add: entry_bytes_def cie_read_def cie_of_def add.assoc)

text \<open>What \<^verbatim>\<open>dwarf_get_fde_at_pc\<close> returns for what the search finds.\<close>

definition fde_result ::
    "u64 \<times> u64 \<Rightarrow> dwarf_debug \<Rightarrow> (dwarf_fde \<times> dwarf_cie \<times> u64) option
      \<Rightarrow> (i32 \<times> (u64 \<times> u64) \<times> dwarf_debug \<times> dwarf_cie \<times> dwarf_fde) cres \<Rightarrow> bool" where
  "fde_result lohi dbg found r \<longleftrightarrow>
     (case found of
        Some (fde, cie, off) \<Rightarrow>
          r = cret (DW_DLV_OK, (fde_initloc fde, fde_initloc fde + fde_adrange fde - 1), dbg\<lparr>dbg_eh_offset := off\<rparr>, cie, fde)
      | None \<Rightarrow> (\<exists>dbg' cie fde. r = cret (DW_DLV_NO_ENTRY, lohi, dbg', cie, fde)))"

lemma fde_result_offset [simp]: "fde_result lohi (dbg\<lparr>dbg_eh_offset := x\<rparr>) found r = fde_result lohi dbg found r"
  by (cases found) (auto simp: fde_result_def)

lemma fde_loop_end:
  assumes "holds m (ds_data ds + off) [0, 0, 0, 0]" "off = dbg_eh_offset dbg" "dbg_read dbg = dwarf_read_lsb"
    "dbg_eh_size dbg = ds_size ds"
  shows "\<exists>dbg' cie' fde'. fde_loop m eh ds True pc lohi dbg cie fde = cret (DW_DLV_NO_ENTRY, lohi, dbg', cie', fde')"
proof (cases "dbg_eh_offset dbg < ds_size ds")
  case True
  have "le_bytes 4 0 = [0, 0, 0, 0]" by (simp add: eval_nat_numeral)
  then have "dwarf_read_lsb m (ds_data ds) off 4 = (0, off + 4)" using assms(1) by (intro read4) simp_all
  then have "entry_length m dbg (ds_data ds) off = (0, 4, off + 4)" by (simp add: entry_length_def assms(3))
  then have "get_next_fde m eh ds True dbg cie fde = cret (- 1, dbg, cie, fde)"
    using True assms(2) by (simp add: get_next_fde_def)
  with True assms(4) show ?thesis by (subst fde_loop.simps) (simp add: word_sless_alt)
next
  case False
  with assms(4) show ?thesis by (subst fde_loop.simps) simp
qed

lemma fde_loop_encoded:
  assumes "holds m (ds_data ds + off) (section_bytes es)" and "\<forall>e\<in>set es. entry_ok e" and "cie_first seen es"
    and "seen \<longrightarrow> cie_read m cie" and "\<not> covers pc fde" and "off = dbg_eh_offset dbg"
    and "unat off + length (section_bytes es) \<le> unat (ds_size ds)" and "unat (ds_data ds) + unat (ds_size ds) < 2 ^ 64"
    and "dbg_read dbg = dwarf_read_lsb" and "cstr m eh [0x65, 0x68]" and "dbg_eh_size dbg = ds_size ds"
  shows "fde_result lohi dbg (eh_find ds pc off cie es) (fde_loop m eh ds True pc lohi dbg cie fde)"
  using assms
proof (induction es arbitrary: off cie fde dbg seen)
  case Nil
  then show ?case using fde_loop_end [of m ds off dbg eh pc lohi cie fde] by (simp add: section_bytes_def fde_result_def)
next
  case (Cons e es)
  let ?n = "length (entry_bytes e)"
  have h: "holds m (ds_data ds + off) (entry_bytes e)" "holds m (ds_data ds + (off + of_nat ?n)) (section_bytes es)"
    using Cons.prems(1) by (simp_all add: section_bytes_def add.assoc)
  have len: "length (section_bytes (e # es)) = ?n + length (section_bytes es)" by (simp add: section_bytes_def)
  have room: "unat off + ?n \<le> unat (ds_size ds)" using Cons.prems(7) len by simp
  have "9 < ?n" by (cases e) (simp_all add: entry_bytes_def)
  then have lt: "unat (ds_data ds) + (unat off + 9) < 2 ^ 64" using room Cons.prems(8) by linarith
  then have "unat (ds_data ds + of_nat (unat off + 9)) = unat (ds_data ds) + (unat off + 9)" by (rule unat_add_less)
  then have "ds_data ds + of_nat (unat off + 9) \<noteq> 0" by (metis add_is_0 unat_0 zero_neq_numeral)
  then have aug: "ds_data ds + (off + 9) \<noteq> 0" by simp
  let ?off = "off + of_nat ?n"
  let ?dbg = "dbg\<lparr>dbg_eh_offset := ?off\<rparr>"
  have off: "unat ?off = unat off + ?n" using room unat_lt64 [of "ds_size ds"] by (intro unat_add_less) linarith
  have lim: "off < dbg_eh_size dbg"
    using room \<open>9 < ?n\<close> Cons.prems(11) by (simp add: word_less_nat_alt)
  have room': "unat ?off + length (section_bytes es) \<le> unat (ds_size ds)" using Cons.prems(7) len off by simp
  have ok: "entry_ok e" "\<forall>e\<in>set es. entry_ok e" using Cons.prems(2) by simp_all
  show ?case
  proof (cases e)
    case (ECie c)
    let ?cie = "cie_of ds off c cie"
    have step: "fde_loop m eh ds True pc lohi dbg cie fde = fde_loop m eh ds True pc lohi ?dbg ?cie fde"
      using get_next_fde_encoded [OF h(1) ok(1) Cons.prems(6) room Cons.prems(9,10) aug, of cie fde] lim Cons.prems(5,6) ECie
      by (subst fde_loop.simps) (auto simp: covers_def)
    have "fde_result lohi ?dbg (eh_find ds pc ?off ?cie es) (fde_loop m eh ds True pc lohi ?dbg ?cie fde)"
      using Cons.prems ECie h room' ok cie_read_cie_of [of m ds off c cie] by (intro Cons.IH [of _ True]) simp_all
    then show ?thesis unfolding step by (simp add: ECie)
  next
    case (EFde f)
    let ?fde = "fde_of ds off f"
    have nx: "get_next_fde m eh ds True dbg cie fde = cret (0, ?dbg, cie, ?fde)"
      using get_next_fde_encoded [OF h(1) ok(1) Cons.prems(6) room Cons.prems(9,10) aug, of cie fde] Cons.prems(3,4) EFde by simp
    show ?thesis
    proof (cases "covers pc ?fde")
      case True
      then show ?thesis using lim Cons.prems(6) nx EFde
        by (subst fde_loop.simps) (auto simp: fde_result_def covers_def Let_def)
    next
      case False
      have step: "fde_loop m eh ds True pc lohi dbg cie fde = fde_loop m eh ds True pc lohi ?dbg cie ?fde"
        using False lim Cons.prems(6) nx by (subst fde_loop.simps) (auto simp: covers_def)
      have "fde_result lohi ?dbg (eh_find ds pc ?off cie es) (fde_loop m eh ds True pc lohi ?dbg cie ?fde)"
        using Cons.prems EFde h room' ok False by (intro Cons.IH [of _ True]) auto
      then show ?thesis unfolding step using False by (simp add: EFde Let_def)
    qed
  qed
qed

text \<open>
  C15. \<^verbatim>\<open>dwarf_get_fde_at_pc\<close> over an encoded \<^verbatim>\<open>.eh_frame\<close> section returns, and finds the first FDE whose range holds the
  address: it gives that FDE with all its fields, the range it covers, the CIE read last before it, and the offset behind it; if no FDE of the
  section covers the address it answers \<^verbatim>\<open>DW_DLV_NO_ENTRY\<close> and leaves the range as it was.
\<close>

theorem fde_at_pc_finds:
  assumes "holds m (ds_data (eh_sec t) + dbg_eh_offset dbg) (section_bytes es)" and "\<forall>e\<in>set es. entry_ok e"
    and "cie_first False es" and "unat (dbg_eh_offset dbg) + length (section_bytes es) \<le> unat (ds_size (eh_sec t))"
    and "unat (ds_data (eh_sec t)) + unat (ds_size (eh_sec t)) < 2 ^ 64" and "dbg_read dbg = dwarf_read_lsb"
    and "cstr m eh [0x65, 0x68]" and "dbg_eh_size dbg = ds_size (eh_sec t)"
  shows "case eh_find (eh_sec t) pc (dbg_eh_offset dbg) cie es of
      Some (fde, cie', off) \<Rightarrow>
        dwarf_get_fde_at_pc m eh t True pc lohi dbg cie =
          cret (DW_DLV_OK, (fde_initloc fde, fde_initloc fde + fde_adrange fde - 1), dbg\<lparr>dbg_eh_offset := off\<rparr>, cie', fde)
    | None \<Rightarrow> \<exists>dbg' cie' fde. dwarf_get_fde_at_pc m eh t True pc lohi dbg cie = cret (DW_DLV_NO_ENTRY, lohi, dbg', cie', fde)"
proof -
  have "\<not> covers pc fde0" by (simp add: covers_def fde0_def)
  then have "fde_result lohi dbg (eh_find (eh_sec t) pc (dbg_eh_offset dbg) cie es) (fde_loop m eh (eh_sec t) True pc lohi dbg cie fde0)"
    using assms by (intro fde_loop_encoded [where seen = False]) simp_all
  then show ?thesis unfolding fde_result_def dwarf_get_fde_at_pc_def .
qed

definition demo_entries :: "eh_entry list" where
  "demo_entries =
     [ECie \<lparr>ec_caf = 1, ec_daf = - 8, ec_ra = 16, ec_prog = [0x0c, 7, 8, 0x90, 1, 0, 0]\<rparr>,
      EFde \<lparr>ef_cieptr = 28, ef_rel = 0x1000, ef_range = 0x10, ef_prog = [0x41, 0x0e, 16]\<rparr>,
      EFde \<lparr>ef_cieptr = 48, ef_rel = 0x2000, ef_range = 0x40, ef_prog = [0x41, 0x0e, 16, 0x86, 2]\<rparr>]"

definition demo_eh_sec :: dwarf_section where
  "demo_eh_sec = (eh_sec frame_tables0)\<lparr>ds_data := 0x6000, ds_addr := 0x800000, ds_size := 80\<rparr>"

definition demo_eh_mem :: mem where
  "demo_eh_mem = write_bytes (write_bytes (\<lambda>_. 0) 0x7000 [0x65, 0x68, 0]) 0x6000 (section_bytes demo_entries)"

theorem fde_at_pc_finds_witness:
  "\<exists>dbg cie fde. dwarf_get_fde_at_pc demo_eh_mem 0x7000 (frame_tables0\<lparr>eh_sec := demo_eh_sec\<rparr>) True 0x802041 (0, 0)
      (demo_dbg\<lparr>dbg_eh_size := 80\<rparr>) demo_cie = cret (DW_DLV_OK, (0x802034, 0x802073), dbg, cie, fde)
    \<and> fde_instlen fde = 5 \<and> cie_daf cie = - 8 \<and> cie_ra cie = 16"
proof -
  let ?t = "frame_tables0\<lparr>eh_sec := demo_eh_sec\<rparr>" and ?d = "demo_dbg\<lparr>dbg_eh_size := 80\<rparr>"
  have len: "length (section_bytes demo_entries) = 70" by code_simp
  have first: "cie_first False demo_entries" by code_simp
  have ok: "\<forall>e\<in>set demo_entries. entry_ok e"
    by (simp add: demo_entries_def nat_ok_def int_ok_def cie_head_def uleb_encode.simps sleb_encode.simps)
  have mem: "holds demo_eh_mem 0x6000 (section_bytes demo_entries)"
    unfolding demo_eh_mem_def by (rule holds_write) (simp add: len)
  have eh: "cstr demo_eh_mem 0x7000 [0x65, 0x68]" by code_simp
  have "map_option (\<lambda>(fde, cie, off). (fde_initloc fde, fde_adrange fde, fde_instlen fde, cie_daf cie, cie_ra cie, off))
      (eh_find demo_eh_sec 0x802041 0 demo_cie demo_entries) = Some (0x802034, 0x40, 5, - 8, 16, 66)" by code_simp
  then obtain fde cie where find: "eh_find demo_eh_sec 0x802041 0 demo_cie demo_entries = Some (fde, cie, 66)"
      "fde_initloc fde = 0x802034" "fde_adrange fde = 0x40" "fde_instlen fde = 5" "cie_daf cie = - 8" "cie_ra cie = 16"
    by auto
  show ?thesis
    using fde_at_pc_finds [of demo_eh_mem ?t ?d demo_entries "0x7000" "0x802041" "(0, 0)" demo_cie] mem ok first len eh find
    by (simp add: demo_dbg_def) (simp add: demo_eh_sec_def)
qed

end
