(* ===== verification/Kdebug.thy ===== *)
theory Kdebug
  imports Dwarf_Line
begin

text \<open>
  \<^verbatim>\<open>kern/kdebug.c\<close>: from an instruction address to the function, the source line and the sizes of the arguments, by a walk over
  the units of \<^verbatim>\<open>.debug_info\<close> and the entries of each.

  The pointers \<^verbatim>\<open>cu_header\<close> and \<^verbatim>\<open>cu_die\<close> of an entry are the unit and the unit's entry themselves, the second an argument.
  Entries and units the code leaves uninitialised hold whatever the stack holds, a parameter. The static \<^verbatim>\<open>lastenv\<close> and the
  register table of the result are not used.
\<close>

section \<open>Definitions\<close>

definition DW_TAG_formal_parameter :: u64 where "DW_TAG_formal_parameter = 0x05"
definition DW_TAG_subprogram :: u64 where "DW_TAG_subprogram = 0x2e"
definition DW_AT_byte_size :: u16 where "DW_AT_byte_size = 0x0b"
definition DW_AT_low_pc :: u16 where "DW_AT_low_pc = 0x11"
definition DW_AT_high_pc :: u16 where "DW_AT_high_pc = 0x12"
definition DW_AT_type :: u16 where "DW_AT_type = 0x49"

record ripinfo =
  rip_file :: u64
  rip_line :: i32
  rip_fn_name :: u64
  rip_fn_namelen :: i32
  rip_fn_addr :: u64
  rip_fn_narg :: nat
  size_fn_arg :: "i32 list"

text \<open>
  One more argument: the array has ten elements, and nothing checks the index. Where the code would write behind the array, which
  C leaves undefined, the model stops.
\<close>

definition add_arg :: "u64 \<Rightarrow> ripinfo \<Rightarrow> ripinfo cres" where
  "add_arg sz info =
     (if rip_fn_narg info < length (size_fn_arg info) then
        cret (info\<lparr>size_fn_arg := (size_fn_arg info)[rip_fn_narg info := ucast sz], rip_fn_narg := rip_fn_narg info + 1\<rparr>)
      else cfail Undefined)"

text \<open>From \<^verbatim>\<open>try_again\<close> on: the size of the type, or of the type it refers to, and so on.\<close>

partial_function (option) type_size ::
    "mem \<Rightarrow> dwarf_section list \<Rightarrow> dwarf_debug \<Rightarrow> dwarf_cu \<Rightarrow> dwarf_attribute option \<Rightarrow> dwarf_die \<Rightarrow> u64 \<Rightarrow> u64 cres" where
  "type_size m secs dbg cu attr sib ret_val =
     (case attr of
        None \<Rightarrow> cret ret_val
      | Some a \<Rightarrow>
          cbind (dwarf_offdie m secs dbg (cu_offset cu + at_u0 a) sib cu) (\<lambda>(r, sib).
            case attr_find sib DW_AT_byte_size of
              Some b \<Rightarrow> cret (at_u0 b)
            | None \<Rightarrow> type_size m secs dbg cu (attr_find sib DW_AT_type) sib ret_val))"

text \<open>The same for a later argument, where a type without a size is not followed.\<close>

definition next_type_size ::
    "mem \<Rightarrow> dwarf_section list \<Rightarrow> dwarf_debug \<Rightarrow> dwarf_cu \<Rightarrow> dwarf_attribute option \<Rightarrow> dwarf_die \<Rightarrow> u64 \<Rightarrow> u64 cres" where
  "next_type_size m secs dbg cu attr sib ret_val =
     (case attr of
        None \<Rightarrow> cret ret_val
      | Some a \<Rightarrow>
          cbind (dwarf_offdie m secs dbg (cu_offset cu + at_u0 a) sib cu) (\<lambda>(r, sib).
            cret (case attr_find sib DW_AT_byte_size of Some b \<Rightarrow> at_u0 b | None \<Rightarrow> ret_val)))"

partial_function (option) args_loop ::
    "mem \<Rightarrow> dwarf_section list \<Rightarrow> dwarf_debug \<Rightarrow> dwarf_cu \<Rightarrow> u64 \<Rightarrow> dwarf_die \<Rightarrow> dwarf_die \<Rightarrow> ripinfo \<Rightarrow> ripinfo cres" where
  "args_loop m secs dbg cu ret_val sib ret info =
     cbind (dwarf_siblingof m secs dbg (Some sib) ret cu) (\<lambda>(r, ret).
       if r \<noteq> DW_DLV_OK \<or> die_tag ret \<noteq> DW_TAG_formal_parameter then cret info
       else
         cbind (next_type_size m secs dbg cu (attr_find ret DW_AT_type) sib ret_val) (\<lambda>ret_val.
         cbind (add_arg ret_val info) (\<lambda>info.
           args_loop m secs dbg cu ret_val ret ret info)))"

definition list_args ::
    "mem \<Rightarrow> dwarf_section list \<Rightarrow> dwarf_debug \<Rightarrow> dwarf_cu \<Rightarrow> dwarf_die \<Rightarrow> dwarf_die \<Rightarrow> ripinfo \<Rightarrow> ripinfo cres" where
  "list_args m secs dbg cu die junk info =
     cbind (dwarf_child m secs dbg cu die junk) (\<lambda>(r, ret).
       if r = DW_DLE_NO_ENTRY \<or> die_tag ret \<noteq> DW_TAG_formal_parameter then cret info
       else
         cbind (type_size m secs dbg cu (attr_find ret DW_AT_type) die 8) (\<lambda>ret_val.
         cbind (add_arg ret_val info) (\<lambda>info.
           args_loop m secs dbg cu ret_val ret ret info)))"

text \<open>The test that decides whether an entry is the function of the address.\<close>

definition pc_inside :: "dwarf_die \<Rightarrow> u64 \<Rightarrow> u64 option" where
  "pc_inside die addr =
     (case (attr_find die DW_AT_low_pc, attr_find die DW_AT_high_pc) of
        (Some low, Some high) \<Rightarrow> if at_u0 low < addr \<and> addr < at_u0 high then Some (at_u0 low) else None
      | _ \<Rightarrow> None)"

definition list_func_die ::
    "mem \<Rightarrow> dwarf_section list \<Rightarrow> dwarf_debug \<Rightarrow> ripinfo \<Rightarrow> dwarf_die \<Rightarrow> dwarf_die \<Rightarrow> u64 \<Rightarrow> dwarf_die \<Rightarrow> (i32 \<times> ripinfo) cres" where
  "list_func_die m secs dbg info die cu_die addr junk =
     (if die_tag die \<noteq> DW_TAG_subprogram then cret (0, info)
      else case pc_inside die addr of
        None \<Rightarrow> cret (0, info)
      | Some low \<Rightarrow>
          let info = info\<lparr>rip_file := die_name cu_die, rip_fn_name := die_name die\<rparr> in
          cbind (clift (strlen m (die_name die))) (\<lambda>n.
            let info = info\<lparr>rip_fn_namelen := n, rip_fn_addr := low\<rparr> in
            cbind (dwarf_srclines m secs dbg cu_die line0 addr) (\<lambda>(r, ln).
              let info = info\<lparr>rip_line := ucast (ln_lineno ln), rip_fn_narg := 0\<rparr> in
              cbind (list_args m secs dbg (cu_header die) die junk info) (\<lambda>info. cret (1, info)))))"

text \<open>The entries of a unit, from \<open>die\<close> on.\<close>

partial_function (option) dies_loop ::
    "mem \<Rightarrow> dwarf_section list \<Rightarrow> dwarf_debug \<Rightarrow> dwarf_cu \<Rightarrow> dwarf_die \<Rightarrow> u64 \<Rightarrow> dwarf_die \<Rightarrow> dwarf_die \<Rightarrow> dwarf_die \<Rightarrow> ripinfo
      \<Rightarrow> (bool \<times> dwarf_die \<times> dwarf_die \<times> ripinfo) cres" where
  "dies_loop m secs dbg cu cudie addr junk die die2 info =
     cbind (list_func_die m secs dbg info die cudie addr junk) (\<lambda>(found, info).
       if found \<noteq> 0 then cret (True, die, die2, info)
       else
         cbind (dwarf_siblingof m secs dbg (Some die) die2 cu) (\<lambda>(r, die2).
           if r <s 0 then cret (False, die, die2, info)
           else dies_loop m secs dbg cu cudie addr junk (die2\<lparr>cu_header := cu\<rparr>) die2 info))"

partial_function (option) units_loop ::
    "mem \<Rightarrow> dwarf_section list \<Rightarrow> u64 \<Rightarrow> dwarf_die \<Rightarrow> dwarf_debug \<Rightarrow> dwarf_cu \<Rightarrow> dwarf_die \<Rightarrow> dwarf_die \<Rightarrow> dwarf_die \<Rightarrow> ripinfo
      \<Rightarrow> (i32 \<times> dwarf_debug \<times> ripinfo) cres" where
  "units_loop m secs addr junk dbg cu cudie die die2 info =
     (let (r, dbg, cu) = get_next_cu m dbg cu in
      if r \<noteq> 0 then cret (- 1, dbg, info)
      else
        cbind (dwarf_siblingof m secs dbg None cudie cu) (\<lambda>(r, cudie).
          if r = DW_DLE_NO_ENTRY then units_loop m secs addr junk dbg cu cudie die die2 info
          else
            let cudie = cudie\<lparr>cu_header := cu\<rparr> in
            cbind (dwarf_child m secs dbg cu cudie die) (\<lambda>(r, die).
              if r = DW_DLE_NO_ENTRY then units_loop m secs addr junk dbg cu cudie die die2 info
              else
                cbind (dies_loop m secs dbg cu cudie addr junk (die\<lparr>cu_header := cu\<rparr>) die2 info) (\<lambda>(found, die, die2, info).
                  if found then cret (0, dbg, info)
                  else units_loop m secs addr junk dbg cu cudie die die2 info))))"

definition ULIM :: u64 where
  "ULIM = 0x8003C00000"

definition rip_unknown :: "u64 \<Rightarrow> u64 \<Rightarrow> ripinfo \<Rightarrow> ripinfo" where
  "rip_unknown unknown_str addr info =
     info\<lparr>rip_file := unknown_str, rip_line := 0, rip_fn_name := unknown_str, rip_fn_namelen := 9, rip_fn_addr := addr, rip_fn_narg := 0\<rparr>"

text \<open>What the local structures hold before they are written: \<^verbatim>\<open>cudie\<close>, \<^verbatim>\<open>die\<close> and \<^verbatim>\<open>die2\<close>, and \<^verbatim>\<open>ret\<close> of \<^verbatim>\<open>list_func_die\<close>.\<close>

record rip_locals =
  lv_cudie :: dwarf_die
  lv_die :: dwarf_die
  lv_die2 :: dwarf_die
  lv_ret :: dwarf_die

definition debuginfo_rip ::
    "mem \<Rightarrow> dwarf_section list \<Rightarrow> u64 \<Rightarrow> dwarf_cu \<Rightarrow> rip_locals \<Rightarrow> u64 \<Rightarrow> ripinfo \<Rightarrow> (i32 \<times> dwarf_debug \<times> ripinfo) cres" where
  "debuginfo_rip m secs unknown_str cu lv addr info =
     (let info = rip_unknown unknown_str addr info in
      if \<not> ULIM \<le> addr then cfail Panic
      else
        cbind (dwarf_init m (0x10000 + KERNBASE)) (\<lambda>(r, dbg).
        cbind (find_section secs ''.debug_info'') (\<lambda>sect.
          let dbg = dbg\<lparr>dbg_info_offset_elf := ds_data sect, dbg_info_size := ds_size sect\<rparr> in
          cassert (dbg_info_size dbg \<noteq> 0) (units_loop m secs addr (lv_ret lv) dbg cu (lv_cudie lv) (lv_die lv) (lv_die2 lv) info))))"

declare type_size.simps [code] args_loop.simps [code] dies_loop.simps [code] units_loop.simps [code]

section \<open>What comes back\<close>

text \<open>Arguments only extend the list of sizes.\<close>

definition args_only :: "ripinfo \<Rightarrow> ripinfo \<Rightarrow> bool" where
  "args_only info info' \<longleftrightarrow> info' = info\<lparr>size_fn_arg := size_fn_arg info', rip_fn_narg := rip_fn_narg info'\<rparr>
     \<and> length (size_fn_arg info') = length (size_fn_arg info) \<and> rip_fn_narg info' \<le> length (size_fn_arg info)"

lemma args_only_trans: "args_only a b \<Longrightarrow> args_only b c \<Longrightarrow> args_only a c"
  by (cases a; cases b; cases c) (simp add: args_only_def)

lemma add_arg_ok: "ok (args_only info) (add_arg sz info)"
  by (simp add: add_arg_def args_only_def)

lemma args_loop_ok:
  assumes "args_only info0 info"
  shows "ok (args_only info0) (args_loop m secs dbg cu rv sib ret info)"
proof (rule ok_of_Some)
  let ?P = "\<lambda>m secs dbg cu rv sib ret info r. args_only info0 info \<longrightarrow> ok (args_only info0) (Some r)"
  fix r assume run: "args_loop m secs dbg cu rv sib ret info = Some r"
  have "?P m secs dbg cu rv sib ret info r"
  proof (rule args_loop.raw_induct [where P = ?P, OF _ run], intro impI)
    fix f m secs dbg cu rv sib ret info r
    assume IH: "\<And>m secs dbg cu rv sib ret info r. f m secs dbg cu rv sib ret info = Some r \<Longrightarrow> ?P m secs dbg cu rv sib ret info r"
      and eq: "cbind (dwarf_siblingof m secs dbg (Some sib) ret cu) (\<lambda>(r, ret).
       if r \<noteq> DW_DLV_OK \<or> die_tag ret \<noteq> DW_TAG_formal_parameter then cret info
       else
         cbind (next_type_size m secs dbg cu (attr_find ret DW_AT_type) sib rv) (\<lambda>ret_val.
         cbind (add_arg ret_val info) (\<lambda>info. f m secs dbg cu ret_val ret ret info))) = Some r"
      and s: "args_only info0 info"
    have f: "ok (args_only info0) (f m secs dbg cu rv sib ret info)" if "args_only info0 info" for rv sib ret info
      using IH that by (blast intro: ok_of_Some)
    show "ok (args_only info0) (Some r)"
      unfolding eq [symmetric]
      by (intro ok_bind_any) (auto simp: s intro!: ok_bind_any ok_bind [OF add_arg_ok] f args_only_trans [OF s])
  qed
  with assms show "ok (args_only info0) (Some r)" by simp
qed

lemma list_args_ok: "rip_fn_narg info \<le> length (size_fn_arg info) \<Longrightarrow> ok (args_only info) (list_args m secs dbg cu die junk info)"
  unfolding list_args_def
  by (intro ok_bind_any) (auto simp: args_only_def intro!: ok_bind_any ok_bind [OF add_arg_ok] args_loop_ok)

definition found_ok :: "u64 \<Rightarrow> ripinfo \<Rightarrow> ripinfo \<Rightarrow> bool" where
  "found_ok addr info0 info \<longleftrightarrow> length (size_fn_arg info) = length (size_fn_arg info0) \<and> rip_fn_narg info \<le> length (size_fn_arg info0)
     \<and> rip_fn_addr info < addr"

lemma args_only_addr: "args_only a b \<Longrightarrow> rip_fn_addr b = rip_fn_addr a"
  by (cases a; cases b) (simp add: args_only_def)

lemma list_func_die_ok:
  "ok (\<lambda>(r, info'). r = 0 \<and> info' = info \<or> r = 1 \<and> found_ok addr info info') (list_func_die m secs dbg info die cu_die addr junk)"
  (is "ok ?Q _")
proof -
  have inner: "ok ?Q (cbind (list_args m secs dbg cu die junk i) (\<lambda>info. cret (1, info)))"
    if "length (size_fn_arg i) = length (size_fn_arg info)" "rip_fn_narg i = 0" "rip_fn_addr i < addr" for i cu
    using that by (intro ok_bind [OF list_args_ok]) (auto simp: found_ok_def args_only_addr, auto simp: args_only_def)
  show ?thesis
  proof (cases "pc_inside die addr")
    case None
    then show ?thesis by (simp add: list_func_die_def)
  next
    case (Some low)
    then have "low < addr" by (auto simp: pc_inside_def split: option.splits if_splits)
    then have "ok ?Q (cbind (clift (strlen m (die_name die))) (\<lambda>n. cbind (dwarf_srclines m secs dbg cu_die line0 addr) (\<lambda>(r, ln).
        cbind (list_args m secs dbg (cu_header die) die junk
          (info\<lparr>rip_file := die_name cu_die, rip_fn_name := die_name die, rip_fn_namelen := n, rip_fn_addr := low,
             rip_line := ucast (ln_lineno ln), rip_fn_narg := 0\<rparr>)) (\<lambda>info. cret (1, info)))))"
      by (intro ok_bind_any) (clarify, rule inner, simp_all)
    with Some show ?thesis by (simp add: list_func_die_def Let_def)
  qed
qed

definition dies_res :: "u64 \<Rightarrow> ripinfo \<Rightarrow> bool \<times> dwarf_die \<times> dwarf_die \<times> ripinfo \<Rightarrow> bool" where
  "dies_res addr info x = (case x of (found, die, die2, info') \<Rightarrow> if found then found_ok addr info info' else info' = info)"

lemma dies_loop_ok:
  "ok (dies_res addr info)
     (dies_loop m secs dbg cu cudie addr junk die die2 info)"
proof (rule ok_of_Some)
  let ?P = "\<lambda>m secs dbg cu cudie addr junk die die2 info (r :: fault + (bool \<times> dwarf_die \<times> dwarf_die \<times> ripinfo)). ok (dies_res addr info) (Some r)"
  fix r assume run: "dies_loop m secs dbg cu cudie addr junk die die2 info = Some r"
  show "ok (dies_res addr info) (Some r)"
  proof (rule dies_loop.raw_induct [where P = ?P, OF _ run])
    fix f m secs dbg cu cudie addr junk die die2 info r
    assume IH: "\<And>m secs dbg cu cudie addr junk die die2 info r.
        f m secs dbg cu cudie addr junk die die2 info = Some r \<Longrightarrow> ?P m secs dbg cu cudie addr junk die die2 info r"
      and eq: "cbind (list_func_die m secs dbg info die cudie addr junk) (\<lambda>(found, info).
       if found \<noteq> 0 then cret (True, die, die2, info)
       else
         cbind (dwarf_siblingof m secs dbg (Some die) die2 cu) (\<lambda>(r, die2).
           if r <s 0 then cret (False, die, die2, info)
           else f m secs dbg cu cudie addr junk (die2\<lparr>cu_header := cu\<rparr>) die2 info)) = Some r"
    have f: "ok (dies_res addr info) (f m secs dbg cu cudie addr junk die die2 info)" for die die2
      using IH by (blast intro: ok_of_Some)
    show "?P m secs dbg cu cudie addr junk die die2 info r"
      unfolding eq [symmetric]
      by (rule ok_bind [OF list_func_die_ok], clarify, rule ok_if) (auto simp: dies_res_def [of _ _ "(_, _)"] intro!: ok_bind_any f)
  qed
qed

lemma units_loop_ok:
  "ok (\<lambda>(r, dbg, info'). r = 0 \<and> found_ok addr info info' \<or> r = - 1 \<and> info' = info)
     (units_loop m secs addr junk dbg cu cudie die die2 info)"
proof (rule ok_of_Some)
  let ?Q = "\<lambda>addr info (r, dbg, info'). r = 0 \<and> found_ok addr info info' \<or> r = - 1 \<and> info' = info"
  let ?P = "\<lambda>m secs addr junk dbg cu cudie die die2 info (r :: fault + (i32 \<times> dwarf_debug \<times> ripinfo)). ok (?Q addr info) (Some r)"
  fix r assume run: "units_loop m secs addr junk dbg cu cudie die die2 info = Some r"
  show "ok (?Q addr info) (Some r)"
  proof (rule units_loop.raw_induct [where P = ?P, OF _ run])
    fix f m secs addr junk dbg cu cudie die die2 info r
    assume IH: "\<And>m secs addr junk dbg cu cudie die die2 info r.
        f m secs addr junk dbg cu cudie die die2 info = Some r \<Longrightarrow> ?P m secs addr junk dbg cu cudie die die2 info r"
      and eq: "(let (r, dbg, cu) = get_next_cu m dbg cu in
      if r \<noteq> 0 then cret (- 1, dbg, info)
      else
        cbind (dwarf_siblingof m secs dbg None cudie cu) (\<lambda>(r, cudie).
          if r = DW_DLE_NO_ENTRY then f m secs addr junk dbg cu cudie die die2 info
          else
            let cudie = cudie\<lparr>cu_header := cu\<rparr> in
            cbind (dwarf_child m secs dbg cu cudie die) (\<lambda>(r, die).
              if r = DW_DLE_NO_ENTRY then f m secs addr junk dbg cu cudie die die2 info
              else
                cbind (dies_loop m secs dbg cu cudie addr junk (die\<lparr>cu_header := cu\<rparr>) die2 info) (\<lambda>(found, die, die2, info).
                  if found then cret (0, dbg, info)
                  else f m secs addr junk dbg cu cudie die die2 info)))) = Some r"
    have f: "ok (?Q addr info) (f m secs addr junk dbg cu cudie die die2 info)" for dbg cu cudie die die2
      using IH by (blast intro: ok_of_Some)
    show "?P m secs addr junk dbg cu cudie die die2 info r"
      unfolding eq [symmetric]
      by (auto simp: Let_def split: prod.split intro!: ok_bind_any f ok_bind [OF dies_loop_ok] simp: dies_res_def)
  qed
qed

section \<open>The arguments of a function\<close>

text \<open>
  \<open>arg_sizes\<close>: the parameters that follow \<open>sib\<close> among its siblings, with the sizes found for them. \<open>fn_args\<close>: those of a function.
\<close>

inductive arg_sizes ::
    "mem \<Rightarrow> dwarf_section list \<Rightarrow> dwarf_debug \<Rightarrow> dwarf_cu \<Rightarrow> u64 \<Rightarrow> dwarf_die \<Rightarrow> dwarf_die \<Rightarrow> u64 list \<Rightarrow> bool"
  for m secs dbg cu where
  arg_end: "dwarf_siblingof m secs dbg (Some sib) ret cu = cret (r, ret') \<Longrightarrow> r \<noteq> DW_DLV_OK \<or> die_tag ret' \<noteq> DW_TAG_formal_parameter \<Longrightarrow>
    arg_sizes m secs dbg cu rv sib ret []"
| arg_next: "dwarf_siblingof m secs dbg (Some sib) ret cu = cret (DW_DLV_OK, ret') \<Longrightarrow> die_tag ret' = DW_TAG_formal_parameter \<Longrightarrow>
    next_type_size m secs dbg cu (attr_find ret' DW_AT_type) sib rv = cret v \<Longrightarrow> arg_sizes m secs dbg cu v ret' ret' vs \<Longrightarrow>
    arg_sizes m secs dbg cu rv sib ret (v # vs)"

inductive fn_args ::
    "mem \<Rightarrow> dwarf_section list \<Rightarrow> dwarf_debug \<Rightarrow> dwarf_cu \<Rightarrow> dwarf_die \<Rightarrow> dwarf_die \<Rightarrow> u64 list \<Rightarrow> bool"
  for m secs dbg cu die junk where
  no_args: "dwarf_child m secs dbg cu die junk = cret (r, ret) \<Longrightarrow> r = DW_DLE_NO_ENTRY \<or> die_tag ret \<noteq> DW_TAG_formal_parameter \<Longrightarrow>
    fn_args m secs dbg cu die junk []"
| first_arg: "dwarf_child m secs dbg cu die junk = cret (r, ret) \<Longrightarrow> r \<noteq> DW_DLE_NO_ENTRY \<Longrightarrow> die_tag ret = DW_TAG_formal_parameter \<Longrightarrow>
    type_size m secs dbg cu (attr_find ret DW_AT_type) die 8 = cret v \<Longrightarrow> arg_sizes m secs dbg cu v ret ret vs \<Longrightarrow>
    fn_args m secs dbg cu die junk (v # vs)"

definition put_args :: "u64 list \<Rightarrow> ripinfo \<Rightarrow> ripinfo" where
  "put_args vs info = (let n = rip_fn_narg info; a = size_fn_arg info in
     info\<lparr>size_fn_arg := take n a @ map ucast vs @ drop (n + length vs) a, rip_fn_narg := n + length vs\<rparr>)"

lemma put_args_Cons:
  assumes "rip_fn_narg info < length (size_fn_arg info)"
  shows "put_args vs (info\<lparr>size_fn_arg := (size_fn_arg info)[rip_fn_narg info := ucast v], rip_fn_narg := rip_fn_narg info + 1\<rparr>)
    = put_args (v # vs) info"
  using assms by (simp add: put_args_def Let_def take_Suc_conv_app_nth upd_conv_take_nth_drop add.commute)

lemma args_loop_chain:
  assumes "arg_sizes m secs dbg cu rv sib ret vs" "rip_fn_narg info \<le> length (size_fn_arg info)"
  shows "args_loop m secs dbg cu rv sib ret info =
    (if rip_fn_narg info + length vs \<le> length (size_fn_arg info) then cret (put_args vs info) else cfail Undefined)"
  using assms
proof (induction arbitrary: info rule: arg_sizes.induct)
  case (arg_end sib ret r ret' rv)
  then show ?case by (subst args_loop.simps) (auto simp: put_args_def)
next
  case (arg_next sib ret ret' rv v vs)
  show ?case
  proof (cases "rip_fn_narg info < length (size_fn_arg info)")
    case True
    with arg_next put_args_Cons [OF True, of vs v] show ?thesis by (subst args_loop.simps) (simp add: add_arg_def)
  next
    case False
    with arg_next show ?thesis by (subst args_loop.simps) (simp add: add_arg_def)
  qed
qed

lemma list_args_chain:
  assumes "fn_args m secs dbg cu die junk vs" "rip_fn_narg info = 0" "0 < length (size_fn_arg info)"
  shows "list_args m secs dbg cu die junk info =
    (if length vs \<le> length (size_fn_arg info) then cret (put_args vs info) else cfail Undefined)"
  using assms
proof cases
  case (no_args r ret)
  with assms(2,3) show ?thesis by (auto simp: list_args_def put_args_def)
next
  case (first_arg r ret v vs')
  let ?i = "info\<lparr>size_fn_arg := (size_fn_arg info)[rip_fn_narg info := ucast v], rip_fn_narg := rip_fn_narg info + 1\<rparr>"
  have "rip_fn_narg ?i \<le> length (size_fn_arg ?i)" using assms(2,3) by (simp add: Suc_le_eq)
  from args_loop_chain [OF first_arg(6) this] first_arg put_args_Cons [of info vs' v] assms(2,3)
  show ?thesis by (simp add: list_args_def add_arg_def)
qed

section \<open>The entries of a unit\<close>

text \<open>The entries at the level of \<open>die\<close>, as the walk of \<^verbatim>\<open>debuginfo_rip\<close> meets them.\<close>

inductive unit_dies ::
    "mem \<Rightarrow> dwarf_section list \<Rightarrow> dwarf_debug \<Rightarrow> dwarf_cu \<Rightarrow> dwarf_die \<Rightarrow> dwarf_die \<Rightarrow> dwarf_die list \<Rightarrow> bool"
  for m secs dbg cu where
  last_die: "dwarf_siblingof m secs dbg (Some die) die2 cu = cret (r, die2') \<Longrightarrow> r <s 0 \<Longrightarrow> unit_dies m secs dbg cu die die2 [die]"
| more_dies: "dwarf_siblingof m secs dbg (Some die) die2 cu = cret (r, die2') \<Longrightarrow> \<not> r <s 0 \<Longrightarrow>
    unit_dies m secs dbg cu (die2'\<lparr>cu_header := cu\<rparr>) die2' ds \<Longrightarrow> unit_dies m secs dbg cu die die2 (die # ds)"

definition function_at :: "u64 \<Rightarrow> dwarf_die \<Rightarrow> bool" where
  "function_at addr die \<longleftrightarrow> die_tag die = DW_TAG_subprogram \<and> pc_inside die addr \<noteq> None"

lemma list_func_die_other: "\<not> function_at addr die \<Longrightarrow> list_func_die m secs dbg info die cudie addr junk = cret (0, info)"
  by (auto simp: function_at_def list_func_die_def)

lemma list_func_die_found:
  assumes "function_at addr die"
  shows "cbind (list_func_die m secs dbg info die cudie addr junk) (\<lambda>(found, info). if found \<noteq> 0 then k info else k' info)
    = cbind (list_func_die m secs dbg info die cudie addr junk) (\<lambda>(found, info). k info)"
  using assms by (auto simp: function_at_def list_func_die_def Let_def split_beta cbind_assoc)

lemma dies_loop_chain:
  assumes "unit_dies m secs dbg cu die die2 ds"
  shows "case find (function_at addr) ds of
      None \<Rightarrow> \<exists>d d2. dies_loop m secs dbg cu cudie addr junk die die2 info = cret (False, d, d2, info)
    | Some d \<Rightarrow> \<exists>d2. dies_loop m secs dbg cu cudie addr junk die die2 info =
        cbind (list_func_die m secs dbg info d cudie addr junk) (\<lambda>(found, info'). cret (True, d, d2, info'))"
  using assms
proof (induction rule: unit_dies.induct)
  case (last_die die die2 r die2')
  have "dies_loop m secs dbg cu cudie addr junk die die2 info =
      (if function_at addr die then cbind (list_func_die m secs dbg info die cudie addr junk) (\<lambda>(found, info'). cret (True, die, die2, info'))
       else cret (False, die, die2', info))"
    using last_die by (subst dies_loop.simps) (simp add: list_func_die_found list_func_die_other)
  then show ?case by auto
next
  case (more_dies die die2 r die2' ds)
  have "dies_loop m secs dbg cu cudie addr junk die die2 info =
      (if function_at addr die then cbind (list_func_die m secs dbg info die cudie addr junk) (\<lambda>(found, info'). cret (True, die, die2, info'))
       else dies_loop m secs dbg cu cudie addr junk (die2'\<lparr>cu_header := cu\<rparr>) die2' info)"
    using more_dies by (subst dies_loop.simps) (simp add: list_func_die_found list_func_die_other)
  with more_dies show ?case by (cases "function_at addr die"; cases "find (function_at addr) ds") auto
qed

lemma list_func_die_filled:
  assumes "die_tag die = DW_TAG_subprogram" and "pc_inside die addr = Some low" and "cstr m (die_name die) nm"
    and "dwarf_srclines m secs dbg cudie line0 addr = cret (r, ln)" and "fn_args m secs dbg (cu_header die) die junk vs"
    and "length (size_fn_arg info) = 10"
  shows "list_func_die m secs dbg info die cudie addr junk =
    (if length vs \<le> 10 then
       cret (1, \<lparr>rip_file = die_name cudie, rip_line = ucast (ln_lineno ln), rip_fn_name = die_name die,
         rip_fn_namelen = of_nat (length nm), rip_fn_addr = low, rip_fn_narg = length vs,
         size_fn_arg = map ucast vs @ drop (length vs) (size_fn_arg info)\<rparr>)
     else cfail Undefined)"
proof -
  have len: "strlen m (die_name die) = Some (of_nat (length nm))"
    using strlen_loop_cstr [OF assms(3), of 0] by (simp add: strlen_def)
  have "list_args m secs dbg (cu_header die) die junk i =
      (if length vs \<le> 10 then cret (put_args vs i) else cfail Undefined)"
    if "rip_fn_narg i = 0" "size_fn_arg i = size_fn_arg info" for i
    using list_args_chain [OF assms(5), of i] that assms(6) by simp
  then show ?thesis
    using assms(1,2,4) len by (simp add: list_func_die_def Let_def clift_def put_args_def)
qed

section \<open>Properties\<close>

text \<open>
  C25. \<^verbatim>\<open>list_func_die\<close> on the entry of a function that holds the address fills in every field: the file of the unit, the name and its
  length, the start of the function, the line of the address and the sizes of the arguments in order. With more than ten
  arguments the code writes behind the array, which C leaves undefined, and so does the model.
\<close>

theorem list_func_die_fills:
  assumes "die_tag die = DW_TAG_subprogram" and "pc_inside die addr = Some low" and "cstr m (die_name die) nm"
    and "dwarf_srclines m secs dbg cudie line0 addr = cret (r, ln)" and "fn_args m secs dbg (cu_header die) die junk vs"
    and "length (size_fn_arg info) = 10"
  shows "list_func_die m secs dbg info die cudie addr junk =
    (if length vs \<le> 10 then
       cret (1, \<lparr>rip_file = die_name cudie, rip_line = ucast (ln_lineno ln), rip_fn_name = die_name die,
         rip_fn_namelen = of_nat (length nm), rip_fn_addr = low, rip_fn_narg = length vs,
         size_fn_arg = map ucast vs @ drop (length vs) (size_fn_arg info)\<rparr>)
     else cfail Undefined)"
  by (rule list_func_die_filled [OF assms])

text \<open>
  Among the entries of a unit the walk of \<^verbatim>\<open>debuginfo_rip\<close> stops at the first function whose range holds the address and reports what
  \<^verbatim>\<open>list_func_die\<close> does for it; when there is none it goes through all of them and leaves the result as it was.
\<close>

theorem unit_lookup_first:
  assumes "unit_dies m secs dbg cu die die2 ds"
  shows "case find (function_at addr) ds of
      None \<Rightarrow> \<exists>d d2. dies_loop m secs dbg cu cudie addr junk die die2 info = cret (False, d, d2, info)
    | Some d \<Rightarrow> \<exists>d2. dies_loop m secs dbg cu cudie addr junk die die2 info =
        cbind (list_func_die m secs dbg info d cudie addr junk) (\<lambda>(found, info'). cret (True, d, d2, info'))"
  by (rule dies_loop_chain [OF assms])

text \<open>
  The results of \<^verbatim>\<open>debuginfo_rip\<close>: an address below \<^verbatim>\<open>ULIM\<close> panics; otherwise, if it returns, the result is 0 or -1. With -1
  the result holds the values for an unknown address, whatever was searched; with 0 the function starts below the address. (No more than
  ten arguments are counted, as the model is undefined where the code writes an eleventh behind the array.)
\<close>

theorem debuginfo_rip_outcome:
  assumes "length (size_fn_arg info) = 10"
  shows "(addr < ULIM \<longrightarrow> debuginfo_rip m secs u cu lv addr info = cfail Panic)
     \<and> (\<forall>r dbg info'. debuginfo_rip m secs u cu lv addr info = cret (r, dbg, info') \<longrightarrow>
          r = - 1 \<and> info' = rip_unknown u addr info
        \<or> r = 0 \<and> rip_fn_addr info' < addr \<and> rip_fn_narg info' \<le> 10 \<and> length (size_fn_arg info') = 10)"
proof -
  let ?Q = "\<lambda>(r, dbg, info'). r = - 1 \<and> info' = rip_unknown u addr info
        \<or> r = 0 \<and> rip_fn_addr info' < addr \<and> rip_fn_narg info' \<le> 10 \<and> length (size_fn_arg info') = 10"
  have u: "ok ?Q (units_loop m secs addr (lv_ret lv) dbg cu (lv_cudie lv) (lv_die lv) (lv_die2 lv) (rip_unknown u addr info))" for dbg
    by (rule ok_mono [OF units_loop_ok]) (use assms in \<open>auto simp: found_ok_def rip_unknown_def\<close>)
  have "ok ?Q (debuginfo_rip m secs u cu lv addr info)"
    unfolding debuginfo_rip_def Let_def cassert_def
    by (intro ok_if) (auto intro!: ok_bind_any u)
  then show ?thesis by (auto simp: ok_def debuginfo_rip_def)
qed

section \<open>An example\<close>

text \<open>A unit with a base type of four bytes and a function with two arguments of that type.\<close>

definition kd_abbrevs :: "u8 list" where
  "kd_abbrevs = [1, 0x11, 1, 3, 8, 0, 0, 2, 0x24, 0, 0x0b, 0x0b, 0, 0, 3, 0x2e, 1, 3, 8, 0x11, 1, 0x12, 1, 0, 0, 4, 5, 0, 0x49, 0x13, 0, 0, 0]"

definition kd_info :: "u8 list" where
  "kd_info = [43, 0, 0, 0, 2, 0, 0, 0, 0, 0, 8, 1, 0x6b, 0, 2, 4, 3, 0x66, 0, 0, 0, 0x20, 4, 0x80, 0, 0, 0, 0x40, 0, 0x20, 4, 0x80, 0, 0, 0,
     4, 14, 0, 0, 0, 4, 14, 0, 0, 0, 0, 0]"

definition kd_mem :: mem where
  "kd_mem a = (if a < 0x2000 then list_mem 0x1000 kd_info a else if a < 0x3000 then list_mem 0x2000 kd_abbrevs a
     else list_mem (KERNBASE + 0x10004) [2, 1] a)"

definition kd_sections :: "dwarf_section list" where
  "kd_sections =
     [\<lparr>ds_name = ascii ''.debug_info'', ds_data = 0x1000, ds_addr = 0x1000, ds_size = 47\<rparr>,
      \<lparr>ds_name = ascii ''.debug_abbrev'', ds_data = 0x2000, ds_addr = 0x2000, ds_size = 33\<rparr>]"

definition rip0 :: ripinfo where
  "rip0 = \<lparr>rip_file = 0, rip_line = 0, rip_fn_name = 0, rip_fn_namelen = 0, rip_fn_addr = 0, rip_fn_narg = 0, size_fn_arg = replicate 10 0\<rparr>"

definition demo_locals :: rip_locals where
  "demo_locals = \<lparr>lv_cudie = die0, lv_die = die0, lv_die2 = die0, lv_ret = die0\<rparr>"

lemma demo_lookup:
  "map_option (map_sum id (\<lambda>(r, dbg, info). (r, info))) (debuginfo_rip kd_mem kd_sections 0x500 demo_cu demo_locals 0x8004200010 rip0)
   = cret (0, \<lparr>rip_file = 0x100c, rip_line = 0, rip_fn_name = 0x1011, rip_fn_namelen = 1, rip_fn_addr = 0x8004200000, rip_fn_narg = 2,
       size_fn_arg = [4, 4, 0, 0, 0, 0, 0, 0, 0, 0]\<rparr>)"
  by code_simp

section \<open>The properties on the example\<close>

definition kd_cu :: dwarf_cu where
  "kd_cu = demo_cu\<lparr>cu_length := 43, cu_next_offset := 47\<rparr>"

definition kd_dbg :: dwarf_debug where
  "kd_dbg = demo_dbg\<lparr>curr_off_dbginfo := 47, dbg_info_size := 47\<rparr>"

definition kd_attr :: "u64 \<Rightarrow> u64 \<Rightarrow> u64 \<Rightarrow> dwarf_attribute" where
  "kd_attr a f v = \<lparr>at_attrib = a, at_form = f, at_indirect = 0, at_u0 = v, at_u1 = 0, bl_len = 0, bl_data = 0\<rparr>"

definition kd_type :: dwarf_die where
  "kd_type = \<lparr>die_offset = 14, die_next_off = 16, die_abnum = 2, die_tag = 0x24,
     die_ab = \<lparr>ab_entry = 2, ab_tag = 0x24, ab_children = 0, ab_offset = 7, ab_length = 7, ab_atnum = 1,
       ab_attrdef = [\<lparr>ad_attrib = 11, ad_form = 11, ad_offset = 10\<rparr>]\<rparr>,
     die_name = 0, die_attr_count = 1, cu_header = kd_cu, die_attr = [kd_attr 11 11 4]\<rparr>"

definition kd_func :: dwarf_die where
  "kd_func = \<lparr>die_offset = 16, die_next_off = 35, die_abnum = 3, die_tag = 0x2e,
     die_ab = \<lparr>ab_entry = 3, ab_tag = 0x2e, ab_children = 1, ab_offset = 14, ab_length = 11, ab_atnum = 3,
       ab_attrdef = [\<lparr>ad_attrib = 3, ad_form = 8, ad_offset = 17\<rparr>, \<lparr>ad_attrib = 17, ad_form = 1, ad_offset = 19\<rparr>,
         \<lparr>ad_attrib = 18, ad_form = 1, ad_offset = 21\<rparr>]\<rparr>,
     die_name = 0x1011, die_attr_count = 3, cu_header = kd_cu,
     die_attr = [kd_attr 3 8 0x1011, kd_attr 17 1 0x8004200000, kd_attr 18 1 0x8004200040]\<rparr>"

definition kd_arg :: "u64 \<Rightarrow> dwarf_die" where
  "kd_arg off = \<lparr>die_offset = off, die_next_off = off + 5, die_abnum = 4, die_tag = 5,
     die_ab = \<lparr>ab_entry = 4, ab_tag = 5, ab_children = 0, ab_offset = 25, ab_length = 7, ab_atnum = 1,
       ab_attrdef = [\<lparr>ad_attrib = 73, ad_form = 19, ad_offset = 28\<rparr>]\<rparr>,
     die_name = 0, die_attr_count = 1, cu_header = demo_cu, die_attr = [kd_attr 73 19 14]\<rparr>"



lemma kd_child: "dwarf_child kd_mem kd_sections kd_dbg kd_cu kd_func die0 = cret (0, kd_arg 35)"
  and kd_sib1: "dwarf_siblingof kd_mem kd_sections kd_dbg (Some (kd_arg 35)) (kd_arg 35) kd_cu = cret (0, kd_arg 40)"
  and kd_size1: "type_size kd_mem kd_sections kd_dbg kd_cu (attr_find (kd_arg 35) DW_AT_type) kd_func 8 = cret 4"
  and kd_size2: "next_type_size kd_mem kd_sections kd_dbg kd_cu (attr_find (kd_arg 40) DW_AT_type) (kd_arg 35) 4 = cret 4"
  by code_simp+

lemma kd_sib2: "map_option (map_sum id fst) (dwarf_siblingof kd_mem kd_sections kd_dbg (Some (kd_arg 40)) (kd_arg 40) kd_cu) = cret (- 1)"
  by code_simp

lemma kd_lines: "map_option (map_sum id (ln_lineno \<circ> snd)) (dwarf_srclines kd_mem kd_sections kd_dbg die0 line0 0x8004200010) = cret 0"
  by code_simp

lemma kd_name: "cstr kd_mem 0x1011 [0x66]"
  by code_simp

lemma kd_next: "dwarf_siblingof kd_mem kd_sections kd_dbg (Some kd_type) die0 kd_cu = cret (0, kd_func\<lparr>cu_header := demo_cu\<rparr>)"
  by code_simp

lemma kd_last:
  "map_option (map_sum id fst) (dwarf_siblingof kd_mem kd_sections kd_dbg (Some kd_func) (kd_func\<lparr>cu_header := demo_cu\<rparr>) kd_cu) = cret (- 1)"
  by code_simp

lemma map_cret: "map_option (map_sum id f) r = cret x \<longleftrightarrow> (\<exists>y. r = cret y \<and> x = f y)"
proof (cases r)
  case (Some v)
  then show ?thesis by (cases v) (auto simp: cret_def)
qed simp

lemma kd_fn_args: "fn_args kd_mem kd_sections kd_dbg kd_cu kd_func die0 [4, 4]"
proof -
  from kd_sib2 obtain d where d: "dwarf_siblingof kd_mem kd_sections kd_dbg (Some (kd_arg 40)) (kd_arg 40) kd_cu = cret (- 1, d)"
    by (auto simp: map_cret)
  have tag: "die_tag (kd_arg x) = DW_TAG_formal_parameter" for x by (simp add: kd_arg_def DW_TAG_formal_parameter_def)
  have "arg_sizes kd_mem kd_sections kd_dbg kd_cu 4 (kd_arg 40) (kd_arg 40) []"
    by (rule arg_end [OF d]) (simp add: DW_DLV_OK_def)
  then have "arg_sizes kd_mem kd_sections kd_dbg kd_cu 4 (kd_arg 35) (kd_arg 35) [4]"
    by (intro arg_next) (simp_all add: kd_sib1 kd_size2 DW_DLV_OK_def tag)
  moreover have "(0 :: i32) \<noteq> DW_DLE_NO_ENTRY" by code_simp
  ultimately show ?thesis by (intro first_arg [OF kd_child _ tag kd_size1])
qed

theorem list_func_die_fills_witness:
  "\<exists>l. list_func_die kd_mem kd_sections kd_dbg rip0 kd_func die0 0x8004200010 die0 =
     cret (1, \<lparr>rip_file = 0, rip_line = l, rip_fn_name = 0x1011, rip_fn_namelen = 1, rip_fn_addr = 0x8004200000, rip_fn_narg = 2,
       size_fn_arg = [4, 4, 0, 0, 0, 0, 0, 0, 0, 0]\<rparr>)"
proof -
  from kd_lines obtain r ln where l: "dwarf_srclines kd_mem kd_sections kd_dbg die0 line0 0x8004200010 = cret (r, ln)"
    by (auto simp: map_cret)
  have h: "cu_header kd_func = kd_cu" and n: "die_name kd_func = 0x1011" and t: "die_tag kd_func = DW_TAG_subprogram"
    by (simp_all add: kd_func_def DW_TAG_subprogram_def)
  have p: "pc_inside kd_func 0x8004200010 = Some 0x8004200000" by code_simp
  have "cstr kd_mem (die_name kd_func) [0x66]" and "fn_args kd_mem kd_sections kd_dbg (cu_header kd_func) kd_func die0 [4, 4]"
    by (simp_all only: n kd_name h kd_fn_args)
  note out = list_func_die_fills [OF t p this(1) l this(2), of rip0]
  have "replicate 8 0 = [0, 0, 0, 0, 0, 0, 0, 0 :: i32]" by (simp add: numeral_eq_Suc)
  then have "drop (Suc (Suc 0)) (size_fn_arg rip0) = [0, 0, 0, 0, 0, 0, 0, 0]" by (simp add: rip0_def)
  moreover have "length (size_fn_arg rip0) = 10" "die_name die0 = 0" by (simp_all add: rip0_def die0_def)
  ultimately show ?thesis using out by (simp add: n)
qed

theorem unit_lookup_first_witness:
  "\<exists>d2. dies_loop kd_mem kd_sections kd_dbg kd_cu die0 0x8004200010 die0 kd_type die0 rip0 =
     cbind (list_func_die kd_mem kd_sections kd_dbg rip0 kd_func die0 0x8004200010 die0) (\<lambda>(found, info). cret (True, kd_func, d2, info))"
proof -
  from kd_last obtain d where
    d: "dwarf_siblingof kd_mem kd_sections kd_dbg (Some kd_func) (kd_func\<lparr>cu_header := demo_cu\<rparr>) kd_cu = cret (- 1, d)"
    by (auto simp: map_cret)
  have "unit_dies kd_mem kd_sections kd_dbg kd_cu kd_func (kd_func\<lparr>cu_header := demo_cu\<rparr>) [kd_func]"
    by (rule last_die [OF d]) (simp add: word_sless_alt)
  moreover have "kd_func\<lparr>cu_header := kd_cu\<rparr> = kd_func" by (simp add: kd_func_def)
  ultimately have "unit_dies kd_mem kd_sections kd_dbg kd_cu kd_type die0 [kd_type, kd_func]"
    by (intro more_dies [OF kd_next]) (simp_all add: word_sless_alt)
  moreover have "find (function_at 0x8004200010) [kd_type, kd_func] = Some kd_func" by code_simp
  ultimately show ?thesis
using unit_lookup_first [where addr = "0x8004200010" and cudie = die0 and junk = die0 and info = rip0, of kd_mem kd_sections kd_dbg kd_cu kd_type die0 "[kd_type, kd_func]"] by simp
qed

theorem debuginfo_rip_outcome_witness:
  "debuginfo_rip kd_mem kd_sections 0x500 demo_cu demo_locals 0x7000000000 rip0 = cfail Panic
   \<and> (\<exists>dbg info. debuginfo_rip kd_mem kd_sections 0x500 demo_cu demo_locals 0x8004200010 rip0 = cret (0, dbg, info)
       \<and> rip_fn_addr info < 0x8004200010 \<and> rip_fn_narg info \<le> 10)"
proof -
  have l: "length (size_fn_arg rip0) = 10" by (simp add: rip0_def)
  note out = debuginfo_rip_outcome [OF l, of _ kd_mem kd_sections "0x500" demo_cu demo_locals]
  from demo_lookup obtain dbg info where
    i: "debuginfo_rip kd_mem kd_sections 0x500 demo_cu demo_locals 0x8004200010 rip0 = cret (0, dbg, info)"
    by (auto simp: map_cret)
  with out [of "0x8004200010"] have "rip_fn_addr info < 0x8004200010 \<and> rip_fn_narg info \<le> 10" by auto
  with i out [of "0x7000000000"] show ?thesis by (simp add: ULIM_def)
qed

end
