(* ===== verification/Dwarf_Tree.thy ===== *)
theory Dwarf_Tree
  imports Dwarf_Line
begin

text \<open>
  The encoding of \<^verbatim>\<open>.debug_info\<close>, from attribute values to entries and trees of entries, and that the library reads them back:
  each value, each entry with its attributes and name, and the list of entries below another. The format is the 32-bit one,
  little endian, with addresses of 8 bytes, as the compiler emits it for the kernel.
\<close>

section \<open>Attribute values\<close>

datatype dval = Num nat | SNum int | Text "u8 list" | Block "u8 list" | Present

text \<open>The size of a number of a form, for the forms of a fixed size.\<close>

definition fixed_size :: "nat \<Rightarrow> nat \<Rightarrow> nat option" where
  "fixed_size ver f =
     (if f \<in> {0x0b, 0x0c, 0x11} then Some 1
      else if f \<in> {0x05, 0x12} then Some 2
      else if f \<in> {0x06, 0x13, 0x17, 0x0e} then Some 4
      else if f \<in> {0x01, 0x07, 0x14} then Some 8
      else if f = 0x10 \<and> ver = 2 then Some 8
      else if f = 0x10 \<and> ver = 3 then Some 4
      else None)"

definition block_prefix :: "nat \<Rightarrow> nat \<Rightarrow> u8 list option" where
  "block_prefix f n =
     (if f \<in> {0x09, 0x18} \<and> n < 2 ^ 31 then Some (uleb_encode n)
      else if f = 0x0a \<and> n < 2 ^ 8 then Some (le_bytes 1 (of_nat n))
      else if f = 0x03 \<and> n < 2 ^ 16 then Some (le_bytes 2 (of_nat n))
      else if f = 0x04 \<and> n < 2 ^ 32 then Some (le_bytes 4 (of_nat n))
      else if f = 0x20 \<and> n = 8 then Some []
      else None)"

lemma block_prefix_cases:
  assumes "block_prefix f n = Some p"
  obtains "f = 0x09" "n < 2 ^ 31" "p = uleb_encode n" | "f = 0x18" "n < 2 ^ 31" "p = uleb_encode n"
    | "f = 0x0a" "n < 2 ^ 8" "p = le_bytes 1 (of_nat n)" | "f = 0x03" "n < 2 ^ 16" "p = le_bytes 2 (of_nat n)"
    | "f = 0x04" "n < 2 ^ 32" "p = le_bytes 4 (of_nat n)" | "f = 0x20" "n = 8" "p = []"
  using assms unfolding block_prefix_def by (simp split: if_splits) blast

fun enc :: "nat \<Rightarrow> nat \<Rightarrow> dval \<Rightarrow> u8 list option" where
  "enc ver f (Num n) =
     (case fixed_size ver f of
        Some k \<Rightarrow> if n < 256 ^ k then Some (le_bytes k (of_nat n)) else None
      | None \<Rightarrow> if f \<in> {0x0f, 0x15} \<and> n < 2 ^ 31 then Some (uleb_encode n) else None)"
| "enc ver f (SNum i) = (if f = 0x0d \<and> - (2 ^ 31) \<le> i \<and> i < 2 ^ 31 then Some (sleb_encode i) else None)"
| "enc ver f (Text xs) = (if f = 0x08 \<and> 0 \<notin> set xs then Some (xs @ [0]) else None)"
| "enc ver f (Block xs) = map_option (\<lambda>p. p @ xs) (block_prefix f (length xs))"
| "enc ver f Present = (if f = 0x19 then Some [] else None)"

text \<open>The two words the library keeps of a value whose bytes lie at \<open>p\<close>; \<open>str\<close> is the address of \<^verbatim>\<open>.debug_str\<close>.\<close>

fun val_words :: "u64 \<Rightarrow> u64 \<Rightarrow> nat \<Rightarrow> dval \<Rightarrow> u64 \<times> u64" where
  "val_words str p f (Num n) = (of_nat n, if f = 0x0e then str + of_nat n else 0)"
| "val_words str p f (SNum i) = (of_int i, 0)"
| "val_words str p f (Text xs) = (p, 0)"
| "val_words str p f (Block xs) = (of_nat (length xs), p + of_nat (length (the (block_prefix f (length xs)))))"
| "val_words str p f Present = (1, 0)"

text \<open>The sections and the unit an encoding lies in.\<close>

definition file_at :: "mem \<Rightarrow> dwarf_section list \<Rightarrow> dwarf_debug \<Rightarrow> u64 \<Rightarrow> u64 \<Rightarrow> u64 \<Rightarrow> bool" where
  "file_at m secs dbg info sz str \<longleftrightarrow> dbg_read dbg = dwarf_read_lsb \<and> dbg_decode dbg = dwarf_decode_lsb
     \<and> dbg_info_offset_elf dbg = info \<and> dbg_info_size dbg = sz
     \<and> (\<exists>ds. dwarf_find_section secs ''.debug_info'' = Some ds \<and> ds_data ds = info \<and> ds_size ds = sz)
     \<and> (\<exists>ds. dwarf_find_section secs ''.debug_str'' = Some ds \<and> ds_data ds = str)"

definition cu_is :: "dwarf_cu \<Rightarrow> nat \<Rightarrow> bool" where
  "cu_is cu ver \<longleftrightarrow> cu_version cu = of_nat ver \<and> 2 \<le> ver \<and> ver \<le> 4 \<and> addr_size cu = 8 \<and> cu_dwarf_size cu = 4"

lemma read_num:
  assumes "holds m (data + off) (le_bytes (unat n) (of_nat v))" "n \<in> read_sizes" "v < 256 ^ unat n"
  shows "dwarf_read_lsb m data off n = (of_nat v, off + scast n)"
proof -
  have "(256 :: nat) ^ unat n \<le> 256 ^ 8" using assms(2) by (intro power_increasing) (auto simp: read_sizes_def)
  then have "v < 2 ^ 64" using assms(3) by simp
  then have "unat (of_nat v :: u64) = v" by (simp add: unat_of_nat)
  with assms show ?thesis by (intro read_le_bytes) simp_all
qed

lemma read_sleb_encoded:
  assumes "holds m (data + off) (sleb_encode i)" "- (2 ^ 31) \<le> i" "i < 2 ^ 31"
  shows "dwarf_read_sleb128 m data off = Some (of_int i, off + of_nat (length (sleb_encode i)))"
proof -
  have "map_option (\<lambda>(ret, src, shift, b). (sleb_sign ret shift b, src)) (decode_leb_loop m (data + off) 0 0)
      = Some (of_int i, data + off + of_nat (length (sleb_encode i)))"
    using decode_sleb_loop [of m "data + off" i 0 0] assms by (simp add: holds_def)
  then show ?thesis by (auto simp: dwarf_read_sleb128_def read_leb_decode)
qed

lemma read_string_encoded:
  assumes "holds m (data + off) (xs @ [0])" "0 \<notin> set xs" "unat off + length (xs @ [0]) \<le> unat sz"
  shows "dwarf_read_string m data sz off = (data + off, off + of_nat (length (xs @ [0])))"
proof -
  have c: "cstr m (data + off) xs" using assms(1,2) cstr_holds by blast
  have "off + of_nat (length xs) < sz"
    using assms(3) unat_lt64 [of sz] unat_add_less [of off "length xs"] by (simp add: word_less_nat_alt)
  with c read_string_loop_cstr [of m "data + off" xs off sz] cstr_end [OF c] assms(3) show ?thesis
    by (simp add: dwarf_read_string_def add.commute add.left_commute)
qed

lemma forms_of_nat: "f < 64 \<Longrightarrow> g < 64 \<Longrightarrow> (of_nat f :: u64) = of_nat g \<longleftrightarrow> f = g"
  by (simp add: word_of_nat_eq_iff take_bit_nat_eq_self)

lemma read_form_num:
  assumes f: "fixed_size ver f = Some k" and v: "v < 256 ^ k" and h: "holds m (ds_data ds + off) (le_bytes k (of_nat v))"
    and cu: "cu_is cu ver" and rd: "dbg_read dbg = dwarf_read_lsb"
    and str: "dwarf_find_section secs ''.debug_str'' = Some s"
  shows "read_form m secs dbg cu ds (of_nat f) off = cret (DW_DLE_NONE, off + of_nat k, val_words (ds_data s) (ds_data ds + off) f (Num v))"
proof -
  have r: "dwarf_read_lsb m (ds_data ds) off n = (of_nat v, off + of_nat k)" if "n \<in> read_sizes" "unat n = k" for n
  proof -
    have "scast n = (of_nat k :: u64)" using that by (auto simp: read_sizes_def)
    then show ?thesis using read_num [of m "ds_data ds" off n v] that h v by simp
  qed
  have "cu_version cu = 2 \<longleftrightarrow> ver = 2" "cu_version cu = 3 \<longleftrightarrow> ver = 3"
  proof -
    have "ver = 2 \<or> ver = 3 \<or> ver = 4" using cu by (auto simp: cu_is_def)
    with cu show "cu_version cu = 2 \<longleftrightarrow> ver = 2" "cu_version cu = 3 \<longleftrightarrow> ver = 3" by (auto simp: cu_is_def)
  qed
  note ver = this
  have cu': "addr_size cu = 8" "cu_dwarf_size cu = 4" using cu by (simp_all add: cu_is_def)
  have rs: "k = 1 \<Longrightarrow> dwarf_read_lsb m (ds_data ds) off 1 = (of_nat v, off + of_nat k)"
    "k = 2 \<Longrightarrow> dwarf_read_lsb m (ds_data ds) off 2 = (of_nat v, off + of_nat k)"
    "k = 4 \<Longrightarrow> dwarf_read_lsb m (ds_data ds) off 4 = (of_nat v, off + of_nat k)"
    "k = 8 \<Longrightarrow> dwarf_read_lsb m (ds_data ds) off 8 = (of_nat v, off + of_nat k)"
    by (intro r; simp add: read_sizes_def)+
  consider "f = 0x0b" "k = 1" | "f = 0x0c" "k = 1" | "f = 0x11" "k = 1" | "f = 0x05" "k = 2" | "f = 0x12" "k = 2"
    | "f = 0x06" "k = 4" | "f = 0x13" "k = 4" | "f = 0x17" "k = 4" | "f = 0x0e" "k = 4" | "f = 0x01" "k = 8" | "f = 0x07" "k = 8"
    | "f = 0x14" "k = 8" | "f = 0x10" "ver = 2" "k = 8" | "f = 0x10" "ver = 3" "k = 4"
    using f by (auto simp: fixed_size_def split: if_splits)
  then show ?thesis
    by cases (simp_all add: read_form_def Let_def rd cu' ver rs str)
qed

lemma read_form_enc:
  assumes e: "enc ver f v = Some raw" and h: "holds m (ds_data ds + off) raw" and cu: "cu_is cu ver"
    and rd: "dbg_read dbg = dwarf_read_lsb" and str: "dwarf_find_section secs ''.debug_str'' = Some s"
    and sz: "unat off + length raw \<le> unat (ds_size ds)"
  shows "read_form m secs dbg cu ds (of_nat f) off =
    (let (u0, u1) = val_words (ds_data s) (ds_data ds + off) f v in cret (DW_DLE_NONE, off + of_nat (length raw), u0, u1))"
proof (cases v)
  case (Num n)
  show ?thesis
  proof (cases "fixed_size ver f")
    case None
    with e Num have f: "f = 0x0f \<or> f = 0x15" "n < 2 ^ 31" "raw = uleb_encode n" by (auto split: if_splits)
    have r: "dwarf_read_uleb128 m (ds_data ds) off = Some (of_nat n, off + of_nat (length raw))"
      using read_uleb_encoded [of m "ds_data ds" off n] h f(2,3) by simp
    from f(1) show ?thesis by (elim disjE) (simp_all add: read_form_def Let_def Num r)
  next
    case (Some k)
    with e Num have "n < 256 ^ k" "raw = le_bytes k (of_nat n)" by (auto split: if_splits)
    then show ?thesis using read_form_num [OF Some _ _ cu rd str, of n m ds off] h Num by simp
  qed
next
  case (SNum i)
  with e have "f = 0x0d" "raw = sleb_encode i" "- (2 ^ 31) \<le> i" "i < 2 ^ 31" by (auto split: if_splits)
  then show ?thesis using read_sleb_encoded [of m "ds_data ds" off i] h SNum by (simp add: read_form_def Let_def)
next
  case (Text xs)
  with e have "f = 0x08" "raw = xs @ [0]" "0 \<notin> set xs" by (auto split: if_splits)
  then show ?thesis using read_string_encoded [of m "ds_data ds" off xs "ds_size ds"] h sz Text by (simp add: read_form_def Let_def)
next
  case (Block xs)
  with e obtain p where p: "block_prefix f (length xs) = Some p" "raw = p @ xs" by auto
  have n: "dwarf_read_lsb m (ds_data ds) off (of_nat k) = (of_nat (length xs), off + of_nat k)"
    if "p = le_bytes k (of_nat (length xs))" "k \<in> {1, 2, 4}" "length xs < 256 ^ k" for k
  proof -
    have "unat (of_nat k :: i32) = k" "(of_nat k :: i32) \<in> read_sizes" "scast (of_nat k :: i32) = (of_nat k :: u64)"
      using that(2) by (auto simp: read_sizes_def)
    then show ?thesis using read_num [of m "ds_data ds" off "of_nat k" "length xs"] that h p(2) by simp
  qed
  have u: "dwarf_read_uleb128 m (ds_data ds) off = Some (of_nat (length xs), off + of_nat (length p))"
    if "p = uleb_encode (length xs)" "length xs < 2 ^ 31"
    using read_uleb_encoded [of m "ds_data ds" off "length xs"] that h p(2) by simp
  have n1: "dwarf_read_lsb m (ds_data ds) off 1 = (of_nat (length xs), off + 1)" if "p = le_bytes 1 (of_nat (length xs))" "length xs < 2 ^ 8"
    using n [of 1] that by simp
  have n2: "dwarf_read_lsb m (ds_data ds) off 2 = (of_nat (length xs), off + 2)" if "p = le_bytes 2 (of_nat (length xs))" "length xs < 2 ^ 16"
    using n [of 2] that by simp
  have n4: "dwarf_read_lsb m (ds_data ds) off 4 = (of_nat (length xs), off + 4)" if "p = le_bytes 4 (of_nat (length xs))" "length xs < 2 ^ 32"
    using n [of 4] that by simp
  from p(1) show ?thesis
    by (rule block_prefix_cases) (simp_all add: read_form_def Let_def rd n1 n2 n4 u Block p(2) dwarf_read_block_def block_prefix_def add.assoc)
next
  case Present
  with e have "f = 0x19" "raw = []" by (auto split: if_splits)
  then show ?thesis using Present by (simp add: read_form_def Let_def)
qed

section \<open>Entries\<close>

text \<open>The attributes of an entry as the library records them, and the name after them.\<close>

definition mk_attr :: "nat \<Rightarrow> nat \<Rightarrow> u64 \<times> u64 \<Rightarrow> dwarf_attribute" where
  "mk_attr a f w = \<lparr>at_attrib = of_nat a, at_form = of_nat f, at_indirect = 0, at_u0 = fst w, at_u1 = snd w,
     bl_len = (if f \<in> {0x09, 0x0a, 0x03, 0x04} then fst w else 0), bl_data = (if f \<in> {0x09, 0x0a, 0x03, 0x04} then snd w else 0)\<rparr>"

fun enc_vals :: "nat \<Rightarrow> (nat \<times> nat) list \<Rightarrow> dval list \<Rightarrow> u8 list option" where
  "enc_vals ver [] [] = Some []"
| "enc_vals ver ((a, f) # ads) (v # vs) =
     (case (enc ver f v, enc_vals ver ads vs) of (Some x, Some xs) \<Rightarrow> Some (x @ xs) | _ \<Rightarrow> None)"
| "enc_vals ver _ _ = None"

fun attrs_of :: "u64 \<Rightarrow> nat \<Rightarrow> u64 \<Rightarrow> (nat \<times> nat) list \<Rightarrow> dval list \<Rightarrow> dwarf_attribute list" where
  "attrs_of str ver p ((a, f) # ads) (v # vs) =
     mk_attr a f (val_words str p f v) # attrs_of str ver (p + of_nat (length (the (enc ver f v)))) ads vs"
| "attrs_of str ver p _ _ = []"

fun name_after :: "u64 \<Rightarrow> dwarf_attribute list \<Rightarrow> u64" where
  "name_after nm [] = nm"
| "name_after nm (at # ats) = name_after
     (if at_attrib at = 0x03 \<and> at_form at = 0x0e then at_u1 at
      else if at_attrib at = 0x03 \<and> at_form at = 0x08 then at_u0 at else nm) ats"

definition seen_attrs :: "dwarf_die \<Rightarrow> dwarf_attribute list" where
  "seen_attrs die = take (unat (die_attr_count die)) (die_attr die)"

lemma enc_form: "enc ver f v = Some raw \<Longrightarrow> f < 64 \<and> f \<noteq> 0x16"
  by (cases v) (auto simp: fixed_size_def block_prefix_def split: if_splits option.splits)

lemma attr_init_enc:
  assumes e: "enc ver f v = Some raw" and h: "holds m (info + off) raw" and cu: "cu_is cu ver" and fl: "file_at m secs dbg info sz str"
    and room: "unat off + length raw \<le> unat sz" "attrs_filled die" "unat (die_attr_count die) < NATTRVAL"
    and at: "at = mk_attr a f (val_words str (info + off) f v)"
  shows "\<exists>die'. attr_init m secs dbg off cu die \<lparr>ad_attrib = of_nat a, ad_form = of_nat f, ad_offset = ao\<rparr> (of_nat f) 0
      = cret (DW_DLE_NONE, off + of_nat (length raw), die') \<and> die_frame die die' \<and> attrs_filled die'
    \<and> seen_attrs die' = seen_attrs die @ [at] \<and> die_name die' = name_after (die_name die) [at]
    \<and> unat (die_attr_count die') = unat (die_attr_count die) + 1"
proof -
  from fl obtain ds s where ds: "dwarf_find_section secs ''.debug_info'' = Some ds" "ds_data ds = info" "ds_size ds = sz"
    and s: "dwarf_find_section secs ''.debug_str'' = Some s" "ds_data s = str" and rd: "dbg_read dbg = dwarf_read_lsb"
    by (auto simp: file_at_def)
  obtain u0 u1 where w: "val_words str (info + off) f v = (u0, u1)" by force
  have r: "read_form m secs dbg cu ds (of_nat f) off = cret (DW_DLE_NONE, off + of_nat (length raw), u0, u1)"
    using read_form_enc [OF e _ cu rd s(1), of m ds off] h room(1) ds s(2) w by simp
  have f: "f < 64" "f \<noteq> 0x16" using enc_form [OF e] by simp_all
  have fe: "(of_nat f :: u64) = numeral k \<longleftrightarrow> f = numeral k" if "(numeral k :: nat) < 64" for k
    using forms_of_nat [OF f(1) that] by simp
  define d1 where "d1 = (if (of_nat a :: u64) = 0x03 \<and> f = 0x0e then die\<lparr>die_name := u1\<rparr>
    else if (of_nat a :: u64) = 0x03 \<and> f = 0x08 then die\<lparr>die_name := u0\<rparr> else die)"
  have c: "die_attr_count d1 = die_attr_count die" "die_attr d1 = die_attr die" by (simp_all add: d1_def)
  define die' where "die' = d1\<lparr>die_attr := take (unat (die_attr_count die)) (die_attr die) @ [at], die_attr_count := die_attr_count die + 1\<rparr>"
  have n: "unat (die_attr_count die + 1) = unat (die_attr_count die) + 1"
    using room(3) by (simp add: NATTRVAL_def unat_word_ariths)
  have "attr_init m secs dbg off cu die \<lparr>ad_attrib = of_nat a, ad_form = of_nat f, ad_offset = ao\<rparr> (of_nat f) 0
      = cret (DW_DLE_NONE, off + of_nat (length raw), die')"
    using room(3) c f
    by (subst attr_init.simps)
      (simp add: find_section_def ds(1) r fe add_attr_def die'_def d1_def [symmetric] at mk_attr_def w cong: if_cong)
  moreover have "die_frame die die'" by (simp add: die'_def d1_def die_frame_def)
  moreover have "seen_attrs die' = seen_attrs die @ [at]" "attrs_filled die'"
    using room(2,3) n by (auto simp: seen_attrs_def die'_def attrs_filled_def min_def)
  moreover have "die_name die' = name_after (die_name die) [at]"
    by (simp add: die'_def d1_def at mk_attr_def w fe)
  ultimately show ?thesis using n by (auto simp: die'_def)
qed

lemma die_frame_trans: "die_frame a b \<Longrightarrow> die_frame b c \<Longrightarrow> die_frame a c"
  by (simp add: die_frame_def)

lemma name_after_append: "name_after nm (xs @ ys) = name_after (name_after nm xs) ys"
  by (induction xs arbitrary: nm) simp_all

lemma attr_inits_enc:
  assumes cu: "cu_is cu ver" and fl: "file_at m secs dbg info sz str"
  shows "enc_vals ver ads vs = Some raw \<Longrightarrow> holds m (info + off) raw \<Longrightarrow> unat off + length raw \<le> unat sz \<Longrightarrow> attrs_filled die \<Longrightarrow>
    unat (die_attr_count die) + length ads \<le> NATTRVAL \<Longrightarrow>
    \<exists>die'. attr_inits m secs dbg cu (attrdefs_of ao ads) off die = cret (DW_DLE_NONE, off + of_nat (length raw), die')
      \<and> die_frame die die' \<and> attrs_filled die' \<and> seen_attrs die' = seen_attrs die @ attrs_of str ver (info + off) ads vs
      \<and> die_name die' = name_after (die_name die) (attrs_of str ver (info + off) ads vs)"
proof (induction ads arbitrary: vs raw off die ao)
  case Nil
  then show ?case by (cases vs) (auto simp: die_frame_def)
next
  case (Cons af ads)
  obtain a f where af: "af = (a, f)" by force
  from Cons.prems(1) af obtain v vs' where vs: "vs = v # vs'" by (cases vs) auto
  from Cons.prems(1) obtain x xs where e: "enc ver f v = Some x" "enc_vals ver ads vs' = Some xs" and raw: "raw = x @ xs"
    by (auto simp: af vs split: option.splits)
  let ?o = "off + of_nat (length x)"
  have h: "holds m (info + off) x" "holds m (info + ?o) xs" using Cons.prems(2) by (simp_all add: raw add.assoc)
  have o: "unat ?o = unat off + length x"
    using Cons.prems(3) unat_lt64 [of sz] by (intro unat_add_less) (simp add: raw)
  have "\<exists>d1. attr_init m secs dbg off cu die \<lparr>ad_attrib = of_nat a, ad_form = of_nat f, ad_offset = ao\<rparr> (of_nat f) 0
      = cret (DW_DLE_NONE, ?o, d1) \<and> die_frame die d1 \<and> attrs_filled d1
    \<and> seen_attrs d1 = seen_attrs die @ [mk_attr a f (val_words str (info + off) f v)]
    \<and> die_name d1 = name_after (die_name die) [mk_attr a f (val_words str (info + off) f v)]
    \<and> unat (die_attr_count d1) = unat (die_attr_count die) + 1"
    using Cons.prems(3,4,5) by (intro attr_init_enc [OF e(1) h(1) cu fl]) (simp_all add: raw)
  then obtain d1 where d1: "attr_init m secs dbg off cu die \<lparr>ad_attrib = of_nat a, ad_form = of_nat f, ad_offset = ao\<rparr> (of_nat f) 0
      = cret (DW_DLE_NONE, ?o, d1)" "die_frame die d1" "attrs_filled d1"
    "seen_attrs d1 = seen_attrs die @ [mk_attr a f (val_words str (info + off) f v)]"
    "die_name d1 = name_after (die_name die) [mk_attr a f (val_words str (info + off) f v)]"
    "unat (die_attr_count d1) = unat (die_attr_count die) + 1" by blast
  have ats: "attrs_of str ver (info + off) (af # ads) vs
      = mk_attr a f (val_words str (info + off) f v) # attrs_of str ver (info + ?o) ads vs'"
    by (simp add: af vs e(1) add.assoc)
  obtain d2 where d2: "attr_inits m secs dbg cu (attrdefs_of (ao + of_nat (length (uleb_encode a @ uleb_encode f))) ads) ?o d1
      = cret (DW_DLE_NONE, ?o + of_nat (length xs), d2)" "die_frame d1 d2" "attrs_filled d2"
    "seen_attrs d2 = seen_attrs d1 @ attrs_of str ver (info + ?o) ads vs'"
    "die_name d2 = name_after (die_name d1) (attrs_of str ver (info + ?o) ads vs')"
    using Cons.IH [OF e(2) h(2), of d1 "ao + of_nat (length (uleb_encode a @ uleb_encode f))"] Cons.prems(3,5) o d1(3,6)
    by (auto simp: raw)
  show ?case
  proof (intro exI conjI)
    show "attr_inits m secs dbg cu (attrdefs_of ao (af # ads)) off die = cret (DW_DLE_NONE, off + of_nat (length raw), d2)"
      using d1(1) d2(1) by (simp add: af raw dw_codes add.assoc)
    show "die_frame die d2" by (rule die_frame_trans [OF d1(2) d2(2)])
    show "die_name d2 = name_after (die_name die) (attrs_of str ver (info + off) (af # ads) vs)"
      unfolding ats using d2(5) d1(5) by simp
  qed (use d1 d2 ats in simp_all)
qed

section \<open>Trees of entries\<close>

text \<open>
  \<open>Entry c vs sub rest\<close>: an entry with the abbreviation \<open>c\<close> and the values \<open>vs\<close>, the entries below it and those behind it.
  The list ends with a null entry.
\<close>

datatype forest = End | Entry nat "dval list" forest forest

definition decl_of :: "abbrev_decl list \<Rightarrow> nat \<Rightarrow> abbrev_decl option" where
  "decl_of ts c = find (\<lambda>d. decl_code d = c) ts"

fun lookup_attr :: "(nat \<times> nat) list \<Rightarrow> dval list \<Rightarrow> nat \<Rightarrow> (nat \<times> dval) option" where
  "lookup_attr ((a, f) # ads) (v # vs) n = (if a = n then Some (f, v) else lookup_attr ads vs n)"
| "lookup_attr _ _ n = None"

text \<open>The number an attribute holds; an attribute of the given name is a number if there is one.\<close>

definition num_attr :: "abbrev_decl \<Rightarrow> dval list \<Rightarrow> nat \<Rightarrow> nat option" where
  "num_attr d vs a = (case lookup_attr (decl_attrs d) vs a of Some (f, Num n) \<Rightarrow> Some n | _ \<Rightarrow> None)"

definition is_num :: "abbrev_decl \<Rightarrow> dval list \<Rightarrow> nat \<Rightarrow> bool" where
  "is_num d vs a \<longleftrightarrow> (case lookup_attr (decl_attrs d) vs a of None \<Rightarrow> True | Some (f, Num n) \<Rightarrow> True | _ \<Rightarrow> False)"

text \<open>
  What the lookup needs of an entry: attribute names are distinct, sizes, addresses and references are numbers, references are
  relative to the unit, and \<^verbatim>\<open>DW_AT_sibling\<close>, if there, is the offset of what follows the entry and its children.
\<close>

definition entry_ok :: "abbrev_decl \<Rightarrow> dval list \<Rightarrow> nat \<Rightarrow> bool" where
  "entry_ok d vs next \<longleftrightarrow> distinct (map fst (decl_attrs d)) \<and> (\<forall>a \<in> {0x01, 0x0b, 0x10, 0x11, 0x12, 0x49}. is_num d vs a)
     \<and> (\<forall>(a, f) \<in> set (decl_attrs d). a \<in> {0x01, 0x49} \<longrightarrow> f \<noteq> 0x10)
     \<and> (case num_attr d vs 0x01 of None \<Rightarrow> True | Some n \<Rightarrow> n = next)"

definition head_bytes :: "nat \<Rightarrow> abbrev_decl list \<Rightarrow> nat \<Rightarrow> dval list \<Rightarrow> (abbrev_decl \<times> u8 list) option" where
  "head_bytes ver ts c vs =
     (case decl_of ts c of
        None \<Rightarrow> None
      | Some d \<Rightarrow> map_option (\<lambda>raw. (d, uleb_encode c @ raw)) (enc_vals ver (decl_attrs d) vs))"

text \<open>The encoding, with \<open>pos\<close> the offset of the list from the start of the unit.\<close>

fun forest_bytes :: "nat \<Rightarrow> abbrev_decl list \<Rightarrow> nat \<Rightarrow> forest \<Rightarrow> u8 list option" where
  "forest_bytes ver ts pos End = Some [0]"
| "forest_bytes ver ts pos (Entry c vs sub rest) =
     (case head_bytes ver ts c vs of
        None \<Rightarrow> None
      | Some (d, hb) \<Rightarrow>
          case (if decl_children d = 0 \<and> sub = End then Some []
                else if decl_children d = 1 \<and> sub \<noteq> End then forest_bytes ver ts (pos + length hb) sub
                else None) of
            None \<Rightarrow> None
          | Some xs \<Rightarrow>
              let next = pos + length hb + length xs in
              if entry_ok d vs next then map_option (\<lambda>ys. hb @ xs @ ys) (forest_bytes ver ts next rest) else None)"

text \<open>An entry with its offset in the unit, and the entries of a list: the top ones, and all.\<close>

record entry =
  ent_pos :: nat
  ent_decl :: abbrev_decl
  ent_head :: nat
  ent_vals :: "dval list"
  ent_sub :: forest

definition ent_of :: "nat \<Rightarrow> abbrev_decl list \<Rightarrow> nat \<Rightarrow> nat \<Rightarrow> dval list \<Rightarrow> forest \<Rightarrow> entry" where
  "ent_of ver ts pos c vs sub =
     (let (d, hb) = the (head_bytes ver ts c vs) in
      \<lparr>ent_pos = pos, ent_decl = d, ent_head = length hb, ent_vals = vs, ent_sub = sub\<rparr>)"

definition sub_len :: "nat \<Rightarrow> abbrev_decl list \<Rightarrow> entry \<Rightarrow> nat" where
  "sub_len ver ts e = (if decl_children (ent_decl e) = 0 then 0 else length (the (forest_bytes ver ts (ent_pos e + ent_head e) (ent_sub e))))"

fun tops :: "nat \<Rightarrow> abbrev_decl list \<Rightarrow> nat \<Rightarrow> forest \<Rightarrow> entry list" where
  "tops ver ts pos End = []"
| "tops ver ts pos (Entry c vs sub rest) =
     (let e = ent_of ver ts pos c vs sub in e # tops ver ts (pos + ent_head e + sub_len ver ts e) rest)"

fun all_entries :: "nat \<Rightarrow> abbrev_decl list \<Rightarrow> nat \<Rightarrow> forest \<Rightarrow> entry list" where
  "all_entries ver ts pos End = []"
| "all_entries ver ts pos (Entry c vs sub rest) =
     (let e = ent_of ver ts pos c vs sub in
      e # all_entries ver ts (pos + ent_head e) sub @ all_entries ver ts (pos + ent_head e + sub_len ver ts e) rest)"

section \<open>Reading an entry\<close>

text \<open>The unit, its abbreviations and its end, as the encoding has them.\<close>

definition unit_at ::
    "mem \<Rightarrow> dwarf_section list \<Rightarrow> dwarf_debug \<Rightarrow> dwarf_cu \<Rightarrow> u64 \<Rightarrow> u64 \<Rightarrow> u64 \<Rightarrow> nat \<Rightarrow> abbrev_decl list \<Rightarrow> nat \<Rightarrow> nat \<Rightarrow> bool" where
  "unit_at m secs dbg cu info sz str ver ts start fin \<longleftrightarrow> file_at m secs dbg info sz str \<and> cu_is cu ver
     \<and> cu_offset cu = of_nat start \<and> cu_next_offset cu = of_nat fin \<and> fin \<le> unat sz \<and> unat sz < 2 ^ 31
     \<and> (\<exists>ds. dwarf_find_section secs ''.debug_abbrev'' = Some ds
          \<and> holds m (ds_data ds + debug_abbrev_offset cu) (table_bytes ts) \<and> (\<forall>d \<in> set ts. decl_ok d)
          \<and> unat (debug_abbrev_offset cu) + length (table_bytes ts) \<le> unat (ds_size ds))"

text \<open>\<open>reads\<close>: the structure \<open>die\<close> is the entry \<open>e\<close>; a name it does not have is left over from the entry read into the buffer before.\<close>

definition ent_attrs :: "u64 \<Rightarrow> u64 \<Rightarrow> nat \<Rightarrow> nat \<Rightarrow> entry \<Rightarrow> dwarf_attribute list" where
  "ent_attrs info str ver start e = attrs_of str ver
     (info + of_nat (start + ent_pos e + length (uleb_encode (decl_code (ent_decl e))))) (decl_attrs (ent_decl e)) (ent_vals e)"

definition reads :: "u64 \<Rightarrow> u64 \<Rightarrow> nat \<Rightarrow> nat \<Rightarrow> entry \<Rightarrow> dwarf_die \<Rightarrow> bool" where
  "reads info str ver start e die \<longleftrightarrow> die_tag die = of_nat (decl_tag (ent_decl e))
     \<and> ab_children (die_ab die) = decl_children (ent_decl e) \<and> die_next_off die = of_nat (start + ent_pos e + ent_head e)
     \<and> seen_attrs die = ent_attrs info str ver start e \<and> (\<exists>nm. die_name die = name_after nm (ent_attrs info str ver start e))"

lemma table_find_decl_of: "decl_of ts c = Some d \<Longrightarrow> \<exists>q. table_find off ts c = Some (abbrev_of q d)"
  by (induction ts arbitrary: off) (auto simp: decl_of_def split: if_splits)

lemma decl_of_code: "decl_of ts c = Some d \<Longrightarrow> d \<in> set ts \<and> decl_code d = c"
  by (auto simp: decl_of_def find_Some_iff)

lemma uleb_encode_ne: "uleb_encode n \<noteq> []"
  by (subst uleb_encode.simps) simp

lemma unat_of_nat_31: "a < 2 ^ 31 \<Longrightarrow> unat (of_nat a :: u64) = a"
  by (simp add: unat_of_nat)

lemma entry_at_encoded:
  assumes u: "unit_at m secs dbg cu info sz str ver ts start fin" and hb: "head_bytes ver ts c vs = Some (d, hb)"
    and h: "holds m (info + of_nat (start + pos)) hb" and room: "start + pos + length hb \<le> fin"
    and e: "e = ent_of ver ts pos c vs sub"
  shows "\<exists>ab die'. die_at m secs dbg cu (of_nat (start + pos)) die ab (of_nat (start + pos + ent_head e)) die'
    \<and> ab_children ab = decl_children d \<and> reads info str ver start e die' \<and> cu_header die' = cu_header die
    \<and> die_name die' = name_after (die_name die) (ent_attrs info str ver start e)"
proof -
  from hb obtain raw where d: "decl_of ts c = Some d" and raw: "enc_vals ver (decl_attrs d) vs = Some raw" and hb': "hb = uleb_encode c @ raw"
    by (auto simp: head_bytes_def split: option.splits)
  from u obtain ds where fl: "file_at m secs dbg info sz str" and cu: "cu_is cu ver" and fin: "cu_next_offset cu = of_nat fin" "fin \<le> unat sz" "unat sz < 2 ^ 31"
    and ds: "dwarf_find_section secs ''.debug_abbrev'' = Some ds" and tb: "holds m (ds_data ds + debug_abbrev_offset cu) (table_bytes ts)"
      "\<forall>d \<in> set ts. decl_ok d" "unat (debug_abbrev_offset cu) + length (table_bytes ts) \<le> unat (ds_size ds)"
    unfolding unit_at_def by blast
  have c: "0 < c" "c < 2 ^ 31" and dok: "decl_ok d" using decl_of_code [OF d] tb(2) by (auto simp: decl_ok_def)
  have info: "dbg_info_offset_elf dbg = info" "dbg_info_size dbg = sz" "byte_reader (dbg_read dbg)" using fl by (auto simp: file_at_def)
  let ?p = "start + pos" and ?c = "length (uleb_encode c)"
  have len: "?p + ?c + length raw \<le> fin" using room by (simp add: hb')
  have p: "unat (of_nat ?p :: u64) = ?p" "unat (of_nat (?p + ?c) :: u64) = ?p + ?c" using len fin by (intro unat_of_nat_31; linarith)+
  have ab: "\<exists>q. abbrev_find m secs dbg cu (of_nat c) abbrev0 = cret (DW_DLE_NONE, abbrev_of q d)"
  proof -
    from table_find_decl_of [OF d] obtain o1 where "table_find (debug_abbrev_offset cu) ts c = Some (abbrev_of o1 d)" by blast
    with abbrev_search_encoded [OF tb info(3) c] ds of_nat_neq_0 [OF c] show ?thesis by (auto simp: abbrev_find_def)
  qed
  then obtain o1 where ab: "abbrev_find m secs dbg cu (of_nat c) abbrev0 = cret (DW_DLE_NONE, abbrev_of o1 d)" by blast
  let ?d0 = "die\<lparr>die_offset := of_nat ?p, die_abnum := of_nat c, die_ab := abbrev_of o1 d, die_attr_count := 0, die_tag := of_nat (decl_tag d)\<rparr>"
  have n: "length (decl_attrs d) \<le> NATTRVAL" using dok by (simp add: decl_ok_def NATTRDEF_def NATTRVAL_def)
  have h': "holds m (info + of_nat ?p) (uleb_encode c)" "holds m (info + of_nat (?p + ?c)) raw"
    using h by (simp_all add: hb' add.assoc)
  have "\<exists>d'. attr_inits m secs dbg cu (attrdefs_of ao (decl_attrs d)) (of_nat (?p + ?c)) ?d0
      = cret (DW_DLE_NONE, of_nat (?p + ?c) + of_nat (length raw), d') \<and> die_frame ?d0 d' \<and> attrs_filled d'
      \<and> seen_attrs d' = seen_attrs ?d0 @ attrs_of str ver (info + of_nat (?p + ?c)) (decl_attrs d) vs
      \<and> die_name d' = name_after (die_name ?d0) (attrs_of str ver (info + of_nat (?p + ?c)) (decl_attrs d) vs)" for ao
    using h'(2) len fin(2) n p(2) by (intro attr_inits_enc [OF cu fl raw]) (simp_all add: attrs_filled_def)
  then obtain d' where d': "attr_inits m secs dbg cu (ab_attrdef (abbrev_of o1 d)) (of_nat (?p + ?c)) ?d0
      = cret (DW_DLE_NONE, of_nat (?p + ?c + length raw), d')" "die_frame ?d0 d'"
      "seen_attrs d' = attrs_of str ver (info + of_nat (?p + ?c)) (decl_attrs d) vs"
      "die_name d' = name_after (die_name die) (attrs_of str ver (info + of_nat (?p + ?c)) (decl_attrs d) vs)"
    by (simp add: abbrev_of_def seen_attrs_def) blast
  let ?d' = "d'\<lparr>die_next_off := of_nat (?p + ?c + length raw)\<rparr>"
  have e': "ent_decl e = d" "ent_head e = length hb" "ent_vals e = vs" "ent_pos e = pos" by (simp_all add: e ent_of_def hb)
  have r: "read_die m secs dbg cu (of_nat ?p) (of_nat c) (of_nat (?p + ?c)) die = cret (DW_DLE_NONE, of_nat (?p + ?c + length raw), abbrev_of o1 d, ?d')"
    using ab d'(1) by (simp add: read_die_def dw_codes abbrev_of_def Let_def)
  have "in_cu dbg cu (of_nat ?p)"
  proof -
    have "?p < fin" using len uleb_encode_ne [of c] by (cases "uleb_encode c") simp_all
    then show ?thesis using fin info p(1) by (simp add: in_cu_def word_less_nat_alt unat_of_nat_31)
  qed
  moreover have "dwarf_read_uleb128 m info (of_nat ?p) = Some (of_nat c, of_nat (?p + ?c))"
    using read_uleb_encoded [OF h'(1) c(2)] by simp
  ultimately have "die_at m secs dbg cu (of_nat ?p) die (abbrev_of o1 d) (of_nat (?p + ent_head e)) ?d'"
    using r of_nat_neq_0 [OF c] by (simp add: die_at_def info e'(2) hb' add.assoc)
  moreover have "reads info str ver start e ?d'"
    using d' decl_of_code [OF d] by (auto simp: reads_def ent_attrs_def e' hb' die_frame_def abbrev_of_def seen_attrs_def add.assoc)
  moreover have "ab_children (abbrev_of o1 d) = decl_children d" "cu_header ?d' = cu_header die"
    using d'(2) by (simp_all add: abbrev_of_def die_frame_def)
  moreover have "die_name ?d' = name_after (die_name die) (ent_attrs info str ver start e)"
    using d'(4) decl_of_code [OF d] by (simp add: ent_attrs_def e' add.assoc)
  ultimately show ?thesis by blast
qed

section \<open>Reading lists of entries\<close>

lemma forest_bytes_Entry:
  assumes "forest_bytes ver ts pos (Entry c vs sub rest) = Some bs"
  obtains d hb xs ys where "head_bytes ver ts c vs = Some (d, hb)" "bs = hb @ xs @ ys"
    "entry_ok d vs (pos + length hb + length xs)" "forest_bytes ver ts (pos + length hb + length xs) rest = Some ys"
    "decl_children d = 0 \<and> sub = End \<and> xs = [] \<or> decl_children d = 1 \<and> sub \<noteq> End \<and> forest_bytes ver ts (pos + length hb) sub = Some xs"
    "ent_of ver ts pos c vs sub = \<lparr>ent_pos = pos, ent_decl = d, ent_head = length hb, ent_vals = vs, ent_sub = sub\<rparr>"
    "sub_len ver ts (ent_of ver ts pos c vs sub) = length xs"
proof -
  from assms obtain d hb where hd: "head_bytes ver ts c vs = Some (d, hb)" by (auto split: option.splits)
  let ?sub = "if decl_children d = 0 \<and> sub = End then Some []
                else if decl_children d = 1 \<and> sub \<noteq> End then forest_bytes ver ts (pos + length hb) sub else None"
  from assms hd obtain xs where xs: "?sub = Some xs" by (cases ?sub) simp_all
  from assms hd xs have ok: "entry_ok d vs (pos + length hb + length xs)" by (simp add: Let_def split: if_splits)
  with assms hd xs obtain ys where ys: "forest_bytes ver ts (pos + length hb + length xs) rest = Some ys" "bs = hb @ xs @ ys"
    by (auto simp: Let_def)
  have sub: "decl_children d = 0 \<and> sub = End \<and> xs = [] \<or> decl_children d = 1 \<and> sub \<noteq> End \<and> forest_bytes ver ts (pos + length hb) sub = Some xs"
    using xs by (auto split: if_splits)
  have e: "ent_of ver ts pos c vs sub = \<lparr>ent_pos = pos, ent_decl = d, ent_head = length hb, ent_vals = vs, ent_sub = sub\<rparr>"
    by (simp add: ent_of_def hd)
  moreover have "sub_len ver ts (ent_of ver ts pos c vs sub) = length xs"
    using sub by (auto simp: e sub_len_def)
  ultimately show thesis using that hd ys ok sub by blast
qed

fun depth :: "forest \<Rightarrow> nat" where
  "depth End = 0"
| "depth (Entry c vs sub rest) = max (Suc (depth sub)) (depth rest)"

lemma head_bytes_ne: "head_bytes ver ts c vs = Some (d, hb) \<Longrightarrow> 0 < length hb"
  using uleb_encode_ne [of c] by (auto simp: head_bytes_def split: option.splits)

lemma depth_length: "forest_bytes ver ts pos f = Some bs \<Longrightarrow> depth f < length bs"
proof (induction f arbitrary: pos bs)
  case (Entry c vs sub rest)
  from Entry.prems show ?case
  proof (rule forest_bytes_Entry)
    fix d hb xs ys
    assume *: "head_bytes ver ts c vs = Some (d, hb)" "bs = hb @ xs @ ys" "forest_bytes ver ts (pos + length hb + length xs) rest = Some ys"
      "decl_children d = 0 \<and> sub = End \<and> xs = [] \<or> decl_children d = 1 \<and> sub \<noteq> End \<and> forest_bytes ver ts (pos + length hb) sub = Some xs"
    have "depth sub < length xs \<or> sub = End" using *(4) Entry.IH(1) by blast
    moreover have "depth rest < length ys" "0 < length hb" using Entry.IH(2) [OF *(3)] head_bytes_ne [OF *(1)] by blast+
    moreover have "length bs = length hb + length xs + length ys" by (simp add: *(2))
    ultimately show ?thesis by (elim disjE) (simp_all only: depth.simps max_less_iff_conj, linarith+)
  qed
qed simp

lemma null_encoded:
  assumes u: "unit_at m secs dbg cu info sz str ver ts start fin" and h: "m (info + of_nat p) = 0" and room: "p < fin"
  shows "null_at m dbg cu (of_nat p) (of_nat (p + 1))"
proof -
  from u have fin: "cu_next_offset cu = of_nat fin" "fin \<le> unat sz" "unat sz < 2 ^ 31"
    and info: "dbg_info_offset_elf dbg = info" "dbg_info_size dbg = sz" by (auto simp: unit_at_def file_at_def)
  then have "in_cu dbg cu (of_nat p)" using room by (simp add: in_cu_def word_less_nat_alt unat_of_nat_31)
  with h show ?thesis by (simp add: null_at_def info read_uleb_0 add.commute)
qed

lemma children_encoded:
  assumes u: "unit_at m secs dbg cu info sz str ver ts start fin"
  shows "forest_bytes ver ts pos f = Some bs \<Longrightarrow> holds m (info + of_nat (start + pos)) bs \<Longrightarrow> start + pos + length bs \<le> fin \<Longrightarrow>
    depth f \<le> k \<Longrightarrow> \<exists>die'. children m secs dbg cu k (of_nat (start + pos)) die (of_nat (start + pos + length bs)) die'"
proof (induction f arbitrary: pos bs k die)
  case End
  then have "null_at m dbg cu (of_nat (start + pos)) (of_nat (start + pos + 1))"
    by (intro null_encoded [OF u]) auto
  then have "children m secs dbg cu k (of_nat (start + pos)) die (of_nat (start + pos + 1)) die" by (rule children.null)
  moreover have "length bs = 1" using End by auto
  ultimately show ?case by (simp only: ex_simps) blast
next
  case (Entry c vs sub rest)
  from Entry.prems(1) show ?case
  proof (rule forest_bytes_Entry)
    fix d hb xs ys
    assume *: "head_bytes ver ts c vs = Some (d, hb)" "bs = hb @ xs @ ys" "forest_bytes ver ts (pos + length hb + length xs) rest = Some ys"
      "decl_children d = 0 \<and> sub = End \<and> xs = [] \<or> decl_children d = 1 \<and> sub \<noteq> End \<and> forest_bytes ver ts (pos + length hb) sub = Some xs"
      "ent_of ver ts pos c vs sub = \<lparr>ent_pos = pos, ent_decl = d, ent_head = length hb, ent_vals = vs, ent_sub = sub\<rparr>"
    let ?p1 = "pos + length hb" and ?p2 = "pos + length hb + length xs"
    have h: "holds m (info + of_nat (start + pos)) hb" "holds m (info + of_nat (start + ?p1)) xs" "holds m (info + of_nat (start + ?p2)) ys"
      using Entry.prems(2) by (simp_all add: *(2) add.assoc)
    from entry_at_encoded [OF u *(1) h(1), of "ent_of ver ts pos c vs sub" sub die] Entry.prems(3) obtain ab d1 where
      d1: "die_at m secs dbg cu (of_nat (start + pos)) die ab (of_nat (start + ?p1)) d1" "ab_children ab = decl_children d"
      by (auto simp: *(2,5) add.assoc)
    have rest: "\<exists>die'. children m secs dbg cu k (of_nat (start + ?p2)) d2 (of_nat (start + pos + length bs)) die'" for d2
      using Entry.IH(2) [OF *(3) h(3), of k d2] Entry.prems(3,4) by (simp add: *(2) add.assoc)
    show ?thesis
    proof (cases "decl_children d = 1")
      case True
      with *(4) have sub: "forest_bytes ver ts ?p1 sub = Some xs" by auto
      from Entry.prems(4) obtain k' where k: "k = Suc k'" "depth sub \<le> k'" by (cases k) auto
      from Entry.IH(1) [OF sub h(2), of k' d1] Entry.prems(3) k(2) obtain d2 where
        d2: "children m secs dbg cu k' (of_nat (start + ?p1)) d1 (of_nat (start + ?p2)) d2"
        by (auto simp: *(2) add.assoc)
      from rest [of d2] obtain d3 where "children m secs dbg cu (Suc k') (of_nat (start + ?p2)) d2 (of_nat (start + pos + length bs)) d3"
        by (auto simp: k)
      with children.node [OF d1(1) _ d2, of "of_nat (start + pos + length bs)"] d1(2) True show ?thesis unfolding k(1) by metis
    next
      case False
      with *(4) have "xs = []" by auto
      with rest [of d1] obtain d3 where "children m secs dbg cu k (of_nat (start + ?p1)) d1 (of_nat (start + pos + length bs)) d3" by auto
      with children.leaf [OF d1(1)] d1(2) False show ?thesis by metis
    qed
  qed
qed

text \<open>What a search at the start of a list finds: the first entry, or nothing.\<close>

lemma search_forest:
  assumes u: "unit_at m secs dbg cu info sz str ver ts start fin" and f: "forest_bytes ver ts pos f = Some bs"
    and h: "holds m (info + of_nat (start + pos)) bs" and room: "start + pos + length bs \<le> fin" and l: "\<not> sib \<or> level = 0"
  shows "case f of
      End \<Rightarrow> search_die m secs dbg cu sib level (of_nat (start + pos)) die = cret (DW_DLE_NO_ENTRY, die)
    | Entry c vs sub rest \<Rightarrow> \<exists>die'. search_die m secs dbg cu sib level (of_nat (start + pos)) die = cret (DW_DLE_NONE, die')
        \<and> reads info str ver start (ent_of ver ts pos c vs sub) die' \<and> cu_header die' = cu_header die"
proof (cases f)
  case End
  with assms have "null_at m dbg cu (of_nat (start + pos)) (of_nat (start + pos + 1))" by (intro null_encoded [OF u]) auto
  with l End show ?thesis by (subst search_die.simps) (auto simp: null_at_def in_cu_def)
next
  case (Entry c vs sub rest)
  from f [unfolded Entry] show ?thesis
  proof (rule forest_bytes_Entry)
    fix d hb xs ys
    assume *: "head_bytes ver ts c vs = Some (d, hb)" "bs = hb @ xs @ ys"
    have "holds m (info + of_nat (start + pos)) hb" using h by (simp add: *(2))
    from entry_at_encoded [OF u *(1) this _ refl, where sub = sub and die = die] room obtain ab die' where
      a: "die_at m secs dbg cu (of_nat (start + pos)) die ab (of_nat (start + pos + ent_head (ent_of ver ts pos c vs sub))) die'"
        "reads info str ver start (ent_of ver ts pos c vs sub) die'" "cu_header die' = cu_header die"
      by (auto simp: *(2))
    from l have "\<not> (sib \<and> 0 <s level)" by auto
    then show ?thesis using search_entry [OF a(1), of sib level] a(2,3) Entry by auto
  qed
qed

section \<open>Attributes of an entry read\<close>

definition stored :: "mem \<Rightarrow> u64 \<Rightarrow> nat \<Rightarrow> abbrev_decl list \<Rightarrow> nat \<Rightarrow> nat \<Rightarrow> entry \<Rightarrow> bool" where
  "stored m info ver ts start fin e \<longleftrightarrow>
     (\<exists>hb. head_bytes ver ts (decl_code (ent_decl e)) (ent_vals e) = Some (ent_decl e, hb) \<and> ent_head e = length hb
        \<and> holds m (info + of_nat (start + ent_pos e)) hb)
     \<and> start + ent_pos e + ent_head e + sub_len ver ts e \<le> fin
     \<and> entry_ok (ent_decl e) (ent_vals e) (ent_pos e + ent_head e + sub_len ver ts e)
     \<and> (decl_children (ent_decl e) = 0 \<and> ent_sub e = End
        \<or> decl_children (ent_decl e) = 1 \<and> ent_sub e \<noteq> End
          \<and> (\<exists>xs. forest_bytes ver ts (ent_pos e + ent_head e) (ent_sub e) = Some xs
               \<and> holds m (info + of_nat (start + ent_pos e + ent_head e)) xs))"

lemma forest_stored:
  assumes "forest_bytes ver ts pos f = Some bs" "holds m (info + of_nat (start + pos)) bs" "start + pos + length bs \<le> fin"
  shows "\<forall>e \<in> set (all_entries ver ts pos f). stored m info ver ts start fin e"
  using assms
proof (induction f arbitrary: pos bs)
  case (Entry c vs sub rest)
  from Entry.prems(1) show ?case
  proof (rule forest_bytes_Entry)
    fix d hb xs ys
    assume *: "head_bytes ver ts c vs = Some (d, hb)" "bs = hb @ xs @ ys" "entry_ok d vs (pos + length hb + length xs)"
      "forest_bytes ver ts (pos + length hb + length xs) rest = Some ys"
      "decl_children d = 0 \<and> sub = End \<and> xs = [] \<or> decl_children d = 1 \<and> sub \<noteq> End \<and> forest_bytes ver ts (pos + length hb) sub = Some xs"
      "ent_of ver ts pos c vs sub = \<lparr>ent_pos = pos, ent_decl = d, ent_head = length hb, ent_vals = vs, ent_sub = sub\<rparr>"
      "sub_len ver ts (ent_of ver ts pos c vs sub) = length xs"
    let ?e = "ent_of ver ts pos c vs sub"
    have c: "decl_code d = c" using *(1) decl_of_code by (auto simp: head_bytes_def split: option.splits)
    have h: "holds m (info + of_nat (start + pos)) hb" "holds m (info + of_nat (start + (pos + length hb))) xs"
      "holds m (info + of_nat (start + (pos + length hb + length xs))) ys"
      using Entry.prems(2) by (simp_all add: *(2) add.assoc)
    have "start + pos + length hb + length xs \<le> fin" using Entry.prems(3) by (simp add: *(2))
    then have "stored m info ver ts start fin ?e"
      using * c h(1,2) unfolding stored_def *(7) by (auto simp: *(6) add.assoc)
    moreover have "\<forall>e \<in> set (all_entries ver ts (pos + length hb) sub). stored m info ver ts start fin e"
      using *(5) Entry.IH(1) [OF _ h(2)] Entry.prems(3) by (auto simp: *(2))
    moreover have "\<forall>e \<in> set (all_entries ver ts (pos + length hb + length xs) rest). stored m info ver ts start fin e"
      using Entry.IH(2) [OF *(4) h(3)] Entry.prems(3) by (simp add: *(2))
    ultimately show ?thesis by (auto simp: Let_def *(7)) (auto simp: *(6))
  qed
qed simp

lemma tops_all: "set (tops ver ts pos f) \<subseteq> set (all_entries ver ts pos f)"
  by (induction f arbitrary: pos) (auto simp: Let_def)

lemma of_nat_eq_31: "a < 2 ^ 31 \<Longrightarrow> b < 2 ^ 31 \<Longrightarrow> (of_nat a :: u64) = of_nat b \<longleftrightarrow> a = b"
  by (simp add: word_of_nat_eq_iff take_bit_nat_eq_self)

lemma find_attrs_of:
  assumes "enc_vals ver ads vs = Some raw" "\<forall>(a, f) \<in> set ads. a < 2 ^ 31" "n < 2 ^ 31" "holds m p raw"
  shows "case lookup_attr ads vs n of
      None \<Rightarrow> find (\<lambda>at. at_attrib at = of_nat n) (attrs_of str ver p ads vs) = None
    | Some (f, v) \<Rightarrow> (n, f) \<in> set ads \<and> (\<exists>q x. find (\<lambda>at. at_attrib at = of_nat n) (attrs_of str ver p ads vs) = Some (mk_attr n f (val_words str q f v))
        \<and> enc ver f v = Some x \<and> holds m q x)"
  using assms
proof (induction ads arbitrary: vs raw p)
  case Nil
  then show ?case by (cases vs) auto
next
  case (Cons af ads)
  obtain a f where af: "af = (a, f)" by force
  from Cons.prems(1) af obtain v vs' where vs: "vs = v # vs'" by (cases vs) auto
  from Cons.prems(1) obtain x xs where e: "enc ver f v = Some x" "enc_vals ver ads vs' = Some xs" and raw: "raw = x @ xs"
    by (auto simp: af vs split: option.splits)
  have h: "holds m p x" "holds m (p + of_nat (length x)) xs" using Cons.prems(4) by (simp_all add: raw)
  have n: "(of_nat a :: u64) = of_nat n \<longleftrightarrow> a = n" using Cons.prems(2,3) by (intro of_nat_eq_31) (auto simp: af)
  show ?case
  proof (cases "a = n")
    case True
    then show ?thesis using e(1) h(1) by (auto simp: af vs mk_attr_def)
  next
    case False
    then show ?thesis using Cons.IH [OF e(2) _ Cons.prems(3) h(2)] Cons.prems(2) n
      by (auto simp: af vs e(1) mk_attr_def split: option.splits)
  qed
qed

lemma lookup_enc: "enc_vals ver ads vs = Some raw \<Longrightarrow> lookup_attr ads vs n = Some (f, v) \<Longrightarrow> enc ver f v \<noteq> None"
  by (induction ver ads vs arbitrary: raw rule: enc_vals.induct) (auto split: option.splits if_splits)

lemma enc_num_bound: "enc ver f (Num n) \<noteq> None \<Longrightarrow> n < 2 ^ 64"
proof (cases "fixed_size ver f")
  case (Some k)
  assume "enc ver f (Num n) \<noteq> None"
  with Some have "n < 256 ^ k" by (simp split: if_splits)
  moreover have "k \<le> 8" using Some by (auto simp: fixed_size_def split: if_splits)
  then have "(256 :: nat) ^ k \<le> 256 ^ 8" by (intro power_increasing) auto
  ultimately show ?thesis by simp
qed (simp split: if_splits)

lemma name_after_find:
  "distinct (map at_attrib ats) \<Longrightarrow>
   name_after nm ats = (case find (\<lambda>at. at_attrib at = 0x03) ats of None \<Rightarrow> nm | Some at \<Rightarrow> name_after nm [at])"
proof (induction ats arbitrary: nm)
  case (Cons at ats)
  show ?case
  proof (cases "at_attrib at = 0x03")
    case True
    with Cons.prems have "find (\<lambda>at. at_attrib at = 0x03) ats = None" by (auto simp: find_None_iff)
    with Cons True show ?thesis by simp
  qed (use Cons in simp)
qed simp

lemma attrs_of_names: "length ads = length vs \<Longrightarrow> map at_attrib (attrs_of str ver p ads vs) = map (of_nat \<circ> fst) ads"
proof (induction ads arbitrary: vs p)
  case (Cons af ads)
  then obtain v vs' where "vs = v # vs'" by (cases vs) auto
  with Cons show ?case by (cases af) (auto simp: mk_attr_def)
qed simp

lemma enc_vals_length: "enc_vals ver ads vs = Some raw \<Longrightarrow> length ads = length vs"
  by (induction ver ads vs arbitrary: raw rule: enc_vals.induct) (auto split: option.splits)

text \<open>The number an entry holds under an attribute, and the string it has for a name.\<close>

definition ent_num :: "entry \<Rightarrow> nat \<Rightarrow> nat option" where
  "ent_num e a = num_attr (ent_decl e) (ent_vals e) a"

definition ent_name :: "mem \<Rightarrow> u64 \<Rightarrow> entry \<Rightarrow> u8 list \<Rightarrow> bool" where
  "ent_name m str e nm \<longleftrightarrow>
     (case lookup_attr (decl_attrs (ent_decl e)) (ent_vals e) 0x03 of
        Some (f, Text xs) \<Rightarrow> nm = xs
      | Some (f, Num n) \<Rightarrow> f = 0x0e \<and> cstr m (str + of_nat n) nm
      | _ \<Rightarrow> False)"

lemma stored_attrs:
  assumes u: "unit_at m secs dbg cu info sz str ver ts start fin" and s: "stored m info ver ts start fin e"
  shows "decl_ok (ent_decl e)"
    "\<exists>raw. enc_vals ver (decl_attrs (ent_decl e)) (ent_vals e) = Some raw
       \<and> holds m (info + of_nat (start + ent_pos e + length (uleb_encode (decl_code (ent_decl e))))) raw"
proof -
  from s obtain hb where hb: "head_bytes ver ts (decl_code (ent_decl e)) (ent_vals e) = Some (ent_decl e, hb)"
    "holds m (info + of_nat (start + ent_pos e)) hb" by (auto simp: stored_def)
  then obtain raw where d: "decl_of ts (decl_code (ent_decl e)) = Some (ent_decl e)"
    and raw: "enc_vals ver (decl_attrs (ent_decl e)) (ent_vals e) = Some raw" "hb = uleb_encode (decl_code (ent_decl e)) @ raw"
    by (auto simp: head_bytes_def split: option.splits)
  show "decl_ok (ent_decl e)" using decl_of_code [OF d] u by (auto simp: unit_at_def)
  show "\<exists>raw. enc_vals ver (decl_attrs (ent_decl e)) (ent_vals e) = Some raw
      \<and> holds m (info + of_nat (start + ent_pos e + length (uleb_encode (decl_code (ent_decl e))))) raw"
    using hb(2) raw by (simp add: add.assoc)
qed

lemma reads_attr:
  assumes u: "unit_at m secs dbg cu info sz str ver ts start fin" and s: "stored m info ver ts start fin e"
    and r: "reads info str ver start e die" and n: "(ucast attr :: u64) = of_nat n" "n < 2 ^ 31"
  shows "case lookup_attr (decl_attrs (ent_decl e)) (ent_vals e) n of
      None \<Rightarrow> attr_find die attr = None
    | Some (f, v) \<Rightarrow> (n, f) \<in> set (decl_attrs (ent_decl e)) \<and> (\<exists>q x. attr_find die attr = Some (mk_attr n f (val_words str q f v))
        \<and> enc ver f v = Some x \<and> holds m q x)"
proof -
  from stored_attrs [OF u s] obtain raw where raw: "enc_vals ver (decl_attrs (ent_decl e)) (ent_vals e) = Some raw"
      "holds m (info + of_nat (start + ent_pos e + length (uleb_encode (decl_code (ent_decl e))))) raw"
    and d: "decl_ok (ent_decl e)" by blast
  have "attr_find die attr = find (\<lambda>a. at_attrib a = of_nat n) (ent_attrs info str ver start e)"
    using r n(1) by (simp add: attr_find_def reads_def seen_attrs_def)
  moreover have "\<forall>(a, f) \<in> set (decl_attrs (ent_decl e)). a < 2 ^ 31" using d by (auto simp: decl_ok_def)
  ultimately show ?thesis using find_attrs_of [OF raw(1) _ n(2) raw(2), of str]
    by (simp only: ent_attrs_def)
qed

lemma reads_num:
  assumes u: "unit_at m secs dbg cu info sz str ver ts start fin" and s: "stored m info ver ts start fin e"
    and r: "reads info str ver start e die" and n: "(ucast attr :: u64) = of_nat n" "n \<in> {0x01, 0x0b, 0x10, 0x11, 0x12, 0x49}"
  shows "map_option at_u0 (attr_find die attr) = map_option of_nat (ent_num e n)"
proof -
  have "n < 2 ^ 31" using n(2) by auto
  note a = reads_attr [OF u s r n(1) this]
  have "is_num (ent_decl e) (ent_vals e) n" using s n(2) by (auto simp: stored_def entry_ok_def)
  with a show ?thesis by (auto simp: is_num_def ent_num_def num_attr_def mk_attr_def split: option.splits prod.splits dval.splits)
qed

lemma reads_form:
  assumes u: "unit_at m secs dbg cu info sz str ver ts start fin" and s: "stored m info ver ts start fin e"
    and r: "reads info str ver start e die" and at: "attr_find die 0x01 = Some at"
  shows "at_form at \<noteq> 0x10"
proof -
  have "(ucast (0x01 :: u16) :: u64) = of_nat 1" by simp
  from reads_attr [OF u s r this] at obtain f v q x where "(1, f) \<in> set (decl_attrs (ent_decl e))" "at = mk_attr 1 f (val_words str q f v)"
    and f: "enc ver f v = Some x" by (auto split: option.splits)
  moreover from this(1) have "f \<noteq> 0x10" using s by (auto simp: stored_def entry_ok_def)
  moreover have "f < 64" using enc_form [OF f] by simp
  then have "(of_nat f :: u64) = of_nat 0x10 \<longleftrightarrow> f = 0x10" by (intro forms_of_nat) auto
  ultimately show ?thesis by (simp add: mk_attr_def)
qed

lemma reads_name:
  assumes u: "unit_at m secs dbg cu info sz str ver ts start fin" and s: "stored m info ver ts start fin e"
    and r: "reads info str ver start e die" and nm: "ent_name m str e nm"
  shows "cstr m (die_name die) nm"
proof -
  let ?ats = "ent_attrs info str ver start e"
  from stored_attrs [OF u s] obtain raw where raw: "enc_vals ver (decl_attrs (ent_decl e)) (ent_vals e) = Some raw"
    and d: "decl_ok (ent_decl e)" by blast
  have "map at_attrib ?ats = map of_nat (map fst (decl_attrs (ent_decl e)))"
    using attrs_of_names [OF enc_vals_length [OF raw]] by (simp add: ent_attrs_def)
  moreover have "distinct (map fst (decl_attrs (ent_decl e)))" using s by (simp add: stored_def entry_ok_def)
  moreover have "inj_on (of_nat :: nat \<Rightarrow> u64) (set (map fst (decl_attrs (ent_decl e))))"
  proof (rule inj_onI)
    have b: "a < 2 ^ 31" if "a \<in> set (map fst (decl_attrs (ent_decl e)))" for a using that d by (auto simp: decl_ok_def)
    fix a b assume "a \<in> set (map fst (decl_attrs (ent_decl e)))" "b \<in> set (map fst (decl_attrs (ent_decl e)))" "(of_nat a :: u64) = of_nat b"
    with b [of a] b [of b] show "a = b" by (simp only: of_nat_eq_31)
  qed
  ultimately have dist: "distinct (map at_attrib ?ats)" by (simp only: distinct_map)
  from r obtain nm0 where n: "die_name die = name_after nm0 ?ats" by (auto simp: reads_def)
  have find: "find (\<lambda>at. at_attrib at = 0x03) ?ats = attr_find die 0x03"
    using r by (simp add: attr_find_def reads_def seen_attrs_def)
  have "(ucast (0x03 :: u16) :: u64) = of_nat 3" by simp
  note attr = reads_attr [OF u s r this]
  from nm obtain f v where l: "lookup_attr (decl_attrs (ent_decl e)) (ent_vals e) 3 = Some (f, v)"
    and v: "(\<exists>n. v = Num n \<and> f = 0x0e \<and> cstr m (str + of_nat n) nm) \<or> v = Text nm"
    unfolding ent_name_def by (cases "lookup_attr (decl_attrs (ent_decl e)) (ent_vals e) 3") (auto split: dval.splits elim: dval.exhaust)
  from attr l obtain q x where a: "attr_find die 0x03 = Some (mk_attr 3 f (val_words str q f v))" "enc ver f v = Some x" "holds m q x"
    by auto
  from a(2) v have f: "f = 0x0e \<or> f = 0x08 \<and> x = nm @ [0] \<and> 0 \<notin> set nm" by (auto split: if_splits)
  have "die_name die = name_after nm0 [mk_attr 3 f (val_words str q f v)]"
    unfolding n name_after_find [OF dist] find a(1) by simp
  with v f a(2,3) show ?thesis by (auto simp: mk_attr_def cstr_holds [symmetric] split: if_splits)
qed

section \<open>Properties\<close>

text \<open>
  C22. Entries round trip: when the bytes at an offset of the unit encode an entry (its abbreviation's number and the values of its
  attributes, each in its form, for all forms but \<^verbatim>\<open>DW_FORM_indirect\<close>), \<^verbatim>\<open>dwarf_offdie\<close> returns the entry with its tag, the flag for
  children, the offset just behind it, and its attributes in order, each with name, form and the value encoded (a number or an
  address in the first word; for a block its length and where its bytes are; for a string its address). The name is that
  of \<^verbatim>\<open>DW_AT_name\<close>, in the entry or in \<^verbatim>\<open>.debug_str\<close>; it is not reset: an entry without one keeps the name of the entry read into the
  buffer before.
\<close>

theorem entry_roundtrip:
  assumes "unit_at m secs dbg cu info sz str ver ts start fin" and "head_bytes ver ts c vs = Some (d, hb)"
    and "holds m (info + of_nat (start + pos)) hb" and "start + pos + length hb \<le> fin"
    and "ats = attrs_of str ver (info + of_nat (start + pos + length (uleb_encode c))) (decl_attrs d) vs"
  shows "\<exists>e. dwarf_offdie m secs dbg (of_nat (start + pos)) tmp cu = cret (DW_DLE_NONE, e)
    \<and> die_tag e = of_nat (decl_tag d) \<and> ab_children (die_ab e) = decl_children d
    \<and> die_next_off e = of_nat (start + pos + length hb)
    \<and> seen_attrs e = ats \<and> die_name e = name_after (die_name tmp) ats \<and> cu_header e = cu_header tmp"
proof -
  let ?e = "ent_of ver ts pos c vs End"
  from assms(2) have d: "decl_code d = c" using decl_of_code by (auto simp: head_bytes_def split: option.splits)
  have e: "ent_decl ?e = d" "ent_head ?e = length hb" "ent_vals ?e = vs" "ent_pos ?e = pos" by (simp_all add: ent_of_def assms(2))
  have a: "ent_attrs info str ver start ?e = ats" by (simp add: ent_attrs_def e d assms(5))
  from entry_at_encoded [OF assms(1-4) refl, where die = tmp and sub = End] obtain ab die' where
    die: "die_at m secs dbg cu (of_nat (start + pos)) tmp ab (of_nat (start + pos + length hb)) die'"
      "reads info str ver start ?e die'" "cu_header die' = cu_header tmp" "die_name die' = name_after (die_name tmp) ats"
    unfolding a e(2) by blast
  have "dwarf_offdie m secs dbg (of_nat (start + pos)) tmp cu = cret (DW_DLE_NONE, die')"
    using die(1) search_entry [OF die(1), of False 1] by (simp add: dwarf_offdie_def dwarf_search_die_within_cu_def die_at_def in_cu_def)
  with die(2-4) show ?thesis by (auto simp: reads_def e a add.assoc)
qed

text \<open>A variable named by an offset into \<^verbatim>\<open>.debug_str\<close>, with a number of two bytes, a negative number, a block and a flag.\<close>

definition tree_decl :: abbrev_decl where
  "tree_decl = \<lparr>decl_code = 1, decl_tag = 0x34, decl_children = 0,
     decl_attrs = [(0x03, 0x0e), (0x0b, 0x05), (0x1c, 0x0d), (0x02, 0x0a), (0x3f, 0x0c)]\<rparr>"

definition tree_vals :: "dval list" where
  "tree_vals = [Num 5, Num 0x1234, SNum (- 2), Block [0x91, 0x6c], Num 1]"

definition tree_mem :: mem where
  "tree_mem = write_bytes (write_bytes (\<lambda>_. 0) 0x100b [1, 5, 0, 0, 0, 0x34, 0x12, 0x7e, 2, 0x91, 0x6c, 1]) 0x2000 (table_bytes [tree_decl])"

definition tree_sections :: "dwarf_section list" where
  "tree_sections =
     [\<lparr>ds_name = ascii ''.debug_info'', ds_data = 0x1000, ds_addr = 0, ds_size = 23\<rparr>,
      \<lparr>ds_name = ascii ''.debug_abbrev'', ds_data = 0x2000, ds_addr = 0, ds_size = 0x100\<rparr>,
      \<lparr>ds_name = ascii ''.debug_str'', ds_data = 0x3000, ds_addr = 0, ds_size = 0x100\<rparr>]"

definition tree_dbg :: dwarf_debug where
  "tree_dbg = demo_dbg\<lparr>dbg_info_size := 23\<rparr>"

definition tree_cu :: dwarf_cu where
  "tree_cu = demo_cu\<lparr>cu_next_offset := 23\<rparr>"

theorem entry_roundtrip_witness:
  "\<exists>e. dwarf_offdie tree_mem tree_sections tree_dbg 11 die0 tree_cu = cret (DW_DLE_NONE, e) \<and> die_tag e = 0x34 \<and> die_next_off e = 23
    \<and> map (\<lambda>at. (at_attrib at, at_u0 at, at_u1 at)) (seen_attrs e)
      = [(0x03, 5, 0x3005), (0x0b, 0x1234, 0), (0x1c, - 2, 0), (0x02, 2, 0x1014), (0x3f, 1, 0)]
    \<and> die_name e = 0x3005"
proof -
  let ?hb = "[1, 5, 0, 0, 0, 0x34, 0x12, 0x7e, 2, 0x91, 0x6c, 1] :: u8 list"
  have t: "length (table_bytes [tree_decl]) = 16" "decl_ok tree_decl"
    by (simp_all add: tree_decl_def table_bytes_def decl_bytes_def attrs_bytes_def uleb_encode.simps decl_ok_def NATTRDEF_def)
  have le: "le_bytes 4 5 = [5, 0, 0, 0]" "le_bytes 2 0x1234 = [0x34, 0x12]" by code_simp+
  have h: "head_bytes 2 [tree_decl] 1 tree_vals = Some (tree_decl, ?hb)"
    by (simp add: le head_bytes_def decl_of_def tree_decl_def tree_vals_def fixed_size_def block_prefix_def uleb_encode.simps sleb_encode.simps)
  have info: "holds tree_mem 0x100b ?hb" by (simp add: tree_mem_def write_bytes_outside t)
  have ab: "holds tree_mem 0x2000 (table_bytes [tree_decl])" unfolding tree_mem_def by (rule holds_write) (simp add: t)
  have "file_at tree_mem tree_sections tree_dbg 0x1000 23 0x3000"
    by (simp add: file_at_def tree_sections_def dwarf_find_section_def ascii_def tree_dbg_def demo_dbg_def)
  moreover have "cu_is tree_cu 2" by (simp add: cu_is_def tree_cu_def demo_cu_def)
  ultimately have u: "unit_at tree_mem tree_sections tree_dbg tree_cu 0x1000 23 0x3000 2 [tree_decl] 0 23"
    using ab t by (simp add: unit_at_def tree_sections_def dwarf_find_section_def ascii_def tree_cu_def demo_cu_def)
  have "attrs_of 0x3000 2 (0x1000 + of_nat (0 + 11 + length (uleb_encode 1))) (decl_attrs tree_decl) tree_vals
      = [mk_attr 0x03 0x0e (5, 0x3005), mk_attr 0x0b 0x05 (0x1234, 0), mk_attr 0x1c 0x0d (- 2, 0), mk_attr 0x02 0x0a (2, 0x1014), mk_attr 0x3f 0x0c (1, 0)]"
    by (simp add: tree_decl_def tree_vals_def fixed_size_def block_prefix_def uleb_encode.simps sleb_encode.simps)
  note r = entry_roundtrip [OF u h _ _ this [symmetric], where tmp = die0]
  show ?thesis using r info by (auto simp: mk_attr_def tree_decl_def)
qed

end
