(* ===== verification/Lookup.thy ===== *)
theory Lookup
  imports Kdebug Dwarf_Tree
begin

text \<open>
  What \<^verbatim>\<open>debuginfo_rip\<close> finds in an encoded \<^verbatim>\<open>.debug_info\<close>: the specification looks a function up in a list of units with trees of
  entries, the code walks over offsets and bytes.
\<close>

section \<open>From an entry to the next\<close>

lemma sibling_encoded:
  assumes u: "unit_at m secs dbg cu info sz str ver ts start fin" and f: "forest_bytes ver ts pos (Entry c vs sub rest) = Some bs"
    and h: "holds m (info + of_nat (start + pos)) bs" and room: "start + pos + length bs \<le> fin"
    and e: "e = ent_of ver ts pos c vs sub" and r: "reads info str ver start e die"
  shows "case rest of
      End \<Rightarrow> \<exists>d. dwarf_siblingof m secs dbg (Some die) tmp cu = cret (DW_DLV_NO_ENTRY, d)
    | Entry c' vs' sub' rest' \<Rightarrow> \<exists>d. dwarf_siblingof m secs dbg (Some die) tmp cu = cret (DW_DLV_OK, d)
        \<and> reads info str ver start (ent_of ver ts (pos + ent_head e + sub_len ver ts e) c' vs' sub') d"
proof -
  have st: "stored m info ver ts start fin e" using forest_stored [OF f h room] by (simp add: e Let_def)
  from f show ?thesis
  proof (rule forest_bytes_Entry)
    fix d hb xs ys
    assume *: "head_bytes ver ts c vs = Some (d, hb)" "bs = hb @ xs @ ys" "entry_ok d vs (pos + length hb + length xs)"
      "forest_bytes ver ts (pos + length hb + length xs) rest = Some ys"
      "decl_children d = 0 \<and> sub = End \<and> xs = [] \<or> decl_children d = 1 \<and> sub \<noteq> End \<and> forest_bytes ver ts (pos + length hb) sub = Some xs"
      "ent_of ver ts pos c vs sub = \<lparr>ent_pos = pos, ent_decl = d, ent_head = length hb, ent_vals = vs, ent_sub = sub\<rparr>"
      "sub_len ver ts (ent_of ver ts pos c vs sub) = length xs"
    let ?next = "pos + length hb + length xs"
    have next_pos: "pos + ent_head e + sub_len ver ts e = ?next" using *(6,7) by (simp add: e)
    have h': "holds m (info + of_nat (start + (pos + length hb))) xs" "holds m (info + of_nat (start + ?next)) ys"
      using h by (simp_all add: *(2) add.assoc)
    have room': "start + ?next + length ys \<le> fin" using room by (simp add: *(2))
    have "\<exists>sib level d0. \<not> (sib \<and> level \<noteq> 0) \<and> dwarf_siblingof m secs dbg (Some die) tmp cu =
        cbind (search_die m secs dbg cu sib level (of_nat (start + ?next)) d0) (\<lambda>(ret, die). cret (dlv_result ret, die))"
    proof (cases "decl_children d = 0")
      case True
      with *(5) have "xs = []" by auto
      then have "sibling_start die cu = (of_nat (start + ?next), False)"
        using r True by (simp add: sibling_start_def reads_def e *(6))
      then show ?thesis
        by (intro exI [of _ False] exI [of _ 1] exI [of _ tmp]) (simp add: dwarf_siblingof_def dwarf_search_die_within_cu_def)
    next
      case False
      with *(5) have ch: "forest_bytes ver ts (pos + length hb) sub = Some xs" by auto
      have ab: "ab_children (die_ab die) \<noteq> 0" using r False by (simp add: reads_def e *(6))
      have one: "(ucast (0x01 :: u16) :: u64) = of_nat 1" by simp
      have num: "map_option at_u0 (attr_find die 0x01) = map_option of_nat (ent_num e 1)"
        by (rule reads_num [OF u st r one]) simp
      show ?thesis
      proof (cases "attr_find die 0x01")
        case (Some at)
        with num have "ent_num e 1 = Some ?next" "at_u0 at = of_nat ?next"
          using *(3) by (auto simp: entry_ok_def ent_num_def e *(6) split: option.splits)
        moreover have "at_form at \<noteq> 0x10" by (rule reads_form [OF u st r Some])
        moreover have "cu_offset cu = of_nat start" using u by (simp add: unit_at_def)
        ultimately have "sibling_start die cu = (of_nat (start + ?next), False)"
          using ab Some by (simp add: sibling_start_def add.commute)
        then show ?thesis
          by (intro exI [of _ False] exI [of _ 1] exI [of _ tmp]) (simp add: dwarf_siblingof_def dwarf_search_die_within_cu_def)
      next
        case None
        let ?k = "depth sub"
        have "?k < length xs" by (rule depth_length [OF ch])
        moreover have "length xs < 2 ^ 31" using room' u by (simp add: unit_at_def)
        ultimately have k: "0 + ?k < 2147483647" by simp
        from children_encoded [OF u ch h'(1), of ?k tmp] room' obtain d1 where
          "children m secs dbg cu ?k (of_nat (start + (pos + length hb))) tmp (of_nat (start + (pos + length hb) + length xs)) d1" by auto
        from search_children [OF this k] have "search_die m secs dbg cu True 1 (of_nat (start + (pos + length hb))) tmp
            = search_die m secs dbg cu True 0 (of_nat (start + ?next)) d1" by (simp add: add.assoc)
        moreover have "sibling_start die cu = (of_nat (start + (pos + length hb)), True)"
          using r None ab by (simp add: sibling_start_def reads_def e *(6) add.assoc)
        ultimately show ?thesis
          by (intro exI [of _ True] exI [of _ 0] exI [of _ d1]) (simp add: dwarf_siblingof_def dwarf_search_die_within_cu_def)
      qed
    qed
    then obtain sib level d0 where l: "\<not> sib \<or> level = 0" and eq: "dwarf_siblingof m secs dbg (Some die) tmp cu =
        cbind (search_die m secs dbg cu sib level (of_nat (start + ?next)) d0) (\<lambda>(ret, die). cret (dlv_result ret, die))" by blast
    from search_forest [OF u *(4) h'(2) room' l, of d0] show ?thesis
      unfolding eq next_pos by (cases rest) (auto simp: dlv_result_def dw_codes)
  qed
qed

lemma child_encoded:
  assumes u: "unit_at m secs dbg cu info sz str ver ts start fin" and st: "stored m info ver ts start fin e"
    and r: "reads info str ver start e die"
  shows "case ent_sub e of
      End \<Rightarrow> dwarf_child m secs dbg cu die tmp = cret (DW_DLE_NO_ENTRY, tmp)
    | Entry c vs sub rest \<Rightarrow> \<exists>d. dwarf_child m secs dbg cu die tmp = cret (DW_DLV_OK, d)
        \<and> reads info str ver start (ent_of ver ts (ent_pos e + ent_head e) c vs sub) d"
proof (cases "ent_sub e")
  case End
  with st r show ?thesis by (auto simp: stored_def reads_def dwarf_child_def)
next
  case (Entry c vs sub rest)
  then have "ent_sub e \<noteq> End" by simp
  with st obtain xs where xs: "decl_children (ent_decl e) = 1" "forest_bytes ver ts (ent_pos e + ent_head e) (ent_sub e) = Some xs"
    "holds m (info + of_nat (start + (ent_pos e + ent_head e))) xs" "start + (ent_pos e + ent_head e) + length xs \<le> fin"
    by (auto simp: stored_def sub_len_def add.assoc)
  from search_forest [OF u xs(2-4), of False 1 tmp] obtain d where
    "search_die m secs dbg cu False 1 (of_nat (start + (ent_pos e + ent_head e))) tmp = cret (DW_DLE_NONE, d)"
    "reads info str ver start (ent_of ver ts (ent_pos e + ent_head e) c vs sub) d" by (auto simp: Entry)
  moreover have "ab_children (die_ab die) = 1" "die_next_off die = of_nat (start + (ent_pos e + ent_head e))"
    using r xs(1) by (simp_all add: reads_def add.assoc)
  ultimately show ?thesis
    by (simp add: Entry dwarf_child_def dwarf_search_die_within_cu_def dlv_result_def dw_codes)
qed

lemma reads_header [simp]: "reads info str ver start e (d\<lparr>cu_header := cu\<rparr>) = reads info str ver start e d"
  by (simp add: reads_def seen_attrs_def)

lemma unit_dies_encoded:
  assumes u: "unit_at m secs dbg cu info sz str ver ts start fin"
  shows "forest_bytes ver ts pos (Entry c vs sub rest) = Some bs \<Longrightarrow> holds m (info + of_nat (start + pos)) bs \<Longrightarrow>
    start + pos + length bs \<le> fin \<Longrightarrow> reads info str ver start (ent_of ver ts pos c vs sub) die \<Longrightarrow> cu_header die = cu \<Longrightarrow>
    \<exists>ds. unit_dies m secs dbg cu die tmp ds
      \<and> list_all2 (\<lambda>e d. reads info str ver start e d \<and> cu_header d = cu) (tops ver ts pos (Entry c vs sub rest)) ds"
proof (induction rest arbitrary: pos c vs sub bs die tmp)
  case End
  from sibling_encoded [OF u End.prems(1-3) refl End.prems(4), of tmp] obtain d where
    "dwarf_siblingof m secs dbg (Some die) tmp cu = cret (DW_DLV_NO_ENTRY, d)" by auto
  then have "unit_dies m secs dbg cu die tmp [die]" by (rule last_die) (simp add: dw_codes word_sless_alt)
  with End.prems(4,5) show ?case by (intro exI [of _ "[die]"]) (simp add: Let_def)
next
  case (Entry c' vs' sub' rest')
  let ?e = "ent_of ver ts pos c vs sub"
  let ?next = "pos + ent_head ?e + sub_len ver ts ?e"
  from sibling_encoded [OF u Entry.prems(1-3) refl Entry.prems(4), of tmp] obtain d where
    d: "dwarf_siblingof m secs dbg (Some die) tmp cu = cret (DW_DLV_OK, d)" "reads info str ver start (ent_of ver ts ?next c' vs' sub') d" by auto
  from Entry.prems(1) show ?case
  proof (rule forest_bytes_Entry)
    fix dc hb xs ys
    assume *: "bs = hb @ xs @ ys" "forest_bytes ver ts (pos + length hb + length xs) (Entry c' vs' sub' rest') = Some ys"
      "ent_of ver ts pos c vs sub = \<lparr>ent_pos = pos, ent_decl = dc, ent_head = length hb, ent_vals = vs, ent_sub = sub\<rparr>"
      "sub_len ver ts (ent_of ver ts pos c vs sub) = length xs"
    have n: "?next = pos + length hb + length xs" unfolding *(4) by (simp add: *(3))
    have "holds m (info + of_nat (start + ?next)) ys" "start + ?next + length ys \<le> fin"
      unfolding n using Entry.prems(2,3) by (simp_all add: *(1) add.assoc)
    with Entry.IH(2) [of ?next c' vs' sub' ys "d\<lparr>cu_header := cu\<rparr>" d] *(2) d(2) obtain ds where
      ds: "unit_dies m secs dbg cu (d\<lparr>cu_header := cu\<rparr>) d ds"
        "list_all2 (\<lambda>e d. reads info str ver start e d \<and> cu_header d = cu) (tops ver ts ?next (Entry c' vs' sub' rest')) ds"
      unfolding n by auto
    have "unit_dies m secs dbg cu die tmp (die # ds)"
      by (rule more_dies [OF d(1) _ ds(1)]) (simp add: dw_codes word_sless_alt)
    moreover have "tops ver ts pos (Entry c vs sub (Entry c' vs' sub' rest')) = ?e # tops ver ts ?next (Entry c' vs' sub' rest')"
      by (simp only: tops.simps(2) [of ver ts pos] Let_def)
    ultimately show ?thesis using ds(2) Entry.prems(4,5) by (intro exI [of _ "die # ds"]) simp
  qed
qed

section \<open>Functions\<close>

text \<open>The range test on an entry. Both ends are excluded, the first by a mistake.\<close>

definition ent_function :: "u64 \<Rightarrow> entry \<Rightarrow> bool" where
  "ent_function addr e \<longleftrightarrow> decl_tag (ent_decl e) = 0x2e
     \<and> (case (ent_num e 0x11, ent_num e 0x12) of (Some lo, Some hi) \<Rightarrow> lo < unat addr \<and> unat addr < hi | _ \<Rightarrow> False)"

lemma num_bound:
  assumes u: "unit_at m secs dbg cu info sz str ver ts start fin" and s: "stored m info ver ts start fin e" and n: "ent_num e a = Some n"
  shows "n < 2 ^ 64"
proof -
  from stored_attrs [OF u s] obtain raw where raw: "enc_vals ver (decl_attrs (ent_decl e)) (ent_vals e) = Some raw" by blast
  from n obtain f where l: "lookup_attr (decl_attrs (ent_decl e)) (ent_vals e) a = Some (f, Num n)"
    by (auto simp: ent_num_def num_attr_def split: option.splits prod.splits dval.splits)
  show ?thesis by (rule enc_num_bound [OF lookup_enc [OF raw l]])
qed

lemma reads_function:
  assumes u: "unit_at m secs dbg cu info sz str ver ts start fin" and s: "stored m info ver ts start fin e" and r: "reads info str ver start e die"
  shows "function_at addr die \<longleftrightarrow> ent_function addr e"
    and "ent_function addr e \<Longrightarrow> die_tag die = DW_TAG_subprogram \<and> pc_inside die addr = Some (of_nat (the (ent_num e 0x11)))"
proof -
  have "decl_tag (ent_decl e) < 2 ^ 31" using stored_attrs(1) [OF u s] by (simp add: decl_ok_def)
  then have tag: "die_tag die = DW_TAG_subprogram \<longleftrightarrow> decl_tag (ent_decl e) = 0x2e"
    using r of_nat_eq_31 [of "decl_tag (ent_decl e)" "0x2e"] by (simp add: reads_def DW_TAG_subprogram_def)
  have c: "(ucast DW_AT_low_pc :: u64) = of_nat 0x11" "(ucast DW_AT_high_pc :: u64) = of_nat 0x12"
    by (simp_all add: DW_AT_low_pc_def DW_AT_high_pc_def)
  have n: "map_option at_u0 (attr_find die DW_AT_low_pc) = map_option of_nat (ent_num e 0x11)"
    "map_option at_u0 (attr_find die DW_AT_high_pc) = map_option of_nat (ent_num e 0x12)"
    using reads_num [OF u s r c(1)] reads_num [OF u s r c(2)] by simp_all
  have lt: "(of_nat k :: u64) < addr \<longleftrightarrow> k < unat addr" "addr < of_nat k \<longleftrightarrow> unat addr < k" if "ent_num e a = Some k" for k a
    using num_bound [OF u s that] by (simp_all add: word_less_nat_alt unat_of_nat)
  have pc: "pc_inside die addr = (case (ent_num e 0x11, ent_num e 0x12) of
      (Some lo, Some hi) \<Rightarrow> if lo < unat addr \<and> unat addr < hi then Some (of_nat lo) else None | _ \<Rightarrow> None)"
    using n lt [of "0x11"] lt [of "0x12"]
    by (cases "ent_num e 0x11"; cases "ent_num e 0x12"; cases "attr_find die DW_AT_low_pc"; cases "attr_find die DW_AT_high_pc")
      (simp_all add: pc_inside_def)
  show "function_at addr die \<longleftrightarrow> ent_function addr e"
    by (auto simp: function_at_def ent_function_def tag pc split: option.splits)
  show "ent_function addr e \<Longrightarrow> die_tag die = DW_TAG_subprogram \<and> pc_inside die addr = Some (of_nat (the (ent_num e 0x11)))"
    by (auto simp: ent_function_def tag pc split: option.splits)
qed

section \<open>Sizes of arguments\<close>

text \<open>
  The size of the type at an offset of the unit: its own, or that of the type it refers to, and 8 where nothing says; for later
  arguments the reference is not followed, and the size before stays. \<open>k\<close> bounds the chain.
\<close>

fun chain_size :: "entry list \<Rightarrow> nat \<Rightarrow> nat option \<Rightarrow> nat option" where
  "chain_size es k None = Some 8"
| "chain_size es 0 (Some v) = None"
| "chain_size es (Suc k) (Some v) =
     (case find (\<lambda>e. ent_pos e = v) es of
        None \<Rightarrow> None
      | Some e \<Rightarrow> (case ent_num e 0x0b of Some n \<Rightarrow> Some n | None \<Rightarrow> chain_size es k (ent_num e 0x49)))"

fun later_sizes :: "entry list \<Rightarrow> nat \<Rightarrow> entry list \<Rightarrow> nat list option" where
  "later_sizes es sz [] = Some []"
| "later_sizes es sz (p # ps) =
     (case (case ent_num p 0x49 of
              None \<Rightarrow> Some sz
            | Some v \<Rightarrow> map_option (\<lambda>e. case ent_num e 0x0b of Some n \<Rightarrow> n | None \<Rightarrow> sz) (find (\<lambda>e. ent_pos e = v) es)) of
        None \<Rightarrow> None
      | Some n \<Rightarrow> map_option (\<lambda>ns. n # ns) (later_sizes es n ps))"

text \<open>The arguments of a function are the parameters its list of entries starts with.\<close>

definition fn_params :: "nat \<Rightarrow> abbrev_decl list \<Rightarrow> entry \<Rightarrow> entry list" where
  "fn_params ver ts e = takeWhile (\<lambda>p. decl_tag (ent_decl p) = 0x05) (tops ver ts (ent_pos e + ent_head e) (ent_sub e))"

definition param_sizes :: "nat \<Rightarrow> abbrev_decl list \<Rightarrow> entry list \<Rightarrow> entry \<Rightarrow> nat list option" where
  "param_sizes ver ts es e =
     (case fn_params ver ts e of
        [] \<Rightarrow> Some []
      | p # ps \<Rightarrow>
          case chain_size es (Suc (length es)) (ent_num p 0x49) of
            None \<Rightarrow> None
          | Some n \<Rightarrow> map_option (\<lambda>ns. n # ns) (later_sizes es n ps))"

lemma offdie_encoded:
  assumes u: "unit_at m secs dbg cu info sz str ver ts start fin" and s: "stored m info ver ts start fin e"
  shows "\<exists>d. dwarf_offdie m secs dbg (cu_offset cu + of_nat (ent_pos e)) tmp cu = cret (DW_DLE_NONE, d) \<and> reads info str ver start e d"
proof -
  from s obtain hb where hb: "head_bytes ver ts (decl_code (ent_decl e)) (ent_vals e) = Some (ent_decl e, hb)" "ent_head e = length hb"
    "holds m (info + of_nat (start + ent_pos e)) hb" "start + ent_pos e + length hb \<le> fin"
    by (auto simp: stored_def)
  have e: "e = ent_of ver ts (ent_pos e) (decl_code (ent_decl e)) (ent_vals e) (ent_sub e)"
    using hb(1,2) by (simp add: ent_of_def)
  from entry_at_encoded [OF u hb(1,3,4) e, of tmp] obtain ab d where
    d: "die_at m secs dbg cu (of_nat (start + ent_pos e)) tmp ab (of_nat (start + ent_pos e + ent_head e)) d" "reads info str ver start e d"
    by blast
  have "cu_offset cu + of_nat (ent_pos e) = of_nat (start + ent_pos e)" using u by (simp add: unit_at_def)
  moreover have "of_nat (start + ent_pos e) < cu_next_offset cu" using d(1) by (simp add: die_at_def in_cu_def)
  ultimately show ?thesis using search_entry [OF d(1), of False 1] d(2)
    by (simp add: dwarf_offdie_def dwarf_search_die_within_cu_def)
qed

lemma find_pos: "find (\<lambda>e. ent_pos e = v) es = Some e \<Longrightarrow> e \<in> set es \<and> ent_pos e = v"
  by (auto simp: find_Some_iff)

lemma attr_codes: "(ucast DW_AT_byte_size :: u64) = of_nat 0x0b" "(ucast DW_AT_type :: u64) = of_nat 0x49"
  by (simp_all add: DW_AT_byte_size_def DW_AT_type_def)

lemma type_size_encoded:
  assumes u: "unit_at m secs dbg cu info sz str ver ts start fin"
  shows "chain_size es k v = Some n \<Longrightarrow> \<forall>e \<in> set es. stored m info ver ts start fin e \<Longrightarrow>
    map_option at_u0 attr = map_option of_nat v \<Longrightarrow> type_size m secs dbg cu attr tmp 8 = cret (of_nat n)"
proof (induction es k v arbitrary: attr tmp rule: chain_size.induct)
  case (1 es k)
  then show ?case by (subst type_size.simps) auto
next
  case (3 es k v)
  then obtain e where e: "find (\<lambda>e. ent_pos e = v) es = Some e" by (auto split: option.splits)
  with 3 find_pos [OF e] have st: "stored m info ver ts start fin e" "ent_pos e = v" by auto
  from 3 obtain a where a: "attr = Some a" "at_u0 a = of_nat v" by auto
  from offdie_encoded [OF u st(1), of tmp] obtain d where d: "dwarf_offdie m secs dbg (cu_offset cu + of_nat v) tmp cu = cret (DW_DLE_NONE, d)"
    "reads info str ver start e d" by (auto simp: st(2))
  note num = reads_num [OF u st(1) d(2) attr_codes(1)] reads_num [OF u st(1) d(2) attr_codes(2)]
  show ?case
  proof (cases "ent_num e 0x0b")
    case None
    with 3 e have "type_size m secs dbg cu (attr_find d DW_AT_type) d 8 = cret (of_nat n)"
      using num(2) by (intro "3.IH") auto
    with None num(1) show ?thesis by (subst type_size.simps) (simp add: a d(1))
  next
    case (Some s)
    with num(1) obtain b where "attr_find d DW_AT_byte_size = Some b" "at_u0 b = of_nat s" by auto
    with 3 e Some show ?thesis by (subst type_size.simps) (simp add: a d(1))
  qed
qed auto

lemma next_type_size_encoded:
  assumes u: "unit_at m secs dbg cu info sz str ver ts start fin" and s: "\<forall>e \<in> set es. stored m info ver ts start fin e"
    and v: "map_option at_u0 attr = map_option of_nat v"
    and n: "(case v of None \<Rightarrow> Some sz0 | Some v \<Rightarrow> map_option (\<lambda>e. case ent_num e 0x0b of Some n \<Rightarrow> n | None \<Rightarrow> sz0) (find (\<lambda>e. ent_pos e = v) es)) = Some n"
  shows "next_type_size m secs dbg cu attr tmp (of_nat sz0) = cret (of_nat n)"
proof (cases v)
  case None
  with v n show ?thesis by (simp add: next_type_size_def)
next
  case (Some w)
  with n obtain e where e: "find (\<lambda>e. ent_pos e = w) es = Some e" "n = (case ent_num e 0x0b of Some n \<Rightarrow> n | None \<Rightarrow> sz0)" by auto
  with s find_pos [OF e(1)] have st: "stored m info ver ts start fin e" "ent_pos e = w" by auto
  from v Some obtain a where a: "attr = Some a" "at_u0 a = of_nat w" by auto
  from offdie_encoded [OF u st(1), of tmp] obtain d where d: "dwarf_offdie m secs dbg (cu_offset cu + of_nat w) tmp cu = cret (DW_DLE_NONE, d)"
    "reads info str ver start e d" by (auto simp: st(2))
  from reads_num [OF u st(1) d(2) attr_codes(1)] have "map_option at_u0 (attr_find d DW_AT_byte_size) = map_option of_nat (ent_num e 0x0b)" by simp
  then show ?thesis using a d(1) e(2)
    by (cases "attr_find d DW_AT_byte_size"; cases "ent_num e 0x0b") (simp_all add: next_type_size_def)
qed

lemma reads_param:
  assumes u: "unit_at m secs dbg cu info sz str ver ts start fin" and s: "stored m info ver ts start fin e" and r: "reads info str ver start e d"
  shows "die_tag d = DW_TAG_formal_parameter \<longleftrightarrow> decl_tag (ent_decl e) = 0x05"
    and "map_option at_u0 (attr_find d DW_AT_type) = map_option of_nat (ent_num e 0x49)"
proof -
  have "decl_tag (ent_decl e) < 2 ^ 31" using stored_attrs(1) [OF u s] by (simp add: decl_ok_def)
  then show "die_tag d = DW_TAG_formal_parameter \<longleftrightarrow> decl_tag (ent_decl e) = 0x05"
    using r of_nat_eq_31 [of "decl_tag (ent_decl e)" "0x05"] by (simp add: reads_def DW_TAG_formal_parameter_def)
  show "map_option at_u0 (attr_find d DW_AT_type) = map_option of_nat (ent_num e 0x49)"
    using reads_num [OF u s r attr_codes(2)] by simp
qed

lemma arg_sizes_encoded:
  assumes u: "unit_at m secs dbg cu info sz str ver ts start fin" and s: "\<forall>e \<in> set es. stored m info ver ts start fin e"
  shows "forest_bytes ver ts pos (Entry c vs sub rest) = Some bs \<Longrightarrow> holds m (info + of_nat (start + pos)) bs \<Longrightarrow>
    start + pos + length bs \<le> fin \<Longrightarrow> e = ent_of ver ts pos c vs sub \<Longrightarrow> reads info str ver start e die \<Longrightarrow>
    later_sizes es n (takeWhile (\<lambda>p. decl_tag (ent_decl p) = 0x05) (tops ver ts (pos + ent_head e + sub_len ver ts e) rest)) = Some ns \<Longrightarrow>
    arg_sizes m secs dbg cu (of_nat n) die tmp (map of_nat ns)"
proof (induction rest arbitrary: pos c vs sub bs e die tmp n ns)
  case End
  from sibling_encoded [OF u End.prems(1-5), of tmp] obtain d where
    "dwarf_siblingof m secs dbg (Some die) tmp cu = cret (DW_DLV_NO_ENTRY, d)" by auto
  then show ?case using End.prems(6) by (auto intro: arg_end simp: dw_codes)
next
  case (Entry c' vs' sub' rest')
  let ?next = "pos + ent_head e + sub_len ver ts e"
  let ?e = "ent_of ver ts ?next c' vs' sub'"
  from sibling_encoded [OF u Entry.prems(1-5), of tmp] obtain d where
    d: "dwarf_siblingof m secs dbg (Some die) tmp cu = cret (DW_DLV_OK, d)" "reads info str ver start ?e d" by auto
  from Entry.prems(1) show ?case
  proof (rule forest_bytes_Entry)
    fix dc hb xs ys
    assume *: "bs = hb @ xs @ ys" "forest_bytes ver ts (pos + length hb + length xs) (Entry c' vs' sub' rest') = Some ys"
      "ent_of ver ts pos c vs sub = \<lparr>ent_pos = pos, ent_decl = dc, ent_head = length hb, ent_vals = vs, ent_sub = sub\<rparr>"
      "sub_len ver ts (ent_of ver ts pos c vs sub) = length xs"
    have n: "?next = pos + length hb + length xs" using *(4) by (simp add: Entry.prems(4) *(3))
    have h: "holds m (info + of_nat (start + ?next)) ys" "start + ?next + length ys \<le> fin"
      unfolding n using Entry.prems(2,3) by (simp_all add: *(1) add.assoc)
    have f: "forest_bytes ver ts ?next (Entry c' vs' sub' rest') = Some ys" using *(2) by (simp only: n)
    have st: "stored m info ver ts start fin ?e" using forest_stored [OF f h] by (simp add: Let_def)
    note par = reads_param [OF u st d(2)]
    have tops: "tops ver ts ?next (Entry c' vs' sub' rest') = ?e # tops ver ts (?next + ent_head ?e + sub_len ver ts ?e) rest'"
      by (simp only: tops.simps(2) [of ver ts ?next] Let_def)
    show ?thesis
    proof (cases "decl_tag (ent_decl ?e) = 0x05")
      case False
      then have "ns = []" using Entry.prems(6) unfolding tops by simp
      with False d(1) par(1) show ?thesis by (auto intro: arg_end)
    next
      case True
      from Entry.prems(6) True obtain k ks where k: "(case ent_num ?e 0x49 of None \<Rightarrow> Some n
          | Some v \<Rightarrow> map_option (\<lambda>e. case ent_num e 0x0b of Some n \<Rightarrow> n | None \<Rightarrow> n) (find (\<lambda>e. ent_pos e = v) es)) = Some k"
        "later_sizes es k (takeWhile (\<lambda>p. decl_tag (ent_decl p) = 0x05) (tops ver ts (?next + ent_head ?e + sub_len ver ts ?e) rest')) = Some ks"
        "ns = k # ks"
        unfolding tops by (simp split: option.splits)
      have "next_type_size m secs dbg cu (attr_find d DW_AT_type) die (of_nat n) = cret (of_nat k)"
        by (rule next_type_size_encoded [OF u s par(2) k(1)])
      moreover have "arg_sizes m secs dbg cu (of_nat k) d d (map of_nat ks)"
        by (rule Entry.IH(2) [OF f h refl d(2) k(2)])
      ultimately show ?thesis using d(1) par(1) True by (simp add: k(3) arg_next)
    qed
  qed
qed

lemma fn_args_encoded:
  assumes u: "unit_at m secs dbg cu info sz str ver ts start fin" and s: "\<forall>e \<in> set es. stored m info ver ts start fin e"
    and e: "stored m info ver ts start fin e" and r: "reads info str ver start e die" and n: "param_sizes ver ts es e = Some ns"
  shows "fn_args m secs dbg cu die tmp (map of_nat ns)"
proof (cases "ent_sub e")
  case End
  with n have "ns = []" by (simp add: param_sizes_def fn_params_def)
  with child_encoded [OF u e r, of tmp] End show ?thesis by (auto intro: no_args)
next
  case (Entry c vs sub rest)
  let ?pos = "ent_pos e + ent_head e"
  let ?e = "ent_of ver ts ?pos c vs sub"
  from child_encoded [OF u e r, of tmp] Entry obtain d where
    d: "dwarf_child m secs dbg cu die tmp = cret (DW_DLV_OK, d)" "reads info str ver start ?e d" by auto
  from Entry have "ent_sub e \<noteq> End" by simp
  with e obtain xs where xs: "forest_bytes ver ts ?pos (ent_sub e) = Some xs" "holds m (info + of_nat (start + ?pos)) xs" "start + ?pos + length xs \<le> fin"
    by (auto simp: stored_def sub_len_def add.assoc)
  have st: "stored m info ver ts start fin ?e" using forest_stored [OF xs] Entry by (simp add: Let_def)
  note par = reads_param [OF u st d(2)]
  have tops: "tops ver ts ?pos (ent_sub e) = ?e # tops ver ts (?pos + ent_head ?e + sub_len ver ts ?e) rest"
    by (simp only: Entry tops.simps(2) [of ver ts ?pos] Let_def)
  show ?thesis
  proof (cases "decl_tag (ent_decl ?e) = 0x05")
    case False
    then have "ns = []" using n unfolding param_sizes_def fn_params_def tops by simp
    with False d(1) par(1) show ?thesis by (auto intro: no_args)
  next
    case True
    with n obtain k ks where k: "chain_size es (Suc (length es)) (ent_num ?e 0x49) = Some k"
      "later_sizes es k (takeWhile (\<lambda>p. decl_tag (ent_decl p) = 0x05) (tops ver ts (?pos + ent_head ?e + sub_len ver ts ?e) rest)) = Some ks"
      "ns = k # ks"
      unfolding param_sizes_def fn_params_def tops by (auto split: option.splits)
    have "type_size m secs dbg cu (attr_find d DW_AT_type) die 8 = cret (of_nat k)"
      by (rule type_size_encoded [OF u k(1) s par(2)])
    moreover have "arg_sizes m secs dbg cu (of_nat k) d d (map of_nat ks)"
      by (rule arg_sizes_encoded [OF u s xs(1) [unfolded Entry] xs(2,3) refl d(2) k(2)])
    moreover have "DW_DLV_OK \<noteq> DW_DLE_NO_ENTRY" by (simp add: dw_codes)
    ultimately show ?thesis using par(1) True k(3) first_arg [OF d(1)] by simp
  qed
qed

section \<open>Units\<close>

text \<open>
  A unit: its version, where its abbreviations lie, the abbreviations, code and values of its entry, the entries below, and the
  line number unit its \<^verbatim>\<open>DW_AT_stmt_list\<close> points at.
\<close>

record dunit =
  un_version :: nat
  un_table_pos :: nat
  un_table :: "abbrev_decl list"
  un_code :: nat
  un_vals :: "dval list"
  un_top :: forest
  un_lines :: "line_unit option"

definition un_forest :: "dunit \<Rightarrow> forest" where
  "un_forest u = Entry (un_code u) (un_vals u) (un_top u) End"

definition un_root :: "dunit \<Rightarrow> entry" where
  "un_root u = ent_of (un_version u) (un_table u) 11 (un_code u) (un_vals u) (un_top u)"

definition un_entries :: "dunit \<Rightarrow> entry list" where
  "un_entries u = all_entries (un_version u) (un_table u) 11 (un_forest u)"

definition un_tops :: "dunit \<Rightarrow> entry list" where
  "un_tops u = tops (un_version u) (un_table u) (11 + ent_head (un_root u)) (un_top u)"

text \<open>The unit's entry and what is below it, without the null entry that ends a list, behind the header.\<close>

definition un_bytes :: "dunit \<Rightarrow> u8 list option" where
  "un_bytes u =
     (case forest_bytes (un_version u) (un_table u) 11 (un_forest u) of
        None \<Rightarrow> None
      | Some bs \<Rightarrow>
          if 2 \<le> un_version u \<and> un_version u \<le> 4 \<and> un_table_pos u < 2 ^ 31 then
            Some (le_bytes 4 (of_nat (7 + length (butlast bs))) @ le_bytes 2 (of_nat (un_version u))
              @ le_bytes 4 (of_nat (un_table_pos u)) @ [8] @ butlast bs)
          else None)"

fun info_bytes :: "dunit list \<Rightarrow> u8 list option" where
  "info_bytes [] = Some []"
| "info_bytes (u # us) =
     (case (un_bytes u, info_bytes us) of (Some x, Some xs) \<Rightarrow> Some (x @ xs) | _ \<Rightarrow> None)"

text \<open>The abbreviations and the line numbers of a unit, in their sections.\<close>

definition abbrevs_stored :: "mem \<Rightarrow> dwarf_section list \<Rightarrow> dunit \<Rightarrow> bool" where
  "abbrevs_stored m secs u \<longleftrightarrow>
     (case dwarf_find_section secs ''.debug_abbrev'' of
        None \<Rightarrow> False
      | Some ds \<Rightarrow> holds m (ds_data ds + of_nat (un_table_pos u)) (table_bytes (un_table u)) \<and> (\<forall>d \<in> set (un_table u). decl_ok d)
          \<and> un_table_pos u + length (table_bytes (un_table u)) \<le> unat (ds_size ds))"

definition lines_stored :: "mem \<Rightarrow> dwarf_section list \<Rightarrow> dunit \<Rightarrow> bool" where
  "lines_stored m secs u \<longleftrightarrow>
     (case (ent_num (un_root u) 0x10, un_lines u) of
        (None, None) \<Rightarrow> True
      | (Some n, Some lu) \<Rightarrow>
          (case dwarf_find_section secs ''.debug_line'' of
             None \<Rightarrow> False
           | Some ds \<Rightarrow> holds m (ds_data ds + of_nat n) (unit_bytes lu) \<and> unit_ok lu \<and> n + length (unit_bytes lu) \<le> unat (ds_size ds)
               \<and> unat (ds_size ds) < 2 ^ 31 \<and> unat (ds_data ds) + unat (ds_size ds) < 2 ^ 64)
      | _ \<Rightarrow> False)"

text \<open>
  The line of an address: that of the last row up to it, and 0 where there is none. The rows that end a sequence are not among them, as the
  code drops them (\<open>end_sequence_loses_end\<close>); in the standard's table this is the row that covers the address, where one does
  (\<open>covering_row_found\<close>).
\<close>

definition un_line :: "u64 \<Rightarrow> dunit \<Rightarrow> dwarf_line" where
  "un_line addr u =
     (case un_lines u of
        None \<Rightarrow> line0
      | Some lu \<Rightarrow> last (line0 # rows_to addr (line_table (unit_info lu) (lu_prog lu) (reset_registers (unit_info lu)))))"

text \<open>The first top-level function that holds the address, with its unit.\<close>

fun find_fn :: "u64 \<Rightarrow> dunit list \<Rightarrow> (dunit \<times> entry) option" where
  "find_fn addr [] = None"
| "find_fn addr (u # us) =
     (case find (ent_function addr) (un_tops u) of Some e \<Rightarrow> Some (u, e) | None \<Rightarrow> find_fn addr us)"

lemma find_fn_function: "find_fn addr us = Some (u, e) \<Longrightarrow> ent_function addr e"
  by (induction us) (auto simp: find_Some_iff split: option.splits)

text \<open>\<open>unit_mem\<close>: the unit lies at \<open>start\<close> in memory, and \<open>cu\<close> is its header read.\<close>

definition unit_mem :: "mem \<Rightarrow> dwarf_section list \<Rightarrow> dwarf_debug \<Rightarrow> dwarf_cu \<Rightarrow> u64 \<Rightarrow> u64 \<Rightarrow> u64 \<Rightarrow> nat \<Rightarrow> dunit \<Rightarrow> bool" where
  "unit_mem m secs dbg cu info sz str start u \<longleftrightarrow>
     unit_at m secs dbg cu info sz str (un_version u) (un_table u) start (start + length (the (un_bytes u)))
     \<and> (\<forall>e \<in> set (un_entries u). stored m info (un_version u) (un_table u) start (start + length (the (un_bytes u))) e)"

lemma num_at:
  assumes "holds m p (le_bytes k (of_nat v))" "v < 256 ^ k" "v < 2 ^ 64"
  shows "le_val (bytes m p k) = v"
  using assms by (simp add: holds_def le_val_le_bytes unat_of_nat)

lemma unit_header:
  assumes u: "un_bytes u = Some bs" and fl: "file_at m secs dbg info sz str" and h: "holds m (info + of_nat start) bs"
    and room: "start + length bs \<le> unat sz" "unat sz < 2 ^ 31" and off: "curr_off_dbginfo dbg = of_nat start"
    and ab: "abbrevs_stored m secs u"
  shows "\<exists>cu'. get_next_cu m dbg cu = (0, dbg\<lparr>curr_off_dbginfo := of_nat (start + length bs)\<rparr>, cu')
    \<and> unit_mem m secs (dbg\<lparr>curr_off_dbginfo := of_nat (start + length bs)\<rparr>) cu' info sz str start u
    \<and> cu_die_offset cu' = cu_offset cu' + of_nat 11"
proof -
  let ?ver = "un_version u" and ?ts = "un_table u"
  from u obtain fs where fs: "forest_bytes ?ver ?ts 11 (un_forest u) = Some fs" and v: "2 \<le> ?ver" "?ver \<le> 4" and t: "un_table_pos u < 2 ^ 31"
    and bs: "bs = le_bytes 4 (of_nat (7 + length (butlast fs))) @ le_bytes 2 (of_nat ?ver) @ le_bytes 4 (of_nat (un_table_pos u)) @ [8] @ butlast fs"
    by (auto simp: un_bytes_def split: option.splits if_splits)
  let ?len = "7 + length (butlast fs)" and ?p = "info + of_nat start"
  have len: "length bs = 4 + ?len" by (simp add: bs)
  then have l31: "?len < 2 ^ 31" using room by linarith
  have nums: "le_val (bytes m ?p 4) = ?len" "le_val (bytes m (?p + 4) 2) = ?ver" "le_val (bytes m (?p + 6) 4) = un_table_pos u"
    "le_val (bytes m (?p + 10) 1) = 8"
  proof -
    have "holds m ?p (le_bytes 4 (of_nat ?len))" "holds m (?p + 4) (le_bytes 2 (of_nat ?ver))"
      "holds m (?p + 6) (le_bytes 4 (of_nat (un_table_pos u)))" "m (?p + 10) = 8"
      using h by (simp_all add: bs add.assoc)
    then show "le_val (bytes m ?p 4) = ?len" "le_val (bytes m (?p + 4) 2) = ?ver" "le_val (bytes m (?p + 6) 4) = un_table_pos u"
      "le_val (bytes m (?p + 10) 1) = 8"
      using l31 v t by (intro num_at; simp)+
  qed
  have d: "dbg_read dbg = dwarf_read_lsb" "dbg_info_offset_elf dbg = info" "dbg_info_size dbg = sz" using fl by (auto simp: file_at_def)
  let ?cu = "cu_of_header le_val m info (of_nat start)" and ?dbg = "dbg\<lparr>curr_off_dbginfo := of_nat (start + length bs)\<rparr>"
  have st: "of_nat start \<le> sz" using room by (simp add: word_le_nat_alt unat_of_nat_31)
  have "get_next_cu m dbg cu = (0, dbg\<lparr>curr_off_dbginfo := of_nat start + 4 + of_nat ?len\<rparr>, ?cu)"
    using lsb.get_next_cu_header [OF d(1), of "of_nat start" ?len m ?ver cu] off st nums v l31 by (simp add: d add.assoc)
  then have g: "get_next_cu m dbg cu = (0, ?dbg, ?cu)" by (simp add: len add.assoc)
  have cu: "cu_is ?cu ?ver" "cu_offset ?cu = of_nat start" "cu_next_offset ?cu = of_nat (start + length bs)"
    "debug_abbrev_offset ?cu = of_nat (un_table_pos u)" "cu_die_offset ?cu = cu_offset ?cu + of_nat 11"
    using nums v by (simp_all add: cu_of_header_def cu_is_def Let_def len add.assoc)
  have ua: "unit_at m secs ?dbg ?cu info sz str ?ver ?ts start (start + length bs)"
    using fl cu ab room unat_of_nat_31 [OF t] by (auto simp: unit_at_def file_at_def abbrevs_stored_def split: option.splits)
  have "\<forall>e \<in> set (un_entries u). stored m info ?ver ?ts start (start + length bs) e"
    using fs unfolding un_forest_def
  proof (rule forest_bytes_Entry)
    fix d hb xs ys
    assume *: "head_bytes ?ver ?ts (un_code u) (un_vals u) = Some (d, hb)" "fs = hb @ xs @ ys" "entry_ok d (un_vals u) (11 + length hb + length xs)"
      "forest_bytes ?ver ?ts (11 + length hb + length xs) End = Some ys"
      "decl_children d = 0 \<and> un_top u = End \<and> xs = [] \<or>
        decl_children d = 1 \<and> un_top u \<noteq> End \<and> forest_bytes ?ver ?ts (11 + length hb) (un_top u) = Some xs"
      "ent_of ?ver ?ts 11 (un_code u) (un_vals u) (un_top u)
        = \<lparr>ent_pos = 11, ent_decl = d, ent_head = length hb, ent_vals = un_vals u, ent_sub = un_top u\<rparr>"
      "sub_len ?ver ?ts (ent_of ?ver ?ts 11 (un_code u) (un_vals u) (un_top u)) = length xs"
    let ?e = "ent_of ?ver ?ts 11 (un_code u) (un_vals u) (un_top u)"
    have c: "decl_code d = un_code u" using *(1) decl_of_code by (auto simp: head_bytes_def split: option.splits)
    have "ys = [0]" using *(4) by simp
    then have fs': "butlast fs = hb @ xs" by (simp add: *(2) butlast_append)
    have h': "holds m (info + of_nat (start + 11)) hb" "holds m (info + of_nat (start + (11 + length hb))) xs"
      using h by (simp_all add: bs fs' add.assoc)
    have l: "length bs = 11 + length hb + length xs" by (simp add: len fs')
    then have "stored m info ?ver ?ts start (start + length bs) ?e"
      using * c h' unfolding stored_def *(7) by (auto simp: *(6) add.assoc)
    moreover have "\<forall>e \<in> set (all_entries ?ver ?ts (11 + length hb) (un_top u)). stored m info ?ver ?ts start (start + length bs) e"
      using *(5) forest_stored [OF _ h'(2), of ?ver ?ts "un_top u" "start + length bs"] l by auto
    ultimately show ?thesis by (simp add: un_entries_def un_forest_def Let_def) (simp add: *(6))
  qed
  then show ?thesis using g ua u cu(5) by (auto simp: unit_mem_def)
qed

lemma tops_entries: "set (un_tops u) \<subseteq> set (un_entries u)" and root_entries: "un_root u \<in> set (un_entries u)"
  using tops_all [of "un_version u" "un_table u" "11 + ent_head (un_root u)" "un_top u"]
  by (auto simp: un_tops_def un_entries_def un_forest_def un_root_def Let_def)

text \<open>The part of the loop over the units that handles one of them: the entry for the address is found, or the walk goes on.\<close>

lemma unit_step:
  assumes u: "un_bytes u = Some bs" and fl: "file_at m secs dbg info sz str" and h: "holds m (info + of_nat start) bs"
    and room: "start + length bs \<le> unat sz" "unat sz < 2 ^ 31" and off: "curr_off_dbginfo dbg = of_nat start"
    and ab: "abbrevs_stored m secs u" and dbg': "dbg' = dbg\<lparr>curr_off_dbginfo := of_nat (start + length bs)\<rparr>"
  shows "case find (ent_function addr) (un_tops u) of
      None \<Rightarrow> \<exists>cu' cudie' die' die2'. units_loop m secs addr junk dbg cu cudie die die2 info0
        = units_loop m secs addr junk dbg' cu' cudie' die' die2' info0
    | Some e \<Rightarrow> \<exists>cu' cudie' d. units_loop m secs addr junk dbg cu cudie die die2 info0
        = cbind (list_func_die m secs dbg' info0 d cudie' addr junk) (\<lambda>(found, info'). cret (0, dbg', info'))
        \<and> unit_mem m secs dbg' cu' info sz str start u \<and> cu_header d = cu' \<and> cu_header cudie' = cu'
        \<and> reads info str (un_version u) start (un_root u) cudie' \<and> reads info str (un_version u) start e d"
proof -
  let ?ver = "un_version u" and ?ts = "un_table u"
  from unit_header [OF u fl h room off ab, of cu] obtain cu' where g: "get_next_cu m dbg cu = (0, dbg', cu')"
    and um: "unit_mem m secs dbg' cu' info sz str start u" and co: "cu_die_offset cu' = cu_offset cu' + of_nat 11"
    unfolding dbg' by blast
  have ua: "unit_at m secs dbg' cu' info sz str ?ver ?ts start (start + length bs)"
    and st: "\<And>e. e \<in> set (un_entries u) \<Longrightarrow> stored m info ?ver ?ts start (start + length bs) e"
    using um u by (auto simp: unit_mem_def)
  have root: "stored m info ?ver ?ts start (start + length bs) (un_root u)" by (rule st [OF root_entries])
  have pos: "ent_pos (un_root u) = 11" "ent_sub (un_root u) = un_top u" by (simp_all add: un_root_def ent_of_def split: prod.split)
  from offdie_encoded [OF ua root, of cudie] obtain cd where
    cd: "dwarf_siblingof m secs dbg' None cudie cu' = cret (DW_DLE_NONE, cd)" "reads info str ?ver start (un_root u) cd"
    by (auto simp: pos co dwarf_siblingof_def)
  let ?cd = "cd\<lparr>cu_header := cu'\<rparr>"
  have r: "reads info str ?ver start (un_root u) ?cd" using cd(2) by simp
  note child = child_encoded [OF ua root r, of die]
  show ?thesis
  proof (cases "un_top u")
    case End
    then have "un_tops u = []" by (simp add: un_tops_def)
    moreover have "units_loop m secs addr junk dbg cu cudie die die2 info0 = units_loop m secs addr junk dbg' cu' ?cd die die2 info0"
      using child End g cd(1) by (subst units_loop.simps) (simp add: pos dw_codes)
    ultimately show ?thesis by auto
  next
    case (Entry c vs sub rest)
    let ?pos = "11 + ent_head (un_root u)"
    from child Entry obtain d0 where d0: "dwarf_child m secs dbg' cu' ?cd die = cret (DW_DLV_OK, d0)"
      "reads info str ?ver start (ent_of ?ver ?ts ?pos c vs sub) d0" by (auto simp: pos)
    from Entry have "un_top u \<noteq> End" by simp
    with root obtain xs where xs: "forest_bytes ?ver ?ts ?pos (un_top u) = Some xs" "holds m (info + of_nat (start + ?pos)) xs"
      "start + ?pos + length xs \<le> start + length bs"
      by (auto simp: stored_def sub_len_def pos add.assoc)
    have "reads info str ?ver start (ent_of ?ver ?ts ?pos c vs sub) (d0\<lparr>cu_header := cu'\<rparr>)" using d0(2) by simp
    from unit_dies_encoded [OF ua xs(1) [unfolded Entry] xs(2,3) this, of die2] obtain ds where
      ds: "unit_dies m secs dbg' cu' (d0\<lparr>cu_header := cu'\<rparr>) die2 ds"
        "list_all2 (\<lambda>e d. reads info str ?ver start e d \<and> cu_header d = cu') (un_tops u) ds"
      by (auto simp: un_tops_def Entry)
    have find: "case find (ent_function addr) es of
        None \<Rightarrow> find (function_at addr) ds = None
      | Some e \<Rightarrow> \<exists>d. find (function_at addr) ds = Some d \<and> reads info str ?ver start e d \<and> cu_header d = cu'"
      if "list_all2 (\<lambda>e d. reads info str ?ver start e d \<and> cu_header d = cu') es ds" "set es \<subseteq> set (un_entries u)" for es ds
      using that
    proof (induction rule: list_all2_induct)
      case (Cons e es d ds)
      have "function_at addr d \<longleftrightarrow> ent_function addr e"
        using reads_function(1) [OF ua st, of e d] Cons by auto
      with Cons show ?case by (cases "ent_function addr e") (auto split: option.splits)
    qed simp
    note chain = dies_loop_chain [OF ds(1), where addr = addr and cudie = ?cd and junk = junk and info = info0]
    have loop: "units_loop m secs addr junk dbg cu cudie die die2 info0 =
        cbind (dies_loop m secs dbg' cu' ?cd addr junk (d0\<lparr>cu_header := cu'\<rparr>) die2 info0) (\<lambda>(found, die, die2, info).
                  if found then cret (0, dbg', info)
                  else units_loop m secs addr junk dbg' cu' ?cd die die2 info)"
      using g cd(1) d0(1) by (subst units_loop.simps) (simp add: dw_codes Let_def)
    show ?thesis
    proof (cases "find (ent_function addr) (un_tops u)")
      case None
      with find [OF ds(2) tops_entries] have "find (function_at addr) ds = None" by simp
      with chain obtain d1 d2 where "dies_loop m secs dbg' cu' ?cd addr junk (d0\<lparr>cu_header := cu'\<rparr>) die2 info0 = cret (False, d1, d2, info0)" by auto
      then have "units_loop m secs addr junk dbg cu cudie die die2 info0 = units_loop m secs addr junk dbg' cu' ?cd d1 d2 info0"
        unfolding loop by simp
      with None show ?thesis by (simp only: option.case) blast
    next
      case (Some e)
      with find [OF ds(2) tops_entries] obtain d where
        d: "find (function_at addr) ds = Some d" "reads info str ?ver start e d" "cu_header d = cu'" by auto
      from chain d(1) obtain d2 where "dies_loop m secs dbg' cu' ?cd addr junk (d0\<lparr>cu_header := cu'\<rparr>) die2 info0
          = cbind (list_func_die m secs dbg' info0 d ?cd addr junk) (\<lambda>(found, info'). cret (True, d, d2, info'))" by auto
      then have "units_loop m secs addr junk dbg cu cudie die die2 info0
          = cbind (list_func_die m secs dbg' info0 d ?cd addr junk) (\<lambda>(found, info'). cret (0, dbg', info'))"
        unfolding loop by (simp add: cbind_assoc case_prod_unfold)
      moreover have "cu_header ?cd = cu'" by simp
      ultimately show ?thesis unfolding Some option.case using um d(2,3) r by blast
    qed
  qed
qed

text \<open>The bytes behind the section, which \<^verbatim>\<open>_get_next_cu\<close> reads when the last unit ends the section, are not another unit.\<close>

definition no_unit_behind :: "mem \<Rightarrow> u64 \<Rightarrow> bool" where
  "no_unit_behind m p \<longleftrightarrow> le_val (bytes m p 4) < 0xffffffff \<and> \<not> (2 \<le> le_val (bytes m (p + 4) 2) \<and> le_val (bytes m (p + 4) 2) \<le> 4)"

text \<open>
  \<open>stops_at\<close>: the result \<open>run\<close> of a walk is what \<^verbatim>\<open>list_func_die\<close> makes of the entry \<open>e\<close> of the unit \<open>u\<close>, both read from memory.
\<close>

definition stops_at ::
    "mem \<Rightarrow> dwarf_section list \<Rightarrow> u64 \<Rightarrow> u64 \<Rightarrow> u64 \<Rightarrow> u64 \<Rightarrow> dwarf_die \<Rightarrow> ripinfo \<Rightarrow> dunit \<Rightarrow> entry \<Rightarrow> (i32 \<times> dwarf_debug \<times> ripinfo) cres \<Rightarrow> bool" where
  "stops_at m secs info sz str addr junk i0 u e run \<longleftrightarrow> e \<in> set (un_entries u) \<and> (\<exists>dbg cu cudie d start. file_at m secs dbg info sz str
     \<and> run = cbind (list_func_die m secs dbg i0 d cudie addr junk) (\<lambda>(found, i). cret (0, dbg, i))
     \<and> unit_mem m secs dbg cu info sz str start u \<and> cu_header d = cu \<and> cu_header cudie = cu
     \<and> reads info str (un_version u) start (un_root u) cudie \<and> reads info str (un_version u) start e d)"

lemma units_encoded:
  "info_bytes us = Some bs \<Longrightarrow> file_at m secs dbg info sz str \<Longrightarrow> holds m (info + of_nat start) bs \<Longrightarrow> start + length bs = unat sz \<Longrightarrow>
   unat sz < 2 ^ 31 \<Longrightarrow> curr_off_dbginfo dbg = of_nat start \<Longrightarrow> \<forall>u \<in> set us. abbrevs_stored m secs u \<Longrightarrow>
   case find_fn addr us of
      None \<Rightarrow> no_unit_behind m (info + sz) \<longrightarrow> (\<exists>dbg'. units_loop m secs addr junk dbg cu cudie die die2 info0 = cret (- 1, dbg', info0))
    | Some (u, e) \<Rightarrow> u \<in> set us \<and> stops_at m secs info sz str addr junk info0 u e (units_loop m secs addr junk dbg cu cudie die die2 info0)"
proof (induction us arbitrary: bs dbg start cu cudie die die2)
  case Nil
  have "fst (get_next_cu m dbg cu) = - 1" if "no_unit_behind m (info + sz)"
  proof (rule lsb.get_next_cu_bad_version)
    have sz: "(of_nat start :: u64) = sz" using Nil by (simp add: word_unat_eq_iff unat_of_nat_31)
    show "dbg_read dbg = dwarf_read_lsb" "sz = curr_off_dbginfo dbg" "sz \<le> dbg_info_size dbg"
      using Nil sz by (auto simp: file_at_def)
    show "le_val (bytes m (dbg_info_offset_elf dbg + sz) 4) < 0xffffffff" "le_val (bytes m (info + sz + 4) 2) = le_val (bytes m (dbg_info_offset_elf dbg + sz + 4) 2)"
      "\<not> (2 \<le> le_val (bytes m (info + sz + 4) 2) \<and> le_val (bytes m (info + sz + 4) 2) \<le> 4)"
      using that Nil by (auto simp: no_unit_behind_def file_at_def)
  qed
  then show ?case by (auto simp: units_loop.simps Let_def split_beta)
next
  case (Cons u us)
  then obtain x xs where x: "un_bytes u = Some x" "info_bytes us = Some xs" "bs = x @ xs" by (auto split: option.splits)
  let ?dbg = "dbg\<lparr>curr_off_dbginfo := of_nat (start + length x)\<rparr>"
  have h: "holds m (info + of_nat start) x" "holds m (info + of_nat (start + length x)) xs"
    using Cons.prems(3) by (simp_all add: x(3) add.assoc)
  have len: "start + length x \<le> unat sz" "start + length x + length xs = unat sz" using Cons.prems(4) by (simp_all add: x(3))
  have fl: "file_at m secs ?dbg info sz str" using Cons.prems(2) by (simp add: file_at_def)
  have ab: "abbrevs_stored m secs u" using Cons.prems(7) by simp
  note step = unit_step [OF x(1) Cons.prems(2) h(1) len(1) Cons.prems(5,6) ab refl, of addr junk cu cudie die die2 info0]
  show ?case
  proof (cases "find (ent_function addr) (un_tops u)")
    case (Some e)
    then have "e \<in> set (un_tops u)" by (auto simp: find_Some_iff)
    then have "e \<in> set (un_entries u)" using tops_entries by blast
    moreover have "u \<in> set (u # us)" "find_fn addr (u # us) = Some (u, e)" using Some by simp_all
    moreover have "stops_at m secs info sz str addr junk info0 u e (units_loop m secs addr junk dbg cu cudie die die2 info0)"
      if "e \<in> set (un_entries u)" using step [unfolded Some option.case] fl that unfolding stops_at_def by blast
    ultimately show ?thesis by simp
  next
    case None
    with step obtain cu' cudie' die' die2' where eq: "units_loop m secs addr junk dbg cu cudie die die2 info0
        = units_loop m secs addr junk ?dbg cu' cudie' die' die2' info0" by auto
    have "curr_off_dbginfo ?dbg = of_nat (start + length x)" by simp
    with Cons.IH [OF x(2) fl h(2) len(2) Cons.prems(5), of cu' cudie' die' die2'] Cons.prems(7) None show ?thesis
      unfolding eq by (auto split: option.splits)
  qed
qed

lemma srclines_encoded:
  assumes um: "unit_mem m secs dbg cu info sz str start u" and fl: "file_at m secs dbg info sz str"
    and r: "reads info str (un_version u) start (un_root u) die" and cu: "cu_header die = cu" and ls: "lines_stored m secs u"
  shows "\<exists>r. dwarf_srclines m secs dbg die line0 addr = cret (r, un_line addr u)"
proof -
  have ua: "unit_at m secs dbg cu info sz str (un_version u) (un_table u) start (start + length (the (un_bytes u)))"
    and st: "stored m info (un_version u) (un_table u) start (start + length (the (un_bytes u))) (un_root u)"
    using um root_entries by (auto simp: unit_mem_def)
  have "(ucast (0x10 :: u16) :: u64) = of_nat 0x10" by simp
  then have num: "map_option at_u0 (attr_find die 0x10) = map_option of_nat (ent_num (un_root u) 0x10)"
    by (intro reads_num [OF ua st r]) simp_all
  show ?thesis
  proof (cases "un_lines u")
    case None
    with ls num have "attr_find die 0x10 = None" by (auto simp: lines_stored_def split: option.splits)
    with None show ?thesis by (simp add: dwarf_srclines_def un_line_def)
  next
    case (Some lu)
    with ls obtain n ds where n: "ent_num (un_root u) 0x10 = Some n" "dwarf_find_section secs ''.debug_line'' = Some ds"
      "holds m (ds_data ds + of_nat n) (unit_bytes lu)" "unit_ok lu" "n + length (unit_bytes lu) \<le> unat (ds_size ds)"
      "unat (ds_size ds) < 2 ^ 31" "unat (ds_data ds) + unat (ds_size ds) < 2 ^ 64"
      by (auto simp: lines_stored_def split: option.splits)
    from num n(1) obtain at where at: "attr_find die 0x10 = Some at" "at_u0 at = of_nat n" by auto
    have "n < 2 ^ 31" using n(5,6) by simp
    then have room: "unat (of_nat n :: u64) + length (unit_bytes lu) \<le> unat (ds_size ds)" using n(5) by (simp add: unat_of_nat_31)
    have dbg: "dbg_read dbg = dwarf_read_lsb" "dbg_decode dbg = dwarf_decode_lsb" "addr_size (cu_header die) = 8"
      using fl ua cu by (auto simp: file_at_def unit_at_def cu_is_def)
    have "li_line (unit_info lu) = line0" by (simp add: unit_info_def lineinfo0_def)
    with lineno_init_encoded [OF n(2-4) room n(6,7) dbg, of addr] at show ?thesis
      by (simp add: dwarf_srclines_def dw_codes found_line_def un_line_def Some)
  qed
qed

section \<open>Properties\<close>

text \<open>The whole of the debugging information, in its sections: all units, each with its abbreviations and line numbers.\<close>

definition debug_stored :: "mem \<Rightarrow> dwarf_section list \<Rightarrow> dwarf_section \<Rightarrow> dwarf_section \<Rightarrow> dunit list \<Rightarrow> bool" where
  "debug_stored m secs ds st us \<longleftrightarrow> dwarf_find_section secs ''.debug_info'' = Some ds \<and> dwarf_find_section secs ''.debug_str'' = Some st
     \<and> (case info_bytes us of
          None \<Rightarrow> False
        | Some bs \<Rightarrow> holds m (ds_data ds) bs \<and> unat (ds_size ds) = length bs \<and> 0 < length bs \<and> length bs < 2 ^ 31)
     \<and> (\<forall>u \<in> set us. abbrevs_stored m secs u \<and> lines_stored m secs u)"

text \<open>What \<^verbatim>\<open>*info\<close> says of a function of a unit.\<close>

definition describes :: "mem \<Rightarrow> u64 \<Rightarrow> u8 list \<Rightarrow> u8 list \<Rightarrow> nat list \<Rightarrow> dunit \<Rightarrow> entry \<Rightarrow> ripinfo \<Rightarrow> bool" where
  "describes m addr file nm ns u e i \<longleftrightarrow> cstr m (rip_file i) file \<and> cstr m (rip_fn_name i) nm \<and> rip_fn_namelen i = of_nat (length nm)
     \<and> rip_fn_addr i = of_nat (the (ent_num e 0x11)) \<and> rip_line i = ucast (ln_lineno (un_line addr u))
     \<and> rip_fn_narg i = length ns \<and> take (length ns) (size_fn_arg i) = map of_nat ns"

lemma ucast_of_nat_i32: "(ucast (of_nat n :: u64) :: i32) = of_nat n"
  by (simp add: unsigned_of_nat word_of_nat_eq_iff)

lemma list_func_die_encoded:
  assumes um: "unit_mem m secs dbg cu info sz str start u" and fl: "file_at m secs dbg info sz str" and ls: "lines_stored m secs u"
    and root: "reads info str (un_version u) start (un_root u) cudie" "cu_header cudie = cu" "ent_name m str (un_root u) file"
    and e: "e \<in> set (un_entries u)" "reads info str (un_version u) start e d" "cu_header d = cu" "ent_function addr e" "ent_name m str e nm"
    and ns: "param_sizes (un_version u) (un_table u) (un_entries u) e = Some ns" and len: "length (size_fn_arg i) = 10"
  shows "if length ns \<le> 10 then \<exists>i'. list_func_die m secs dbg i d cudie addr junk = cret (1, i') \<and> describes m addr file nm ns u e i'
    else list_func_die m secs dbg i d cudie addr junk = cfail Undefined"
proof -
  have ua: "unit_at m secs dbg cu info sz str (un_version u) (un_table u) start (start + length (the (un_bytes u)))"
    and st: "\<forall>e \<in> set (un_entries u). stored m info (un_version u) (un_table u) start (start + length (the (un_bytes u))) e"
    using um by (auto simp: unit_mem_def)
  have se: "stored m info (un_version u) (un_table u) start (start + length (the (un_bytes u))) e" using st e(1) by blast
  have sr: "stored m info (un_version u) (un_table u) start (start + length (the (un_bytes u))) (un_root u)" using st root_entries by blast
  have fn: "die_tag d = DW_TAG_subprogram" "pc_inside d addr = Some (of_nat (the (ent_num e 0x11)))"
    using reads_function(2) [OF ua se e(2,4)] by simp_all
  have nm: "cstr m (die_name d) nm" by (rule reads_name [OF ua se e(2,5)])
  have fname: "cstr m (die_name cudie) file" by (rule reads_name [OF ua sr root(1,3)])
  have args: "fn_args m secs dbg (cu_header d) d junk (map of_nat ns)"
    using fn_args_encoded [OF ua st se e(2) ns] by (simp add: e(3))
  from srclines_encoded [OF um fl root(1,2) ls] obtain r where "dwarf_srclines m secs dbg cudie line0 addr = cret (r, un_line addr u)" by blast
  from list_func_die_filled [OF fn nm this args len] show ?thesis
    by (auto simp: describes_def nm fname ucast_of_nat_i32)
qed

text \<open>
  C1. \<^verbatim>\<open>debuginfo_rip\<close> on the debugging information of a kernel (any number of units, each with its abbreviations, a tree of
  entries of any depth, and line numbers, in the little-endian 32-bit format with addresses of 8 bytes): for an address from \<^verbatim>\<open>ULIM\<close>
  on it returns 0 with the first function at the top level of a unit that holds the address, and reports the file of the unit, name,
  start and sizes of the arguments of the function, where unit and function have names and the types of the arguments are in the unit,
  and the line of the address; more than ten arguments are written behind the array. When no function holds the address, and the
  bytes behind the section do not look like another unit, it returns -1 and leaves the values for an unknown address. The byte the
  third hypothesis names is \<^verbatim>\<open>e_ident[EI_DATA]\<close> of the kernel's file, which says that it is not big endian.
\<close>

theorem debuginfo_rip_finds:
  assumes "debug_stored m secs ds st us" and "ULIM \<le> addr" and "m (KERNBASE + 0x10005) \<noteq> 2" and "length (size_fn_arg i) = 10"
  shows "case find_fn addr us of
      None \<Rightarrow> no_unit_behind m (ds_data ds + ds_size ds) \<longrightarrow>
        (\<exists>dbg. debuginfo_rip m secs unk cu lv addr i = cret (- 1, dbg, rip_unknown unk addr i))
    | Some (u, e) \<Rightarrow> \<forall>file nm ns. ent_name m (ds_data st) (un_root u) file \<and> ent_name m (ds_data st) e nm
        \<and> param_sizes (un_version u) (un_table u) (un_entries u) e = Some ns \<longrightarrow>
        (if length ns \<le> 10 then \<exists>dbg i'. debuginfo_rip m secs unk cu lv addr i = cret (0, dbg, i') \<and> describes m addr file nm ns u e i'
         else debuginfo_rip m secs unk cu lv addr i = cfail Undefined)"
proof -
  from assms(1) obtain bs where bs: "info_bytes us = Some bs" "holds m (ds_data ds) bs" "unat (ds_size ds) = length bs" "0 < length bs" "length bs < 2 ^ 31"
    and sec: "dwarf_find_section secs ''.debug_info'' = Some ds" "dwarf_find_section secs ''.debug_str'' = Some st"
    and us: "\<forall>u \<in> set us. abbrevs_stored m secs u" "\<forall>u \<in> set us. lines_stored m secs u"
    by (auto simp: debug_stored_def split: option.splits)
  have z: "ds_size ds \<noteq> 0" using bs(3,4) by auto
  from assms(3) have m5: "m (0x10000 + KERNBASE + 5) \<noteq> 2" by (simp add: add.commute add.left_commute)
  obtain dbg where init: "dwarf_init m (0x10000 + KERNBASE) = cret (0, dbg)" and
    dbg: "dbg_read dbg = dwarf_read_lsb" "dbg_decode dbg = dwarf_decode_lsb" "curr_off_dbginfo dbg = 0"
    using m5 by (simp add: dwarf_init_def dwarf_elf_get_pointer_size_def dwarf_elf_get_byte_order_def cassert_def KERNBASE_def Let_def dwarf_frame_params_init_def)
  let ?dbg = "dbg\<lparr>dbg_info_offset_elf := ds_data ds, dbg_info_size := ds_size ds\<rparr>" and ?i = "rip_unknown unk addr i"
  have run: "debuginfo_rip m secs unk cu lv addr i = units_loop m secs addr (lv_ret lv) ?dbg cu (lv_cudie lv) (lv_die lv) (lv_die2 lv) ?i"
    using assms(2) z by (simp add: debuginfo_rip_def Let_def init find_section_def sec cassert_def)
  have fl: "file_at m secs ?dbg (ds_data ds) (ds_size ds) (ds_data st)" using dbg sec by (auto simp: file_at_def)
  have len: "length (size_fn_arg ?i) = 10" using assms(4) by (simp add: rip_unknown_def)
  note units = units_encoded [OF bs(1) fl, where start = 0 and addr = addr and cu = cu and junk = "lv_ret lv" and cudie = "lv_cudie lv" and die = "lv_die lv" and ?die2.0 = "lv_die2 lv" and ?info0.0 = ?i]
  show ?thesis
  proof (cases "find_fn addr us")
    case None
    with units bs dbg us show ?thesis by (auto simp: run)
  next
    case (Some ue)
    obtain u e where ue: "ue = (u, e)" by force
    have "u \<in> set us \<and> stops_at m secs (ds_data ds) (ds_size ds) (ds_data st) addr (lv_ret lv) ?i u e (debuginfo_rip m secs unk cu lv addr i)"
      using units bs(2,3,5) dbg(3) us(1) unfolding run by (simp add: Some ue)
    then obtain dbg' cu' cudie' d start' where u: "u \<in> set us" "e \<in> set (un_entries u)"
      and f: "file_at m secs dbg' (ds_data ds) (ds_size ds) (ds_data st)"
        "debuginfo_rip m secs unk cu lv addr i = cbind (list_func_die m secs dbg' ?i d cudie' addr (lv_ret lv)) (\<lambda>(found, info'). cret (0, dbg', info'))"
        "unit_mem m secs dbg' cu' (ds_data ds) (ds_size ds) (ds_data st) start' u" "cu_header d = cu'" "cu_header cudie' = cu'"
        "reads (ds_data ds) (ds_data st) (un_version u) start' (un_root u) cudie'" "reads (ds_data ds) (ds_data st) (un_version u) start' e d"
      unfolding stops_at_def by blast
    have fn: "ent_function addr e" using find_fn_function Some ue by blast
    have "if length ns \<le> 10 then \<exists>dbg i'. debuginfo_rip m secs unk cu lv addr i = cret (0, dbg, i') \<and> describes m addr fname nm ns u e i'
         else debuginfo_rip m secs unk cu lv addr i = cfail Undefined"
      if "ent_name m (ds_data st) (un_root u) fname" "ent_name m (ds_data st) e nm" "param_sizes (un_version u) (un_table u) (un_entries u) e = Some ns"
      for fname nm ns
    proof -
      have ls: "lines_stored m secs u" using us(2) u(1) by blast
      from list_func_die_encoded [OF f(3,1) ls f(6,5) that(1) u(2) f(7,4) fn that(2,3) len, where junk = "lv_ret lv"]
      show ?thesis unfolding f(2) by (auto split: if_splits)
    qed
    then show ?thesis by (simp only: Some ue option.case prod.case) blast
  qed
qed

section \<open>An example\<close>

text \<open>
  Two units: one with nothing below its entry, and one with a base type, a type defined by it, and two functions \<^verbatim>\<open>f\<close> and \<^verbatim>\<open>g\<close>. Both have
  a \<^verbatim>\<open>DW_AT_sibling\<close>; the list below \<^verbatim>\<open>f\<close> has a block with a list of its own.
\<close>

definition lk_table :: "abbrev_decl list" where
  "lk_table =
     [\<lparr>decl_code = 1, decl_tag = 0x11, decl_children = 1, decl_attrs = [(0x03, 0x0e), (0x10, 0x06)]\<rparr>,
      \<lparr>decl_code = 2, decl_tag = 0x24, decl_children = 0, decl_attrs = [(0x0b, 0x0b)]\<rparr>,
      \<lparr>decl_code = 3, decl_tag = 0x2e, decl_children = 1, decl_attrs = [(0x03, 0x08), (0x11, 0x01), (0x12, 0x01), (0x01, 0x13)]\<rparr>,
      \<lparr>decl_code = 4, decl_tag = 0x05, decl_children = 0, decl_attrs = [(0x49, 0x13)]\<rparr>,
      \<lparr>decl_code = 5, decl_tag = 0x16, decl_children = 0, decl_attrs = [(0x49, 0x13)]\<rparr>,
      \<lparr>decl_code = 6, decl_tag = 0x0b, decl_children = 1, decl_attrs = []\<rparr>,
      \<lparr>decl_code = 7, decl_tag = 0x11, decl_children = 0, decl_attrs = [(0x03, 0x08)]\<rparr>]"

definition lk_lines :: line_unit where
  "lk_lines = demo_unit\<lparr>lu_prog := [ISet_address 0x8004200000, IAdvance_line 9, ICopy, ISet_address 0x8004200040, IAdvance_line 5, ICopy, IEnd_sequence]\<rparr>"

definition lk_g :: "forest \<Rightarrow> forest" where
  "lk_g = Entry 3 [Text (ascii ''g''), Num 0x8004200040, Num 0x8004200080, Num 102] (Entry 4 [Num 22] End (Entry 4 [Num 20] End End))"

definition lk_top :: forest where
  "lk_top =
     Entry 2 [Num 4] End (Entry 5 [Num 20] End
       (Entry 3 [Text (ascii ''f''), Num 0x8004200000, Num 0x8004200040, Num 68]
          (Entry 4 [Num 22] End (Entry 4 [Num 20] End (Entry 6 [] (Entry 4 [Num 20] End End) End))) (lk_g End)))"

definition lk_units :: "dunit list" where
  "lk_units =
     [\<lparr>un_version = 2, un_table_pos = 0, un_table = lk_table, un_code = 7, un_vals = [Text (ascii ''b.c'')], un_top = End, un_lines = None\<rparr>,
      \<lparr>un_version = 3, un_table_pos = 0, un_table = lk_table, un_code = 1, un_vals = [Num 1, Num 0], un_top = lk_top, un_lines = Some lk_lines\<rparr>]"

definition lk_unit :: dunit where
  "lk_unit = lk_units ! 1"

definition lk_entry :: entry where
  "lk_entry = \<lparr>ent_pos = 68, ent_decl = lk_table ! 2, ent_head = 23, ent_vals = [Text (ascii ''g''), Num 0x8004200040, Num 0x8004200080, Num 102],
     ent_sub = Entry 4 [Num 22] End (Entry 4 [Num 20] End End)\<rparr>"

definition lk_mem :: mem where
  "lk_mem = write_bytes (write_bytes (write_bytes (write_bytes (\<lambda>_. 0) 0x1000 (the (info_bytes lk_units))) 0x2000 (table_bytes lk_table))
     0x4000 (unit_bytes lk_lines)) 0x5000 ([0] @ ascii ''a.c'' @ [0])"

definition lk_section :: "string \<Rightarrow> u64 \<Rightarrow> u64 \<Rightarrow> dwarf_section" where
  "lk_section name p n = \<lparr>ds_name = ascii name, ds_data = p, ds_addr = 0, ds_size = n\<rparr>"

definition lk_sections :: "dwarf_section list" where
  "lk_sections = [lk_section ''.debug_info'' 0x1000 119, lk_section ''.debug_abbrev'' 0x2000 0x100,
     lk_section ''.debug_line'' 0x4000 0x100, lk_section ''.debug_str'' 0x5000 5]"

lemma lk_uleb: "uleb_encode 1 = [1]" "uleb_encode 2 = [2]" "uleb_encode 3 = [3]" "uleb_encode 4 = [4]" "uleb_encode 5 = [5]" "uleb_encode 6 = [6]" "uleb_encode 7 = [7]"
  "uleb_encode (Suc 0) = [1]"
  by (simp_all add: uleb_encode.simps)

lemmas lk_simps = head_bytes_def decl_of_def lk_table_def fixed_size_def entry_ok_def is_num_def num_attr_def Let_def lk_uleb
  lk_g_def lk_top_def lk_units_def un_forest_def ascii_def ent_num_def ent_of_def sub_len_def un_root_def lk_unit_def lk_entry_def

lemma lk_forest2: "\<exists>bs. forest_bytes 3 lk_table 11 (Entry 1 [Num 1, Num 0] lk_top End) = Some bs \<and> length bs = 93"
  by (simp add: lk_simps)

lemma lk_forest1: "\<exists>bs. forest_bytes 2 lk_table 11 (Entry 7 [Text (ascii ''b.c'')] End End) = Some bs \<and> length bs = 6"
  by (simp add: lk_simps)

lemma lk_info: "\<exists>bs. info_bytes lk_units = Some bs \<and> length bs = 119"
  using lk_forest1 lk_forest2 by (auto simp: lk_units_def un_bytes_def un_forest_def)

lemma lk_find: "find_fn 0x8004200050 lk_units = Some (lk_unit, lk_entry)" "find_fn 0x8005000000 lk_units = None"
  by (simp_all add: lk_simps un_tops_def ent_function_def)

lemma lk_sizes: "param_sizes (un_version lk_unit) (un_table lk_unit) (un_entries lk_unit) lk_entry = Some [4, 4]"
  by (simp add: lk_simps un_entries_def param_sizes_def fn_params_def)

lemma lk_lens: "length (table_bytes lk_table) \<le> 0x100" "length (unit_bytes lk_lines) = 67"
  by (simp_all add: lk_simps table_bytes_def decl_bytes_def attrs_bytes_def uleb_encode.simps unit_bytes_def body_bytes_def header_bytes_def
    prog_bytes_def dirs_bytes_def files_bytes_def lk_lines_def demo_unit_def file_bytes_def sleb_encode.simps)

lemma lk_ok: "unit_ok lk_lines" "\<forall>d \<in> set lk_table. decl_ok d"
  by (simp_all add: unit_ok_def lk_lines_def demo_unit_def file_ok_def file_bytes_def unit_info_def uleb_encode.simps
    lk_table_def decl_ok_def NATTRDEF_def)

lemma lk_line: "ln_lineno (un_line 0x8004200050 lk_unit) = 15"
  by (simp add: lk_simps un_line_def lk_lines_def demo_unit_def unit_info_def rows_to_def lineinfo0_def reset_registers_def row_of_def clear_flags_def line0_def)

lemma holds_write_other:
  "holds m p xs \<Longrightarrow> length ys \<le> unat (p - q) \<Longrightarrow> unat (p - q) + length xs \<le> 2 ^ 64 \<Longrightarrow> holds (write_bytes m q ys) p xs"
proof (induction xs arbitrary: p)
  case (Cons x xs)
  have e: "p + 1 - q = (p - q) + 1" by simp
  show ?case
  proof (cases "xs = []")
    case False
    then have "unat (p - q) + 1 < 2 ^ 64" using Cons.prems(3) by (cases xs) simp_all
    then have "unat (p + 1 - q) = unat (p - q) + 1" unfolding e using unat_add_less [of "p - q" 1] by simp
    with Cons show ?thesis by (simp add: write_bytes_outside)
  qed (use Cons in \<open>simp add: write_bytes_outside\<close>)
qed simp

lemma lk_holds: "holds lk_mem 0x1000 (the (info_bytes lk_units))" "holds lk_mem 0x2000 (table_bytes lk_table)"
  "holds lk_mem 0x4000 (unit_bytes lk_lines)" "holds lk_mem 0x5000 ([0] @ ascii ''a.c'' @ [0])"
proof -
  have l: "length (the (info_bytes lk_units)) = 119" using lk_info by auto
  have t: "length ([0] @ ascii ''a.c'' @ [0 :: u8]) = 5" by (simp add: ascii_def)
  note len = l lk_lens t [simplified]
  have lt: "length (table_bytes lk_table) < 2 ^ 64" using lk_lens(1) by simp
  show "holds lk_mem 0x1000 (the (info_bytes lk_units))" "holds lk_mem 0x2000 (table_bytes lk_table)"
    "holds lk_mem 0x4000 (unit_bytes lk_lines)" "holds lk_mem 0x5000 ([0] @ ascii ''a.c'' @ [0])"
    unfolding lk_mem_def using len lt t by (intro holds_write_other holds_write; simp)+
qed

lemma lk_outside:
  assumes "119 \<le> unat (a - 0x1000)" "0x100 \<le> unat (a - 0x2000)" "67 \<le> unat (a - 0x4000)" "5 \<le> unat (a - 0x5000)"
  shows "lk_mem a = 0"
proof -
  have "length (the (info_bytes lk_units)) = 119" using lk_info by auto
  moreover have "length ([0] @ ascii ''a.c'' @ [0 :: u8]) = 5" by (simp add: ascii_def)
  ultimately show ?thesis unfolding lk_mem_def using assms lk_lens by (simp only: write_bytes_outside)
qed

lemma lk_stored: "debug_stored lk_mem lk_sections (lk_section ''.debug_info'' 0x1000 119) (lk_section ''.debug_str'' 0x5000 5) lk_units"
proof -
  have sec: "dwarf_find_section lk_sections ''.debug_info'' = Some (lk_section ''.debug_info'' 0x1000 119)"
    "dwarf_find_section lk_sections ''.debug_str'' = Some (lk_section ''.debug_str'' 0x5000 5)"
    "dwarf_find_section lk_sections ''.debug_abbrev'' = Some (lk_section ''.debug_abbrev'' 0x2000 0x100)"
    "dwarf_find_section lk_sections ''.debug_line'' = Some (lk_section ''.debug_line'' 0x4000 0x100)"
    by (simp_all add: lk_sections_def lk_section_def dwarf_find_section_def ascii_def)
  obtain bs where bs: "info_bytes lk_units = Some bs" "length bs = 119" using lk_info by blast
  then have "holds lk_mem 0x1000 bs" using lk_holds(1) by simp
  moreover have "abbrevs_stored lk_mem lk_sections u \<and> lines_stored lk_mem lk_sections u" if "u \<in> set lk_units" for u
  proof -
    have "un_table_pos u = 0" "un_table u = lk_table" using that by (auto simp: lk_units_def)
    then have "abbrevs_stored lk_mem lk_sections u"
      using lk_holds(2) lk_ok(2) lk_lens(1) by (simp add: abbrevs_stored_def sec lk_section_def)
    moreover have "ent_num (un_root u) 0x10 = None \<and> un_lines u = None \<or> ent_num (un_root u) 0x10 = Some 0 \<and> un_lines u = Some lk_lines"
      using that by (auto simp: lk_simps)
    then have "lines_stored lk_mem lk_sections u"
      using lk_holds(3) lk_ok(1) lk_lens(2) by (auto simp: lines_stored_def sec lk_section_def)
    ultimately show ?thesis by simp
  qed
  ultimately show ?thesis by (simp add: debug_stored_def sec bs lk_section_def)
qed

lemma lk_names: "ent_name lk_mem 0x5000 (un_root lk_unit) (ascii ''a.c'')" "ent_name lk_mem 0x5000 lk_entry (ascii ''g'')"
proof -
  have "cstr lk_mem 0x5001 (ascii ''a.c'')" using lk_holds(4) by (subst cstr_holds [symmetric]) (simp_all add: ascii_def)
  then show "ent_name lk_mem 0x5000 (un_root lk_unit) (ascii ''a.c'')" by (simp add: ent_name_def lk_simps)
  show "ent_name lk_mem 0x5000 lk_entry (ascii ''g'')" by (simp add: ent_name_def lk_simps)
qed

theorem debuginfo_rip_finds_witness:
  "(\<exists>dbg i. debuginfo_rip lk_mem lk_sections 0x500 demo_cu demo_locals 0x8004200050 rip0 = cret (0, dbg, i)
      \<and> cstr lk_mem (rip_file i) (ascii ''a.c'') \<and> cstr lk_mem (rip_fn_name i) (ascii ''g'') \<and> rip_fn_addr i = 0x8004200040
      \<and> rip_line i = 15 \<and> take 2 (size_fn_arg i) = [4, 4])
   \<and> (\<exists>dbg. debuginfo_rip lk_mem lk_sections 0x500 demo_cu demo_locals 0x8005000000 rip0 = cret (- 1, dbg, rip_unknown 0x500 0x8005000000 rip0))"
proof -
  have m: "lk_mem (KERNBASE + 0x10005) \<noteq> 2" by (simp add: lk_outside KERNBASE_def)
  have l: "length (size_fn_arg rip0) = 10" by (simp add: rip0_def)
  have a: "ULIM \<le> 0x8004200050" "ULIM \<le> 0x8005000000" by (simp_all add: ULIM_def)
  have z: "lk_mem 0x1077 = 0" "lk_mem 0x1078 = 0" "lk_mem 0x1079 = 0" "lk_mem 0x107A = 0" "lk_mem 0x107B = 0" "lk_mem 0x107C = 0"
    by (simp_all add: lk_outside)
  have "bytes lk_mem 0x1077 4 = [0, 0, 0, 0]" "bytes lk_mem 0x107B 2 = [0, 0]" using z by (simp_all add: eval_nat_numeral)
  then have n: "no_unit_behind lk_mem (0x1000 + 119)" by (simp add: no_unit_behind_def)
  note found = debuginfo_rip_finds [OF lk_stored a(1) m l, where unk = "0x500" and cu = demo_cu and lv = demo_locals]
  note unknown = debuginfo_rip_finds [OF lk_stored a(2) m l, where unk = "0x500" and cu = demo_cu and lv = demo_locals]
  have v: "ent_num lk_entry 0x11 = Some 0x8004200040" by (simp add: lk_simps)
  from found lk_sizes have "\<forall>file nm. ent_name lk_mem 0x5000 (un_root lk_unit) file \<and> ent_name lk_mem 0x5000 lk_entry nm \<longrightarrow>
      (\<exists>dbg i. debuginfo_rip lk_mem lk_sections 0x500 demo_cu demo_locals 0x8004200050 rip0 = cret (0, dbg, i)
        \<and> describes lk_mem 0x8004200050 file nm [4, 4] lk_unit lk_entry i)"
    unfolding lk_find(1) by (simp add: lk_section_def)
  with lk_names obtain dbg i where i:
    "debuginfo_rip lk_mem lk_sections 0x500 demo_cu demo_locals 0x8004200050 rip0 = cret (0, dbg, i)"
    "describes lk_mem 0x8004200050 (ascii ''a.c'') (ascii ''g'') [4, 4] lk_unit lk_entry i"
    by blast
  then have "describes lk_mem 0x8004200050 (ascii ''a.c'') (ascii ''g'') [4, 4] lk_unit lk_entry i" by simp
  moreover have "length [4, 4 :: nat] = 2" by simp
  ultimately have "take 2 (size_fn_arg i) = map of_nat [4, 4]" unfolding describes_def by metis
  with i show ?thesis using unknown n unfolding lk_find(2) by (auto simp: lk_section_def describes_def v lk_line)
qed

end
