(* ===== verification/Ide_Disk.thy ===== *)
theory Ide_Disk
  imports Jos_Prelude
begin

unbundle bit_operations_syntax

text \<open>
  The polled disk driver that \<^verbatim>\<open>kern/elf_rw.c\<close> and \<^verbatim>\<open>boot/main.c\<close> share: \<^verbatim>\<open>waitdisk\<close>, \<^verbatim>\<open>readsect\<close> and the string input
  \<^verbatim>\<open>insl\<close> of \<^verbatim>\<open>inc/x86.h\<close>. The two files have the same text at different widths, so the address and the sector number
  are words of any length.

  The disk is a parameter: an \<open>ideops\<close> record says how port reads and writes act on its state. \<open>ide_disk\<close> is what an ATA disk
  does in the protocol the driver uses; it is a hypothesis of the theorems.
\<close>

section \<open>The driver\<close>

record 'd ideops =
  ide_inb :: "u16 \<Rightarrow> 'd \<Rightarrow> u8 \<times> 'd"
  ide_outb :: "u16 \<Rightarrow> u8 \<Rightarrow> 'd \<Rightarrow> 'd"
  ide_outw :: "u16 \<Rightarrow> u16 \<Rightarrow> 'd \<Rightarrow> 'd"
  ide_inl :: "u16 \<Rightarrow> 'd \<Rightarrow> u32 \<times> 'd"

fun insl :: "'d ideops \<Rightarrow> u16 \<Rightarrow> 'a::len word \<Rightarrow> nat \<Rightarrow> mem \<times> 'd \<Rightarrow> mem \<times> 'd" where
  "insl D port addr 0 (m, d) = (m, d)"
| "insl D port addr (Suc cnt) (m, d) =
     (let (w, d) = ide_inl D port d in insl D port (addr + 4) cnt (store32 m (ucast addr) w, d))"

partial_function (option) waitdisk :: "'d ideops \<Rightarrow> 'd \<Rightarrow> 'd option" where
  "waitdisk D d = (let (b, d) = ide_inb D 0x1F7 d in if b AND 0xC0 \<noteq> 0x40 then waitdisk D d else Some d)"

definition SECTSIZE :: nat where
  "SECTSIZE = 512"

definition readsect :: "'d ideops \<Rightarrow> 'a::len word \<Rightarrow> 'a word \<Rightarrow> mem \<times> 'd \<Rightarrow> (mem \<times> 'd) option" where
  "readsect D dst offset md =
     (case md of (m, d) \<Rightarrow>
      Option.bind (waitdisk D d) (\<lambda>d.
        let d = ide_outb D 0x1F2 1 d;
            d = ide_outb D 0x1F3 (ucast offset) d;
            d = ide_outb D 0x1F4 (ucast (drop_bit 8 offset)) d;
            d = ide_outb D 0x1F5 (ucast (drop_bit 16 offset)) d;
            d = ide_outb D 0x1F6 (ucast (drop_bit 24 offset) OR 0xE0) d;
            d = ide_outb D 0x1F7 0x20 d
        in map_option (\<lambda>d. insl D 0x1F0 dst (SECTSIZE div 4) (m, d)) (waitdisk D d)))"

declare waitdisk.simps [code]

section \<open>The disk\<close>

text \<open>
  What an ATA disk in polled mode shows: how many more status reads it stays busy, its task file, and the words of the sector
  that are still to be read.
\<close>

record ata =
  ata_busy :: nat
  ata_count :: u8
  ata_lba0 :: u8
  ata_lba1 :: u8
  ata_lba2 :: u8
  ata_dev :: u8
  ata_fifo :: "u32 list"

definition ata_lba :: "ata \<Rightarrow> nat" where
  "ata_lba a = unat (ata_lba0 a) + 2 ^ 8 * unat (ata_lba1 a) + 2 ^ 16 * unat (ata_lba2 a) + 2 ^ 24 * unat (ata_dev a AND 0x0F)"

text \<open>The bytes of the disk are \<open>img 0\<close>, \<open>img 1\<close>, and so on; a sector is read as little-endian words.\<close>

definition img_word :: "(nat \<Rightarrow> u8) \<Rightarrow> nat \<Rightarrow> u32" where
  "img_word img i = ucast (img i) OR push_bit 8 (ucast (img (i + 1))) OR push_bit 16 (ucast (img (i + 2)))
     OR push_bit 24 (ucast (img (i + 3)))"

definition sector_words :: "(nat \<Rightarrow> u8) \<Rightarrow> nat \<Rightarrow> u32 list" where
  "sector_words img s = map (\<lambda>i. img_word img (SECTSIZE * s + 4 * i)) [0..<SECTSIZE div 4]"

definition ide_disk :: "'d ideops \<Rightarrow> (nat \<Rightarrow> u8) \<Rightarrow> ('d \<Rightarrow> ata) \<Rightarrow> bool" where
  "ide_disk D img view \<longleftrightarrow>
     (\<forall>d. if ata_busy (view d) = 0
        then fst (ide_inb D 0x1F7 d) AND 0xC0 = 0x40 \<and> view (snd (ide_inb D 0x1F7 d)) = view d
        else fst (ide_inb D 0x1F7 d) AND 0xC0 \<noteq> 0x40
          \<and> view (snd (ide_inb D 0x1F7 d)) = (view d)\<lparr>ata_busy := ata_busy (view d) - 1\<rparr>)
   \<and> (\<forall>d v. ata_busy (view d) = 0 \<longrightarrow>
          view (ide_outb D 0x1F2 v d) = (view d)\<lparr>ata_count := v\<rparr> \<and> view (ide_outb D 0x1F3 v d) = (view d)\<lparr>ata_lba0 := v\<rparr>
        \<and> view (ide_outb D 0x1F4 v d) = (view d)\<lparr>ata_lba1 := v\<rparr> \<and> view (ide_outb D 0x1F5 v d) = (view d)\<lparr>ata_lba2 := v\<rparr>
        \<and> view (ide_outb D 0x1F6 v d) = (view d)\<lparr>ata_dev := v\<rparr>)
   \<and> (\<forall>d. ata_busy (view d) = 0 \<and> ata_count (view d) = 1 \<and> ata_dev (view d) AND 0xF0 = 0xE0 \<longrightarrow>
        (\<exists>k. view (ide_outb D 0x1F7 0x20 d) = (view d)\<lparr>ata_busy := k, ata_fifo := sector_words img (ata_lba (view d))\<rparr>))
   \<and> (\<forall>d w ws. ata_busy (view d) = 0 \<and> ata_fifo (view d) = w # ws \<longrightarrow>
        fst (ide_inl D 0x1F0 d) = w \<and> view (snd (ide_inl D 0x1F0 d)) = (view d)\<lparr>ata_fifo := ws\<rparr>)"

text \<open>\<open>n\<close> bytes of the disk from \<open>o\<close> on, loaded at \<open>dst\<close>.\<close>

definition load_img :: "mem \<Rightarrow> u64 \<Rightarrow> (nat \<Rightarrow> u8) \<Rightarrow> nat \<Rightarrow> nat \<Rightarrow> mem" where
  "load_img m dst img start n = (\<lambda>a. if unat (a - dst) < n then img (start + unat (a - dst)) else m a)"

section \<open>Reading a sector\<close>

lemma load_img_0 [simp]: "load_img m dst img s 0 = m"
  by (simp add: load_img_def)

lemma load_img_append:
  assumes "j + k < 2 ^ 64"
  shows "load_img (load_img m d img s j) (d + of_nat j) img (s + j) k = load_img m d img s (j + k)"
proof
  fix a
  consider "unat (a - d) < j" | "j \<le> unat (a - d)" by linarith
  then show "load_img (load_img m d img s j) (d + of_nat j) img (s + j) k a = load_img m d img s (j + k) a"
  proof cases
    case 1
    with assms unat_diff_wrap [of a d j] have "\<not> unat (a - (d + of_nat j)) < k" by linarith
    with 1 show ?thesis by (simp add: load_img_def)
  next
    case 2
    with assms unat_diff_step [of j a d] show ?thesis by (auto simp: load_img_def)
  qed
qed

lemma store32_img: "store32 m d (img_word img s) = load_img m d img s 4"
proof -
  have "img_word img s = load32 (\<lambda>a. img (s + unat a)) 0" by (simp add: img_word_def load32_def)
  moreover have "(1 :: u64) = of_nat 1" by simp
  ultimately show ?thesis
    by (subst store32_eq [where w = "\<lambda>i. img (s + unat i)"]) (simp_all add: load_img_def)
qed

lemma waitdisk_ready:
  assumes "ide_disk D img view"
  shows "\<exists>d'. waitdisk D d = Some d' \<and> view d' = (view d)\<lparr>ata_busy := 0\<rparr>"
proof (induction "ata_busy (view d)" arbitrary: d)
  case 0
  with assms have "fst (ide_inb D 0x1F7 d) AND 0xC0 = 0x40" "view (snd (ide_inb D 0x1F7 d)) = view d"
    by (simp_all add: ide_disk_def)
  with 0 show ?case by (subst waitdisk.simps) (simp add: split_beta)
next
  case (Suc k)
  let ?d = "snd (ide_inb D 0x1F7 d)"
  have "if ata_busy (view d) = 0 then fst (ide_inb D 0x1F7 d) AND 0xC0 = 0x40 \<and> view ?d = view d
        else fst (ide_inb D 0x1F7 d) AND 0xC0 \<noteq> 0x40 \<and> view ?d = (view d)\<lparr>ata_busy := ata_busy (view d) - 1\<rparr>"
    using assms unfolding ide_disk_def by blast
  with Suc have b: "fst (ide_inb D 0x1F7 d) AND 0xC0 \<noteq> 0x40" and a: "view ?d = (view d)\<lparr>ata_busy := k\<rparr>" by (auto split: if_splits)
  with Suc(1) [of ?d] show ?case by (subst waitdisk.simps) (simp add: split_beta)
qed

lemma unat_add_small:
  fixes x :: "'a::len word"
  assumes "unat x + k < 2 ^ LENGTH('a)"
  shows "unat (x + of_nat k) = unat x + k" and "(ucast (x + of_nat k) :: 'b::len word) = ucast x + of_nat k"
proof -
  have "x + of_nat k = of_nat (unat x + k)" by simp
  then show u: "unat (x + of_nat k) = unat x + k" using assms by (simp only: unat_of_nat mod_less)
  have "(ucast (x + of_nat k) :: 'b word) = of_nat (unat (x + of_nat k))" by simp
  then show "(ucast (x + of_nat k) :: 'b word) = ucast x + of_nat k" unfolding u by simp
qed

lemma insl_reads:
  assumes disk: "ide_disk D img view" and "ata_busy (view d) = 0"
    and "ata_fifo (view d) = map (\<lambda>i. img_word img (s + 4 * i)) [k..<n]" and "k \<le> n" and "unat addr + 4 * (n - k) < 2 ^ LENGTH('a)"
    and "4 * (n - k) < 2 ^ 64"
  shows "fst (insl D 0x1F0 (addr :: 'a::len word) (n - k) (m, d)) = load_img m (ucast addr) img (s + 4 * k) (4 * (n - k))"
  using assms(2-6)
proof (induction "n - k" arbitrary: k addr m d)
  case 0
  then show ?case by simp
next
  case (Suc j)
  let ?d = "snd (ide_inl D 0x1F0 d)"
  have k: "k < n" "n - Suc k = j" using Suc.hyps by auto
  have "ata_fifo (view d) = img_word img (s + 4 * k) # map (\<lambda>i. img_word img (s + 4 * i)) [Suc k..<n]"
    using Suc.prems(2) k by (simp add: upt_conv_Cons)
  then have r: "fst (ide_inl D 0x1F0 d) = img_word img (s + 4 * k)"
      "view ?d = (view d)\<lparr>ata_fifo := map (\<lambda>i. img_word img (s + 4 * i)) [Suc k..<n]\<rparr>"
    using disk Suc.prems(1) by (simp_all add: ide_disk_def)
  have lt: "unat addr + 4 < 2 ^ LENGTH('a)" using Suc.prems(4) k by linarith
  then have a4: "unat (addr + 4) = unat addr + 4" and u: "(ucast (addr + 4) :: u64) = ucast addr + of_nat 4"
    using unat_add_small [of addr 4] by simp_all
  have "fst (insl D 0x1F0 (addr + 4) j (load_img m (ucast addr) img (s + 4 * k) 4, ?d))
      = load_img (load_img m (ucast addr) img (s + 4 * k) 4) (ucast (addr + 4)) img (s + 4 * Suc k) (4 * j)"
    using Suc.hyps(1) [of "Suc k" ?d "addr + 4"] k r Suc.prems a4 by simp
  also have "\<dots> = load_img m (ucast addr) img (s + 4 * k) (4 + 4 * j)"
    using load_img_append [of 4 "4 * j" m "ucast addr" img "s + 4 * k"] Suc.prems(5) Suc.hyps(2) unfolding u by (simp add: ac_simps)
  finally show ?case unfolding Suc.hyps(2) [symmetric] using r by (simp add: split_beta store32_img)
qed

lemma nat_bytes:
  "n mod 256 + 256 * (n div 256 mod 256) + 65536 * (n div 65536 mod 256) + 16777216 * (n div 16777216) = (n :: nat)"
proof -
  obtain q a r b t c where d: "q = n div 256" "a = n mod 256" "r = q div 256" "b = q mod 256" "t = r div 256" "c = r mod 256" by blast
  have "n = 256 * q + a" "q = 256 * r + b" "r = 256 * t + c" unfolding d by (simp_all only: mult_div_mod_eq)
  then have "a + 256 * b + 65536 * c + 16777216 * t = n" by linarith
  moreover have "n div 65536 = r" "n div 16777216 = t" unfolding d by (simp_all add: div_mult2_eq [symmetric])
  ultimately show ?thesis by (simp add: d)
qed

text \<open>A sector number the disk is addressed with.\<close>

lemma lba_bytes:
  fixes x :: "'a::len word"
  assumes "unat x < 2 ^ 28"
  shows "unat (ucast x :: u8) + 2 ^ 8 * unat (ucast (drop_bit 8 x) :: u8) + 2 ^ 16 * unat (ucast (drop_bit 16 x) :: u8)
      + 2 ^ 24 * unat ((ucast (drop_bit 24 x) OR 0xE0 :: u8) AND 0x0F) = unat x"
    and "(ucast (drop_bit 24 x) OR 0xE0 :: u8) AND 0xF0 = 0xE0"
proof -
  define y :: u8 where "y = ucast (drop_bit 24 x)"
  have b: "unat (ucast (drop_bit n x) :: u8) = unat x div 2 ^ n mod 256" for n
    by (simp add: unsigned_ucast_eq unsigned_drop_bit_eq take_bit_eq_mod flip: drop_bit_eq_div)
  have y: "unat y = unat x div 2 ^ 24" "unat x div 2 ^ 24 < 16"
    using assms b [of 24] by (simp_all add: y_def)
  then have "take_bit 4 (unat y) = unat y" by (simp add: take_bit_nat_eq_self)
  then have "unat (take_bit 4 y) = unat y" by (simp add: unsigned_take_bit_eq)
  then have "take_bit 4 y = y" by (simp only: unsigned_word_eqI)
  then have m: "y AND 0x0F = y" by (simp add: take_bit_eq_mask mask_numeral)
  have l: "(y OR 0xE0) AND 0x0F = y" by (simp add: bit.conj_disj_distrib2 m)
  have "(y OR 0xE0) AND 0xF0 = ((y AND 0x0F) AND 0xF0) OR 0xE0" by (simp add: bit.conj_disj_distrib2 m)
  also have "\<dots> = 0xE0" by (simp add: and.assoc)
  finally show "(ucast (drop_bit 24 x) OR 0xE0 :: u8) AND 0xF0 = 0xE0" by (simp add: y_def)
  show "unat (ucast x :: u8) + 2 ^ 8 * unat (ucast (drop_bit 8 x) :: u8) + 2 ^ 16 * unat (ucast (drop_bit 16 x) :: u8)
      + 2 ^ 24 * unat ((ucast (drop_bit 24 x) OR 0xE0 :: u8) AND 0x0F) = unat x"
    using b [of 0] b [of 8] b [of 16] y l nat_bytes [of "unat x"] unfolding y_def [symmetric] by simp
qed

lemma ide_command:
  "ide_disk D img view \<Longrightarrow> ata_busy (view d) = 0 \<Longrightarrow> ata_count (view d) = 1 \<Longrightarrow> ata_dev (view d) AND 0xF0 = 0xE0 \<Longrightarrow>
     \<exists>k. view (ide_outb D 0x1F7 0x20 d) = (view d)\<lparr>ata_busy := k, ata_fifo := sector_words img (ata_lba (view d))\<rparr>"
  by (simp add: ide_disk_def)

lemma readsect_reads:
  fixes dst :: "'a::len word"
  assumes disk: "ide_disk D img view" and s: "unat s < 2 ^ 28" and dst: "unat dst + 512 < 2 ^ LENGTH('a)"
  shows "\<exists>d'. readsect D dst s (m, d) = Some (load_img m (ucast dst) img (512 * unat s) 512, d')"
proof -
  obtain d1 where d1: "waitdisk D d = Some d1" "ata_busy (view d1) = 0"
    using waitdisk_ready [OF disk, of d] by auto
  define d2 where "d2 = ide_outb D 0x1F6 (ucast (drop_bit 24 s) OR 0xE0) (ide_outb D 0x1F5 (ucast (drop_bit 16 s))
    (ide_outb D 0x1F4 (ucast (drop_bit 8 s)) (ide_outb D 0x1F3 (ucast s) (ide_outb D 0x1F2 1 d1))))"
  have d2: "view d2 = (view d1)\<lparr>ata_count := 1, ata_lba0 := ucast s, ata_lba1 := ucast (drop_bit 8 s),
      ata_lba2 := ucast (drop_bit 16 s), ata_dev := ucast (drop_bit 24 s) OR 0xE0\<rparr>"
    using disk d1(2) unfolding d2_def ide_disk_def by simp
  have lba: "ata_lba (view d2) = unat s" using lba_bytes(1) [OF s] by (simp add: d2 ata_lba_def)
  then obtain k where k: "view (ide_outb D 0x1F7 0x20 d2) = (view d2)\<lparr>ata_busy := k, ata_fifo := sector_words img (unat s)\<rparr>"
    using ide_command [OF disk, of d2] d2 d1(2) lba_bytes(2) [OF s] by auto
  obtain d3 where d3: "waitdisk D (ide_outb D 0x1F7 0x20 d2) = Some d3"
      "view d3 = (view d2)\<lparr>ata_busy := 0, ata_fifo := sector_words img (unat s)\<rparr>"
    using waitdisk_ready [OF disk, of "ide_outb D 0x1F7 0x20 d2"] k by auto
  have "fst (insl D 0x1F0 dst 128 (m, d3)) = load_img m (ucast dst) img (512 * unat s) 512"
    using insl_reads [OF disk, of d3 "512 * unat s" 0 128 dst m] d3(2) dst by (simp add: sector_words_def SECTSIZE_def)
  then show ?thesis
    using d1 d3(1) by (simp add: readsect_def d2_def [symmetric] SECTSIZE_def prod_eq_iff)
qed

end
