(* ===== verification/Elf_Load.thy ===== *)
theory Elf_Load
  imports Ide_Disk Dwarf_Defs
begin

unbundle bit_operations_syntax

text \<open>
  \<^verbatim>\<open>kern/elf_rw.c\<close>: the kernel reads the section headers and the debug sections of its own ELF file from the disk into
  memory behind itself and fills in the table \<^verbatim>\<open>section_info\<close> the DWARF library looks its sections up in.

  A header in memory is read afresh at each use, since the segments read from the disk may overwrite it. The fields the
  code does not use are left out. The string literals it compares with lie in memory at the addresses of an \<open>elits\<close>
  record.
\<close>

section \<open>Headers\<close>

record elf_hdr =
  e_magic :: u32
  e_entry :: u64
  e_phoff :: u64
  e_shoff :: u64
  e_phnum :: u16
  e_shentsize :: u16
  e_shnum :: u16
  e_shstrndx :: u16

definition elf_at :: "mem \<Rightarrow> u64 \<Rightarrow> elf_hdr" where
  "elf_at m p = \<lparr>e_magic = load32 m p, e_entry = load64 m (p + 24), e_phoff = load64 m (p + 32), e_shoff = load64 m (p + 40),
     e_phnum = load16 m (p + 56), e_shentsize = load16 m (p + 58), e_shnum = load16 m (p + 60), e_shstrndx = load16 m (p + 62)\<rparr>"

record secthdr =
  sh_name :: u32
  sh_addr :: u64
  sh_offset :: u64
  sh_size :: u64

definition secthdr_at :: "mem \<Rightarrow> u64 \<Rightarrow> secthdr" where
  "secthdr_at m p = \<lparr>sh_name = load32 m p, sh_addr = load64 m (p + 16), sh_offset = load64 m (p + 24), sh_size = load64 m (p + 32)\<rparr>"

definition SIZEOF_SECTHDR :: nat where
  "SIZEOF_SECTHDR = 64"

section \<open>Reading a segment\<close>

abbreviation "SECT \<equiv> of_nat SECTSIZE :: u64"

partial_function (option) readseg_loop ::
    "'d ideops \<Rightarrow> u64 \<Rightarrow> u64 \<Rightarrow> u64 \<Rightarrow> u64 \<Rightarrow> mem \<times> 'd \<Rightarrow> (u64 \<times> u64 \<times> u64 \<times> mem \<times> 'd) option" where
  "readseg_loop D end_pa pa offset kvoffset md =
     (if pa < end_pa then
        Option.bind (readsect D pa offset md) (\<lambda>md. readseg_loop D end_pa (pa + SECT) (offset + 1) (kvoffset + SECT) md)
      else Some (pa, offset, kvoffset, md))"

definition readseg ::
    "'d ideops \<Rightarrow> u64 \<Rightarrow> u64 \<Rightarrow> u64 \<Rightarrow> u64 \<Rightarrow> mem \<times> 'd \<Rightarrow> (u64 \<times> mem \<times> 'd) cres" where
  "readseg D pa count offset kvoffset md =
     (let orgoff = offset; end_pa = pa + count in
      cassert (pa mod SECT = 0)
        (let pa = pa AND NOT (SECT - 1); offset = offset div SECT + 1 in
         cbind (clift (readseg_loop D end_pa pa offset kvoffset md)) (\<lambda>(pa, offset, kvoffset, md).
           cbind (if orgoff mod SECT + count > SECT
                  then cbind (clift (readsect D pa offset md)) (\<lambda>md. cret (kvoffset + SECT, md))
                  else cret (kvoffset, md)) (\<lambda>(kvoffset, md).
             cassert (kvoffset mod SECT = 0) (cret (kvoffset, md))))))"

section \<open>The section table\<close>

definition DEBUG_INFO :: nat where "DEBUG_INFO = 0"
definition DEBUG_ABBREV :: nat where "DEBUG_ABBREV = 1"
definition DEBUG_FRAME :: nat where "DEBUG_FRAME = 2"
definition DEBUG_LINE :: nat where "DEBUG_LINE = 3"
definition DEBUG_STR :: nat where "DEBUG_STR = 4"

lemmas section_codes = DEBUG_INFO_def DEBUG_ABBREV_def DEBUG_FRAME_def DEBUG_LINE_def DEBUG_STR_def

record elits =
  lit_debug_info :: u64
  lit_debug_abbrev :: u64
  lit_debug_line :: u64
  lit_eh_frame :: u64
  lit_debug_str :: u64

text \<open>The chain of \<^verbatim>\<open>strcmp\<close>s that tells which entry of the table a section belongs to.\<close>

definition section_tests :: "elits \<Rightarrow> (u64 \<times> nat) list" where
  "section_tests L = [(lit_debug_info L, DEBUG_INFO), (lit_debug_abbrev L, DEBUG_ABBREV), (lit_debug_line L, DEBUG_LINE),
     (lit_eh_frame L, DEBUG_FRAME), (lit_debug_str L, DEBUG_STR)]"

fun section_index :: "mem \<Rightarrow> u64 \<Rightarrow> (u64 \<times> nat) list \<Rightarrow> nat option option" where
  "section_index m name [] = Some None"
| "section_index m name ((lit, i) # ls) =
     Option.bind (strcmp m name lit) (\<lambda>r. if r = 0 then Some (Some i) else section_index m name ls)"

definition set_section :: "nat \<Rightarrow> u64 \<Rightarrow> u64 \<Rightarrow> dwarf_section list \<Rightarrow> dwarf_section list" where
  "set_section i addr n secs = secs[i := (secs ! i)\<lparr>ds_data := addr, ds_addr := addr, ds_size := n\<rparr>]"

definition OFFSET_CORRECT :: "u64 \<Rightarrow> u64" where
  "OFFSET_CORRECT x = x - (x - x mod SECT)"

text \<open>Sections of a program loaded at user level, all but \<^verbatim>\<open>.eh_frame\<close> laid out from \<^verbatim>\<open>USTABDATA\<close> on.\<close>

definition USTABDATA :: u64 where
  "USTABDATA = 0x200000"

partial_function (option) debug_sections_loop ::
    "mem \<Rightarrow> elits \<Rightarrow> u64 \<Rightarrow> u64 \<Rightarrow> u64 \<Rightarrow> u64 \<Rightarrow> u64 \<Rightarrow> dwarf_section list \<Rightarrow> dwarf_section list option" where
  "debug_sections_loop m L elf shstr_tab esh sh debug_address secs =
     (if sh < esh then
        let h = secthdr_at m sh; name = elf + sh_offset (secthdr_at m shstr_tab) + ucast (sh_name h) in
        Option.bind (section_index m name (section_tests L)) (\<lambda>r.
          case r of
            None \<Rightarrow> debug_sections_loop m L elf shstr_tab esh (sh + of_nat SIZEOF_SECTHDR) debug_address secs
          | Some i \<Rightarrow>
              debug_sections_loop m L elf shstr_tab esh (sh + of_nat SIZEOF_SECTHDR) (debug_address + sh_size h)
                (set_section i (if i = DEBUG_FRAME then sh_addr h else debug_address) (sh_size h) secs))
      else Some secs)"

definition find_debug_sections :: "mem \<Rightarrow> elits \<Rightarrow> u64 \<Rightarrow> dwarf_section list \<Rightarrow> dwarf_section list option" where
  "find_debug_sections m L elf secs =
     (let ehdr = elf_at m elf; sh = elf + e_shoff ehdr;
          shstr_tab = sh + of_nat SIZEOF_SECTHDR * ucast (e_shstrndx ehdr);
          esh = sh + of_nat SIZEOF_SECTHDR * ucast (e_shnum ehdr)
      in debug_sections_loop m L elf shstr_tab esh sh USTABDATA secs)"

section \<open>Reading the debug sections\<close>

definition KELFHDR :: u64 where
  "KELFHDR = 0x10000 + KERNBASE"

definition ROUNDUP :: "u64 \<Rightarrow> u64 \<Rightarrow> u64" where
  "ROUNDUP a n = (a + n - 1) - (a + n - 1) mod n"

text \<open>The body of the loop over the sections, for the header at \<open>sp\<close>.\<close>

definition load_section ::
    "'d ideops \<Rightarrow> elits \<Rightarrow> u64 \<Rightarrow> u64 \<Rightarrow> u64 \<Rightarrow> u64 \<times> dwarf_section list \<times> mem \<times> 'd \<Rightarrow> (u64 \<times> dwarf_section list \<times> mem \<times> 'd) cres" where
  "load_section D L kvbase nametab sp st =
     (case st of (kvoffset, secs, m, d) \<Rightarrow>
      let name = nametab + ucast (sh_name (secthdr_at m sp)) in
      cassert (kvoffset mod SECT = 0)
        (cbind (clift (section_index m name (section_tests L))) (\<lambda>r.
          case r of
            None \<Rightarrow> cret st
          | Some i \<Rightarrow>
              if i = DEBUG_FRAME then
                cret (kvoffset, set_section i (sh_addr (secthdr_at m sp)) (sh_size (secthdr_at m sp)) secs, m, d)
              else
                let temp = kvoffset in
                cbind (readseg D (kvbase + kvoffset) (sh_size (secthdr_at m sp)) (sh_offset (secthdr_at m sp)) kvoffset (m, d))
                  (\<lambda>(kvoffset, m, d).
                    cret (kvoffset, set_section i (kvbase + temp + OFFSET_CORRECT (sh_offset (secthdr_at m sp)))
                      (sh_size (secthdr_at m sp)) secs, m, d)))))"

fun load_sections ::
    "'d ideops \<Rightarrow> elits \<Rightarrow> u64 \<Rightarrow> u64 \<Rightarrow> u64 list \<Rightarrow> u64 \<times> dwarf_section list \<times> mem \<times> 'd \<Rightarrow> (u64 \<times> dwarf_section list \<times> mem \<times> 'd) cres" where
  "load_sections D L kvbase nametab [] st = cret st"
| "load_sections D L kvbase nametab (sp # sps) st =
     cbind (load_section D L kvbase nametab sp st) (load_sections D L kvbase nametab sps)"

text \<open>
  The array \<^verbatim>\<open>secthdr_ptr\<close> has 20 elements: a file with more sections writes behind it. An index of the string table that
  names no section leads to a null or a stray pointer.
\<close>

definition read_section_headers ::
    "'d ideops \<Rightarrow> elits \<Rightarrow> u64 \<Rightarrow> u64 \<Rightarrow> dwarf_section list \<Rightarrow> mem \<times> 'd \<Rightarrow> (u64 \<times> dwarf_section list \<times> mem \<times> 'd) cres" where
  "read_section_headers D L elfhdr to_va secs md =
     (let kvbase = ROUNDUP to_va SECT; ehdr = elf_at (fst md) elfhdr;
          offset = (if elfhdr = KELFHDR then e_shoff ehdr else e_shoff ehdr + (elfhdr - KERNBASE));
          numSectionHeaders = unat (e_shnum ehdr); sizeSections = unat (e_shentsize ehdr) in
      if numSectionHeaders * sizeSections \<ge> 2 ^ 31 then cfail Undefined
      else cbind (readseg D kvbase (of_nat (numSectionHeaders * sizeSections)) offset 0 md) (\<lambda>(kvoffset, m, d).
        if numSectionHeaders > 20 then cfail Undefined
        else
          let secthdr = kvbase + (offset - (offset - offset mod SECT));
              secthdr_ptr = map (\<lambda>i. secthdr + of_nat (SIZEOF_SECTHDR * i)) [0..<numSectionHeaders];
              strndx = unat (e_shstrndx (elf_at m elfhdr))
          in if strndx \<ge> numSectionHeaders then cfail Undefined
          else
            let sec_name = secthdr_at m (secthdr_ptr ! strndx); temp = kvoffset in
            cbind (readseg D (kvbase + kvoffset) (sh_size sec_name) (sh_offset sec_name) kvoffset (m, d)) (\<lambda>(kvoffset, m, d).
              let nametab = kvbase + temp + OFFSET_CORRECT (sh_offset (secthdr_at m (secthdr_ptr ! strndx))) in
              cbind (load_sections D L kvbase nametab secthdr_ptr (kvoffset, secs, m, d)) (\<lambda>(kvoffset, secs, m, d).
                cret (kvbase + kvoffset, secs, m, d)))))"

declare readseg_loop.simps [code] debug_sections_loop.simps [code]

section \<open>What is loaded\<close>

text \<open>The sectors a segment takes: those of its length, and one more when it crosses the end of its first sector.\<close>

definition seg_sectors :: "nat \<Rightarrow> nat \<Rightarrow> nat" where
  "seg_sectors offset count = (count + 511) div 512 + (if offset mod 512 + count > 512 then 1 else 0)"

lemma seg_sectors_cover: "i < count \<Longrightarrow> offset mod 512 + i < 512 * seg_sectors offset count"
proof (cases "offset mod 512 + count > 512")
  case False
  moreover assume "i < count"
  moreover from this have "(count + 511) div 512 \<ge> 1" by linarith
  ultimately show ?thesis by (simp add: seg_sectors_def)
next
  case True
  have "count \<le> 512 * ((count + 511) div 512)" by linarith
  moreover have "offset mod 512 < 512" by simp
  moreover assume "i < count"
  ultimately show ?thesis using True by (simp add: seg_sectors_def)
qed

lemma readseg_loop_reads:
  assumes disk: "ide_disk D img view" and "unat pa + 512 * n < 2 ^ 64" and "unat end_pa \<le> unat pa + 512 * n"
    and "n = 0 \<or> unat pa + 512 * (n - 1) < unat end_pa" and "unat offset + n < 2 ^ 28"
  shows "\<exists>d'. readseg_loop D end_pa pa offset kvoffset (m, d) =
     Some (pa + of_nat (512 * n), offset + of_nat n, kvoffset + of_nat (512 * n), load_img m pa img (512 * unat offset) (512 * n), d')"
  using assms(2-5)
proof (induction n arbitrary: pa offset kvoffset m d)
  case 0
  then show ?case by (subst readseg_loop.simps) (simp add: word_less_nat_alt)
next
  case (Suc n)
  obtain d1 where d1: "readsect D pa offset (m, d) = Some (load_img m pa img (512 * unat offset) 512, d1)"
    using readsect_reads [OF disk, of offset pa m d] Suc.prems by auto
  have pa: "unat (pa + 512) = unat pa + 512" using unat_add_less [of pa 512] Suc.prems(1) by simp
  have off: "unat (offset + 1) = unat offset + 1" using unat_add_less [of offset 1] Suc.prems(4) by simp
  have lt: "pa < end_pa" using Suc.prems(3) by (simp add: word_less_nat_alt)
  have "n = 0 \<or> unat (pa + 512) + 512 * (n - 1) < unat end_pa" using Suc.prems(3) pa by (cases n) auto
  then obtain d2 where d2: "readseg_loop D end_pa (pa + 512) (offset + 1) (kvoffset + 512) (load_img m pa img (512 * unat offset) 512, d1) =
      Some (pa + 512 + of_nat (512 * n), offset + 1 + of_nat n, kvoffset + 512 + of_nat (512 * n),
        load_img (load_img m pa img (512 * unat offset) 512) (pa + 512) img (512 * unat (offset + 1)) (512 * n), d2)"
    using Suc.IH [of "pa + 512" "offset + 1" "kvoffset + 512"] Suc.prems pa off by (simp add: algebra_simps) blast
  have "load_img (load_img m pa img (512 * unat offset) 512) (pa + 512) img (512 * unat (offset + 1)) (512 * n)
      = load_img m pa img (512 * unat offset) (512 * Suc n)"
    using load_img_append [of 512 "512 * n" m pa img "512 * unat offset"] Suc.prems(1) unfolding off by (simp add: algebra_simps)
  with d1 d2 lt show ?case by (subst readseg_loop.simps) (simp add: SECTSIZE_def algebra_simps)
qed

lemma SECT_eq: "SECT = 512"
  by (simp add: SECTSIZE_def)

lemma mod_512_align: "(x :: u64) mod 512 = 0 \<Longrightarrow> x AND NOT 511 = x"
proof -
  assume "x mod 512 = 0"
  then have "take_bit 9 x = 0" by (simp add: take_bit_eq_mod)
  then have "x AND 511 = 0" by (simp add: take_bit_eq_mask mask_numeral)
  moreover have "x = (x AND 511) OR (x AND NOT 511)" by (simp add: bit.conj_disj_distrib [symmetric])
  ultimately show ?thesis by simp
qed

lemma unat_mod_512: "unat ((x :: u64) mod 512) = unat x mod 512" "unat (x div 512) = unat x div 512"
  by (simp_all add: unat_mod unat_div)

lemma mod_512_nat: "(x :: u64) mod 512 = 0 \<longleftrightarrow> unat x mod 512 = 0"
  by (metis unat_0_iff unat_mod_512(1))

lemma mod_512_add: "x mod 512 = 0 \<Longrightarrow> unat x + 512 * n < 2 ^ 64 \<Longrightarrow> (x + of_nat (512 * n) :: u64) mod 512 = 0"
  unfolding mod_512_nat by (subst unat_add_less) simp_all

lemma readseg_reads:
  assumes disk: "ide_disk D img view" and pa: "pa mod 512 = 0" and room: "unat pa + unat count + 1024 < 2 ^ 64"
    and lba: "unat offset + unat count + 2048 < 2 ^ 37" and kv: "kvoffset mod 512 = 0"
    and n: "n = seg_sectors (unat offset) (unat count)" and kvn: "unat kvoffset + 512 * n < 2 ^ 64"
  shows "\<exists>d'. readseg D pa count offset kvoffset (m, d) =
     cret (kvoffset + of_nat (512 * n), load_img m pa img (512 * (unat offset div 512 + 1)) (512 * n), d')"
proof -
  let ?o = "unat offset" and ?c = "unat count"
  define k where "k = (?c + 511) div 512"
  have k: "?c \<le> 512 * k" "k = 0 \<or> 512 * (k - 1) < ?c" "512 * k \<le> ?c + 511" unfolding k_def by linarith+
  have e: "unat (pa + count) = unat pa + ?c" using unat_add_less [of pa ?c] room by simp
  have off: "unat (offset div 512 + 1) = ?o div 512 + 1"
    using unat_add_less [of "offset div 512" 1] unat_lt64 [of offset] by (simp add: unat_mod_512)
  have "?o div 512 + 1 + k + 1 < 268435456" using lba k(3) by simp
  then have lim: "unat (offset div 512 + 1) + k + 1 < 2 ^ 28" unfolding off by simp
  then obtain d1 where d1: "readseg_loop D (pa + count) pa (offset div 512 + 1) kvoffset (m, d) =
      Some (pa + of_nat (512 * k), offset div 512 + 1 + of_nat k, kvoffset + of_nat (512 * k),
        load_img m pa img (512 * (?o div 512 + 1)) (512 * k), d1)"
    using readseg_loop_reads [OF disk, of pa k "pa + count" "offset div 512 + 1" kvoffset m d] room k e off lim by auto
  have al: "pa AND NOT (SECT - 1) = pa" using mod_512_align [OF pa] by (simp add: SECT_eq)
  have cross: "orgoff mod SECT + count > SECT \<longleftrightarrow> ?o mod 512 + ?c > 512" if "orgoff = offset" for orgoff
  proof -
    have "?o mod 512 + ?c < 2 ^ 64" using room by (simp add: trans_less_add2)
    then have "unat (offset mod 512 + count) = ?o mod 512 + ?c"
      using unat_add_less [of "offset mod 512" ?c] by (simp add: unat_mod_512)
    then show ?thesis by (simp add: SECT_eq word_less_nat_alt that)
  qed
  have kvm: "(kvoffset + of_nat (512 * n)) mod SECT = 0" using mod_512_add [OF kv kvn] by (simp add: SECT_eq)
  show ?thesis
  proof (cases "?o mod 512 + ?c > 512")
    case False
    then have "n = k" by (simp add: n seg_sectors_def k_def)
    then show ?thesis using False d1 al cross pa kvm unfolding readseg_def Let_def by (simp add: SECT_eq clift_def)
  next
    case True
    then have nk: "n = k + 1" by (simp add: n seg_sectors_def k_def)
    have pk: "unat (pa + of_nat (512 * k)) = unat pa + 512 * k" using room k(3) by (intro unat_add_less) linarith
    have ok: "unat (offset div 512 + 1 + of_nat k) = ?o div 512 + 1 + k"
      using lim off by (subst unat_add_less) simp_all
    let ?m = "load_img m pa img (512 * (?o div 512 + 1)) (512 * k)"
    obtain d2 where d2: "readsect D (pa + of_nat (512 * k)) (offset div 512 + 1 + of_nat k) (?m, d1) =
        Some (load_img ?m (pa + of_nat (512 * k)) img (512 * (?o div 512 + 1 + k)) 512, d2)"
      using readsect_reads [OF disk, of "offset div 512 + 1 + of_nat k" "pa + of_nat (512 * k)" ?m d1] lim off room k(3)
      unfolding ok pk by auto
    have "load_img ?m (pa + of_nat (512 * k)) img (512 * (?o div 512 + 1 + k)) 512 = load_img m pa img (512 * (?o div 512 + 1)) (512 * n)"
      using load_img_append [of "512 * k" 512 m pa img "512 * (?o div 512 + 1)"] room k(3) by (simp add: nk algebra_simps)
    then show ?thesis
      using True d1 d2 al cross pa kvm nk unfolding readseg_def Let_def by (simp add: SECT_eq clift_def algebra_simps)
  qed
qed

text \<open>The kernel's file starts in sector 1; \<open>file_mem\<close> is the file as an address space of its own.\<close>

definition file_mem :: "(nat \<Rightarrow> u8) \<Rightarrow> mem" where
  "file_mem img a = img (512 + unat a)"

definition agree :: "mem \<Rightarrow> u64 \<Rightarrow> mem \<Rightarrow> u64 \<Rightarrow> nat \<Rightarrow> bool" where
  "agree m p f q n \<longleftrightarrow> (\<forall>i < n. m (p + of_nat i) = f (q + of_nat i))"

lemma agree_shift: "agree m p f q n \<Longrightarrow> k + j \<le> n \<Longrightarrow> agree m (p + of_nat k) f (q + of_nat k) j"
  by (auto simp: agree_def add.assoc of_nat_add [symmetric] simp del: of_nat_add)

lemma agree_trans: "agree m p f q n \<Longrightarrow> agree m' p m p n \<Longrightarrow> agree m' p f q n"
  by (simp add: agree_def)

lemma agree_cstr: "agree m p f q n \<Longrightarrow> length xs < n \<Longrightarrow> cstr f q xs \<Longrightarrow> cstr m p xs"
  by (rule cstr_cong [of xs m p f q]) (simp_all add: agree_def)

lemma agree_load:
  assumes "agree m p f q n"
  shows "i + 4 \<le> n \<Longrightarrow> load32 m (p + of_nat i) = load32 f (q + of_nat i)"
    and "i + 8 \<le> n \<Longrightarrow> load64 m (p + of_nat i) = load64 f (q + of_nat i)"
    and "i + 2 \<le> n \<Longrightarrow> load16 m (p + of_nat i) = load16 f (q + of_nat i)"
proof -
  have b: "m (p + of_nat i + of_nat j) = f (q + of_nat i + of_nat j)" if "i + j < n" for i j
    using assms that by (auto simp: agree_def add.assoc of_nat_add [symmetric] simp del: of_nat_add)
  have l: "load32 m (p + of_nat i) = load32 f (q + of_nat i)" if "i + 4 \<le> n" for i
    using b [of i 0] b [of i 1] b [of i 2] b [of i 3] that by (simp add: load32_def)
  then show "i + 4 \<le> n \<Longrightarrow> load32 m (p + of_nat i) = load32 f (q + of_nat i)" .
  show "i + 8 \<le> n \<Longrightarrow> load64 m (p + of_nat i) = load64 f (q + of_nat i)"
    using l [of i] l [of "i + 4"] by (simp add: load64_def add.assoc)
  show "i + 2 \<le> n \<Longrightarrow> load16 m (p + of_nat i) = load16 f (q + of_nat i)"
    using b [of i 0] b [of i 1] by (simp add: load16_def)
qed

lemma agree_secthdr: "agree m p f q 64 \<Longrightarrow> secthdr_at m p = secthdr_at f q"
  using agree_load(1) [of m p f q 64 0] agree_load(2) [of m p f q 64 16] agree_load(2) [of m p f q 64 24]
    agree_load(2) [of m p f q 64 32] by (simp add: secthdr_at_def)

lemma agree_elf: "agree m p f q 64 \<Longrightarrow> elf_at m p = elf_at f q"
  using agree_load(1) [of m p f q 64 0] agree_load(2) [of m p f q 64 24] agree_load(2) [of m p f q 64 32]
    agree_load(2) [of m p f q 64 40] agree_load(3) [of m p f q 64 56] agree_load(3) [of m p f q 64 58]
    agree_load(3) [of m p f q 64 60] agree_load(3) [of m p f q 64 62] by (simp add: elf_at_def)

text \<open>A load at \<open>kv\<close> bytes behind \<open>base\<close> changes nothing below \<open>kv\<close> and nothing from its end on.\<close>

lemma load_img_outside:
  assumes "unat (a - base) < kv \<or> kv + n \<le> unat (a - base)" and "kv + n < 2 ^ 64"
  shows "load_img m (base + of_nat kv) img s n a = m a"
proof -
  have "\<not> unat (a - (base + of_nat kv)) < n"
  proof (cases "unat (a - base) < kv")
    case True
    with assms unat_diff_wrap [of a base kv] show ?thesis by linarith
  next
    case False
    with assms unat_diff_step [of kv a base] show ?thesis by simp
  qed
  then show ?thesis by (simp add: load_img_def)
qed

lemma OFFSET_CORRECT_eq: "OFFSET_CORRECT x = of_nat (unat x mod 512)"
  by (simp add: OFFSET_CORRECT_def SECT_eq unat_mod_512 [symmetric] del: of_nat_mod)

lemma load_img_file:
  assumes "512 * seg_sectors (unat offset) count < 2 ^ 64" and "unat offset + count < 2 ^ 64"
  shows "agree (load_img m pa img (512 * (unat offset div 512 + 1)) (512 * seg_sectors (unat offset) count)) (pa + OFFSET_CORRECT offset)
     (file_mem img) offset count"
  unfolding agree_def
proof (intro allI impI)
  fix i assume i: "i < count"
  let ?o = "unat offset" and ?n = "seg_sectors (unat offset) count"
  have lt: "?o mod 512 + i < 512 * ?n" using i by (rule seg_sectors_cover)
  then have d: "unat (of_nat (?o mod 512 + i) :: u64) = ?o mod 512 + i" using assms(1) by (simp add: unat_of_nat del: of_nat_add)
  have a: "pa + OFFSET_CORRECT offset + of_nat i - pa = of_nat (?o mod 512 + i)" by (simp add: OFFSET_CORRECT_eq)
  have "unat (offset + of_nat i) = ?o + i" using assms(2) i by (intro unat_add_less) simp
  moreover have "512 * (?o div 512 + 1) + (?o mod 512 + i) = 512 + (?o + i)"
    by (simp add: add.assoc [symmetric])
  ultimately show "load_img m pa img (512 * (?o div 512 + 1)) (512 * ?n) (pa + OFFSET_CORRECT offset + of_nat i)
      = file_mem img (offset + of_nat i)"
    using lt d by (simp only: load_img_def file_mem_def a) simp
qed

section \<open>The sections of the file\<close>

definition sec_idx :: "u8 list \<Rightarrow> nat option" where
  "sec_idx nm = map_of (map (\<lambda>i. (ascii (section_names ! i), i)) [DEBUG_INFO, DEBUG_ABBREV, DEBUG_LINE, DEBUG_FRAME, DEBUG_STR]) nm"

definition lits_at :: "mem \<Rightarrow> elits \<Rightarrow> bool" where
  "lits_at m L \<longleftrightarrow> (\<forall>(p, i) \<in> set (section_tests L). cstr m p (ascii (section_names ! i)))"

text \<open>The \<open>n\<close> bytes at \<open>p\<close> lie less than \<open>kv\<close> bytes behind \<open>base\<close>, or all of them at least \<open>kv\<close> bytes.\<close>

definition below :: "u64 \<Rightarrow> nat \<Rightarrow> u64 \<Rightarrow> nat \<Rightarrow> bool" where
  "below base kv p n \<longleftrightarrow> (\<forall>i < n. unat (p + of_nat i - base) < kv)"

definition beyond :: "u64 \<Rightarrow> nat \<Rightarrow> u64 \<Rightarrow> nat \<Rightarrow> bool" where
  "beyond base kv p n \<longleftrightarrow> (\<forall>i < n. kv \<le> unat (p + of_nat i - base))"

definition lits_beyond :: "u64 \<Rightarrow> nat \<Rightarrow> elits \<Rightarrow> bool" where
  "lits_beyond base kv L \<longleftrightarrow> (\<forall>(p, i) \<in> set (section_tests L). beyond base kv p (length (section_names ! i) + 1))"

text \<open>Memory is the same below \<open>lo\<close> and from \<open>hi\<close> on.\<close>

definition same_outside :: "u64 \<Rightarrow> nat \<Rightarrow> nat \<Rightarrow> mem \<Rightarrow> mem \<Rightarrow> bool" where
  "same_outside base lo hi m m' \<longleftrightarrow> (\<forall>a. unat (a - base) < lo \<or> hi \<le> unat (a - base) \<longrightarrow> m' a = m a)"

lemma same_outside_trans:
  "same_outside base lo mid m m' \<Longrightarrow> same_outside base mid hi m' m'' \<Longrightarrow> lo \<le> mid \<Longrightarrow> mid \<le> hi \<Longrightarrow> same_outside base lo hi m m''"
  by (simp add: same_outside_def)

lemma same_outside_agree:
  "same_outside base lo hi m m' \<Longrightarrow> below base lo p n \<or> beyond base hi p n \<Longrightarrow> agree m' p m p n"
  by (auto simp: same_outside_def below_def beyond_def agree_def)

lemma beyond_mono: "beyond base kv p n \<Longrightarrow> kv' \<le> kv \<Longrightarrow> beyond base kv' p n"
  by (auto simp: beyond_def)

lemma beyond_lower:
  assumes "unat p + n \<le> unat base" and "unat base + kv \<le> 2 ^ 64"
  shows "beyond base kv p n"
  unfolding beyond_def
proof (intro allI impI)
  fix i assume "i < n"
  then have u: "unat (p + of_nat i) = unat p + i" using assms(1) unat_lt64 [of base] by (intro unat_add_less) linarith
  then have "\<not> base \<le> p + of_nat i" using \<open>i < n\<close> assms(1) by (simp add: word_le_nat_alt)
  then have "unat (p + of_nat i - base) = 2 ^ 64 + unat (p + of_nat i) - unat base"
    using unat_sub_if' [of "p + of_nat i" base] by (simp add: word_le_nat_alt)
  then show "kv \<le> unat (p + of_nat i - base)" using assms(2) u by linarith
qed

lemma below_shift: "below base kv p n \<Longrightarrow> k + j \<le> n \<Longrightarrow> below base kv (p + of_nat k) j"
  by (auto simp: below_def add.assoc of_nat_add [symmetric] simp del: of_nat_add)

lemma below_mono: "below base kv p n \<Longrightarrow> kv \<le> kv' \<Longrightarrow> below base kv' p n"
  by (auto simp: below_def)

lemma lits_at_same:
  assumes "lits_at m L" "lits_beyond base hi L" "same_outside base lo hi m m'"
  shows "lits_at m' L"
  unfolding lits_at_def
proof (intro ballI, clarify)
  fix p i assume pi: "(p, i) \<in> set (section_tests L)"
  with assms(2) have "beyond base hi p (length (section_names ! i) + 1)" by (auto simp: lits_beyond_def)
  then have "agree m' p m p (length (section_names ! i) + 1)" using same_outside_agree [OF assms(3)] by blast
  then show "cstr m' p (ascii (section_names ! i))"
    using agree_cstr [of m' p m p "length (section_names ! i) + 1"] pi assms(1) by (auto simp: lits_at_def ascii_def)
qed

lemma section_index_map_of:
  assumes "\<forall>(p, i) \<in> set ls. cstr m p (ascii (section_names ! i))" "cstr m name nm"
  shows "section_index m name ls = Some (map_of (map (\<lambda>(p, i). (ascii (section_names ! i), i)) ls) nm)"
  using assms(1)
proof (induction ls)
  case (Cons x ls)
  obtain p i where x: "x = (p, i)" by (cases x)
  then have c: "cstr m p (ascii (section_names ! i))" using Cons.prems by simp
  with Cons x show ?case
    using strcmp_byte_cmp [OF assms(2) c] byte_cmp_0_iff [OF cstr_no_zero [OF assms(2)] cstr_no_zero [OF c]] by auto
qed simp

lemma section_index_found:
  "lits_at m L \<Longrightarrow> cstr m name nm \<Longrightarrow> section_index m name (section_tests L) = Some (sec_idx nm)"
  using section_index_map_of [of "section_tests L" m name nm] by (simp add: lits_at_def sec_idx_def section_tests_def)

text \<open>
  A section header at \<open>sp\<close> in memory, what it says and the name it points to; both lie below \<open>kv\<close>.
\<close>

type_synonym hdr = "u64 \<times> secthdr \<times> u8 list"

definition hdr_ok :: "mem \<Rightarrow> u64 \<Rightarrow> nat \<Rightarrow> u64 \<Rightarrow> hdr \<Rightarrow> bool" where
  "hdr_ok m base kv nametab x \<longleftrightarrow>
     (case x of (sp, h, nm) \<Rightarrow>
        secthdr_at m sp = h \<and> below base kv sp 64
      \<and> cstr m (nametab + ucast (sh_name h)) nm \<and> below base kv (nametab + ucast (sh_name h)) (length nm + 1)
      \<and> unat (sh_offset h) + unat (sh_size h) + 2048 < 2 ^ 37)"

text \<open>The bytes a section takes in memory.\<close>

definition sec_bytes :: "secthdr \<Rightarrow> u8 list \<Rightarrow> nat" where
  "sec_bytes h nm =
     (if sec_idx nm = None \<or> sec_idx nm = Some DEBUG_FRAME then 0
      else 512 * seg_sectors (unat (sh_offset h)) (unat (sh_size h)))"

definition hdr_bytes :: "hdr \<Rightarrow> nat" where
  "hdr_bytes x = sec_bytes (fst (snd x)) (snd (snd x))"

definition sec_loaded :: "(nat \<Rightarrow> u8) \<Rightarrow> mem \<Rightarrow> nat \<Rightarrow> secthdr \<Rightarrow> dwarf_section \<Rightarrow> bool" where
  "sec_loaded img m i h ds \<longleftrightarrow> ds_size ds = sh_size h \<and> ds_addr ds = ds_data ds
     \<and> (if i = DEBUG_FRAME then ds_data ds = sh_addr h else agree m (ds_data ds) (file_mem img) (sh_offset h) (unat (sh_size h)))"

lemma hdr_ok_same:
  assumes ok: "hdr_ok m base kv nametab x" and same: "same_outside base kv hi m m'" and "kv \<le> kv'"
  shows "hdr_ok m' base kv' nametab x"
proof -
  obtain sp h nm where x: "x = (sp, h, nm)" by (metis surj_pair)
  note h = ok [unfolded hdr_ok_def x prod.case]
  have "agree m' sp m sp 64" "agree m' (nametab + ucast (sh_name h)) m (nametab + ucast (sh_name h)) (length nm + 1)"
    using same_outside_agree [OF same] h by blast+
  then have "secthdr_at m' sp = h" "cstr m' (nametab + ucast (sh_name h)) nm"
    using agree_secthdr agree_cstr [of m' "nametab + ucast (sh_name h)" m] h by auto
  with h below_mono assms(3) show ?thesis by (auto simp: hdr_ok_def x)
qed

lemma readseg_loaded:
  assumes disk: "ide_disk D img view" and base: "base mod 512 = 0" and kv: "kv mod 512 = 0"
    and k: "k = seg_sectors (unat offset) (unat count)" and lba: "unat offset + unat count + 2048 < 2 ^ 37"
    and room: "unat base + kv + 512 * k + 2 ^ 37 < 2 ^ 64"
  shows "\<exists>m' d'. readseg D (base + of_nat kv) count offset (of_nat kv) (m, d) = cret (of_nat (kv + 512 * k), m', d')
     \<and> same_outside base kv (kv + 512 * k) m m'
     \<and> agree m' (base + of_nat kv + OFFSET_CORRECT offset) (file_mem img) offset (unat count)
     \<and> below base (kv + 512 * k) (base + of_nat kv + OFFSET_CORRECT offset) (unat count)"
proof -
  let ?p = "base + of_nat kv + OFFSET_CORRECT offset"
  let ?m = "load_img m (base + of_nat kv) img (512 * (unat offset div 512 + 1)) (512 * k)"
  have kvu: "unat (of_nat kv :: u64) = kv" using room by (simp add: unat_of_nat)
  have kvm: "(of_nat kv :: u64) mod 512 = 0" using kv by (simp add: mod_512_nat kvu)
  have pa: "unat (base + of_nat kv) = unat base + kv" using room by (intro unat_add_less) linarith
  have pam: "(base + of_nat kv) mod 512 = 0" using base kv unfolding mod_512_nat pa by presburger
  obtain d' where r: "readseg D (base + of_nat kv) count offset (of_nat kv) (m, d) = cret (of_nat kv + of_nat (512 * k), ?m, d')"
    using readseg_reads [OF disk pam, of count offset "of_nat kv" k m d] lba room kvm k kvu pa by auto
  have same: "same_outside base kv (kv + 512 * k) m ?m"
    unfolding same_outside_def using room by (intro allI impI load_img_outside) auto
  have ag: "agree ?m ?p (file_mem img) offset (unat count)"
    unfolding k using lba room k by (intro load_img_file) auto
  have "below base (kv + 512 * k) ?p (unat count)"
    unfolding below_def
  proof (intro allI impI)
    fix j assume "j < unat count"
    then have lt: "unat offset mod 512 + j < 512 * k" unfolding k by (rule seg_sectors_cover)
    have "?p + of_nat j - base = of_nat (kv + (unat offset mod 512 + j))" by (simp add: OFFSET_CORRECT_eq)
    moreover have "kv + (unat offset mod 512 + j) < 2 ^ 64" using lt room by linarith
    ultimately show "unat (?p + of_nat j - base) < kv + 512 * k" using lt by (simp add: unat_of_nat del: of_nat_add)
  qed
  with r same ag show ?thesis by auto
qed

lemma load_section_loaded:
  assumes disk: "ide_disk D img view" and ok: "hdr_ok m base kv nametab (sp, h, nm)" and lits: "lits_at m L"
    and base: "base mod 512 = 0" and kv: "kv mod 512 = 0" and n: "n = sec_bytes h nm"
    and room: "unat base + kv + n + 2 ^ 37 < 2 ^ 64"
  shows "\<exists>secs' m' d'. load_section D L base nametab sp (of_nat kv, secs, m, d) = cret (of_nat (kv + n), secs', m', d')
     \<and> same_outside base kv (kv + n) m m'
     \<and> (case sec_idx nm of None \<Rightarrow> secs' = secs
        | Some i \<Rightarrow> \<exists>p. secs' = set_section i p (sh_size h) secs
            \<and> (if i = DEBUG_FRAME then p = sh_addr h
               else agree m' p (file_mem img) (sh_offset h) (unat (sh_size h)) \<and> below base (kv + n) p (unat (sh_size h))))"
proof -
  note h = ok [unfolded hdr_ok_def prod.case]
  have idx: "section_index m (nametab + ucast (sh_name h)) (section_tests L) = Some (sec_idx nm)"
    using section_index_found [OF lits] h by blast
  have kvm: "(of_nat kv :: u64) mod 512 = 0" using room kv by (simp add: mod_512_nat unat_of_nat)
  show ?thesis
  proof (cases "sec_idx nm = None \<or> sec_idx nm = Some DEBUG_FRAME")
    case True
    then have "n = 0" by (auto simp: n sec_bytes_def)
    with True idx h kvm show ?thesis
      by (auto simp: load_section_def cassert_def SECT_eq clift_def same_outside_def)
  next
    case False
    then obtain i where i: "sec_idx nm = Some i" "i \<noteq> DEBUG_FRAME" by auto
    have n: "n = 512 * seg_sectors (unat (sh_offset h)) (unat (sh_size h))" using False by (auto simp: n sec_bytes_def)
    obtain m' d' where r: "readseg D (base + of_nat kv) (sh_size h) (sh_offset h) (of_nat kv) (m, d) = cret (of_nat (kv + n), m', d')"
        "same_outside base kv (kv + n) m m'"
        "agree m' (base + of_nat kv + OFFSET_CORRECT (sh_offset h)) (file_mem img) (sh_offset h) (unat (sh_size h))"
        "below base (kv + n) (base + of_nat kv + OFFSET_CORRECT (sh_offset h)) (unat (sh_size h))"
      using readseg_loaded [OF disk base kv refl, of "sh_offset h" "sh_size h" m d] h room n by auto
    have "secthdr_at m' sp = h" using hdr_ok_same [OF ok r(2) order_refl] by (simp add: hdr_ok_def)
    with r h idx i kvm show ?thesis by (auto simp: load_section_def cassert_def SECT_eq clift_def)
  qed
qed

lemma sec_idx_less: "sec_idx nm = Some i \<Longrightarrow> i < 5"
  by (auto simp: sec_idx_def section_codes split: if_splits)

lemma sec_idx_name: "sec_idx nm = Some i \<Longrightarrow> nm = ascii (section_names ! i)"
  by (auto simp: sec_idx_def split: if_splits)

lemma sec_loaded_same:
  assumes "agree m p (file_mem img) (sh_offset h) (unat (sh_size h))" "below base kv p (unat (sh_size h))" "same_outside base kv hi m m'"
  shows "agree m' p (file_mem img) (sh_offset h) (unat (sh_size h))"
  using agree_trans [OF assms(1)] same_outside_agree [OF assms(3)] assms(2) by blast

lemma set_section_names [simp]:
  "length (set_section i p n secs) = length secs" "map ds_name (set_section i p n secs) = map ds_name secs"
  by (simp_all add: set_section_def map_update) (metis list_update_beyond list_update_id not_le nth_map length_map)

lemma lits_beyond_mono: "lits_beyond base hi L \<Longrightarrow> lo \<le> hi \<Longrightarrow> lits_beyond base lo L"
  by (fastforce simp: lits_beyond_def beyond_def)

lemma load_sections_loaded:
  assumes disk: "ide_disk D img view" and "\<forall>x\<in>set ss. hdr_ok m base kv nametab x" and "distinct (map (snd \<circ> snd) ss)"
    and "lits_at m L" and lits: "lits_beyond base lim L" and "base mod 512 = 0" and "kv mod 512 = 0"
    and "kv + sum_list (map hdr_bytes ss) \<le> lim" and lim: "unat base + lim + 2 ^ 37 < 2 ^ 64" and "length secs = 5"
  shows "\<exists>secs' m' d'. load_sections D L base nametab (map fst ss) (of_nat kv, secs, m, d)
        = cret (of_nat (kv + sum_list (map hdr_bytes ss)), secs', m', d')
     \<and> same_outside base kv (kv + sum_list (map hdr_bytes ss)) m m' \<and> map ds_name secs' = map ds_name secs
     \<and> (\<forall>(sp, h, nm) \<in> set ss. \<forall>i. sec_idx nm = Some i \<longrightarrow> sec_loaded img m' i h (secs' ! i))
     \<and> (\<forall>i. (\<forall>(sp, h, nm) \<in> set ss. sec_idx nm \<noteq> Some i) \<longrightarrow> secs' ! i = secs ! i)"
  using assms(2-4,6-8,10)
proof (induction ss arbitrary: m kv secs d)
  case Nil
  then show ?case by (auto simp: same_outside_def)
next
  case (Cons x ss)
  obtain sp h nm where x: "x = (sp, h, nm)" by (metis surj_pair)
  let ?n = "hdr_bytes x" and ?N = "sum_list (map hdr_bytes ss)"
  have ok: "hdr_ok m base kv nametab (sp, h, nm)" using Cons.prems(1) by (simp add: x)
  have room: "unat base + kv + ?n + 2 ^ 37 < 2 ^ 64" using Cons.prems(6) lim by simp
  obtain secs1 m1 d1 where s1: "load_section D L base nametab sp (of_nat kv, secs, m, d) = cret (of_nat (kv + ?n), secs1, m1, d1)"
      "same_outside base kv (kv + ?n) m m1"
      "case sec_idx nm of None \<Rightarrow> secs1 = secs
        | Some i \<Rightarrow> \<exists>p. secs1 = set_section i p (sh_size h) secs
            \<and> (if i = DEBUG_FRAME then p = sh_addr h
               else agree m1 p (file_mem img) (sh_offset h) (unat (sh_size h)) \<and> below base (kv + ?n) p (unat (sh_size h)))"
    using load_section_loaded [OF disk ok Cons.prems(3-5) _ , of ?n secs d] room by (auto simp: x hdr_bytes_def)
  have len: "length secs1 = 5" "map ds_name secs1 = map ds_name secs"
    using s1(3) Cons.prems(7) by (auto split: option.splits)
  have nm: "(kv + ?n) mod 512 = 0" using Cons.prems(5) by (auto simp: hdr_bytes_def sec_bytes_def)
  have lits1: "lits_at m1 L"
    using lits_at_same [OF Cons.prems(3) _ s1(2)] lits_beyond_mono [OF lits] Cons.prems(6) by simp
  have oks: "\<forall>y\<in>set ss. hdr_ok m1 base (kv + ?n) nametab y"
    using Cons.prems(1) hdr_ok_same [OF _ s1(2)] by auto
  obtain secs2 m2 d2 where s2: "load_sections D L base nametab (map fst ss) (of_nat (kv + ?n), secs1, m1, d1)
        = cret (of_nat (kv + ?n + ?N), secs2, m2, d2)" "same_outside base (kv + ?n) (kv + ?n + ?N) m1 m2"
      "map ds_name secs2 = map ds_name secs1"
      "\<forall>(sp, h, nm) \<in> set ss. \<forall>i. sec_idx nm = Some i \<longrightarrow> sec_loaded img m2 i h (secs2 ! i)"
      "\<forall>i. (\<forall>(sp, h, nm) \<in> set ss. sec_idx nm \<noteq> Some i) \<longrightarrow> secs2 ! i = secs1 ! i"
    using Cons.IH [OF oks _ lits1 Cons.prems(4) nm, of secs1 d1] Cons.prems(2,6) len by auto
  have same: "same_outside base kv (kv + ?n + ?N) m m2" using same_outside_trans [OF s1(2) s2(2)] by simp
  have first: "sec_loaded img m2 i h (secs2 ! i)" if "sec_idx nm = Some i" for i
  proof -
    have "\<forall>(sp', h', nm') \<in> set ss. sec_idx nm' \<noteq> Some i"
    proof clarify
      fix sp' h' nm' assume "(sp', h', nm') \<in> set ss" "sec_idx nm' = Some i"
      then have "nm \<in> (snd \<circ> snd) ` set ss" using sec_idx_name [OF that] sec_idx_name [of nm' i] by force
      then show False using Cons.prems(2) by (simp add: x)
    qed
    then have "secs2 ! i = secs1 ! i" using s2(5) by blast
    then show ?thesis
      using s1(3) that sec_idx_less [OF that] Cons.prems(7) sec_loaded_same [OF _ _ s2(2)]
      by (auto simp: sec_loaded_def set_section_def)
  qed
  have rest: "secs2 ! i = secs ! i" if "\<forall>(sp, h, nm) \<in> set (x # ss). sec_idx nm \<noteq> Some i" for i
  proof -
    have "secs1 ! i = secs ! i" using s1(3) that by (auto simp: x set_section_def split: option.splits)
    then show ?thesis using s2(5) that by auto
  qed
  show ?case
    using s1(1) s2(1,3,4) same first rest len by (auto simp: x add.assoc)
qed

section \<open>Reading the headers and the sections\<close>

text \<open>
  A file with header \<open>e\<close>, section headers \<open>hs\<close> and section names \<open>nms\<close>: at most 20 sections of distinct names, headers of
  the size of \<^verbatim>\<open>Secthdr\<close>, names inside the string table, and everything on sectors the driver can address.
\<close>

definition elf_file :: "(nat \<Rightarrow> u8) \<Rightarrow> elf_hdr \<Rightarrow> secthdr list \<Rightarrow> u8 list list \<Rightarrow> bool" where
  "elf_file img e hs nms \<longleftrightarrow>
     e_shentsize e = 64 \<and> unat (e_shnum e) \<le> 20 \<and> unat (e_shstrndx e) < unat (e_shnum e)
   \<and> hs = map (\<lambda>j. secthdr_at (file_mem img) (e_shoff e + of_nat (64 * j))) [0..<unat (e_shnum e)]
   \<and> unat (e_shoff e) + 64 * unat (e_shnum e) + 2048 < 2 ^ 37
   \<and> (\<forall>h \<in> set hs. unat (sh_offset h) + unat (sh_size h) + 2048 < 2 ^ 37)
   \<and> length nms = length hs \<and> distinct nms
   \<and> (let str = hs ! unat (e_shstrndx e) in
        \<forall>j < length hs. cstr (file_mem img) (sh_offset str + ucast (sh_name (hs ! j))) (nms ! j)
          \<and> unat (sh_name (hs ! j)) + length (nms ! j) < unat (sh_size str))"

text \<open>The space taken by the headers, the string table and the debug sections.\<close>

definition load_space :: "elf_hdr \<Rightarrow> secthdr list \<Rightarrow> u8 list list \<Rightarrow> nat" where
  "load_space e hs nms =
     (let str = hs ! unat (e_shstrndx e) in
      512 * seg_sectors (unat (e_shoff e)) (64 * length hs) + 512 * seg_sectors (unat (sh_offset str)) (unat (sh_size str))
      + sum_list (map2 sec_bytes hs nms))"

lemma ROUNDUP_aligned: "ROUNDUP x 512 mod 512 = 0"
proof -
  have "unat (y - y mod 512) mod 512 = 0" for y :: u64
  proof -
    have "y mod 512 \<le> y" by (simp add: word_le_nat_alt unat_mod_512)
    then have "unat (y - y mod 512) = unat y - unat y mod 512" by (simp add: unat_sub unat_mod_512)
    then show ?thesis by (simp add: minus_mod_eq_mult_div)
  qed
  then show ?thesis unfolding ROUNDUP_def mod_512_nat by blast
qed

lemma find_section_names:
  assumes "map ds_name secs = map ascii section_names" "i < 5"
  shows "dwarf_find_section secs (section_names ! i) = Some (secs ! i)"
proof -
  have ln: "length section_names = 5" by (simp add: section_names_def)
  then have len: "length secs = 5" using arg_cong [OF assms(1), of length] by simp
  have "distinct (map ascii section_names)" by code_simp
  then have d: "distinct (map ds_name secs)" by (simp add: assms(1))
  have i: "ds_name (secs ! i) = ascii (section_names ! i)"
    using arg_cong [OF assms(1), of "\<lambda>xs. xs ! i"] assms(2) len ln by simp
  have "ds_name (secs ! j) \<noteq> ds_name (secs ! i)" if "j < i" for j
    using nth_eq_iff_index_eq [OF d, of j i] that assms(2) len by simp
  then show ?thesis using assms(2) len by (auto simp: dwarf_find_section_def find_Some_iff i [symmetric])
qed

lemma section_headers_read:
  assumes disk: "ide_disk D img view" and e: "e = elf_at m KELFHDR" and ef: "elf_file img e hs nms"
    and base: "base = ROUNDUP to_va 512" and n: "n = load_space e hs nms" and room: "unat base + n + 2 ^ 37 < 2 ^ 64"
    and elf: "beyond base n KELFHDR 64" and lits: "lits_at m L" "lits_beyond base n L"
    and secs: "map ds_name secs = map ascii section_names"
  shows "\<exists>secs' m' d'. read_section_headers D L KELFHDR to_va secs (m, d) = cret (base + of_nat n, secs', m', d')
     \<and> same_outside base 0 n m m' \<and> map ds_name secs' = map ascii section_names
     \<and> (\<forall>j < length hs. \<forall>i. sec_idx (nms ! j) = Some i \<longrightarrow> sec_loaded img m' i (hs ! j) (secs' ! i))"
proof -
  note f = ef [unfolded elf_file_def Let_def]
  define N where "N = unat (e_shnum e)"
  define str where "str = hs ! unat (e_shstrndx e)"
  define k1 where "k1 = seg_sectors (unat (e_shoff e)) (64 * N)"
  define k2 where "k2 = seg_sectors (unat (sh_offset str)) (unat (sh_size str))"
  have len: "length hs = N" using f by (simp add: N_def)
  have N: "N \<le> 20" "unat (e_shstrndx e) < N" "unat (e_shentsize e) = 64" using f by (simp_all add: N_def)
  have n_eq: "n = 512 * k1 + 512 * k2 + sum_list (map2 sec_bytes hs nms)"
    unfolding n load_space_def Let_def len k1_def k2_def str_def by simp
  have al: "base mod 512 = 0" unfolding base by (rule ROUNDUP_aligned)
  have cnt: "unat (of_nat (64 * N) :: u64) = 64 * N" using N(1) by (simp add: unat_of_nat del: of_nat_mult)
  obtain m1 d1 where r1: "readseg D base (of_nat (64 * N)) (e_shoff e) 0 (m, d) = cret (of_nat (512 * k1), m1, d1)"
      "same_outside base 0 (512 * k1) m m1"
      "agree m1 (base + OFFSET_CORRECT (e_shoff e)) (file_mem img) (e_shoff e) (64 * N)"
      "below base (512 * k1) (base + OFFSET_CORRECT (e_shoff e)) (64 * N)"
    using readseg_loaded [OF disk al _ refl, of 0 "e_shoff e" "of_nat (64 * N)" m d] f cnt room n_eq k1_def N_def by auto
  define sps where "sps = map (\<lambda>i. base + OFFSET_CORRECT (e_shoff e) + of_nat (64 * i)) [0..<N]"
  have "agree m1 KELFHDR m KELFHDR 64"
    using same_outside_agree [OF r1(2)] beyond_mono [OF elf, of "512 * k1"] by (simp add: n_eq)
  then have e1: "elf_at m1 KELFHDR = e" using agree_elf e by simp
  have hdr: "secthdr_at m1 (sps ! j) = hs ! j" "below base (512 * k1) (sps ! j) 64" if "j < N" for j
  proof -
    have "agree m1 (sps ! j) (file_mem img) (e_shoff e + of_nat (64 * j)) 64"
      using agree_shift [OF r1(3), of "64 * j" 64] that by (simp add: sps_def)
    from agree_secthdr [OF this] show "secthdr_at m1 (sps ! j) = hs ! j" using f that by (simp add: N_def)
    show "below base (512 * k1) (sps ! j) 64" using below_shift [OF r1(4), of "64 * j" 64] that by (simp add: sps_def)
  qed
  have str: "str \<in> set hs" "secthdr_at m1 (sps ! unat (e_shstrndx e)) = str" using N(2) hdr(1) len by (auto simp: str_def)
  obtain m2 d2 where r2: "readseg D (base + of_nat (512 * k1)) (sh_size str) (sh_offset str) (of_nat (512 * k1)) (m1, d1)
        = cret (of_nat (512 * k1 + 512 * k2), m2, d2)"
      "same_outside base (512 * k1) (512 * k1 + 512 * k2) m1 m2"
      "agree m2 (base + of_nat (512 * k1) + OFFSET_CORRECT (sh_offset str)) (file_mem img) (sh_offset str) (unat (sh_size str))"
      "below base (512 * k1 + 512 * k2) (base + of_nat (512 * k1) + OFFSET_CORRECT (sh_offset str)) (unat (sh_size str))"
    using readseg_loaded [OF disk al _ refl, of "512 * k1" "sh_offset str" "sh_size str" m1 d1] f str(1) room n_eq k2_def by auto
  define nametab where "nametab = base + of_nat (512 * k1) + OFFSET_CORRECT (sh_offset str)"
  have hdr2: "secthdr_at m2 (sps ! j) = hs ! j" if "j < N" for j
    using agree_secthdr [OF same_outside_agree [OF r2(2)]] hdr [OF that] by auto
  define ss where "ss = zip sps (zip hs nms)"
  have ok: "\<forall>x\<in>set ss. hdr_ok m2 base (512 * k1 + 512 * k2) nametab x"
  proof
    fix x assume "x \<in> set ss"
    then obtain j where j: "j < N" "x = (sps ! j, hs ! j, nms ! j)" using f by (auto simp: ss_def set_zip sps_def N_def)
    let ?i = "unat (sh_name (hs ! j))"
    have u: "(ucast (sh_name (hs ! j)) :: u64) = of_nat ?i" by simp
    have nm: "cstr (file_mem img) (sh_offset str + of_nat ?i) (nms ! j)" "?i + length (nms ! j) < unat (sh_size str)"
      using f j(1) len unfolding u [symmetric] str_def by auto
    have "agree m2 (nametab + of_nat ?i) (file_mem img) (sh_offset str + of_nat ?i) (length (nms ! j) + 1)"
      unfolding nametab_def by (rule agree_shift [OF r2(3)]) (use nm(2) in simp)
    then have "cstr m2 (nametab + of_nat ?i) (nms ! j)" using agree_cstr nm(1) by fastforce
    moreover have "below base (512 * k1 + 512 * k2) (nametab + of_nat ?i) (length (nms ! j) + 1)"
      unfolding nametab_def by (rule below_shift [OF r2(4)]) (use nm(2) in simp)
    ultimately show "hdr_ok m2 base (512 * k1 + 512 * k2) nametab x"
      using j f len hdr2 below_mono [OF hdr(2)] unfolding hdr_ok_def u j(2) prod.case by auto
  qed
  have m2: "same_outside base 0 (512 * k1 + 512 * k2) m m2" by (rule same_outside_trans [OF r1(2) r2(2)]) simp_all
  have lens: "length sps = N" "length hs = N" "length nms = N" using f len by (simp_all add: sps_def)
  have sum: "sum_list (map hdr_bytes ss) = sum_list (map2 sec_bytes hs nms)"
    using lens by (intro arg_cong [of _ _ sum_list] nth_equalityI) (simp_all add: ss_def hdr_bytes_def)
  have "map (snd \<circ> snd) ss = nms" using lens by (intro nth_equalityI) (simp_all add: ss_def)
  then have dist: "distinct (map (snd \<circ> snd) ss)" using f by simp
  have fst: "map fst ss = sps" using lens by (simp add: ss_def)
  obtain secs' m' d' where r3: "load_sections D L base nametab sps (of_nat (512 * k1 + 512 * k2), secs, m2, d2)
        = cret (of_nat n, secs', m', d')" "same_outside base (512 * k1 + 512 * k2) n m2 m'" "map ds_name secs' = map ds_name secs"
      "\<forall>(sp, h, nm) \<in> set ss. \<forall>i. sec_idx nm = Some i \<longrightarrow> sec_loaded img m' i h (secs' ! i)"
    using load_sections_loaded [OF disk ok dist lits_at_same [OF lits(1) lits_beyond_mono [OF lits(2)] m2] lits(2) al _ _ room, of secs d2]
      arg_cong [OF secs, of length] n_eq unfolding sum fst by (auto simp: section_names_def)
  have "same_outside base 0 n m m'" by (rule same_outside_trans [OF m2 r3(2)]) (simp_all add: n_eq)
  moreover have "sec_loaded img m' i (hs ! j) (secs' ! i)" if "j < length hs" "sec_idx (nms ! j) = Some i" for i j
  proof -
    have "(sps ! j, hs ! j, nms ! j) \<in> set ss" using that(1) lens by (auto simp: ss_def set_zip)
    then show ?thesis using r3(4) that(2) by blast
  qed
  moreover have "read_section_headers D L KELFHDR to_va secs (m, d) = cret (base + of_nat n, secs', m', d')"
  proof -
    have rb: "ROUNDUP to_va SECT = base" by (simp add: base SECT_eq)
    have ptr: "map (\<lambda>i. base + (e_shoff e - (e_shoff e - e_shoff e mod SECT)) + of_nat (SIZEOF_SECTHDR * i)) [0..<N] = sps"
      by (simp add: sps_def OFFSET_CORRECT_def SIZEOF_SECTHDR_def)
    have r1': "readseg D base (of_nat (N * 64)) (e_shoff e) 0 (m, d) = cret (of_nat (512 * k1), m1, d1)"
      using r1(1) unfolding mult.commute [of N 64] .
    show ?thesis
      using N(1,2) hdr2 [OF N(2)] r3(1)
      unfolding read_section_headers_def Let_def fst_conv e [symmetric] rb N_def [symmetric] N(3) simp_thms if_True ptr
      by (simp add: r1' e1 str(2) r2(1) nametab_def [symmetric] str_def [symmetric] del: of_nat_mult of_nat_add)
  qed
  ultimately show ?thesis using r3(3) secs by auto
qed

lemma section_name_index:
  "\<forall>s \<in> set section_names. case sec_idx (ascii s) of None \<Rightarrow> False
     | Some i \<Rightarrow> i < 5 \<and> s = section_names ! i \<and> (s = ''.eh_frame'' \<longleftrightarrow> i = DEBUG_FRAME)"
  by code_simp

text \<open>
  C6. \<^verbatim>\<open>read_section_headers\<close> on the kernel's ELF file returns, with a working disk: each debug section the file has is found in
  \<^verbatim>\<open>section_info\<close> with its size, and the bytes its entry points to are the bytes of that section in the file (for
  \<^verbatim>\<open>.eh_frame\<close>, which is part of the loaded kernel, the entry points to its address). The sections do not overwrite each other,
  and memory outside the space behind \<^verbatim>\<open>to_va\<close> that the result delimits is untouched.
\<close>

theorem debug_sections_loaded:
  assumes "ide_disk D img view" and "e = elf_at m KELFHDR" and "elf_file img e hs nms"
    and "base = ROUNDUP to_va 512" and "n = load_space e hs nms" and "unat base + n + 2 ^ 37 < 2 ^ 64"
    and "beyond base n KELFHDR 64" and "lits_at m L" and "lits_beyond base n L" and "map ds_name secs = map ascii section_names"
  shows "\<exists>secs' m' d'. read_section_headers D L KELFHDR to_va secs (m, d) = cret (base + of_nat n, secs', m', d')
     \<and> (\<forall>a. n \<le> unat (a - base) \<longrightarrow> m' a = m a)
     \<and> (\<forall>j < length hs. \<forall>s \<in> set section_names. nms ! j = ascii s \<longrightarrow>
          (\<exists>ds. dwarf_find_section secs' s = Some ds \<and> ds_size ds = sh_size (hs ! j)
             \<and> (if s = ''.eh_frame'' then ds_data ds = sh_addr (hs ! j)
                else \<forall>k < unat (sh_size (hs ! j)). m' (ds_data ds + of_nat k) = img (512 + unat (sh_offset (hs ! j)) + k))))"
proof -
  obtain secs' m' d' where r: "read_section_headers D L KELFHDR to_va secs (m, d) = cret (base + of_nat n, secs', m', d')"
      "same_outside base 0 n m m'" "map ds_name secs' = map ascii section_names"
      "\<forall>j < length hs. \<forall>i. sec_idx (nms ! j) = Some i \<longrightarrow> sec_loaded img m' i (hs ! j) (secs' ! i)"
    using section_headers_read [OF assms] by blast
  have "\<exists>ds. dwarf_find_section secs' s = Some ds \<and> ds_size ds = sh_size (hs ! j)
      \<and> (if s = ''.eh_frame'' then ds_data ds = sh_addr (hs ! j)
         else \<forall>k < unat (sh_size (hs ! j)). m' (ds_data ds + of_nat k) = img (512 + unat (sh_offset (hs ! j)) + k))"
    if j: "j < length hs" and s: "s \<in> set section_names" and nm: "nms ! j = ascii s" for j s
  proof -
    obtain i where i: "i < 5" "s = section_names ! i" and idx: "sec_idx (ascii (section_names ! i)) = Some i"
        and fr: "s = ''.eh_frame'' \<longleftrightarrow> i = DEBUG_FRAME"
      using bspec [OF section_name_index s] by (auto split: option.splits)
    then have l: "sec_loaded img m' i (hs ! j) (secs' ! i)" using r(4) j nm i(2) by simp
    have off: "unat (sh_offset (hs ! j)) + unat (sh_size (hs ! j)) + 2048 < 2 ^ 37" using assms(3) j by (auto simp: elf_file_def)
    have "img (512 + unat (sh_offset (hs ! j)) + k) = file_mem img (sh_offset (hs ! j) + of_nat k)" if "k < unat (sh_size (hs ! j))" for k
      using unat_add_less [of "sh_offset (hs ! j)" k] off that by (simp add: file_mem_def add.assoc)
    then show ?thesis
      using find_section_names [OF r(3) i(1)] l i(2) fr by (auto simp: sec_loaded_def agree_def split: if_splits)
  qed
  with r(1,2) show ?thesis by (auto simp: same_outside_def)
qed

text \<open>A disk that answers a command after two status reads.\<close>

definition demo_ide :: "(nat \<Rightarrow> u8) \<Rightarrow> ata ideops" where
  "demo_ide img =
     \<lparr>ide_inb = (\<lambda>p a. if ata_busy a = 0 then (0x40, a) else (0x80, a\<lparr>ata_busy := ata_busy a - 1\<rparr>)),
      ide_outb = (\<lambda>p v a.
        if p = 0x1F2 then a\<lparr>ata_count := v\<rparr> else if p = 0x1F3 then a\<lparr>ata_lba0 := v\<rparr>
        else if p = 0x1F4 then a\<lparr>ata_lba1 := v\<rparr> else if p = 0x1F5 then a\<lparr>ata_lba2 := v\<rparr>
        else if p = 0x1F6 then a\<lparr>ata_dev := v\<rparr>
        else a\<lparr>ata_busy := 2, ata_fifo := sector_words img (ata_lba a)\<rparr>),
      ide_outw = (\<lambda>p v a. a),
      ide_inl = (\<lambda>p a. (hd (ata_fifo a), a\<lparr>ata_fifo := tl (ata_fifo a)\<rparr>))\<rparr>"

definition ata0 :: ata where
  "ata0 = \<lparr>ata_busy = 1, ata_count = 0, ata_lba0 = 0, ata_lba1 = 0, ata_lba2 = 0, ata_dev = 0, ata_fifo = []\<rparr>"

lemma demo_ide_disk: "ide_disk (demo_ide img) img id"
  by (auto simp: ide_disk_def demo_ide_def)

text \<open>A file with a string table and a section \<^verbatim>\<open>.debug_info\<close> of five bytes, and memory with its header and the literals.\<close>

definition demo_file :: mem where
  "demo_file a =
     (if a < 700 then ((\<lambda>_. 0)(128 := 1, 152 := 0xBC, 153 := 2, 160 := 24, 192 := 11, 216 := 0xD4, 217 := 2, 224 := 5)) a
      else list_mem 700 ([0] @ ascii ''.shstrtab'' @ [0] @ ascii ''.debug_info'' @ [0, 0, 1, 2, 3, 4, 5]) a)"

definition demo_img :: "nat \<Rightarrow> u8" where
  "demo_img i = demo_file (of_nat i - 512)"

definition demo_elits :: elits where
  "demo_elits = \<lparr>lit_debug_info = 16, lit_debug_abbrev = 28, lit_debug_line = 42, lit_eh_frame = 54, lit_debug_str = 64\<rparr>"

definition demo_kmem :: mem where
  "demo_kmem a =
     (if a < 0x100 then list_mem 0x10 (concat (map (\<lambda>(p, i). ascii (section_names ! i) @ [0]) (section_tests demo_elits))) a
      else ((\<lambda>_. 0)(KELFHDR + 40 := 64, KELFHDR + 58 := 64, KELFHDR + 60 := 3, KELFHDR + 62 := 1)) a)"

theorem debug_sections_loaded_witness:
  "\<exists>secs m d ds. read_section_headers (demo_ide demo_img) demo_elits KELFHDR 0x80041FFFFF section_info0 (demo_kmem, ata0)
       = cret (0x8004200000 + 1536, secs, m, d)
     \<and> dwarf_find_section secs ''.debug_info'' = Some ds \<and> ds_size ds = 5 \<and> m (ds_data ds + 3) = 4"
proof -
  define e where "e = elf_at demo_kmem KELFHDR"
  have "load16 demo_kmem (KELFHDR + 58) = 64" "load16 demo_kmem (KELFHDR + 60) = 3" "load16 demo_kmem (KELFHDR + 62) = 1"
    "load64 demo_kmem (KELFHDR + 40) = 64"
    by (simp_all add: load16_def load32_def load64_def demo_kmem_def list_mem_def demo_elits_def section_tests_def section_codes section_names_def
        ascii_def KELFHDR_def KERNBASE_def)
  then have e: "e_shentsize e = 64" "e_shnum e = 3" "e_shstrndx e = 1" "e_shoff e = 64" by (simp_all add: e_def elf_at_def)
  have f: "file_mem demo_img = demo_file" by (simp add: file_mem_def demo_img_def fun_eq_iff)
  define hs where "hs = map (\<lambda>j. secthdr_at demo_file (64 + of_nat (64 * j))) [0..<3]"
  have hs: "hs = [\<lparr>sh_name = 0, sh_addr = 0, sh_offset = 0, sh_size = 0\<rparr>, \<lparr>sh_name = 1, sh_addr = 0, sh_offset = 700, sh_size = 24\<rparr>,
      \<lparr>sh_name = 11, sh_addr = 0, sh_offset = 724, sh_size = 5\<rparr>]" 
    by (simp add: hs_def secthdr_at_def load32_def load64_def demo_file_def list_mem_def ascii_def upt_rec)
  let ?nms = "[[], ascii ''.shstrtab'', ascii ''.debug_info'']"
  have dist: "distinct ?nms" by code_simp
  have c: "cstr demo_file 700 []" "cstr demo_file 701 (ascii ''.shstrtab'')" "cstr demo_file 711 (ascii ''.debug_info'')"
    by (simp_all add: demo_file_def list_mem_def ascii_def)
  have len: "length (ascii ''.shstrtab'') = 9" "length (ascii ''.debug_info'') = 11" by (simp_all add: ascii_def)
  have three: "(\<forall>j < 3. P j) \<longleftrightarrow> P 0 \<and> P 1 \<and> P 2" for P :: "nat \<Rightarrow> bool"
    by (auto simp: numeral_eq_Suc less_Suc_eq)
  have hsm: "map (\<lambda>j. secthdr_at (file_mem demo_img) (e_shoff e + of_nat (64 * j))) [0..<unat (e_shnum e)] = hs"
    by (simp add: e f hs_def)
  have "length hs = 3" by (simp add: hs)
  then have ef: "elf_file demo_img e hs ?nms"
    unfolding elf_file_def Let_def hsm by (simp only: three dist f e) (simp add: hs c c(1) [simplified] len)
  have sec: "sec_idx [] = None" "sec_idx (ascii ''.shstrtab'') = None" "sec_idx (ascii ''.debug_info'') = Some 0" by code_simp+
  have n: "1536 = load_space e hs ?nms"
    by (simp add: load_space_def e hs seg_sectors_def sec_bytes_def sec section_codes)
  have base: "0x8004200000 = ROUNDUP 0x80041FFFFF 512" by code_simp
  have lits: "lits_at demo_kmem demo_elits"
    by (simp add: lits_at_def demo_kmem_def list_mem_def demo_elits_def section_tests_def section_codes section_names_def ascii_def KELFHDR_def
        KERNBASE_def)
  have apart: "beyond 0x8004200000 1536 KELFHDR 64" "lits_beyond 0x8004200000 1536 demo_elits"
    by (auto simp: lits_beyond_def section_tests_def demo_elits_def section_codes section_names_def KELFHDR_def KERNBASE_def intro!: beyond_lower)
  from debug_sections_loaded [OF demo_ide_disk e_def ef base n _ apart(1) lits apart(2), of section_info0 ata0]
  obtain secs m d where r: "read_section_headers (demo_ide demo_img) demo_elits KELFHDR 0x80041FFFFF section_info0 (demo_kmem, ata0)
       = cret (0x8004200000 + of_nat 1536, secs, m, d)"
     "\<forall>j < length hs. \<forall>s \<in> set section_names. ?nms ! j = ascii s \<longrightarrow>
          (\<exists>ds. dwarf_find_section secs s = Some ds \<and> ds_size ds = sh_size (hs ! j)
             \<and> (if s = ''.eh_frame'' then ds_data ds = sh_addr (hs ! j)
                else \<forall>k < unat (sh_size (hs ! j)). m (ds_data ds + of_nat k) = demo_img (512 + unat (sh_offset (hs ! j)) + k)))"
    by (auto simp: section_info0_def)
  have img: "demo_img 1239 = 4" by (simp add: demo_img_def demo_file_def list_mem_def ascii_def)
  have "''.debug_info'' \<in> set section_names" by (simp add: section_names_def)
  with r(2) obtain ds where ds: "dwarf_find_section secs ''.debug_info'' = Some ds" "ds_size ds = 5"
      "\<forall>k < 5. m (ds_data ds + of_nat k) = demo_img (512 + 724 + k)"
    using bspec [OF mp [OF spec [OF r(2), of 2]], of "''.debug_info''"] by (auto simp: hs)
  from spec [OF ds(3), of 3] have "m (ds_data ds + 3) = 4" by (simp add: img)
  with r(1) ds show ?thesis by simp
qed

end
