(* ===== verification/Boot.thy ===== *)
theory Boot
  imports Elf_Load
begin

unbundle bit_operations_syntax

text \<open>
  The boot loader \<^verbatim>\<open>boot/main.c\<close>: it reads the start of the kernel's ELF file, checks the magic number, loads every program
  segment and jumps to the entry point. It runs with 32-bit addresses on the memory the kernel finds at \<open>KERNBASE\<close> later;
  an address is zero-extended to look memory up.
\<close>

section \<open>The loader\<close>

definition ELFHDR :: u32 where
  "ELFHDR = 0x10000"

definition ELF_MAGIC :: u32 where
  "ELF_MAGIC = 0x464C457F"

record proghdr =
  p_offset :: u64
  p_pa :: u64
  p_memsz :: u64

definition proghdr_at :: "mem \<Rightarrow> u64 \<Rightarrow> proghdr" where
  "proghdr_at m p = \<lparr>p_offset = load64 m (p + 8), p_pa = load64 m (p + 24), p_memsz = load64 m (p + 40)\<rparr>"

definition SIZEOF_PROGHDR :: nat where
  "SIZEOF_PROGHDR = 56"

text \<open>The disk driver of the loader is that of the kernel at 32 bits.\<close>

definition boot_waitdisk :: "'d ideops \<Rightarrow> 'd \<Rightarrow> 'd option" where
  "boot_waitdisk = waitdisk"

definition boot_readsect :: "'d ideops \<Rightarrow> u32 \<Rightarrow> u32 \<Rightarrow> mem \<times> 'd \<Rightarrow> (mem \<times> 'd) option" where
  "boot_readsect = readsect"

partial_function (option) boot_readseg_loop :: "'d ideops \<Rightarrow> u32 \<Rightarrow> u32 \<Rightarrow> u32 \<Rightarrow> mem \<times> 'd \<Rightarrow> (mem \<times> 'd) option" where
  "boot_readseg_loop D end_pa pa offset md =
     (if pa < end_pa then
        Option.bind (boot_readsect D pa offset md) (\<lambda>md. boot_readseg_loop D end_pa (pa + of_nat SECTSIZE) (offset + 1) md)
      else Some md)"

definition boot_readseg :: "'d ideops \<Rightarrow> u32 \<Rightarrow> u32 \<Rightarrow> u32 \<Rightarrow> mem \<times> 'd \<Rightarrow> (mem \<times> 'd) option" where
  "boot_readseg D pa count offset md =
     (let end_pa = pa + count; pa = pa AND NOT (of_nat SECTSIZE - 1); offset = offset div of_nat SECTSIZE + 1
      in boot_readseg_loop D end_pa pa offset md)"

text \<open>The ways \<^verbatim>\<open>bootmain\<close> ends: the jump to the kernel, or the endless loop after \<^verbatim>\<open>bad\<close>.\<close>

datatype boot_end = Enter u32 | Bad

partial_function (option) load_segments :: "'d ideops \<Rightarrow> u32 \<Rightarrow> u32 \<Rightarrow> mem \<times> 'd \<Rightarrow> (mem \<times> 'd) option" where
  "load_segments D eph ph md =
     (if ph < eph then
        let p = proghdr_at (fst md) (ucast ph) in
        Option.bind (boot_readseg D (ucast (p_pa p)) (ucast (p_memsz p)) (ucast (p_offset p)) md)
          (load_segments D eph (ph + of_nat SIZEOF_PROGHDR))
      else Some md)"

definition bootmain :: "'d ideops \<Rightarrow> mem \<times> 'd \<Rightarrow> (boot_end \<times> mem \<times> 'd) option" where
  "bootmain D md =
     Option.bind (boot_readseg D ELFHDR (of_nat (SECTSIZE * 8)) 0 md) (\<lambda>(m, d).
       let e = elf_at m (ucast ELFHDR) in
       if e_magic e \<noteq> ELF_MAGIC then Some (Bad, m, ide_outw D 0x8A00 0x8E00 (ide_outw D 0x8A00 0x8A00 d))
       else
         let ph = ELFHDR + ucast (e_phoff e); eph = ph + of_nat SIZEOF_PROGHDR * ucast (e_phnum e) in
         Option.bind (load_segments D eph ph (m, d)) (\<lambda>(m, d).
           Some (Enter (ucast (e_entry (elf_at m (ucast ELFHDR)))), m, d)))"

declare boot_readseg_loop.simps [code] load_segments.simps [code]

section \<open>Loading a segment\<close>

definition span_sectors :: "nat \<Rightarrow> nat \<Rightarrow> nat" where
  "span_sectors pa count = (pa mod 512 + count + 511) div 512"

lemma boot_readseg_loop_reads:
  assumes disk: "ide_disk D img view" and "unat pa + 512 * n < 2 ^ 32" and "unat end_pa \<le> unat pa + 512 * n"
    and "n = 0 \<or> unat pa + 512 * (n - 1) < unat end_pa" and "unat offset + n < 2 ^ 28"
  shows "\<exists>d'. boot_readseg_loop D end_pa pa offset (m, d) = Some (load_img m (ucast pa) img (512 * unat offset) (512 * n), d')"
  using assms(2-5)
proof (induction n arbitrary: pa offset m d)
  case 0
  then show ?case by (subst boot_readseg_loop.simps) (simp add: word_less_nat_alt)
next
  case (Suc n)
  let ?m = "load_img m (ucast pa) img (512 * unat offset) 512"
  obtain d1 where d1: "boot_readsect D pa offset (m, d) = Some (?m, d1)"
    using readsect_reads [OF disk, of offset pa m d] Suc.prems by (auto simp: boot_readsect_def)
  have pa: "unat (pa + 512) = unat pa + 512" "(ucast (pa + 512) :: u64) = ucast pa + of_nat 512"
    using unat_add_small [of pa 512] Suc.prems(1) by simp_all
  have off: "unat (offset + 1) = unat offset + 1" using unat_add_small(1) [of offset 1] Suc.prems(4) by simp
  have lt: "pa < end_pa" using Suc.prems(3) by (simp add: word_less_nat_alt)
  have "n = 0 \<or> unat (pa + 512) + 512 * (n - 1) < unat end_pa" using Suc.prems(3) pa by (cases n) auto
  then obtain d2 where d2: "boot_readseg_loop D end_pa (pa + 512) (offset + 1) (?m, d1) =
      Some (load_img ?m (ucast (pa + 512)) img (512 * unat (offset + 1)) (512 * n), d2)"
    using Suc.IH [of "pa + 512" "offset + 1" ?m d1] Suc.prems pa(1) off by auto
  have "load_img ?m (ucast (pa + 512)) img (512 * unat (offset + 1)) (512 * n) = load_img m (ucast pa) img (512 * unat offset) (512 * Suc n)"
    using load_img_append [of 512 "512 * n" m "ucast pa" img "512 * unat offset"] Suc.prems(1) unfolding off pa(2)
    by (simp add: algebra_simps)
  with d1 d2 lt show ?case by (subst boot_readseg_loop.simps) (simp add: SECTSIZE_def)
qed

lemma round_down_512:
  fixes x :: u32
  shows "unat (x AND NOT 511) = 512 * (unat x div 512)"
proof -
  have "(x AND NOT 511) AND (x AND 511) = 0" by (simp add: bit_eq_iff bit_simps)
  then have "(x AND NOT 511) + (x AND 511) = (x AND NOT 511) OR (x AND 511)" by (rule disjunctive_add_eq_or)
  also have "\<dots> = x" by (simp add: bit.conj_disj_distrib [symmetric])
  finally have "x AND NOT 511 = x - (x AND 511)" by (simp add: eq_diff_eq)
  moreover have "x AND 511 = x mod 512"
  proof -
    have "take_bit 9 x = x mod 512" by (simp add: take_bit_eq_mod)
    then show ?thesis by (simp add: take_bit_eq_mask mask_numeral)
  qed
  ultimately have "x AND NOT 511 = x - x mod 512" by simp
  moreover have "x mod 512 \<le> x" by (simp add: word_le_nat_alt unat_mod)
  ultimately have "unat (x AND NOT 511) = unat x - unat x mod 512" by (simp add: unat_sub unat_mod)
  then show ?thesis by (simp add: minus_mod_eq_mult_div)
qed

text \<open>The first address a segment at \<open>pa\<close> is loaded to.\<close>

definition span_start :: "nat \<Rightarrow> nat" where
  "span_start pa = 512 * (pa div 512)"

lemma boot_readseg_reads:
  assumes disk: "ide_disk D img view" and room: "unat pa + unat count + 512 < 2 ^ 32" and lba: "unat offset + unat count + 2048 < 2 ^ 32"
  shows "\<exists>d'. boot_readseg D pa count offset (m, d) =
     Some (load_img m (of_nat (span_start (unat pa))) img (512 * (unat offset div 512 + 1)) (512 * span_sectors (unat pa) (unat count)), d')"
proof -
  let ?n = "span_sectors (unat pa) (unat count)" and ?pa = "pa AND NOT 511"
  have pa: "unat ?pa = span_start (unat pa)" unfolding round_down_512 span_start_def ..
  have "(ucast ?pa :: u64) = of_nat (unat ?pa)" by simp
  then have upa: "(ucast ?pa :: u64) = of_nat (span_start (unat pa))" unfolding pa .
  have e: "unat (pa + count) = unat pa + unat count" using unat_add_small(1) [of pa "unat count"] room by simp
  have off: "unat (offset div 512 + 1) = unat offset div 512 + 1"
    using unat_add_small(1) [of "offset div 512" 1] lba by (simp add: unat_div)
  have sp: "unat pa = span_start (unat pa) + unat pa mod 512" by (simp add: span_start_def)
  have n: "unat pa mod 512 + unat count \<le> 512 * ?n" "512 * ?n \<le> unat pa mod 512 + unat count + 511"
    "?n = 0 \<or> 512 * (?n - 1) < unat pa mod 512 + unat count" unfolding span_sectors_def by linarith+
  have "boot_readseg D pa count offset (m, d) = boot_readseg_loop D (pa + count) ?pa (offset div 512 + 1) (m, d)"
    by (simp add: boot_readseg_def SECTSIZE_def)
  moreover have "unat (offset div 512 + 1) + ?n < 2 ^ 28" 
  proof -
    have "?n \<le> (unat pa mod 512 + unat count + 511) div 512" unfolding span_sectors_def ..
    moreover have "unat pa mod 512 < 512" by simp
    moreover have "unat offset + unat count + 2048 < 4294967296" using lba by simp
    ultimately show ?thesis unfolding off by simp
  qed
  ultimately show ?thesis
    using boot_readseg_loop_reads [OF disk, of ?pa ?n "pa + count" "offset div 512 + 1" m d] n sp room
    unfolding pa upa e off by auto
qed

section \<open>Loading all segments\<close>

definition seg_span :: "proghdr \<Rightarrow> nat set" where
  "seg_span p = {span_start (unat (p_pa p)) ..< span_start (unat (p_pa p)) + 512 * span_sectors (unat (p_pa p)) (unat (p_memsz p))}"

text \<open>
  A segment the loader can load: below 4 GB, at an address that agrees with its file offset modulo the sector size, and away from the
  copy of the file header.
\<close>

definition seg_ok :: "proghdr \<Rightarrow> bool" where
  "seg_ok p \<longleftrightarrow> unat (p_pa p) + unat (p_memsz p) + 512 < 2 ^ 32 \<and> unat (p_offset p) + unat (p_memsz p) + 2048 < 2 ^ 32
     \<and> unat (p_pa p) mod 512 = unat (p_offset p) mod 512 \<and> seg_span p \<inter> {0x10000 ..< 0x11000} = {}"

definition seg_loaded :: "(nat \<Rightarrow> u8) \<Rightarrow> mem \<Rightarrow> proghdr \<Rightarrow> bool" where
  "seg_loaded img m p \<longleftrightarrow> agree m (p_pa p) (file_mem img) (p_offset p) (unat (p_memsz p))"

lemma load_img_span:
  assumes "lo + n < 2 ^ 64"
  shows "load_img m (of_nat lo) img s n a = (if unat a \<in> {lo ..< lo + n} then img (s + (unat a - lo)) else m a)"
proof -
  have lo: "unat (of_nat lo :: u64) = lo" using assms by (simp add: unat_of_nat)
  show ?thesis
  proof (cases "lo \<le> unat a")
    case True
    then have "unat (a - of_nat lo) = unat a - lo" using lo by (simp add: unat_sub word_le_nat_alt)
    with True show ?thesis by (auto simp: load_img_def)
  next
    case False
    then have "unat (a - of_nat lo) = 2 ^ 64 + unat a - lo"
      using lo unat_sub_if' [of a "of_nat lo"] by (simp add: word_le_nat_alt)
    with False assms show ?thesis by (auto simp: load_img_def)
  qed
qed

lemma ucast_unat_eq: "unat (x :: u64) < 2 ^ 32 \<Longrightarrow> unat (ucast x :: u32) = unat x"
  by (simp add: unsigned_ucast_eq take_bit_nat_eq_self)

lemma seg_in_span:
  assumes "seg_ok p" "i < unat (p_memsz p)"
  shows "unat (p_pa p + of_nat i) \<in> seg_span p"
proof -
  let ?pa = "unat (p_pa p)" and ?n = "unat (p_memsz p)"
  have "unat (p_pa p + of_nat i) = ?pa + i" using assms by (simp add: unat_add_less seg_ok_def)
  moreover have "?pa = span_start ?pa + ?pa mod 512" by (simp add: span_start_def)
  moreover have "?pa mod 512 + ?n \<le> 512 * span_sectors ?pa ?n" unfolding span_sectors_def by linarith
  ultimately show ?thesis using assms(2) by (simp add: seg_span_def)
qed

lemma boot_segment_loaded:
  assumes disk: "ide_disk D img view" and ok: "seg_ok p"
  shows "\<exists>m' d'. boot_readseg D (ucast (p_pa p)) (ucast (p_memsz p)) (ucast (p_offset p)) (m, d) = Some (m', d')
     \<and> (\<forall>a. unat a \<notin> seg_span p \<longrightarrow> m' a = m a) \<and> seg_loaded img m' p"
proof -
  let ?pa = "unat (p_pa p)" and ?n = "unat (p_memsz p)" and ?o = "unat (p_offset p)"
  let ?k = "span_sectors ?pa ?n"
  let ?m = "load_img m (of_nat (span_start ?pa)) img (512 * (?o div 512 + 1)) (512 * ?k)"
  note ok' = ok [unfolded seg_ok_def]
  have u: "unat (ucast (p_pa p) :: u32) = ?pa" "unat (ucast (p_memsz p) :: u32) = ?n" "unat (ucast (p_offset p) :: u32) = ?o"
    using ok' by (simp_all add: ucast_unat_eq)
  obtain d' where r: "boot_readseg D (ucast (p_pa p)) (ucast (p_memsz p)) (ucast (p_offset p)) (m, d) = Some (?m, d')"
    using boot_readseg_reads [OF disk, of "ucast (p_pa p)" "ucast (p_memsz p)" "ucast (p_offset p)" m d] ok' unfolding u by auto
  have pa: "?pa = span_start ?pa + ?pa mod 512" by (simp add: span_start_def)
  have k: "?pa mod 512 + ?n \<le> 512 * ?k" "512 * ?k \<le> ?pa mod 512 + ?n + 511" unfolding span_sectors_def by linarith+
  have "?pa + ?n + 512 < 4294967296" using ok' by simp
  then have lim: "span_start ?pa + 512 * ?k < 2 ^ 64" using pa k(2) by simp
  have "?m (p_pa p + of_nat i) = file_mem img (p_offset p + of_nat i)" if i: "i < ?n" for i
  proof -
    have "unat (p_pa p + of_nat i) = ?pa + i" "unat (p_offset p + of_nat i) = ?o + i" using ok' i by (simp_all add: unat_add_less)
    moreover have "512 * (?o div 512 + 1) + (?pa + i - span_start ?pa) = 512 + (?o + i)"
    proof -
      have "?pa + i - span_start ?pa = ?o mod 512 + i" using pa conjunct1 [OF conjunct2 [OF conjunct2 [OF ok']]] by linarith
      then show ?thesis by (simp add: add.assoc [symmetric])
    qed
    moreover have "?pa + i \<in> {span_start ?pa ..< span_start ?pa + 512 * ?k}" using pa k(1) i by simp
    ultimately show ?thesis by (simp only: load_img_span [OF lim] file_mem_def if_True)
  qed
  with r load_img_span [OF lim] show ?thesis by (auto simp: seg_span_def seg_loaded_def agree_def)
qed

text \<open>Program headers at \<open>ph\<close> in the copy of the file header.\<close>

definition phdrs_at :: "mem \<Rightarrow> u32 \<Rightarrow> proghdr list \<Rightarrow> bool" where
  "phdrs_at m ph ps \<longleftrightarrow>
     0x10000 \<le> unat ph \<and> unat ph + SIZEOF_PROGHDR * length ps \<le> 0x11000
   \<and> (\<forall>i < length ps. proghdr_at m (of_nat (unat ph + SIZEOF_PROGHDR * i)) = ps ! i)"

lemma agree_proghdr: "agree m p f q 56 \<Longrightarrow> proghdr_at m p = proghdr_at f q"
  using agree_load(2) [of m p f q 56 8] agree_load(2) [of m p f q 56 24] agree_load(2) [of m p f q 56 40] by (simp add: proghdr_at_def)

definition header_same :: "mem \<Rightarrow> mem \<Rightarrow> bool" where
  "header_same m m' \<longleftrightarrow> agree m' 0x10000 m 0x10000 4096"

lemma header_same_outside: "(\<forall>a. unat a \<notin> A \<longrightarrow> m' a = m a) \<Longrightarrow> A \<inter> {0x10000 ..< 0x11000} = {} \<Longrightarrow> header_same m m'"
proof -
  assume same: "\<forall>a. unat a \<notin> A \<longrightarrow> m' a = m a" and dis: "A \<inter> {0x10000 ..< 0x11000} = {}"
  have "unat (0x10000 + of_nat i :: u64) = 0x10000 + i" if "i < 4096" for i
    using unat_add_less [of "0x10000" i] that by simp
  then show ?thesis using same dis by (fastforce simp: header_same_def agree_def)
qed

lemma phdrs_at_same:
  assumes "phdrs_at m ph ps" and same: "header_same m m'"
  shows "phdrs_at m' ph ps"
proof -
  note p = assms(1) [unfolded phdrs_at_def SIZEOF_PROGHDR_def]
  have "proghdr_at m' (of_nat (unat ph + 56 * i)) = ps ! i" if "i < length ps" for i
  proof -
    have "0x10000 \<le> unat ph + 56 * i" "unat ph + 56 * i + 56 \<le> 0x11000" using p that by linarith+
    moreover from this(1) obtain k where "unat ph + 56 * i = 0x10000 + k" by (auto simp: le_iff_add)
    ultimately obtain k where k: "k + 56 \<le> 4096" "unat ph + 56 * i = 0x10000 + k" by auto
    have "agree m' (0x10000 + of_nat k) m (0x10000 + of_nat k) 56"
      using agree_shift [OF same [unfolded header_same_def] k(1)] by simp
    moreover have "proghdr_at m (of_nat (unat ph + 56 * i)) = ps ! i" using p that by blast
    ultimately show ?thesis using agree_proghdr unfolding k(2) by auto
  qed
  with p show ?thesis by (simp add: phdrs_at_def SIZEOF_PROGHDR_def)
qed

lemma load_segments_loaded:
  assumes disk: "ide_disk D img view" and "phdrs_at m ph ps" and "unat eph = unat ph + SIZEOF_PROGHDR * length ps"
    and "\<forall>p \<in> set ps. seg_ok p" and "sorted_wrt (\<lambda>p q. seg_span p \<inter> seg_span q = {}) ps"
  shows "\<exists>m' d'. load_segments D eph ph (m, d) = Some (m', d') \<and> (\<forall>a. (\<forall>p \<in> set ps. unat a \<notin> seg_span p) \<longrightarrow> m' a = m a)
     \<and> (\<forall>p \<in> set ps. seg_loaded img m' p)"
  using assms(2-5)
proof (induction ps arbitrary: ph m d)
  case Nil
  then show ?case by (subst load_segments.simps) (simp add: word_less_nat_alt)
next
  case (Cons p ps)
  have lt: "ph < eph" using Cons.prems(2) by (simp add: word_less_nat_alt SIZEOF_PROGHDR_def)
  have "proghdr_at m (of_nat (unat ph)) = p" using Cons.prems(1) by (auto simp: phdrs_at_def)
  then have p: "proghdr_at m (ucast ph) = p" by simp
  obtain m1 d1 where r1: "boot_readseg D (ucast (p_pa p)) (ucast (p_memsz p)) (ucast (p_offset p)) (m, d) = Some (m1, d1)"
      "\<forall>a. unat a \<notin> seg_span p \<longrightarrow> m1 a = m a" "seg_loaded img m1 p"
    using boot_segment_loaded [OF disk, of p m d] Cons.prems(3) by auto
  have ph1: "unat (ph + 56) = unat ph + 56"
    using unat_add_small(1) [of ph 56] Cons.prems(1) by (simp add: phdrs_at_def SIZEOF_PROGHDR_def)
  have at: "phdrs_at m1 ph (p # ps)" using phdrs_at_same [OF Cons.prems(1) header_same_outside [OF r1(2)]] Cons.prems(3) by (simp add: seg_ok_def)
  have at1: "phdrs_at m1 (ph + 56) ps"
  proof -
    have "proghdr_at m1 (of_nat (unat (ph + 56) + 56 * i)) = ps ! i" if "i < length ps" for i
      using at that unfolding phdrs_at_def ph1 SIZEOF_PROGHDR_def by (auto simp: algebra_simps dest!: spec [of _ "Suc i"])
    then show ?thesis using at by (simp add: phdrs_at_def SIZEOF_PROGHDR_def ph1)
  qed
  obtain m2 d2 where r2: "load_segments D eph (ph + 56) (m1, d1) = Some (m2, d2)"
      "\<forall>a. (\<forall>q \<in> set ps. unat a \<notin> seg_span q) \<longrightarrow> m2 a = m1 a" "\<forall>q \<in> set ps. seg_loaded img m2 q"
    using Cons.IH [OF at1, of d1] Cons.prems(2-4) ph1 by (auto simp: SIZEOF_PROGHDR_def)
  have "agree m2 (p_pa p) m1 (p_pa p) (unat (p_memsz p))"
    using r2(2) Cons.prems(4) seg_in_span [of p] Cons.prems(3) by (fastforce simp: agree_def)
  then have "seg_loaded img m2 p" using agree_trans r1(3) by (auto simp: seg_loaded_def)
  with lt p r1 r2 show ?case by (subst load_segments.simps) (auto simp: SIZEOF_PROGHDR_def)
qed

section \<open>The loader as a whole\<close>

lemma boot_header_loaded:
  assumes "ide_disk D img view"
  shows "\<exists>m' d'. boot_readseg D ELFHDR (of_nat (SECTSIZE * 8)) 0 (m, d) = Some (m', d') \<and> agree m' 0x10000 (file_mem img) 0 4096
     \<and> (\<forall>a. unat a \<notin> {0x10000 ..< 0x11000} \<longrightarrow> m' a = m a)"
proof -
  have sp: "span_start 0x10000 = 0x10000" "span_sectors 0x10000 4096 = 8" by (simp_all add: span_start_def span_sectors_def)
  obtain d' where r: "boot_readseg D ELFHDR (of_nat (SECTSIZE * 8)) 0 (m, d) = Some (load_img m (of_nat 0x10000) img 512 4096, d')"
    using boot_readseg_reads [OF assms, of ELFHDR "of_nat (SECTSIZE * 8)" 0 m d] by (auto simp: ELFHDR_def SECTSIZE_def sp)
  have "unat (0x10000 + of_nat i :: u64) = 0x10000 + i" "unat (of_nat i :: u64) = i" if "i < 4096" for i
    using unat_add_less [of "0x10000" i] that by (simp_all add: unat_of_nat)
  then have "agree (load_img m (of_nat 0x10000) img 512 4096) 0x10000 (file_mem img) 0 4096"
    unfolding agree_def by (subst load_img_span) (simp_all add: file_mem_def)
  moreover have "\<forall>a. unat a \<notin> {0x10000 ..< 0x11000} \<longrightarrow> load_img m (of_nat 0x10000) img 512 4096 a = m a"
    by (subst load_img_span) simp_all
  ultimately show ?thesis using r by blast
qed

lemma bootmain_bad:
  assumes "ide_disk D img view" and "e_magic (elf_at (file_mem img) 0) \<noteq> ELF_MAGIC"
  shows "\<exists>m' d'. bootmain D (m, d) = Some (Bad, m', d') \<and> (\<forall>a. unat a \<notin> {0x10000 ..< 0x11000} \<longrightarrow> m' a = m a)"
proof -
  obtain m1 d1 where r: "boot_readseg D ELFHDR (of_nat (SECTSIZE * 8)) 0 (m, d) = Some (m1, d1)"
      "agree m1 0x10000 (file_mem img) 0 4096" "\<forall>a. unat a \<notin> {0x10000 ..< 0x11000} \<longrightarrow> m1 a = m a"
    using boot_header_loaded [OF assms(1)] by blast
  have "elf_at m1 0x10000 = elf_at (file_mem img) 0" using agree_shift [OF r(2), of 0 64] by (intro agree_elf) simp
  with r assms(2) show ?thesis by (simp add: bootmain_def ELFHDR_def)
qed

lemma bootmain_segments:
  assumes "ide_disk D img view" and "e = elf_at (file_mem img) 0" and "e_magic e = ELF_MAGIC"
    and "unat (e_phoff e) + 56 * unat (e_phnum e) \<le> 4096"
    and "ps = map (\<lambda>i. proghdr_at (file_mem img) (e_phoff e + of_nat (56 * i))) [0..<unat (e_phnum e)]"
    and "\<forall>p \<in> set ps. seg_ok p" and "sorted_wrt (\<lambda>p q. seg_span p \<inter> seg_span q = {}) ps"
  shows "\<exists>m' d'. bootmain D (m, d) = Some (Enter (ucast (e_entry e)), m', d')
     \<and> (\<forall>p \<in> set ps. \<forall>k < unat (p_memsz p). m' (p_pa p + of_nat k) = img (512 + unat (p_offset p) + k))"
proof -
  let ?f = "file_mem img" and ?n = "unat (e_phnum e)"
  define ph where "ph = ELFHDR + ucast (e_phoff e)"
  define eph where "eph = ph + of_nat SIZEOF_PROGHDR * ucast (e_phnum e)"
  have len: "length ps = ?n" using assms(5) by simp
  obtain m1 d1 where r1: "boot_readseg D ELFHDR (of_nat (SECTSIZE * 8)) 0 (m, d) = Some (m1, d1)" "agree m1 0x10000 ?f 0 4096"
    using boot_header_loaded [OF assms(1)] by blast
  have elf: "elf_at m' 0x10000 = e" if "header_same m1 m'" for m'
  proof -
    have "agree m' 0x10000 ?f 0 4096" using agree_trans [OF r1(2)] that by (simp add: header_same_def)
    then show ?thesis unfolding assms(2) using agree_shift [of m' "0x10000" ?f 0 4096 0 64] by (intro agree_elf) simp
  qed
  have e1: "elf_at m1 0x10000 = e" by (rule elf) (simp add: header_same_def agree_def)
  have "(ucast (e_phoff e) :: u32) = of_nat (unat (e_phoff e))" by simp
  then have ph: "unat ph = 0x10000 + unat (e_phoff e)"
    unfolding ph_def ELFHDR_def using unat_add_small(1) [of "0x10000 :: u32" "unat (e_phoff e)"] assms(4) by simp
  have "(of_nat SIZEOF_PROGHDR * ucast (e_phnum e) :: u32) = of_nat (56 * ?n)" by (simp add: SIZEOF_PROGHDR_def)
  then have eph: "unat eph = unat ph + 56 * ?n"
    unfolding eph_def using unat_add_small(1) [of ph "56 * ?n"] assms(4) ph by simp
  have hdr: "proghdr_at m1 (of_nat (unat ph + 56 * i)) = ps ! i" if "i < length ps" for i
  proof -
    have "unat (e_phoff e) + 56 * i + 56 \<le> 4096" using assms(4) that len by linarith
    from agree_shift [OF r1(2) this]
    have "proghdr_at m1 (0x10000 + of_nat (unat (e_phoff e) + 56 * i)) = proghdr_at ?f (0 + of_nat (unat (e_phoff e) + 56 * i))"
      by (rule agree_proghdr)
    then show ?thesis using that len by (simp add: ph assms(5) add.assoc)
  qed
  then have at: "phdrs_at m1 ph ps" using assms(4) ph len by (simp add: phdrs_at_def SIZEOF_PROGHDR_def)
  obtain m2 d2 where r2: "load_segments D eph ph (m1, d1) = Some (m2, d2)"
      "\<forall>a. (\<forall>p \<in> set ps. unat a \<notin> seg_span p) \<longrightarrow> m2 a = m1 a" "\<forall>p \<in> set ps. seg_loaded img m2 p"
    using load_segments_loaded [OF assms(1) at _ assms(6,7), of eph d1] eph len by (auto simp: SIZEOF_PROGHDR_def)
  have "header_same m1 m2"
    using assms(6) r2(2) by (intro header_same_outside [where A = "\<Union> (seg_span ` set ps)"]) (auto simp: seg_ok_def)
  then have e2: "elf_at m2 0x10000 = e" by (rule elf)
  have "bootmain D (m, d) = Some (Enter (ucast (e_entry e)), m2, d2)"
    using r1(1) r2(1) e1 e2 assms(3) by (simp add: bootmain_def ELFHDR_def ph_def eph_def)
  moreover have "m2 (p_pa p + of_nat k) = img (512 + unat (p_offset p) + k)" if "p \<in> set ps" "k < unat (p_memsz p)" for p k
  proof -
    have "unat (p_offset p + of_nat k) = unat (p_offset p) + k" using assms(6) that by (intro unat_add_less) (auto simp: seg_ok_def)
    then show ?thesis using r2(3) that by (simp add: seg_loaded_def agree_def file_mem_def add.assoc)
  qed
  ultimately show ?thesis by blast
qed

text \<open>
  C8. \<^verbatim>\<open>bootmain\<close> on a disk that holds a well-formed kernel file reaches the jump to the entry point of the file's header, and then
  memory holds every program segment: the bytes at its physical address are the bytes of the file at its offset. The segments must lie
  apart from each other, counted in whole sectors, and from the copy of the file header.
\<close>

theorem bootmain_loads:
  assumes "ide_disk D img view" and "e = elf_at (file_mem img) 0" and "e_magic e = ELF_MAGIC"
    and "unat (e_phoff e) + 56 * unat (e_phnum e) \<le> 4096"
    and "ps = map (\<lambda>i. proghdr_at (file_mem img) (e_phoff e + of_nat (56 * i))) [0..<unat (e_phnum e)]"
    and "\<forall>p \<in> set ps. seg_ok p" and "sorted_wrt (\<lambda>p q. seg_span p \<inter> seg_span q = {}) ps"
  shows "\<exists>m' d'. bootmain D (m, d) = Some (Enter (ucast (e_entry e)), m', d')
     \<and> (\<forall>p \<in> set ps. \<forall>k < unat (p_memsz p). m' (p_pa p + of_nat k) = img (512 + unat (p_offset p) + k))"
  by (rule bootmain_segments [OF assms])

definition demo_kernel :: mem where
  "demo_kernel = (\<lambda>_. 0)(0 := 0x7F, 1 := 0x45, 2 := 0x4C, 3 := 0x46, 26 := 0x10, 32 := 64, 56 := 2,
     72 := 0xE8, 73 := 0x03, 88 := 0xE8, 89 := 0x03, 90 := 0x10, 104 := 4, 129 := 8, 146 := 0x20, 160 := 3,
     1000 := 0xAA, 1001 := 0xBB, 2050 := 0xCC)"

definition demo_boot_img :: "nat \<Rightarrow> u8" where
  "demo_boot_img i = demo_kernel (of_nat i - 512)"

theorem bootmain_loads_witness:
  "\<exists>m d. bootmain (demo_ide demo_boot_img) (\<lambda>_. 0, ata0) = Some (Enter 0x100000, m, d) \<and> m 0x1003E9 = 0xBB \<and> m 0x200002 = 0xCC"
proof -
  have f: "file_mem demo_boot_img = demo_kernel" by (simp add: file_mem_def demo_boot_img_def fun_eq_iff)
  define e where "e = elf_at (file_mem demo_boot_img) 0"
  have e: "e_magic e = ELF_MAGIC" "e_phoff e = 64" "e_phnum e = 2" "e_entry e = 0x100000"
    unfolding e_def f by (simp_all add: elf_at_def load16_def load32_def load64_def demo_kernel_def ELF_MAGIC_def)
  let ?ps = "[\<lparr>p_offset = 1000, p_pa = 0x1003E8, p_memsz = 4\<rparr>, \<lparr>p_offset = 2048, p_pa = 0x200000, p_memsz = 3\<rparr>]"
  have ps: "?ps = map (\<lambda>i. proghdr_at (file_mem demo_boot_img) (e_phoff e + of_nat (56 * i))) [0..<unat (e_phnum e)]"
    unfolding f by (simp add: e proghdr_at_def load32_def load64_def demo_kernel_def upt_rec)
  have ok: "\<forall>p \<in> set ?ps. seg_ok p" "sorted_wrt (\<lambda>p q. seg_span p \<inter> seg_span q = {}) ?ps"
    by (auto simp: seg_ok_def seg_span_def span_start_def span_sectors_def)
  obtain m d where "bootmain (demo_ide demo_boot_img) (\<lambda>_. 0, ata0) = Some (Enter (ucast (e_entry e)), m, d)"
      "\<forall>p \<in> set ?ps. \<forall>k < unat (p_memsz p). m (p_pa p + of_nat k) = demo_boot_img (512 + unat (p_offset p) + k)"
    using bootmain_loads [OF demo_ide_disk e_def e(1) _ ps ok, of "\<lambda>_. 0" ata0] by (auto simp: e)
  moreover from this(2) have "\<forall>k < 4. m (0x1003E8 + of_nat k) = demo_boot_img (1512 + k)"
      "\<forall>k < 3. m (0x200000 + of_nat k) = demo_boot_img (2560 + k)" by simp_all
  from spec [OF this(1), of 1] spec [OF this(2), of 2]
  have "m 0x1003E9 = demo_boot_img 1513" "m 0x200002 = demo_boot_img 2562" by simp_all
  ultimately show ?thesis by (simp add: e demo_boot_img_def demo_kernel_def)
qed

end
