(* ===== verification/Mmu.thy ===== *)
theory Mmu
  imports Jos_Prelude
begin

text \<open>
  \<^verbatim>\<open>inc/mmu.h\<close>: the decomposition of linear addresses for four-level paging, and the descriptors of the segmentation and trap
  hardware. Bit fields are words of their width; the macros that fill a descriptor truncate what they assign as C does.
  The assembler's versions of the segment macros are lists of bytes, beside which stands the layout the compiler gives the
  structure, low bits first.
\<close>

section \<open>Linear addresses\<close>

definition PTXSHIFT :: nat where "PTXSHIFT = 12"
definition PDXSHIFT :: nat where "PDXSHIFT = 21"
definition PDPESHIFT :: nat where "PDPESHIFT = 30"
definition PML4SHIFT :: nat where "PML4SHIFT = 39"

definition PPN :: "u64 \<Rightarrow> u64" where "PPN pa = drop_bit PTXSHIFT pa"
definition VPN :: "u64 \<Rightarrow> u64" where "VPN la = PPN la"
definition PGNUM :: "u64 \<Rightarrow> u64" where "PGNUM la = PPN la"
definition PDX :: "u64 \<Rightarrow> u64" where "PDX la = drop_bit PDXSHIFT la AND 0x1FF"
definition VPD :: "u64 \<Rightarrow> u64" where "VPD la = drop_bit PDXSHIFT la"
definition VPDPE :: "u64 \<Rightarrow> u64" where "VPDPE la = drop_bit PDPESHIFT la"
definition VPML4E :: "u64 \<Rightarrow> u64" where "VPML4E la = drop_bit PML4SHIFT la"
definition PML4 :: "u64 \<Rightarrow> u64" where "PML4 la = drop_bit PML4SHIFT la AND 0x1FF"
definition PTX :: "u64 \<Rightarrow> u64" where "PTX la = drop_bit PTXSHIFT la AND 0x1FF"
definition PDPE :: "u64 \<Rightarrow> u64" where "PDPE la = drop_bit PDPESHIFT la AND 0x1FF"
definition PGOFF :: "u64 \<Rightarrow> u64" where "PGOFF la = la AND 0xFFF"

definition PGADDR :: "u64 \<Rightarrow> u64 \<Rightarrow> u64 \<Rightarrow> u64 \<Rightarrow> u64 \<Rightarrow> u64" where
  "PGADDR m p d t off =
     push_bit PML4SHIFT m OR push_bit PDPESHIFT p OR push_bit PDXSHIFT d OR push_bit PTXSHIFT t OR off"

definition PTE_ADDR :: "u64 \<Rightarrow> u64" where "PTE_ADDR pte = pte AND NOT 0xFFF"

lemmas shift_defs = PTXSHIFT_def PDXSHIFT_def PDPESHIFT_def PML4SHIFT_def

lemmas index_defs = PPN_def VPN_def PGNUM_def PDX_def VPD_def VPDPE_def VPML4E_def PML4_def PTX_def PDPE_def PGOFF_def
  PGADDR_def PTE_ADDR_def shift_defs

section \<open>Segment descriptors\<close>

record segdesc =
  sd_lim_15_0 :: "16 word"
  sd_base_15_0 :: "16 word"
  sd_base_23_16 :: "8 word"
  sd_type :: "4 word"
  sd_s :: "1 word"
  sd_dpl :: "2 word"
  sd_p :: "1 word"
  sd_lim_19_16 :: "4 word"
  sd_avl :: "1 word"
  sd_l :: "1 word"
  sd_db :: "1 word"
  sd_g :: "1 word"
  sd_base_31_24 :: "8 word"

definition SEG_NULL :: segdesc where
  "SEG_NULL = \<lparr>sd_lim_15_0 = 0, sd_base_15_0 = 0, sd_base_23_16 = 0, sd_type = 0, sd_s = 0, sd_dpl = 0, sd_p = 0, sd_lim_19_16 = 0,
     sd_avl = 0, sd_l = 0, sd_db = 0, sd_g = 0, sd_base_31_24 = 0\<rparr>"

definition SEG_FAULT :: segdesc where
  "SEG_FAULT = \<lparr>sd_lim_15_0 = 0, sd_base_15_0 = 0, sd_base_23_16 = 0, sd_type = 0, sd_s = 1, sd_dpl = 0, sd_p = 1, sd_lim_19_16 = 0,
     sd_avl = 0, sd_l = 0, sd_db = 1, sd_g = 0, sd_base_31_24 = 0\<rparr>"

definition SEG :: "u32 \<Rightarrow> u32 \<Rightarrow> u32 \<Rightarrow> u32 \<Rightarrow> segdesc" where
  "SEG ty base lim dpl =
     \<lparr>sd_lim_15_0 = ucast (drop_bit 12 lim AND 0xffff), sd_base_15_0 = ucast (base AND 0xffff),
      sd_base_23_16 = ucast (drop_bit 16 base AND 0xff), sd_type = ucast ty, sd_s = 1, sd_dpl = ucast dpl, sd_p = 1,
      sd_lim_19_16 = ucast (drop_bit 28 lim), sd_avl = 0, sd_l = 0, sd_db = 1, sd_g = 1, sd_base_31_24 = ucast (drop_bit 24 base)\<rparr>"

definition SEG64 :: "u32 \<Rightarrow> u32 \<Rightarrow> u32 \<Rightarrow> u32 \<Rightarrow> segdesc" where
  "SEG64 ty base lim dpl =
     \<lparr>sd_lim_15_0 = ucast (drop_bit 12 lim AND 0xffff), sd_base_15_0 = ucast (base AND 0xffff),
      sd_base_23_16 = ucast (drop_bit 16 base AND 0xff), sd_type = ucast ty, sd_s = 1, sd_dpl = ucast dpl, sd_p = 1,
      sd_lim_19_16 = ucast (drop_bit 28 lim), sd_avl = 0, sd_l = 1, sd_db = 0, sd_g = 1, sd_base_31_24 = ucast (drop_bit 24 base)\<rparr>"

definition SEG16 :: "u32 \<Rightarrow> u32 \<Rightarrow> u32 \<Rightarrow> u32 \<Rightarrow> segdesc" where
  "SEG16 ty base lim dpl =
     \<lparr>sd_lim_15_0 = ucast (lim AND 0xffff), sd_base_15_0 = ucast (base AND 0xffff),
      sd_base_23_16 = ucast (drop_bit 16 base AND 0xff), sd_type = ucast ty, sd_s = 1, sd_dpl = ucast dpl, sd_p = 1,
      sd_lim_19_16 = ucast (drop_bit 16 lim), sd_avl = 0, sd_l = 0, sd_db = 1, sd_g = 0, sd_base_31_24 = ucast (drop_bit 24 base)\<rparr>"

text \<open>The assembler's macros: \<^verbatim>\<open>.word\<close> emits two bytes, \<^verbatim>\<open>.byte\<close> one.\<close>

definition word_bytes :: "u32 \<Rightarrow> u8 list" where
  "word_bytes w = [ucast w, ucast (drop_bit 8 w)]"

definition seg_null_asm :: "u8 list" where
  "seg_null_asm = word_bytes 0 @ word_bytes 0 @ [0, 0, 0, 0]"

definition seg_asm :: "u32 \<Rightarrow> u32 \<Rightarrow> u32 \<Rightarrow> u8 list" where
  "seg_asm ty base lim =
     word_bytes (drop_bit 12 lim AND 0xffff) @ word_bytes (base AND 0xffff)
     @ [ucast (drop_bit 16 base AND 0xff), ucast (0x90 OR ty), ucast (0xC0 OR (drop_bit 28 lim AND 0xf)), ucast (drop_bit 24 base AND 0xff)]"

definition seg64_asm :: "u32 \<Rightarrow> u32 \<Rightarrow> u32 \<Rightarrow> u8 list" where
  "seg64_asm ty base lim =
     word_bytes (drop_bit 12 lim AND 0xffff) @ word_bytes (base AND 0xffff)
     @ [ucast (drop_bit 16 base AND 0xff), ucast (0x90 OR ty), ucast (0xA0 OR (drop_bit 28 lim AND 0xf)), ucast (drop_bit 24 base AND 0xff)]"

definition seg64user_asm :: "u32 \<Rightarrow> u32 \<Rightarrow> u32 \<Rightarrow> u8 list" where
  "seg64user_asm ty base lim =
     word_bytes (drop_bit 12 lim AND 0xffff) @ word_bytes (base AND 0xffff)
     @ [ucast (drop_bit 16 base AND 0xff), ucast (0xf0 OR ty), ucast (0xA0 OR (drop_bit 28 lim AND 0xf)), ucast (drop_bit 24 base AND 0xff)]"

section \<open>System descriptors and gates\<close>

definition STS_T64A :: u32 where "STS_T64A = 0x9"
definition STS_CG64 :: u32 where "STS_CG64 = 0xC"
definition STS_IG64 :: u32 where "STS_IG64 = 0xE"
definition STS_TG64 :: u32 where "STS_TG64 = 0xF"

record syssegdesc =
  ss_lim_15_0 :: "16 word"
  ss_base_15_0 :: "16 word"
  ss_base_23_16 :: "8 word"
  ss_type :: "4 word"
  ss_s :: "1 word"
  ss_dpl :: "2 word"
  ss_p :: "1 word"
  ss_lim_19_16 :: "4 word"
  ss_avl :: "1 word"
  ss_rsv1 :: "2 word"
  ss_g :: "1 word"
  ss_base_31_24 :: "8 word"
  ss_base_63_32 :: "32 word"
  ss_res1 :: "8 word"
  ss_clear :: "8 word"
  ss_res2 :: "16 word"

text \<open>\<^verbatim>\<open>dpl\<close> is a parameter of the macro that its body does not use.\<close>

definition SETTSS :: "syssegdesc \<Rightarrow> u32 \<Rightarrow> u64 \<Rightarrow> u64 \<Rightarrow> u32 \<Rightarrow> syssegdesc" where
  "SETTSS d ty base lim dpl =
     d\<lparr>ss_lim_15_0 := ucast (lim AND 0xffff), ss_base_15_0 := ucast (base AND 0xffff),
       ss_base_23_16 := ucast (drop_bit 16 base AND 0xff), ss_type := ucast ty, ss_s := 0, ss_dpl := 0, ss_p := 1,
       ss_lim_19_16 := ucast (drop_bit 16 lim AND 0xf), ss_avl := 0, ss_rsv1 := 0, ss_g := 0,
       ss_base_31_24 := ucast (drop_bit 24 base AND 0xff), ss_base_63_32 := ucast (drop_bit 32 base AND 0xffffffff),
       ss_res1 := 0, ss_clear := 0, ss_res2 := 0\<rparr>"

record gatedesc =
  gd_off_15_0 :: "16 word"
  gd_ss :: "16 word"
  gd_ist :: "3 word"
  gd_rsv1 :: "5 word"
  gd_type :: "4 word"
  gd_s :: "1 word"
  gd_dpl :: "2 word"
  gd_p :: "1 word"
  gd_off_31_16 :: "16 word"
  gd_off_32_63 :: "32 word"
  gd_rsv2 :: "32 word"

definition SETGATE :: "gatedesc \<Rightarrow> u32 \<Rightarrow> u32 \<Rightarrow> u64 \<Rightarrow> u32 \<Rightarrow> gatedesc" where
  "SETGATE gate istrap sel off dpl =
     gate\<lparr>gd_off_15_0 := ucast (off AND 0xffff), gd_ss := ucast sel, gd_ist := 0, gd_rsv1 := 0,
       gd_type := ucast (if istrap \<noteq> 0 then STS_TG64 else STS_IG64), gd_s := 0, gd_dpl := ucast dpl, gd_p := 1,
       gd_off_31_16 := ucast (drop_bit 16 off AND 0xffff), gd_off_32_63 := ucast (drop_bit 32 off AND 0xffffffff), gd_rsv2 := 0\<rparr>"

definition SETCALLGATE :: "gatedesc \<Rightarrow> u32 \<Rightarrow> u64 \<Rightarrow> u32 \<Rightarrow> gatedesc" where
  "SETCALLGATE gate sel off dpl =
     gate\<lparr>gd_off_15_0 := ucast ((ucast off :: u32) AND 0xffff), gd_ss := ucast sel, gd_ist := 0, gd_rsv1 := 0,
       gd_type := ucast STS_CG64, gd_s := 0, gd_dpl := ucast dpl, gd_p := 1,
       gd_off_31_16 := ucast (drop_bit 16 (ucast off :: u32) AND 0xffff),
       gd_off_32_63 := ucast (drop_bit 32 off AND 0xffffffff), gd_rsv2 := 0\<rparr>"

section \<open>What the hardware reads\<close>

text \<open>The eight bytes of a segment descriptor, and the numbers the hardware puts together from the parts.\<close>

definition seg_bytes :: "segdesc \<Rightarrow> u8 list" where
  "seg_bytes d =
     [ucast (sd_lim_15_0 d), ucast (drop_bit 8 (sd_lim_15_0 d)), ucast (sd_base_15_0 d), ucast (drop_bit 8 (sd_base_15_0 d)),
      sd_base_23_16 d,
      ucast (sd_type d) OR push_bit 4 (ucast (sd_s d)) OR push_bit 5 (ucast (sd_dpl d)) OR push_bit 7 (ucast (sd_p d)),
      ucast (sd_lim_19_16 d) OR push_bit 4 (ucast (sd_avl d)) OR push_bit 5 (ucast (sd_l d)) OR push_bit 6 (ucast (sd_db d))
        OR push_bit 7 (ucast (sd_g d)),
      sd_base_31_24 d]"

definition gate_target :: "gatedesc \<Rightarrow> u64" where
  "gate_target g = ucast (gd_off_15_0 g) OR push_bit 16 (ucast (gd_off_31_16 g)) OR push_bit 32 (ucast (gd_off_32_63 g))"

definition tss_base :: "syssegdesc \<Rightarrow> u64" where
  "tss_base d = ucast (ss_base_15_0 d) OR push_bit 16 (ucast (ss_base_23_16 d)) OR push_bit 24 (ucast (ss_base_31_24 d))
     OR push_bit 32 (ucast (ss_base_63_32 d))"

definition tss_limit :: "syssegdesc \<Rightarrow> u64" where
  "tss_limit d = ucast (ss_lim_15_0 d) OR push_bit 16 (ucast (ss_lim_19_16 d))"

section \<open>Properties\<close>

lemma mask_consts:
  "(0x1FF :: u64) = mask 9" "(0xFFF :: u64) = mask 12" "(0xFFFF :: u64) = mask 16" "(0xFF :: u64) = mask 8" "(0xF :: u64) = mask 4"
  "(0xFFFFFFFF :: u64) = mask 32" "(0xFFFF :: u32) = mask 16" "(0xFF :: u32) = mask 8" "(0xF :: u32) = mask 4"
  by (simp_all add: mask_eq_exp_minus_1)

text \<open>Bits of a field, and of an address put together from fields.\<close>

lemma bit_mask64: "bit (mask k :: u64) n \<longleftrightarrow> n < 64 \<and> n < k"
  by (simp add: bit_mask_iff)

lemma bit_small: "x < 2 ^ k \<Longrightarrow> bit (x :: u64) n \<Longrightarrow> n < k"
proof -
  assume x: "x < 2 ^ k" and b: "bit x n"
  from less_mask_eq [OF x] b have "bit (x AND mask k) n" by simp
  then show "n < k" by (simp add: bit_and_iff bit_mask64)
qed

lemma bit_PGADDR:
  "bit (PGADDR m p d t off) n \<longleftrightarrow> n < 64 \<and> (39 \<le> n \<and> bit m (n - 39) \<or> 30 \<le> n \<and> bit p (n - 30) \<or> 21 \<le> n \<and> bit d (n - 21)
     \<or> 12 \<le> n \<and> bit t (n - 12) \<or> bit off n)"
  by (cases "n < 64") (auto simp: PGADDR_def shift_defs bit_or_iff bit_push_bit_iff dest: bit_imp_le_length)

lemma bit_indexes:
  "bit (PML4 la) n \<longleftrightarrow> n < 9 \<and> bit la (n + 39)" "bit (PDPE la) n \<longleftrightarrow> n < 9 \<and> bit la (n + 30)"
  "bit (PDX la) n \<longleftrightarrow> n < 9 \<and> bit la (n + 21)" "bit (PTX la) n \<longleftrightarrow> n < 9 \<and> bit la (n + 12)"
  "bit (PGOFF la) n \<longleftrightarrow> n < 12 \<and> bit la n"
  by (auto simp: PML4_def PDPE_def PDX_def PTX_def PGOFF_def shift_defs mask_consts bit_and_iff bit_drop_bit_eq bit_mask64 add.commute)

text \<open>
  C34. The indexes of a linear address and its page offset make up its low 48 bits, which \<^verbatim>\<open>PGADDR\<close> puts together again; and
  \<^verbatim>\<open>PGADDR\<close> of indexes below 512 and an offset below 4096 has exactly these parts.
\<close>

theorem pgaddr_roundtrip:
  assumes "m < 512" "p < 512" "d < 512" "t < 512" "off < 4096"
  shows "PGADDR (PML4 la) (PDPE la) (PDX la) (PTX la) (PGOFF la) = la AND mask 48
   \<and> PML4 (PGADDR m p d t off) = m \<and> PDPE (PGADDR m p d t off) = p \<and> PDX (PGADDR m p d t off) = d
   \<and> PTX (PGADDR m p d t off) = t \<and> PGOFF (PGADDR m p d t off) = off"
proof (intro conjI)
  show "PGADDR (PML4 la) (PDPE la) (PDX la) (PTX la) (PGOFF la) = la AND mask 48"
  proof (rule bit_word_eqI)
    fix n assume "n < LENGTH(64)"
    then have n: "n < 64" by simp
    consider "n < 12" | "12 \<le> n" "n < 21" | "21 \<le> n" "n < 30" | "30 \<le> n" "n < 39" | "39 \<le> n" "n < 48" | "48 \<le> n" by linarith
    then show "bit (PGADDR (PML4 la) (PDPE la) (PDX la) (PTX la) (PGOFF la)) n \<longleftrightarrow> bit (la AND mask 48) n"
      using n by cases (auto simp: bit_PGADDR bit_indexes bit_and_iff bit_mask64 less_diff_conv2)
  qed
  have small: "n < 9" if "bit x n" "x < 512" for x :: u64 and n using bit_small [of x 9 n] that by simp
  note sm = small [OF _ assms(1)] small [OF _ assms(2)] small [OF _ assms(3)] small [OF _ assms(4)]
  have offs: "n < 12" if "bit off n" for n using bit_small [of off 12 n] that assms(5) by simp
  show "PML4 (PGADDR m p d t off) = m"
    by (rule bit_word_eqI) (auto simp: bit_PGADDR bit_indexes dest: sm offs)
  show "PDPE (PGADDR m p d t off) = p"
    by (rule bit_word_eqI) (auto simp: bit_PGADDR bit_indexes dest: sm offs)
  show "PDX (PGADDR m p d t off) = d"
    by (rule bit_word_eqI) (auto simp: bit_PGADDR bit_indexes dest: sm offs)
  show "PTX (PGADDR m p d t off) = t"
    by (rule bit_word_eqI) (auto simp: bit_PGADDR bit_indexes dest: sm offs)
  show "PGOFF (PGADDR m p d t off) = off"
    by (rule bit_word_eqI) (auto simp: bit_PGADDR bit_indexes dest: sm offs)
qed

lemma byte_eqI: "(\<And>n. n < 8 \<Longrightarrow> bit x n = bit (y :: u8) n) \<Longrightarrow> x = y"
  by (rule bit_word_eqI) simp

lemma byte_cases:
  assumes "n < (8 :: nat)"
  obtains "n = 0" | "n = 1" | "n = 2" | "n = 3" | "n = 4" | "n = 5" | "n = 6" | "n = 7"
  using assms by fastforce

text \<open>
  C35. The structure the compiler builds and the bytes the assembler emits agree: for a type of four bits, \<^verbatim>\<open>SEG\<close> and
  \<^verbatim>\<open>SEG64\<close> at privilege level 0, \<^verbatim>\<open>SEG64\<close> at level 3 and \<^verbatim>\<open>SEG64USER\<close>, and the null segments have the same eight bytes.
\<close>

theorem segment_encodings:
  assumes "ty < 16"
  shows "seg_bytes (SEG ty base lim 0) = seg_asm ty base lim \<and> seg_bytes (SEG64 ty base lim 0) = seg64_asm ty base lim
    \<and> seg_bytes (SEG64 ty base lim 3) = seg64user_asm ty base lim \<and> seg_bytes SEG_NULL = seg_null_asm"
proof -
  have t: "ty AND mask 4 = ty" using less_mask_eq [of ty 4] assms by simp
  have b: "bit ty n \<Longrightarrow> n < 4" for n
  proof -
    assume "bit ty n"
    then have "bit (ty AND mask 4) n" by (simp only: t)
    then show "n < 4" by (simp add: bit_and_iff bit_mask_iff)
  qed
  note defs = seg_bytes_def SEG_def SEG64_def seg_asm_def seg64_asm_def seg64user_asm_def word_bytes_def SEG_NULL_def seg_null_asm_def
  have low: "\<not> bit ty 4" "\<not> bit ty 5" "\<not> bit ty 6" "\<not> bit ty 7" using b by fastforce+
  have "seg_bytes (SEG ty base lim 0) = seg_asm ty base lim"
    unfolding defs by (simp, intro conjI; rule byte_eqI; elim byte_cases; simp add: bit_simps low mask_consts)
  moreover have "seg_bytes (SEG64 ty base lim 0) = seg64_asm ty base lim"
    unfolding defs by (simp, intro conjI; rule byte_eqI; elim byte_cases; simp add: bit_simps low mask_consts)
  moreover have "seg_bytes (SEG64 ty base lim 3) = seg64user_asm ty base lim"
    unfolding defs by (simp, intro conjI; rule byte_eqI; elim byte_cases; simp add: bit_simps low mask_consts)
  moreover have "seg_bytes SEG_NULL = seg_null_asm" by (simp add: defs)
  ultimately show ?thesis by blast
qed

text \<open>
  The descriptors hold what they are given: the hardware finds the whole 64-bit handler address in a gate, with the selector,
  privilege level and kind of gate, and the whole base and the 20-bit limit in the descriptor of a task state segment. (The
  privilege level given to \<^verbatim>\<open>SETTSS\<close> is ignored: it is always 0.)
\<close>

theorem descriptors_hold:
  "gate_target (SETGATE g istrap sel off dpl) = off \<and> gate_target (SETCALLGATE g sel off dpl) = off
   \<and> gd_dpl (SETGATE g istrap sel off dpl) = ucast dpl \<and> gd_p (SETGATE g istrap sel off dpl) = 1
   \<and> gd_type (SETGATE g istrap sel off dpl) = (if istrap = 0 then 0xE else 0xF)
   \<and> tss_base (SETTSS s ty base lim dpl) = base \<and> tss_limit (SETTSS s ty base lim dpl) = lim AND mask 20
   \<and> ss_dpl (SETTSS s ty base lim dpl) = 0"
proof (intro conjI)
  note defs = gate_target_def SETGATE_def SETCALLGATE_def tss_base_def tss_limit_def SETTSS_def
  show "gate_target (SETGATE g istrap sel off dpl) = off"
  proof (rule bit_word_eqI)
    fix n assume n: "n < LENGTH(64)"
    consider "n < 16" | "16 \<le> n" "n < 32" | "32 \<le> n" by linarith
    then show "bit (gate_target (SETGATE g istrap sel off dpl)) n = bit off n"
      using n by cases (auto simp: defs mask_consts bit_simps less_diff_conv2)
  qed
  show "gate_target (SETCALLGATE g sel off dpl) = off"
  proof (rule bit_word_eqI)
    fix n assume n: "n < LENGTH(64)"
    consider "n < 16" | "16 \<le> n" "n < 32" | "32 \<le> n" by linarith
    then show "bit (gate_target (SETCALLGATE g sel off dpl)) n = bit off n"
      using n by cases (auto simp: defs mask_consts bit_simps less_diff_conv2)
  qed
  show "tss_base (SETTSS s ty base lim dpl) = base"
  proof (rule bit_word_eqI)
    fix n assume n: "n < LENGTH(64)"
    consider "n < 16" | "16 \<le> n" "n < 24" | "24 \<le> n" "n < 32" | "32 \<le> n" by linarith
    then show "bit (tss_base (SETTSS s ty base lim dpl)) n = bit base n"
      using n by cases (auto simp: defs mask_consts bit_simps less_diff_conv2)
  qed
  show "tss_limit (SETTSS s ty base lim dpl) = lim AND mask 20"
  proof (rule bit_word_eqI)
    fix n assume n: "n < LENGTH(64)"
    consider "n < 16" | "16 \<le> n" "n < 20" | "20 \<le> n" by linarith
    then show "bit (tss_limit (SETTSS s ty base lim dpl)) n = bit (lim AND mask 20) n"
      using n by cases (auto simp: defs mask_consts bit_simps less_diff_conv2)
  qed
qed (simp_all add: SETGATE_def SETTSS_def STS_TG64_def STS_IG64_def)

theorem pgaddr_roundtrip_witness:
  "PGADDR (PML4 0x8004200010) (PDPE 0x8004200010) (PDX 0x8004200010) (PTX 0x8004200010) (PGOFF 0x8004200010) = 0x8004200010
   \<and> PDX (PGADDR 1 0 33 5 16) = 33"
proof -
  have "(0x8004200010 :: u64) AND mask 48 = 0x8004200010" by (simp add: mask_eq_exp_minus_1)
  with pgaddr_roundtrip [of 1 0 33 5 16 "0x8004200010"] show ?thesis by simp
qed

theorem segment_encodings_witness:
  "seg_bytes (SEG64 0xA 0 0xffffffff 0) = [0xff, 0xff, 0, 0, 0, 0x9a, 0xaf, 0]
   \<and> seg_bytes (SEG64 0xA 0 0xffffffff 0) = seg64_asm 0xA 0 0xffffffff"
  using segment_encodings [of "0xA" 0 "0xffffffff"] by (simp add: seg64_asm_def word_bytes_def)

end
