(* ===== verification/Paging.thy ===== *)
theory Paging
  imports Mmu Cstring
begin

text \<open>
  The first page tables, \<^verbatim>\<open>kern/bootstrap.S\<close>, with the constants of \<^verbatim>\<open>inc/mmu.h\<close> and \<^verbatim>\<open>inc/memlayout.h\<close> they are made of. The
  assembly runs with 32-bit registers and no paging: an address is a \<open>u32\<close>, and memory is physical memory. What the tables mean is
  said by \<open>walk\<close>, the translation of four-level paging as the processor's manual describes it.
\<close>

section \<open>Constants of paging\<close>

definition NPMLENTRIES :: nat where "NPMLENTRIES = 512"
definition NPDPENTRIES :: nat where "NPDPENTRIES = 512"
definition NPDENTRIES :: nat where "NPDENTRIES = 512"
definition NPTENTRIES :: nat where "NPTENTRIES = 512"

definition PGSIZE :: nat where "PGSIZE = 4096"
definition PGSHIFT :: nat where "PGSHIFT = 12"
definition PTSIZE :: nat where "PTSIZE = PGSIZE * NPTENTRIES"
definition PTSHIFT :: nat where "PTSHIFT = 21"

definition PTE_P :: u32 where "PTE_P = 0x001"
definition PTE_W :: u32 where "PTE_W = 0x002"
definition PTE_U :: u32 where "PTE_U = 0x004"
definition PTE_PWT :: u32 where "PTE_PWT = 0x008"
definition PTE_PCD :: u32 where "PTE_PCD = 0x010"
definition PTE_A :: u32 where "PTE_A = 0x020"
definition PTE_D :: u32 where "PTE_D = 0x040"
definition PTE_PS :: u32 where "PTE_PS = 0x080"
definition PTE_MBZ :: u32 where "PTE_MBZ = 0x180"
definition PTE_AVAIL :: u32 where "PTE_AVAIL = 0xE00"
definition PTE_SYSCALL :: u32 where "PTE_SYSCALL = PTE_AVAIL OR PTE_P OR PTE_W OR PTE_U"
definition PTE_USER :: u32 where "PTE_USER = PTE_AVAIL OR PTE_P OR PTE_W OR PTE_U"

section \<open>Building the tables\<close>

text \<open>\<^verbatim>\<open>rep stosl\<close> in 32-bit mode.\<close>

fun stosl32 :: "nat \<Rightarrow> u32 \<Rightarrow> u32 \<Rightarrow> mem \<Rightarrow> mem" where
  "stosl32 0 edi eax m = m"
| "stosl32 (Suc ecx) edi eax m = stosl32 ecx (edi + 4) eax (store32 m (ucast edi) eax)"

text \<open>The loop over the two page directories: its body runs before the counter is tested.\<close>

function pgdir_loop :: "u32 \<Rightarrow> u32 \<Rightarrow> u32 \<Rightarrow> u32 \<Rightarrow> mem \<Rightarrow> mem" where
  "pgdir_loop edi ebx eax ecx m =
     (let m = store32 m (ucast edi) eax; m = store32 m (ucast ebx) eax; edi = edi + 8; ebx = ebx + 8; eax = eax + 0x00200000; ecx = ecx - 1
      in if ecx \<noteq> 0 then pgdir_loop edi ebx eax ecx m else m)"
  by pat_completeness auto
termination
proof (relation "measure (\<lambda>(edi, ebx, eax, ecx, m). unat (ecx - 1))", goal_cases)
  case (2 edi ebx eax ecx m x xa xb xc xd xe)
  then have "unat (xe - 1) = unat xe - 1" and "unat xe \<noteq> 0"
    by (simp_all only: unat_minus_one unat_eq_zero not_False_eq_True)
  with 2 show ?case by simp
qed simp

declare pgdir_loop.simps [simp del]

definition setup_tables :: "u32 \<Rightarrow> mem \<Rightarrow> mem" where
  "setup_tables pml4 m =
     (let pdpt1 = pml4 + 0x1000; pdpt2 = pml4 + 2 * 0x1000; pde1 = pml4 + 3 * 0x1000; pde2 = pml4 + 4 * 0x1000;
          m = stosl32 (4096 div 4 * 5) pml4 0 m;
          m = store32 m (ucast pml4) (pdpt1 OR PTE_P OR PTE_W);
          m = store32 m (ucast (pml4 + 0x8)) (pdpt2 OR PTE_P OR PTE_W);
          m = store32 m (ucast pdpt1) (pde1 OR PTE_P OR PTE_W);
          m = store32 m (ucast pdpt2) (pde2 OR PTE_P OR PTE_W)
      in pgdir_loop pde1 (pde2 + 256) 0x00000183 128 m)"

section \<open>What the tables mean\<close>

text \<open>
  An address is translated through four tables unless an entry of the second or third has the bit for a large page. The result is
  the physical address, whether it may be written, and whether the user may use it.
\<close>

definition canonical :: "u64 \<Rightarrow> bool" where
  "canonical la \<longleftrightarrow> (let top = drop_bit 47 la in top = 0 \<or> top = mask 17)"

definition frame :: "nat \<Rightarrow> u64 \<Rightarrow> u64" where
  "frame k e = e AND mask 52 AND NOT (mask k)"

definition page :: "nat \<Rightarrow> u64 list \<Rightarrow> u64 \<Rightarrow> u64 \<times> bool \<times> bool" where
  "page k es la = (frame k (last es) + (la AND mask k), list_all (\<lambda>e. bit e 1) es, list_all (\<lambda>e. bit e 2) es)"

definition walk :: "mem \<Rightarrow> u64 \<Rightarrow> u64 \<Rightarrow> (u64 \<times> bool \<times> bool) option" where
  "walk m cr3 la =
     (if \<not> canonical la then None else
      let e4 = load64 m (frame 12 cr3 + 8 * PML4 la) in if \<not> bit e4 0 then None else
      let e3 = load64 m (frame 12 e4 + 8 * PDPE la) in if \<not> bit e3 0 then None else
      if bit e3 7 then Some (page 30 [e4, e3] la) else
      let e2 = load64 m (frame 12 e3 + 8 * PDX la) in if \<not> bit e2 0 then None else
      if bit e2 7 then Some (page 21 [e4, e3, e2] la) else
      let e1 = load64 m (frame 12 e2 + 8 * PTX la) in if \<not> bit e1 0 then None else
      Some (page 12 [e4, e3, e2, e1] la))"

section \<open>Tables as words\<close>

text \<open>The \<open>i\<close>-th four-byte word from \<open>b\<close> on. The tables are 5120 of them.\<close>

definition word :: "mem \<Rightarrow> u64 \<Rightarrow> nat \<Rightarrow> u32" where
  "word m b i = load32 m (b + 4 * of_nat i)"

text \<open>The words are \<open>f\<close>, and the rest of memory is that of \<open>m0\<close>.\<close>

definition tables :: "u64 \<Rightarrow> mem \<Rightarrow> (nat \<Rightarrow> u32) \<Rightarrow> mem \<Rightarrow> bool" where
  "tables b m0 f m \<longleftrightarrow> (\<forall>i < 5120. word m b i = f i) \<and> (\<forall>a. 0x5000 \<le> unat (a - b) \<longrightarrow> m a = m0 a)"

lemma store32_frame: "4 \<le> unat (b - a) \<Longrightarrow> store32 m a v b = m b"
proof -
  assume "4 \<le> unat (b - a)"
  then have "b - a \<notin> {0, 1, 2, 3}" by auto
  then have "b \<noteq> a" "b \<noteq> a + 1" "b \<noteq> a + 2" "b \<noteq> a + 3" by auto
  then show ?thesis by (simp add: store32_def)
qed

lemma unat_small64: "n < 2 ^ 64 \<Longrightarrow> unat (of_nat n :: u64) = n"
  by (simp add: unat_of_nat)

lemma words_apart:
  assumes "i \<noteq> j" "i < 5120" "j < 5120" "k < 4"
  shows "4 \<le> unat (4 * of_nat i + of_nat k - 4 * of_nat j :: u64)"
proof -
  have e: "4 * of_nat i + of_nat k - 4 * of_nat j = (of_nat (4 * i + k) - of_nat (4 * j) :: u64)" by simp
  have u: "unat (of_nat (4 * i + k) :: u64) = 4 * i + k" "unat (of_nat (4 * j) :: u64) = 4 * j"
    by (rule unat_small64, use assms in simp)+
  show ?thesis
  proof (cases "i < j")
    case True
    then have "unat (of_nat (4 * i + k) - of_nat (4 * j) :: u64) = 2 ^ 64 + (4 * i + k) - 4 * j"
      using u assms(4) unat_sub_if' [of "of_nat (4 * i + k) :: u64" "of_nat (4 * j)"] by (simp only: word_le_nat_alt) simp
    moreover have "(2 :: nat) ^ 64 = 18446744073709551616" by simp
    ultimately show ?thesis unfolding e using assms by linarith
  next
    case False
    then have "unat (of_nat (4 * i + k) - of_nat (4 * j) :: u64) = 4 * i + k - 4 * j"
      using u assms(4) unat_sub_if' [of "of_nat (4 * i + k) :: u64" "of_nat (4 * j)"] by (simp only: word_le_nat_alt) simp
    then show ?thesis unfolding e using False assms(1) by linarith
  qed
qed

lemma word_store:
  assumes "i < 5120" "j < 5120"
  shows "word (store32 m (b + 4 * of_nat j) v) b i = (if i = j then v else word m b i)"
proof (cases "i = j")
  case False
  have "store32 m (b + 4 * of_nat j) v (b + 4 * of_nat i + of_nat k) = m (b + 4 * of_nat i + of_nat k)" if "k < 4" for k
    using words_apart [OF False assms that] by (intro store32_frame) (simp add: algebra_simps)
  from this [of 0] this [of 1] this [of 2] this [of 3] False show ?thesis by (simp add: word_def load32_def)
qed (simp add: word_def load32_store32)

lemma tables_store:
  assumes "tables b m0 f m" "j < 5120"
  shows "tables b m0 (f(j := v)) (store32 m (b + 4 * of_nat j) v)"
proof -
  have "store32 m (b + 4 * of_nat j) v a = m a" if a: "0x5000 \<le> unat (a - b)" for a
  proof (rule store32_frame)
    have u: "unat (of_nat (4 * j) :: u64) = 4 * j" using assms(2) by (intro unat_small64) simp
    then have "unat (a - b - of_nat (4 * j)) = unat (a - b) - 4 * j"
      using a assms(2) unat_sub_if' [of "a - b" "of_nat (4 * j)"] by (simp only: word_le_nat_alt) simp
    then show "4 \<le> unat (a - (b + 4 * of_nat j))" using a assms(2) by (simp add: diff_diff_eq)
  qed
  then show ?thesis using assms by (auto simp: tables_def word_store)
qed

text \<open>Addresses of the tables in 32 bits.\<close>

lemma unat_ucast_u32: "unat (ucast (x :: u32) :: u64) = unat x"
proof -
  have "unat x < 2 ^ LENGTH(32)" by (rule unsigned_less)
  then show ?thesis by (simp add: unsigned_ucast_eq take_bit_nat_eq_self)
qed

lemma table_address:
  assumes "unat pml4 + 0x5000 \<le> 2 ^ 32" "j < 5120"
  shows "(ucast (pml4 + 4 * of_nat j :: u32) :: u64) = ucast pml4 + 4 * of_nat j"
proof -
  have e: "4 * of_nat j = (of_nat (4 * j) :: u32)" "4 * of_nat j = (of_nat (4 * j) :: u64)" by simp_all
  have u: "unat (of_nat (4 * j) :: u32) = 4 * j" "unat (of_nat (4 * j) :: u64) = 4 * j"
    using assms(2) by (simp_all only: unat_of_nat) simp_all
  have "unat (pml4 + of_nat (4 * j)) = unat pml4 + 4 * j"
    using assms u(1) unat_plus_if' [of pml4 "of_nat (4 * j)"] by simp
  moreover have "unat (ucast pml4 + of_nat (4 * j) :: u64) = unat pml4 + 4 * j"
    using assms u(2) unat_plus_if' [of "ucast pml4 :: u64" "of_nat (4 * j)"] by (simp add: unat_ucast_u32)
  ultimately show ?thesis unfolding e by (simp add: word_unat_eq_iff unat_ucast_u32 del: of_nat_mult)
qed

lemma tables_put:
  assumes "unat pml4 + 0x5000 \<le> 2 ^ 32" "tables (ucast pml4) m0 f m" "j < 5120"
  shows "tables (ucast pml4) m0 (f(j := v)) (store32 m (ucast (pml4 + 4 * of_nat j :: u32)) v)"
  unfolding table_address [OF assms(1,3)] by (rule tables_store [OF assms(2,3)])

lemma stosl32_tables:
  assumes "unat pml4 + 0x5000 \<le> 2 ^ 32"
  shows "tables (ucast pml4) m0 f m \<Longrightarrow> x + n \<le> 5120 \<Longrightarrow>
    tables (ucast pml4) m0 (\<lambda>i. if x \<le> i \<and> i < x + n then v else f i) (stosl32 n (pml4 + 4 * of_nat x) v m)"
proof (induction n arbitrary: x f m)
  case (Suc n)
  have "tables (ucast pml4) m0 (\<lambda>i. if Suc x \<le> i \<and> i < Suc x + n then v else (f(x := v)) i)
      (stosl32 n (pml4 + 4 * of_nat (Suc x)) v (store32 m (ucast (pml4 + 4 * of_nat x)) v))"
    by (rule Suc.IH [OF tables_put [OF assms]]) (use Suc.prems in auto)
  moreover have "(\<lambda>i. if Suc x \<le> i \<and> i < Suc x + n then v else (f(x := v)) i) = (\<lambda>i. if x \<le> i \<and> i < x + Suc n then v else f i)"
    by (auto simp: fun_eq_iff)
  ultimately show ?case by (simp add: algebra_simps)
qed (auto simp: tables_def)

text \<open>Large pages one after the other from the entry at word \<open>x\<close> on.\<close>

definition large_pages :: "nat \<Rightarrow> u32 \<Rightarrow> nat \<Rightarrow> (nat \<Rightarrow> u32) \<Rightarrow> nat \<Rightarrow> u32" where
  "large_pages x eax n f i = (if x \<le> i \<and> i < x + 2 * n \<and> even (i - x) then eax + of_nat ((i - x) div 2) * 0x200000 else f i)"

lemma large_pages_Suc:
  "large_pages x eax (Suc n) f = large_pages (x + 2) (eax + 0x200000) n (f(x := eax))"
proof
  fix i
  consider "i < x" | "i = x" | "i = x + 1" | j where "i = x + 2 + j" by (metis add_2_eq_Suc' add.commute less_imp_Suc_add linorder_neqE_nat not_less_eq Suc_eq_plus1 add.assoc one_add_one add_Suc_right)
  then show "large_pages x eax (Suc n) f i = large_pages (x + 2) (eax + 0x200000) n (f(x := eax)) i"
    by cases (auto simp: large_pages_def algebra_simps)
qed

lemma large_pages_0: "large_pages x eax 0 f = f"
  by (auto simp: large_pages_def fun_eq_iff)

lemma large_pages_over: "x + 2 * n \<le> y \<Longrightarrow> (large_pages x eax n f)(y := v) = large_pages x eax n (f(y := v))"
  by (auto simp: large_pages_def fun_eq_iff)

lemma pgdir_loop_tables:
  assumes "unat pml4 + 0x5000 \<le> 2 ^ 32"
  shows "tables (ucast pml4) m0 f m \<Longrightarrow> x + 2 * Suc n \<le> y \<Longrightarrow> y + 2 * Suc n \<le> 5120 \<Longrightarrow>
    tables (ucast pml4) m0 (large_pages y eax (Suc n) (large_pages x eax (Suc n) f))
      (pgdir_loop (pml4 + 4 * of_nat x) (pml4 + 4 * of_nat y) eax (of_nat (Suc n)) m)"
proof (induction n arbitrary: x y f m eax)
  case 0
  have "large_pages y eax (Suc 0) (large_pages x eax (Suc 0) f) = f(x := eax, y := eax)"
    by (simp add: large_pages_Suc large_pages_0)
  with tables_put [OF assms tables_put [OF assms 0(1), of x eax], of y eax] 0 show ?case
    by (subst pgdir_loop.simps) simp
next
  case (Suc n)
  let ?m = "store32 (store32 m (ucast (pml4 + 4 * of_nat x)) eax) (ucast (pml4 + 4 * of_nat y)) eax"
  have "tables (ucast pml4) m0 (f(x := eax, y := eax)) ?m"
    using Suc.prems by (intro tables_put [OF assms]) simp_all
  from this _ _ have "tables (ucast pml4) m0 (large_pages (y + 2) (eax + 0x200000) (Suc n) (large_pages (x + 2) (eax + 0x200000) (Suc n) (f(x := eax, y := eax))))
      (pgdir_loop (pml4 + 4 * of_nat (x + 2)) (pml4 + 4 * of_nat (y + 2)) (eax + 0x200000) (of_nat (Suc n)) ?m)"
    by (rule Suc.IH) (use Suc.prems in simp_all)
  moreover have "large_pages y eax (Suc (Suc n)) (large_pages x eax (Suc (Suc n)) f)
      = large_pages (y + 2) (eax + 0x200000) (Suc n) (large_pages (x + 2) (eax + 0x200000) (Suc n) (f(x := eax, y := eax)))"
  proof -
    have "x + 2 + 2 * Suc n \<le> y" using Suc.prems by simp
    then show ?thesis by (simp only: large_pages_Suc [of _ _ "Suc n"] large_pages_over)
  qed
  moreover have "pgdir_loop p q eax (of_nat (Suc (Suc n))) m
      = pgdir_loop (p + 8) (q + 8) (eax + 0x200000) (of_nat (Suc n)) (store32 (store32 m (ucast p) eax) (ucast q) eax)" for p q m
  proof -
    have "(of_nat (Suc (Suc n)) :: u32) - 1 = of_nat (Suc n)" by simp
    moreover have "(of_nat (Suc n) :: u32) \<noteq> 0" using Suc.prems by (simp add: word_unat_eq_iff unat_of_nat del: of_nat_Suc)
    ultimately show ?thesis by (subst pgdir_loop.simps) (simp only: Let_def if_True not_False_eq_True)
  qed
  moreover have "pml4 + 4 * of_nat (k + 2) = pml4 + 4 * of_nat k + 8" for k by (simp add: algebra_simps)
  ultimately show ?case by metis
qed

section \<open>The tables of the start\<close>

definition boot_words :: "u32 \<Rightarrow> nat \<Rightarrow> u32" where
  "boot_words pml4 = large_pages 4160 0x183 128 (large_pages 3072 0x183 128
     ((\<lambda>i. 0)(0 := pml4 + 0x1000 OR PTE_P OR PTE_W, 2 := pml4 + 0x2000 OR PTE_P OR PTE_W,
        1024 := pml4 + 0x3000 OR PTE_P OR PTE_W, 2048 := pml4 + 0x4000 OR PTE_P OR PTE_W)))"

lemma setup_words:
  assumes b: "unat pml4 + 0x5000 \<le> 2 ^ 32"
  shows "tables (ucast pml4) m (boot_words pml4) (setup_tables pml4 m)"
proof -
  have "tables (ucast pml4) m (word m (ucast pml4)) m" by (simp add: tables_def)
  from stosl32_tables [OF b this, of 0 5120 0] have z: "tables (ucast pml4) m (\<lambda>i. 0) (stosl32 5120 pml4 0 m)" by (simp add: tables_def)
  from pgdir_loop_tables [OF b tables_put [OF b tables_put [OF b tables_put [OF b tables_put [OF b z, of 0 "pml4 + 0x1000 OR PTE_P OR PTE_W"],
    of 2 "pml4 + 0x2000 OR PTE_P OR PTE_W"], of 1024 "pml4 + 0x3000 OR PTE_P OR PTE_W"], of 2048 "pml4 + 0x4000 OR PTE_P OR PTE_W"],
    of 3072 127 4160 "0x183"]
  show ?thesis by (simp add: boot_words_def setup_tables_def Let_def add.assoc)
qed

lemma boot_words_odd: "boot_words pml4 (2 * i + 1) = 0"
proof -
  have "2 * i + 1 \<noteq> 1024" "2 * i + 1 \<noteq> 2048" "2 * i + 1 \<noteq> 2" by presburger+
  then show ?thesis unfolding boot_words_def large_pages_def by auto
qed

lemma boot_words_even:
  "boot_words pml4 (2 * i) =
     (if i = 0 then pml4 + 0x1000 OR PTE_P OR PTE_W else if i = 1 then pml4 + 0x2000 OR PTE_P OR PTE_W
      else if i = 512 then pml4 + 0x3000 OR PTE_P OR PTE_W else if i = 1024 then pml4 + 0x4000 OR PTE_P OR PTE_W
      else if 1536 \<le> i \<and> i < 1664 then 0x183 + of_nat (i - 1536) * 0x200000
      else if 2080 \<le> i \<and> i < 2208 then 0x183 + of_nat (i - 2080) * 0x200000 else 0)"
proof -
  have "(2 * i - 3072) div 2 = i - 1536" "(2 * i - 4160) div 2 = i - 2080" by presburger+
  then show ?thesis by (simp add: boot_words_def large_pages_def)
qed

lemma setup_entry:
  assumes "unat pml4 + 0x5000 \<le> 2 ^ 32" "i < 2560"
  shows "load64 (setup_tables pml4 m) (ucast pml4 + 8 * of_nat i) = ucast (boot_words pml4 (2 * i))"
proof -
  let ?w = "word (setup_tables pml4 m) (ucast pml4)"
  have "?w (2 * i) = boot_words pml4 (2 * i)" "?w (2 * i + 1) = 0"
    using setup_words [OF assms(1), of m] assms(2) boot_words_odd [of pml4 i] by (simp_all add: tables_def)
  moreover have "load64 (setup_tables pml4 m) (ucast pml4 + 8 * of_nat i) = ucast (?w (2 * i)) OR push_bit 32 (ucast (?w (2 * i + 1)))"
    by (simp add: load64_def word_def algebra_simps)
  ultimately show ?thesis by simp
qed

text \<open>Entries that point at a table, and entries for large pages.\<close>

lemma table_aligned:
  assumes "4096 dvd unat pml4" "unat pml4 + 0x5000 \<le> 2 ^ 32" "t \<le> 4"
  shows "(pml4 + 0x1000 * of_nat t :: u32) AND mask 12 = 0"
proof -
  have "unat (of_nat (4096 * t) :: u32) = 4096 * t" using assms(3) by (simp only: unat_of_nat) simp
  then have "unat (pml4 + of_nat (4096 * t)) = unat pml4 + 4096 * t"
    using assms unat_plus_if' [of pml4 "of_nat (4096 * t)"] by simp
  then have "2 ^ 12 dvd unat (pml4 + of_nat (4096 * t))" using assms(1) by simp
  then show ?thesis unfolding and_mask_dvd_nat by simp
qed

lemma table_entry:
  assumes "x AND mask 12 = (0 :: u32)"
  shows "frame 12 (ucast (x OR PTE_P OR PTE_W)) = ucast x"
    "bit (ucast (x OR PTE_P OR PTE_W) :: u64) 0" "bit (ucast (x OR PTE_P OR PTE_W) :: u64) 1"
    "\<not> bit (ucast (x OR PTE_P OR PTE_W) :: u64) 2" "\<not> bit (ucast (x OR PTE_P OR PTE_W) :: u64) 7"
proof -
  have low: "\<not> bit x n" if "n < 12" for n
  proof
    assume "bit x n"
    then have "bit (x AND mask 12) n" using that by (simp add: bit_simps bit_imp_le_length)
    with assms show False by simp
  qed
  have "PTE_P OR PTE_W = mask 2" by (simp add: PTE_P_def PTE_W_def mask_eq_exp_minus_1)
  then show "frame 12 (ucast (x OR PTE_P OR PTE_W)) = ucast x"
    by (intro bit_word_eqI) (auto simp: frame_def or.assoc bit_simps dest: bit_imp_le_length low)
  show "bit (ucast (x OR PTE_P OR PTE_W) :: u64) 0" "bit (ucast (x OR PTE_P OR PTE_W) :: u64) 1"
    "\<not> bit (ucast (x OR PTE_P OR PTE_W) :: u64) 2" "\<not> bit (ucast (x OR PTE_P OR PTE_W) :: u64) 7"
    using low [of 2] low [of 7] by (simp_all add: PTE_P_def PTE_W_def bit_simps)
qed

lemma large_page_entry:
  assumes "k < 128"
  shows "frame 21 (ucast (0x183 + of_nat k * 0x200000 :: u32)) = of_nat k * 0x200000"
    "bit (ucast (0x183 + of_nat k * 0x200000 :: u32) :: u64) 0" "bit (ucast (0x183 + of_nat k * 0x200000 :: u32) :: u64) 1"
    "\<not> bit (ucast (0x183 + of_nat k * 0x200000 :: u32) :: u64) 2" "bit (ucast (0x183 + of_nat k * 0x200000 :: u32) :: u64) 7"
proof -
  let ?k = "of_nat k :: u32"
  have k7: "n < 7" if "bit k n" for n
  proof (rule ccontr)
    assume "\<not> n < 7"
    then have "2 ^ 7 \<le> (2 :: nat) ^ n" by (intro power_increasing) simp_all
    then have "k div 2 ^ n = 0" using assms by simp
    with that show False by (simp add: bit_iff_odd)
  qed
  have b: "bit ?k n \<longleftrightarrow> bit k n" for n using k7 [of n] by (auto simp: bit_of_nat_iff bit_simps)
  have low: "n < 21" if "bit (0x183 :: u32) n" for n
  proof -
    have "(0x183 :: u32) AND mask 21 = 0x183" by (simp add: mask_eq_exp_minus_1)
    with that show ?thesis by (metis bit_and_iff bit_mask_iff)
  qed
  have e: "0x183 + ?k * 0x200000 = 0x183 OR push_bit 21 ?k"
  proof -
    have "\<not> bit (0x183 :: u32) n \<or> \<not> bit (push_bit 21 ?k) n" for n
      using low [of n] by (auto simp: bit_push_bit_iff)
    then show ?thesis by (subst disjunctive_add) (simp_all add: push_bit_eq_mult)
  qed
  have f: "of_nat k * 0x200000 = (push_bit 21 (of_nat k) :: u64)" by (simp add: push_bit_eq_mult)
  show "frame 21 (ucast (0x183 + ?k * 0x200000)) = of_nat k * 0x200000"
  proof -
    have "frame 21 (ucast (c OR push_bit 21 ?k)) = push_bit 21 (of_nat k)" if "\<And>n. bit c n \<Longrightarrow> n < 21" for c :: u32
      by (rule bit_word_eqI) (auto simp: frame_def bit_simps b bit_of_nat_iff dest: that k7 bit_imp_le_length)
    with low show ?thesis unfolding e f by blast
  qed
  show "bit (ucast (0x183 + ?k * 0x200000) :: u64) 0" "bit (ucast (0x183 + ?k * 0x200000) :: u64) 1"
    "\<not> bit (ucast (0x183 + ?k * 0x200000) :: u64) 2" "bit (ucast (0x183 + ?k * 0x200000) :: u64) 7"
    unfolding e by (simp_all add: bit_simps)
qed

text \<open>Indexes of an address as numbers.\<close>

lemma unat_low: "unat (la AND mask k :: u64) = unat la mod 2 ^ k"
  unfolding take_bit_eq_mask [symmetric] unsigned_take_bit_eq by (rule take_bit_eq_mod)

lemma unat_index: "unat (drop_bit k la AND 0x1FF :: u64) = unat la div 2 ^ k mod 512"
proof -
  have "(0x1FF :: u64) = mask 9" by (simp add: mask_eq_exp_minus_1)
  then show ?thesis by (simp only: unat_low unat_drop_bit_eq) (simp add: drop_bit_eq_div)
qed

lemma canonical_iff: "canonical la \<longleftrightarrow> unat la < 2 ^ 47 \<or> 2 ^ 64 - 2 ^ 47 \<le> unat la"
proof -
  have u: "unat (drop_bit 47 la) = unat la div 2 ^ 47" by (simp only: unat_drop_bit_eq) (simp add: drop_bit_eq_div)
  have m: "unat (mask 17 :: u64) = 131071" by (simp add: mask_eq_exp_minus_1)
  have "unat la < 2 ^ 64" by (rule unat_lt64)
  then show ?thesis unfolding canonical_def Let_def by (simp only: word_unat_eq_iff u m) auto
qed

section \<open>The translation\<close>

text \<open>The tables one after the other: \<open>t\<close> counts the pages from \<^verbatim>\<open>pml4\<close> on.\<close>

definition tables_ok :: "u32 \<Rightarrow> bool" where
  "tables_ok pml4 \<longleftrightarrow> 4096 dvd unat pml4 \<and> unat pml4 + 0x5000 \<le> 2 ^ 32"

lemma table_base: "tables_ok pml4 \<Longrightarrow> t \<le> 4 \<Longrightarrow> (ucast (pml4 + 0x1000 * of_nat t :: u32) :: u64) = ucast pml4 + 0x1000 * of_nat t"
  using table_address [of pml4 "1024 * t"] by (simp add: tables_ok_def)

lemma tables_aligned: "tables_ok pml4 \<Longrightarrow> t \<le> 4 \<Longrightarrow> (pml4 + 0x1000 * of_nat t :: u32) AND mask 12 = 0"
  by (simp add: tables_ok_def table_aligned)

lemma root_frame:
  assumes "tables_ok pml4"
  shows "frame 12 (ucast pml4) = ucast pml4"
proof -
  have "pml4 AND mask 12 = 0" using tables_aligned [OF assms, of 0] by simp
  then have z: "\<not> bit (pml4 AND mask 12) k" for k by simp
  have low: "\<not> bit pml4 k" if "k < 12" for k using z [of k] that by (simp add: bit_simps)
  show ?thesis by (rule bit_word_eqI) (auto simp: frame_def bit_simps dest: bit_imp_le_length low)
qed

lemma next_table:
  assumes "tables_ok pml4" "t \<le> 4" "e = ucast (pml4 + 0x1000 * of_nat t OR PTE_P OR PTE_W)"
  shows "frame 12 e = ucast pml4 + 0x1000 * of_nat t" "bit e 0" "bit e 1" "\<not> bit e 2" "\<not> bit e 7"
  using table_entry [OF tables_aligned [OF assms(1,2)]] table_base [OF assms(1,2)] by (simp_all add: assms(3))

lemma table_read:
  assumes "tables_ok pml4" "t \<le> 4" "unat x < 512"
  shows "load64 (setup_tables pml4 m) (ucast pml4 + 0x1000 * of_nat t + 8 * x) = ucast (boot_words pml4 (2 * (512 * t + unat x)))"
proof -
  have "ucast pml4 + 0x1000 * of_nat t + 8 * x = ucast pml4 + 8 * of_nat (512 * t + unat x)" by (simp add: algebra_simps)
  then show ?thesis using setup_entry [of pml4 "512 * t + unat x" m] assms by (simp only: tables_ok_def)
qed

text \<open>The walk, from the indexes of the address.\<close>

lemma boot_walk:
  assumes ok: "tables_ok pml4" and ix: "unat (PML4 la) = i4" "unat (PDPE la) = i3" "unat (PDX la) = i2"
    and lt: "i4 < 512" "i3 < 512" "i2 < 512"
  shows "walk (setup_tables pml4 m) (ucast pml4) la =
    (if canonical la \<and> i3 = 0 \<and> (i4 = 0 \<and> i2 < 128 \<or> i4 = 1 \<and> 32 \<le> i2 \<and> i2 < 160)
     then Some (of_nat (if i4 = 0 then i2 else i2 - 32) * 0x200000 + (la AND mask 21), True, False) else None)"
proof -
  let ?M = "setup_tables pml4 m" and ?b = "ucast pml4 :: u64"
  define e where "e t = (ucast (pml4 + 0x1000 * of_nat t OR PTE_P OR PTE_W) :: u64)" for t :: nat
  note rd = table_read [OF ok, where m = m] and ev = boot_words_even [of pml4]
  note nt = next_table [OF ok _ e_def]
  have e4: "load64 ?M (frame 12 ?b + 8 * PML4 la) = (if i4 = 0 then e 1 else if i4 = 1 then e 2 else 0)"
    using rd [of 0 "PML4 la"] ix(1) lt(1) ev [of i4] by (simp add: root_frame [OF ok] e_def)
  have e3: "load64 ?M (frame 12 (e t) + 8 * PDPE la) = (if i3 = 0 then e (t + 2) else 0)" if "t = 1 \<or> t = 2" for t
    using rd [of t "PDPE la"] ix(2) lt(2) ev [of "512 * t + i3"] nt(1) [of t] that by (auto simp: e_def)
  define large where "large k = (ucast (0x183 + of_nat k * 0x200000 :: u32) :: u64)" for k :: nat
  have e2: "load64 ?M (frame 12 (e 3) + 8 * PDX la) = (if i2 < 128 then large i2 else 0)"
    using rd [of 3 "PDX la"] ix(3) lt(3) ev [of "512 * 3 + i2"] nt(1) [of 3] by (auto simp: large_def)
  have e2': "load64 ?M (frame 12 (e 4) + 8 * PDX la) = (if 32 \<le> i2 \<and> i2 < 160 then large (i2 - 32) else 0)"
    using rd [of 4 "PDX la"] ix(3) lt(3) ev [of "512 * 4 + i2"] nt(1) [of 4] by (auto simp: large_def)
  have lg: "frame 21 (large k) = of_nat k * 0x200000" "bit (large k) 0" "bit (large k) 1" "\<not> bit (large k) 2" "bit (large k) 7"
    if "k < 128" for k using large_page_entry [OF that] by (simp_all add: large_def)
  consider (low) "i4 = 0" "i3 = 0" "i2 < 128" | (high) "i4 = 1" "i3 = 0" "32 \<le> i2" "i2 < 160"
    | (none) "i4 = 0 \<Longrightarrow> i3 = 0 \<Longrightarrow> \<not> i2 < 128" "i4 = 1 \<Longrightarrow> i3 = 0 \<Longrightarrow> \<not> (32 \<le> i2 \<and> i2 < 160)" by linarith
  then show ?thesis
  proof cases
    case high
    define k where "k = i2 - 32"
    with high e2' have "load64 ?M (frame 12 (e 4) + 8 * PDX la) = large k" "k < 128" by auto
    with high show ?thesis by (simp add: walk_def Let_def e4 e3 nt(2-5) lg page_def k_def [symmetric] del: One_nat_def)
  qed (cases "i4 = 0"; cases "i4 = 1"; cases "i3 = 0"; auto simp add: walk_def Let_def e4 e3 e2 e2' nt(2-5) lg page_def simp del: One_nat_def)+
qed

lemma setup_elsewhere: "tables_ok pml4 \<Longrightarrow> 0x5000 \<le> unat (a - ucast pml4) \<Longrightarrow> setup_tables pml4 m a = m a"
  using setup_words [of pml4 m] by (simp add: tables_def tables_ok_def)

lemma boot_translation:
  assumes "tables_ok pml4"
  shows "walk (setup_tables pml4 m) (ucast pml4) la =
    (if la < 0x10000000 then Some (la, True, False)
     else if la - KERNBASE < 0x10000000 then Some (la - KERNBASE, True, False) else None)"
proof -
  define n where "n = unat la"
  have ix: "unat (PML4 la) = n div 2 ^ 39 mod 512" "unat (PDPE la) = n div 2 ^ 30 mod 512" "unat (PDX la) = n div 2 ^ 21 mod 512"
    by (simp_all only: PML4_def PDPE_def PDX_def shift_defs unat_index n_def)
  have n: "n < 2 ^ 64" unfolding n_def by (rule unat_lt64)
  have lo: "la < 0x10000000 \<longleftrightarrow> n < 0x10000000" by (simp add: word_less_nat_alt n_def)
  have hi: "la - KERNBASE < 0x10000000 \<longleftrightarrow> 0x8004000000 \<le> n \<and> n < 0x8014000000"
    using n unat_sub_if' [of la KERNBASE] by (auto simp: word_less_nat_alt n_def word_le_nat_alt KERNBASE_def split: if_splits)
  have low: "la AND mask 21 = of_nat (n mod 2 ^ 21)" unfolding n_def unat_low [symmetric] by simp
  have pa: "of_nat k * 0x200000 + (la AND mask 21) = x" if "k * 0x200000 + n mod 2 ^ 21 = unat x" for k x
  proof -
    have "of_nat k * 0x200000 + (la AND mask 21) = of_nat (k * 0x200000 + n mod 2 ^ 21)" by (simp add: low)
    then show ?thesis by (simp only: that) simp
  qed
  have kb: "unat (la - KERNBASE) = n - 0x8004000000" if "0x8004000000 \<le> n"
    using that n unat_sub_if' [of la KERNBASE] by (auto simp: n_def word_le_nat_alt KERNBASE_def)
  define q where "q = n div 2 ^ 21"
  define r where "r = n mod 2 ^ 21"
  define c where "c = q div 512 div 512"
  have nq: "n = q * 0x200000 + r" "r < 0x200000" by (simp_all add: q_def r_def)
  have can: "canonical la \<longleftrightarrow> q < 0x4000000 \<or> 0x7FFFC000000 \<le> q"
    using nq by (simp only: canonical_iff n_def [symmetric]) auto
  have cq: "c = q div 262144" and ix': "unat (PML4 la) = c mod 512" "unat (PDPE la) = q div 512 mod 512" "unat (PDX la) = q mod 512"
    by (simp_all only: ix c_def q_def div_mult2_eq [symmetric]) simp_all
  have q: "q = 262144 * c + 512 * (q div 512 mod 512) + q mod 512"
  proof -
    have "q = 512 * (q div 512) + q mod 512" "q div 512 = 512 * c + q div 512 mod 512" by (simp_all add: c_def)
    then show ?thesis by linarith
  qed
  note walk = boot_walk [OF assms ix' mod_less_divisor mod_less_divisor mod_less_divisor, simplified]
  consider (low) "q < 128" | (high) "262176 \<le> q" "q < 262304" | (none) "128 \<le> q" "q < 262176 \<or> 262304 \<le> q" by linarith
  then show ?thesis
  proof cases
    case low
    then have "c = 0" "q div 512 = 0" "q mod 512 = q" "n < 0x10000000" using nq by (simp_all add: cq)
    moreover have "of_nat q * 0x200000 + (la AND mask 21) = la" using nq by (intro pa) (simp add: n_def r_def)
    ultimately show ?thesis using low can lo by (simp add: walk)
  next
    case high
    define k where "k = q - 262144"
    then have k: "q = 512 * 512 + k" "k < 512" using high by simp_all
    then have "q div 512 = 512" by simp
    then have "c = 1" "q div 512 mod 512 = 0" by (simp_all add: c_def)
    moreover have "q mod 512 = k" using k(2) unfolding k(1) by (simp only: mod_mult_self3 mod_less)
    then have "q mod 512 = q - 262144" by (simp add: k_def)
    moreover have "0x8004000000 \<le> n" "n < 0x8014000000" "\<not> n < 0x10000000" using high nq by simp_all
    moreover have "of_nat (q - 262144 - 32) * 0x200000 + (la AND mask 21) = la - KERNBASE"
      using high nq by (intro pa) (simp add: kb r_def [symmetric])
    moreover have "32 \<le> q - 262144" "q - 262144 < 160" using high by linarith+
    ultimately show ?thesis using high can lo hi by (simp add: walk)
  next
    case none
    have "\<not> (canonical la \<and> q div 512 mod 512 = 0 \<and> (c mod 512 = 0 \<and> q mod 512 < 128 \<or> c mod 512 = 1 \<and> 32 \<le> q mod 512 \<and> q mod 512 < 160))"
    proof
      assume h: "canonical la \<and> q div 512 mod 512 = 0 \<and> (c mod 512 = 0 \<and> q mod 512 < 128 \<or> c mod 512 = 1 \<and> 32 \<le> q mod 512 \<and> q mod 512 < 160)"
      have "q < 0x80000000000" using n by (simp add: q_def)
      moreover have "q mod 512 < 512" "q div 512 mod 512 = 0" using h by simp_all
      ultimately have "c < 256 \<or> 33554176 \<le> c \<and> c < 33554432" using h can q by linarith
      moreover have "256 \<le> c mod 512" if "33554176 \<le> c" "c < 33554432"
      proof -
        define j where "j = c - 33553920"
        have "c = j + 65535 * 512" "256 \<le> j" "j < 512" using that by (simp_all add: j_def)
        then show ?thesis by (simp only: mod_mult_self1) simp
      qed
      ultimately have "c mod 512 = c \<or> 256 \<le> c mod 512" by auto
      with h q none show False by linarith
    qed
    moreover have "\<not> n < 0x10000000" "\<not> (0x8004000000 \<le> n \<and> n < 0x8014000000)" using none nq by auto
    ultimately show ?thesis using lo hi by (simp add: walk)
  qed
qed

text \<open>
  C18. The first page tables: whatever was in memory before, the processor translates the first 256 MB to themselves and the 256 MB
  at \<^verbatim>\<open>KERNBASE\<close> to the same physical addresses, writable and for the kernel only, and no other address at all; building the tables
  has changed no byte outside their five pages.
\<close>

theorem boot_mapping:
  assumes "tables_ok pml4"
  shows "walk (setup_tables pml4 m) (ucast pml4) la =
      (if la < 0x10000000 then Some (la, True, False)
       else if la - KERNBASE < 0x10000000 then Some (la - KERNBASE, True, False) else None)
    \<and> (\<forall>a. 0x5000 \<le> unat (a - ucast pml4) \<longrightarrow> setup_tables pml4 m a = m a)"
  using boot_translation [OF assms] setup_elsewhere [OF assms] by blast

theorem boot_mapping_witness:
  "walk (setup_tables 0x105000 (\<lambda>a. 0xFF)) 0x105000 0x80040B8000 = Some (0xB8000, True, False)
   \<and> walk (setup_tables 0x105000 (\<lambda>a. 0xFF)) 0x105000 0x8003C00000 = None"
  using boot_mapping [of "0x105000" "\<lambda>a. 0xFF" "0x80040B8000"]
    boot_mapping [of "0x105000" "\<lambda>a. 0xFF" "0x8003C00000"]
  by (simp add: tables_ok_def KERNBASE_def)

end
