(* ===== verification/Start.thy ===== *)
theory Start
  imports Boot Paging
begin

text \<open>
  From the boot loader to the kernel: \<^verbatim>\<open>kern/bootstrap.S\<close>, which switches the processor to 64 bits, and \<^verbatim>\<open>kern/entry.S\<close>, which
  continues at the kernel's own addresses. A processor is a record of the registers that matter; once paging is on, it reads memory
  through \<open>walk\<close>. The linker's symbols and the processor's answers to \<^verbatim>\<open>cpuid\<close> are arguments. What pushed values leave below the
  stack pointer is not tracked, and instructions are not fetched from memory: the text of the program is the model.
\<close>

section \<open>Control registers\<close>

definition CR0_PE :: u32 where "CR0_PE = 0x00000001"
definition CR0_MP :: u32 where "CR0_MP = 0x00000002"
definition CR0_EM :: u32 where "CR0_EM = 0x00000004"
definition CR0_TS :: u32 where "CR0_TS = 0x00000008"
definition CR0_ET :: u32 where "CR0_ET = 0x00000010"
definition CR0_NE :: u32 where "CR0_NE = 0x00000020"
definition CR0_WP :: u32 where "CR0_WP = 0x00010000"
definition CR0_AM :: u32 where "CR0_AM = 0x00040000"
definition CR0_NW :: u32 where "CR0_NW = 0x20000000"
definition CR0_CD :: u32 where "CR0_CD = 0x40000000"
definition CR0_PG :: u32 where "CR0_PG = 0x80000000"

definition CR4_PAE :: u32 where "CR4_PAE = 0x00000020"
definition EFER_MSR :: u32 where "EFER_MSR = 0xC0000080"
definition EFER_LME :: nat where "EFER_LME = 8"

definition FL_ID :: u32 where "FL_ID = 0x00200000"

definition STA_X :: u32 where "STA_X = 0x8"
definition STA_W :: u32 where "STA_W = 0x2"
definition STA_R :: u32 where "STA_R = 0x2"

section \<open>The processor\<close>

record cpu =
  cr0 :: u64
  cr3 :: u64
  cr4 :: u64
  msr :: "u32 \<Rightarrow> u64"
  gdt_lim :: u16
  gdt_base :: u64
  cs :: u16
  ds :: u16
  rip :: u64
  rsp :: u64
  rbp :: u64

text \<open>Reading through the page tables; a page fault, for which nobody has set up a handler, is an undefined outcome.\<close>

definition vread :: "mem \<Rightarrow> u64 \<Rightarrow> u64 \<Rightarrow> u8 option" where
  "vread m root la = map_option (\<lambda>(pa, w, u). m pa) (walk m root la)"

fun vreads :: "mem \<Rightarrow> u64 \<Rightarrow> u64 \<Rightarrow> nat \<Rightarrow> u8 list cres" where
  "vreads m root la 0 = cret []"
| "vreads m root la (Suc n) =
     (case vread m root la of None \<Rightarrow> cfail Undefined | Some b \<Rightarrow> cbind (vreads m root (la + 1) n) (\<lambda>bs. cret (b # bs)))"

text \<open>A number from its bytes, low byte first.\<close>

fun number :: "u8 list \<Rightarrow> u64" where
  "number [] = 0"
| "number (b # bs) = ucast b OR push_bit 8 (number bs)"

text \<open>\<^verbatim>\<open>lgdt\<close> with a base of \<open>n\<close> bytes: four in 32-bit code, eight in 64-bit code.\<close>

definition lgdt :: "nat \<Rightarrow> u64 \<Rightarrow> cpu \<Rightarrow> mem \<Rightarrow> cpu cres" where
  "lgdt n a c m = cbind (vreads m (cr3 c) a (2 + n)) (\<lambda>bs. cret (c\<lparr>gdt_lim := ucast (number (take 2 bs)), gdt_base := number (drop 2 bs)\<rparr>))"

text \<open>
  Loading a selector reads its descriptor, which must lie within the table's limit and describe a segment of the right kind. \<open>ds\<close> stands
  for the five data segment registers, which are loaded alike.
\<close>

definition descriptor :: "u16 \<Rightarrow> cpu \<Rightarrow> mem \<Rightarrow> u8 list cres" where
  "descriptor sel c m =
     (let off = unat sel div 8 * 8
      in if off + 7 \<le> unat (gdt_lim c) then vreads m (cr3 c) (gdt_base c + of_nat off) 8 else cfail Undefined)"

definition code64 :: "u8 list \<Rightarrow> bool" where
  "code64 d \<longleftrightarrow> bit (d ! 5) 7 \<and> bit (d ! 5) 4 \<and> bit (d ! 5) 3 \<and> bit (d ! 6) 5 \<and> \<not> bit (d ! 6) 6"

definition data_seg :: "u8 list \<Rightarrow> bool" where
  "data_seg d \<longleftrightarrow> bit (d ! 5) 7 \<and> bit (d ! 5) 4 \<and> \<not> bit (d ! 5) 3 \<and> bit (d ! 5) 1"

definition far_jump :: "u16 \<Rightarrow> u64 \<Rightarrow> cpu \<Rightarrow> mem \<Rightarrow> cpu cres" where
  "far_jump sel target c m =
     cbind (descriptor sel c m) (\<lambda>d. if code64 d then cret (c\<lparr>cs := sel, rip := target\<rparr>) else cfail Undefined)"

definition load_ds :: "u16 \<Rightarrow> cpu \<Rightarrow> mem \<Rightarrow> cpu cres" where
  "load_ds sel c m = cbind (descriptor sel c m) (\<lambda>d. if data_seg d then cret (c\<lparr>ds := sel\<rparr>) else cfail Undefined)"

section \<open>The check of the processor\<close>

text \<open>
  The flags as they are, as they read back after \<^verbatim>\<open>popfl\<close>, and the results of \<^verbatim>\<open>cpuid\<close> (\<open>None\<close>: no such instruction). The
  comparison is with \<^verbatim>\<open>ebx\<close>, although the flags were saved in \<^verbatim>\<open>ecx\<close>. A processor found wanting spins for ever.
\<close>

record processor =
  eflags :: u32
  popfl :: "u32 \<Rightarrow> u32"
  cpuid :: "u32 \<Rightarrow> (u32 \<times> u32 \<times> u32 \<times> u32) option"

definition verify_cpu :: "processor \<Rightarrow> u32 \<Rightarrow> unit cres" where
  "verify_cpu W ebx =
     (let eax = popfl W (eflags W XOR 0x200000) in
      if ebx = eax then None
      else case cpuid W 0 of None \<Rightarrow> cfail Undefined
      | Some (eax, b, c, d) \<Rightarrow>
          if eax < 1 then None
          else case cpuid W 0x80000001 of None \<Rightarrow> cfail Undefined
          | Some (a, b, c, edx) \<Rightarrow> if edx AND push_bit 29 1 = 0 then None else cret ())"

section \<open>bootstrap.S\<close>

record start_syms =
  pml4phys :: u32
  multiboot_info :: u32
  gdt_64 :: u32
  gdtdesc_64 :: u32
  start_sym :: u32
  kernel_64 :: u64
  kgdtdesc_64 :: u64
  relocated :: u64
  bootstacktop :: u64
  i386_init_sym :: u64

definition head64 :: "start_syms \<Rightarrow> processor \<Rightarrow> u32 \<Rightarrow> cpu \<Rightarrow> mem \<Rightarrow> (cpu \<times> mem) cres" where
  "head64 S W ebx c m =
     (let m = store32 m (ucast (multiboot_info S)) ebx;
          m = store16 m 0x472 0x1234;
          c = c\<lparr>rsp := 0x7c00\<rparr> in
      cbind (verify_cpu W ebx) (\<lambda>_.
      let c = c\<lparr>cr4 := ucast CR4_PAE\<rparr>;
          m = setup_tables (pml4phys S) m;
          c = c\<lparr>cr3 := ucast (pml4phys S)\<rparr>;
          c = c\<lparr>msr := (msr c)(EFER_MSR := set_bit EFER_LME (msr c EFER_MSR))\<rparr>;
          c = c\<lparr>cr0 := ucast ((ucast (cr0 c) :: u32) OR CR0_PE OR CR0_PG OR CR0_AM OR CR0_WP OR CR0_MP)\<rparr> in
      cbind (lgdt 4 (ucast (gdtdesc_64 S)) c m) (\<lambda>c.
      cbind (far_jump 0x8 (ucast (start_sym S)) c m) (\<lambda>c. cret (c, m)))))"

text \<open>Its data: the descriptor table, and what \<^verbatim>\<open>lgdt\<close> reads.\<close>

definition quad_bytes :: "u64 \<Rightarrow> u8 list" where
  "quad_bytes q = map (\<lambda>i. ucast (drop_bit (8 * i) q)) [0..<8]"

definition gdt_64_bytes :: "u8 list" where
  "gdt_64_bytes = seg_null_asm @ quad_bytes 0x00af9a000000ffff @ quad_bytes 0x00cf92000000ffff"

definition gdtdesc_64_bytes :: "start_syms \<Rightarrow> u8 list" where
  "gdtdesc_64_bytes S = word_bytes 0x17 @ quad_bytes (ucast (gdt_64 S))"

section \<open>entry.S\<close>

definition CODE_SEL :: u16 where "CODE_SEL = 0x8"
definition DATA_SEL :: u16 where "DATA_SEL = 0x10"

definition entry_S :: "start_syms \<Rightarrow> cpu \<Rightarrow> mem \<Rightarrow> cpu cres" where
  "entry_S S c m =
     cbind (lgdt 8 (kgdtdesc_64 S) c m) (\<lambda>c.
     cbind (load_ds DATA_SEL c m) (\<lambda>c.
     cbind (far_jump CODE_SEL (relocated S) c m) (\<lambda>c.
     cret (c\<lparr>rbp := 0, rsp := bootstacktop S, rip := i386_init_sym S\<rparr>))))"

definition kernel_64_bytes :: "u8 list" where
  "kernel_64_bytes =
     seg_null_asm @ seg64_asm (STA_X OR STA_R) 0 0xffffffff @ seg64_asm (STA_R OR STA_W) 0 0xffffffff
     @ seg64user_asm (STA_X OR STA_R) 0 0xffffffff @ seg64user_asm (STA_R OR STA_W) 0 0xffffffff
     @ quad_bytes 0x0080890000000000 @ quad_bytes 0x0000000000000000"

definition kgdtdesc_64_bytes :: "start_syms \<Rightarrow> u8 list" where
  "kgdtdesc_64_bytes S = word_bytes 0x37 @ quad_bytes (kernel_64 S)"

definition start_kernel :: "start_syms \<Rightarrow> processor \<Rightarrow> u32 \<Rightarrow> cpu \<Rightarrow> mem \<Rightarrow> (cpu \<times> mem) cres" where
  "start_kernel S W ebx c m = cbind (head64 S W ebx c m) (\<lambda>(c, m). cbind (entry_S S c m) (\<lambda>c. cret (c, m)))"

section \<open>Reading through the first tables\<close>

text \<open>Physical addresses that building the tables and the words stored before them leave alone.\<close>

definition untouched :: "start_syms \<Rightarrow> u64 \<Rightarrow> bool" where
  "untouched S a \<longleftrightarrow> 0x5000 \<le> unat (a - ucast (pml4phys S)) \<and> 4 \<le> unat (a - ucast (multiboot_info S)) \<and> a \<noteq> 0x472 \<and> a \<noteq> 0x473"

text \<open>Bytes at a physical address of the first 256 MB.\<close>

definition data_at :: "start_syms \<Rightarrow> mem \<Rightarrow> u64 \<Rightarrow> u8 list \<Rightarrow> bool" where
  "data_at S m a xs \<longleftrightarrow> unat a + length xs \<le> 0x10000000
     \<and> (\<forall>i < length xs. untouched S (a + of_nat i) \<and> m (a + of_nat i) = xs ! i)"

definition booted :: "start_syms \<Rightarrow> u32 \<Rightarrow> mem \<Rightarrow> mem" where
  "booted S ebx m = setup_tables (pml4phys S) (store16 (store32 m (ucast (multiboot_info S)) ebx) 0x472 0x1234)"

lemma booted_untouched: "tables_ok (pml4phys S) \<Longrightarrow> untouched S a \<Longrightarrow> booted S ebx m a = m a"
  using setup_elsewhere by (simp add: booted_def untouched_def store32_frame store16_def)

lemma booted_walk: "tables_ok (pml4phys S) \<Longrightarrow> walk (booted S ebx m) (ucast (pml4phys S)) la =
    (if la < 0x10000000 then Some (la, True, False)
     else if la - KERNBASE < 0x10000000 then Some (la - KERNBASE, True, False) else None)"
  by (simp only: booted_def boot_translation)

text \<open>The two virtual addresses of a physical address.\<close>

definition maps_to :: "u64 \<Rightarrow> u64 \<Rightarrow> bool" where
  "maps_to la a \<longleftrightarrow> la = a \<or> la = KERNBASE + a"

lemma booted_vread:
  assumes "tables_ok (pml4phys S)" "maps_to la a" "unat a < 0x10000000"
  shows "vread (booted S ebx m) (ucast (pml4phys S)) la = Some (booted S ebx m a)"
proof -
  have a: "a < 0x10000000" using assms(3) by (simp add: word_less_nat_alt)
  moreover have "\<not> KERNBASE + a < 0x10000000"
  proof -
    have "unat (KERNBASE + a) = 0x8004000000 + unat a" using assms(3) unat_plus_if' [of KERNBASE a] by (simp add: KERNBASE_def)
    then show ?thesis by (simp add: word_less_nat_alt)
  qed
  ultimately show ?thesis using assms(1,2) by (auto simp: vread_def booted_walk maps_to_def)
qed

lemma vreads_ok: "(\<And>i. i < length xs \<Longrightarrow> vread m root (la + of_nat i) = Some (xs ! i)) \<Longrightarrow> vreads m root la (length xs) = cret xs"
proof (induction xs arbitrary: la)
  case (Cons x xs)
  have "vread m root (la + 1 + of_nat i) = Some (xs ! i)" if "i < length xs" for i
    using Cons.prems [of "Suc i"] that by (simp add: add.assoc)
  then show ?case using Cons.IH [of "la + 1"] Cons.prems [of 0] by simp
qed simp

lemma data_read:
  assumes "tables_ok (pml4phys S)" "data_at S m a xs" "maps_to la a" "off + n \<le> length xs"
  shows "vreads (booted S ebx m) (ucast (pml4phys S)) (la + of_nat off) n = cret (take n (drop off xs))"
proof -
  let ?ys = "take n (drop off xs)"
  have "vread (booted S ebx m) (ucast (pml4phys S)) (la + of_nat off + of_nat i) = Some (?ys ! i)" if i: "i < length ?ys" for i
  proof -
    have j: "off + i < length xs" using i by (simp add: less_diff_conv2) linarith
    have m: "maps_to (la + of_nat (off + i)) (a + of_nat (off + i))" using assms(3) by (auto simp: maps_to_def add.assoc)
    have "unat (a + of_nat (off + i)) = unat a + (off + i)"
      using assms(2) j by (intro unat_add_less) (simp add: data_at_def)
    then have "unat (a + of_nat (off + i)) < 0x10000000" using assms(2) j by (simp add: data_at_def)
    note v = booted_vread [OF assms(1) m this, of ebx m]
    have "untouched S (a + of_nat (off + i)) \<and> m (a + of_nat (off + i)) = xs ! (off + i)"
      using assms(2) j unfolding data_at_def by blast
    with v booted_untouched [OF assms(1)] i j show ?thesis by (simp add: add.assoc)
  qed
  from vreads_ok [of ?ys, OF this] assms(4) show ?thesis by simp
qed

text \<open>Numbers in memory.\<close>

lemma bit_number: "bit (number (b # bs)) n \<longleftrightarrow> n < 64 \<and> (if n < 8 then bit b n else bit (number bs) (n - 8))"
  by (auto simp: bit_simps dest: bit_imp_le_length)

lemma number_quad: "number (quad_bytes q) = q"
proof (rule bit_word_eqI)
  fix n assume n: "n < LENGTH(64)"
  consider "n < 8" | "8 \<le> n" "n < 16" | "16 \<le> n" "n < 24" | "24 \<le> n" "n < 32" | "32 \<le> n" "n < 40" | "40 \<le> n" "n < 48"
    | "48 \<le> n" "n < 56" | "56 \<le> n" using n by linarith
  then show "bit (number (quad_bytes q)) n = bit q n"
    using n by cases (auto simp: quad_bytes_def upt_rec bit_number bit_simps simp del: number.simps)
qed

lemma number_low: "number (take 4 (quad_bytes (ucast (g :: u32)))) = ucast g"
proof (rule bit_word_eqI)
  fix n assume n: "n < LENGTH(64)"
  consider "n < 8" | "8 \<le> n" "n < 16" | "16 \<le> n" "n < 24" | "24 \<le> n" "n < 32" | "32 \<le> n" by linarith
  then show "bit (number (take 4 (quad_bytes (ucast g)))) n = bit (ucast g :: u64) n"
    using n by cases (auto simp: quad_bytes_def upt_rec bit_number bit_simps simp del: number.simps(2) dest: bit_imp_le_length)
qed

section \<open>From the boot loader to the kernel\<close>

text \<open>What the kernel file brings along: the two descriptor tables and the operands of the two \<^verbatim>\<open>lgdt\<close>.\<close>

definition boot_data :: "start_syms \<Rightarrow> mem \<Rightarrow> bool" where
  "boot_data S m \<longleftrightarrow> data_at S m (ucast (gdtdesc_64 S)) (gdtdesc_64_bytes S) \<and> data_at S m (ucast (gdt_64 S)) gdt_64_bytes
     \<and> data_at S m (kgdtdesc_64 S - KERNBASE) (kgdtdesc_64_bytes S) \<and> data_at S m (kernel_64 S - KERNBASE) kernel_64_bytes"

definition long_mode_cpu :: "processor \<Rightarrow> u32 \<Rightarrow> bool" where
  "long_mode_cpu W ebx \<longleftrightarrow> popfl W (eflags W XOR 0x200000) \<noteq> ebx
     \<and> (\<exists>a b c d. cpuid W 0 = Some (a, b, c, d) \<and> 1 \<le> a) \<and> (\<exists>a b c d. cpuid W 0x80000001 = Some (a, b, c, d) \<and> bit d 29)"

lemma verify_cpu_ok: "long_mode_cpu W ebx \<Longrightarrow> verify_cpu W ebx = cret ()"
proof -
  have "d AND push_bit 29 1 \<noteq> 0" if "bit d 29" for d :: u32
    using that and_exp_eq_0_iff_not_bit [of d 29] by (simp add: push_bit_eq_mult)
  then show "long_mode_cpu W ebx \<Longrightarrow> verify_cpu W ebx = cret ()"
    by (auto simp: long_mode_cpu_def verify_cpu_def Let_def not_less)
qed

text \<open>
  On a processor that cannot toggle the flag the check does not spin but goes on to \<^verbatim>\<open>cpuid\<close>, an invalid instruction there, unless the
  flags happen to be the value of \<^verbatim>\<open>ebx\<close>.
\<close>

lemma verify_cpu_without_cpuid:
  "(\<And>x. popfl W x = eflags W) \<Longrightarrow> (\<And>x. cpuid W x = None) \<Longrightarrow> ebx \<noteq> eflags W \<Longrightarrow> verify_cpu W ebx = cfail Undefined"
  by (simp add: verify_cpu_def)

lemmas gdt_bytes_simps = gdt_64_bytes_def kernel_64_bytes_def gdtdesc_64_bytes_def kgdtdesc_64_bytes_def seg_null_asm_def
  seg64_asm_def seg64user_asm_def word_bytes_def STA_X_def STA_R_def STA_W_def

lemma length_quad [simp]: "length (quad_bytes q) = 8"
  by (simp add: quad_bytes_def)

lemma quad_values:
  "quad_bytes 0x00af9a000000ffff = [0xff, 0xff, 0, 0, 0, 0x9a, 0xaf, 0]" "quad_bytes 0x00cf92000000ffff = [0xff, 0xff, 0, 0, 0, 0x92, 0xcf, 0]"
  by (simp_all add: quad_bytes_def upt_rec)

lemma lgdt_read:
  assumes "tables_ok (pml4phys S)" "cr3 c = ucast (pml4phys S)" "data_at S m a (word_bytes w @ quad_bytes q)" "maps_to la a"
    "n \<le> 8" "number (take n (quad_bytes q)) = base" "w < 0x10000"
  shows "lgdt n la c (booted S ebx m) = cret (c\<lparr>gdt_lim := ucast w, gdt_base := base\<rparr>)"
proof -
  have "number (word_bytes w) = ucast w"
  proof (rule bit_word_eqI)
    fix k assume k: "k < LENGTH(64)"
    have "k < 16" if "bit w k"
    proof -
      have "w AND mask 16 = w" using assms(7) by (intro less_mask_eq) simp
      with that show ?thesis by (metis bit_and_iff bit_mask_iff)
    qed
    then show "bit (number (word_bytes w)) k = bit (ucast w :: u64) k"
      using k by (auto simp: word_bytes_def bit_number bit_simps simp del: number.simps(2) dest: bit_imp_le_length)
  qed
  moreover have "vreads (booted S ebx m) (cr3 c) la (2 + n) = cret (word_bytes w @ take n (quad_bytes q))"
    using data_read [OF assms(1,3,4), of 0 "2 + n"] assms(2,5) by (simp add: word_bytes_def)
  moreover have "(ucast (ucast w :: u64) :: u16) = ucast w" by (rule bit_word_eqI) (simp add: bit_simps)
  ultimately show ?thesis using assms(6) by (simp add: lgdt_def word_bytes_def)
qed

lemma descriptor_read:
  assumes "tables_ok (pml4phys S)" "cr3 c = ucast (pml4phys S)" "data_at S m a xs" "maps_to (gdt_base c) a"
    "k = unat sel div 8 * 8" "k + 7 \<le> unat (gdt_lim c)" "k + 8 \<le> length xs"
  shows "descriptor sel c (booted S ebx m) = cret (take 8 (drop k xs))"
  using data_read [OF assms(1,3,4,7)] assms(2,5,6) by (simp add: descriptor_def Let_def)

lemma head64_boots:
  assumes "tables_ok (pml4phys S)" "long_mode_cpu W ebx" "boot_data S m"
  shows "\<exists>c'. head64 S W ebx c m = cret (c', booted S ebx m) \<and> cr3 c' = ucast (pml4phys S) \<and> rip c' = ucast (start_sym S)
    \<and> cr4 c' = 0x20 \<and> bit (msr c' EFER_MSR) 8 \<and> list_all (bit (cr0 c')) [0, 1, 16, 18, 31]"
proof -
  let ?M = "booted S ebx m"
  have g: "data_at S m (ucast (gdtdesc_64 S)) (word_bytes 0x17 @ quad_bytes (ucast (gdt_64 S)))"
      "data_at S m (ucast (gdt_64 S)) gdt_64_bytes" using assms(3) by (simp_all add: boot_data_def gdtdesc_64_bytes_def)
  have l: "lgdt 4 (ucast (gdtdesc_64 S)) c ?M = cret (c\<lparr>gdt_lim := 0x17, gdt_base := ucast (gdt_64 S)\<rparr>)"
    if "cr3 c = ucast (pml4phys S)" for c
    using lgdt_read [OF assms(1) that g(1), of _ 4 "ucast (gdt_64 S)"] by (simp add: maps_to_def number_low)
  have d: "descriptor 8 c ?M = cret (take 8 (drop 8 gdt_64_bytes))"
    if "cr3 c = ucast (pml4phys S)" "gdt_base c = ucast (gdt_64 S)" "gdt_lim c = 0x17" for c
    by (rule descriptor_read [OF assms(1) that(1) g(2)]) (simp_all add: that maps_to_def gdt_64_bytes_def seg_null_asm_def word_bytes_def)
  have "code64 (take 8 (drop 8 gdt_64_bytes))"
    by (simp add: code64_def gdt_bytes_simps quad_values)
  moreover have "ucast CR4_PAE = (0x20 :: u64)" "bit (set_bit EFER_LME (msr c EFER_MSR)) 8"
    by (simp_all add: CR4_PAE_def EFER_LME_def bit_set_bit_iff)
  moreover have "list_all (bit (ucast ((ucast (cr0 c) :: u32) OR CR0_PE OR CR0_PG OR CR0_AM OR CR0_WP OR CR0_MP) :: u64)) [0, 1, 16, 18, 31]"
    by (simp add: bit_simps CR0_PE_def CR0_PG_def CR0_AM_def CR0_WP_def CR0_MP_def)
  ultimately show ?thesis
    by (simp add: head64_def Let_def verify_cpu_ok [OF assms(2)] far_jump_def l d flip: booted_def)
qed

lemma entry_reaches:
  assumes "tables_ok (pml4phys S)" "boot_data S m" "cr3 c = ucast (pml4phys S)"
  shows "entry_S S c (booted S ebx m) = cret (c\<lparr>gdt_lim := 0x37, gdt_base := kernel_64 S, ds := 0x10, cs := 0x8,
    rbp := 0, rsp := bootstacktop S, rip := i386_init_sym S\<rparr>)"
proof -
  let ?M = "booted S ebx m"
  have g: "data_at S m (kgdtdesc_64 S - KERNBASE) (word_bytes 0x37 @ quad_bytes (kernel_64 S))"
      "data_at S m (kernel_64 S - KERNBASE) kernel_64_bytes" using assms(2) by (simp_all add: boot_data_def kgdtdesc_64_bytes_def)
  have l: "lgdt 8 (kgdtdesc_64 S) c ?M = cret (c\<lparr>gdt_lim := 0x37, gdt_base := kernel_64 S\<rparr>)"
    using lgdt_read [OF assms(1,3) g(1), of _ 8 "kernel_64 S"] by (simp add: maps_to_def number_quad)
  have d: "descriptor sel c ?M = cret (take 8 (drop k kernel_64_bytes))"
    if "cr3 c = ucast (pml4phys S)" "gdt_base c = kernel_64 S" "gdt_lim c = 0x37" "k = unat sel div 8 * 8" "k \<le> 48" for c sel k
    by (rule descriptor_read [OF assms(1) that(1) g(2) _ that(4)])
      (use that(5) in \<open>simp_all add: that(2,3) maps_to_def gdt_bytes_simps\<close>)
  have "code64 (take 8 (drop 8 kernel_64_bytes))" "data_seg (take 8 (drop 16 kernel_64_bytes))"
    by (simp_all add: code64_def data_seg_def gdt_bytes_simps)
  then show ?thesis
    using assms(3) by (simp add: entry_S_def l far_jump_def load_ds_def d [of _ 8] d [of _ 16] CODE_SEL_def DATA_SEL_def)
qed

text \<open>
  C7. From power-on code to C: on a disk with a well-formed kernel file that brings along its descriptor tables, and a processor that
  passes the check, \<^verbatim>\<open>bootmain\<close> loads the file and jumps to its entry point, and the code from there switches the processor to
  paging and 64-bit mode and reaches \<^verbatim>\<open>i386_init\<close> with the kernel's own descriptor table, its stack and a frame pointer of 0, which ends
  every backtrace. The kernel then reads at \<^verbatim>\<open>KERNBASE\<close> plus its physical address every byte of the file below 256 MB, but for
  those the page tables and the two saved words overwrite.
\<close>

theorem boot_to_kernel:
  assumes "ide_disk D img view" and "e = elf_at (file_mem img) 0" and "e_magic e = ELF_MAGIC"
    and "unat (e_phoff e) + 56 * unat (e_phnum e) \<le> 4096"
    and "ps = map (\<lambda>i. proghdr_at (file_mem img) (e_phoff e + of_nat (56 * i))) [0..<unat (e_phnum e)]"
    and "\<forall>p \<in> set ps. seg_ok p" and "sorted_wrt (\<lambda>p q. seg_span p \<inter> seg_span q = {}) ps"
    and "tables_ok (pml4phys S)" and "long_mode_cpu W ebx"
    and "\<And>m. \<forall>p \<in> set ps. \<forall>k < unat (p_memsz p). m (p_pa p + of_nat k) = img (512 + unat (p_offset p) + k) \<Longrightarrow> boot_data S m"
  shows "\<exists>m1 d1 c' m2. bootmain D (m, d) = Some (Enter (ucast (e_entry e)), m1, d1) \<and> start_kernel S W ebx c m1 = cret (c', m2)
     \<and> rip c' = i386_init_sym S \<and> rsp c' = bootstacktop S \<and> rbp c' = 0 \<and> cs c' = 8 \<and> ds c' = 0x10 \<and> gdt_base c' = kernel_64 S
     \<and> bit (msr c' EFER_MSR) EFER_LME \<and> cr4 c' = 0x20 \<and> list_all (bit (cr0 c')) [0, 1, 16, 18, 31]
     \<and> (\<forall>p \<in> set ps. \<forall>k < unat (p_memsz p). let a = p_pa p + of_nat k in unat a < 0x10000000 \<and> untouched S a
         \<longrightarrow> vread m2 (cr3 c') (KERNBASE + a) = Some (img (512 + unat (p_offset p) + k)))"
proof -
  obtain m1 d1 where b: "bootmain D (m, d) = Some (Enter (ucast (e_entry e)), m1, d1)"
    "\<forall>p \<in> set ps. \<forall>k < unat (p_memsz p). m1 (p_pa p + of_nat k) = img (512 + unat (p_offset p) + k)"
    using bootmain_segments [OF assms(1-7)] by blast
  note data = assms(10) [OF b(2)]
  obtain c1 where h: "head64 S W ebx c m1 = cret (c1, booted S ebx m1)" "cr3 c1 = ucast (pml4phys S)"
    "cr4 c1 = 0x20" "bit (msr c1 EFER_MSR) 8" "list_all (bit (cr0 c1)) [0, 1, 16, 18, 31]"
    using head64_boots [OF assms(8,9) data] by blast
  note n = entry_reaches [OF assms(8) data h(2), of ebx]
  have "vread (booted S ebx m1) (ucast (pml4phys S)) (KERNBASE + a) = Some (m1 a)" if "unat a < 0x10000000" "untouched S a" for a
    using booted_vread [OF assms(8) _ that(1), of "KERNBASE + a"] booted_untouched [OF assms(8) that(2)] by (simp add: maps_to_def)
  with b h n show ?thesis by (simp add: start_kernel_def EFER_LME_def Let_def)
qed

section \<open>The property on an example\<close>

text \<open>A kernel file whose only segment, 100 bytes for physical address 1 MB, holds the tables and the operands of \<^verbatim>\<open>lgdt\<close>.\<close>

definition demo_syms :: start_syms where
  "demo_syms = \<lparr>pml4phys = 0x105000, multiboot_info = 0x10A000, gdt_64 = 0x100000, gdtdesc_64 = 0x100018, start_sym = 0x200000,
     kernel_64 = KERNBASE + 0x100022, kgdtdesc_64 = KERNBASE + 0x10005A, relocated = KERNBASE + 0x200040,
     bootstacktop = KERNBASE + 0x210000, i386_init_sym = KERNBASE + 0x200100\<rparr>"

definition demo_processor :: processor where
  "demo_processor = \<lparr>eflags = 2, popfl = (\<lambda>x. x), cpuid = (\<lambda>x. Some (0x80000008, 0, 0, push_bit 29 1))\<rparr>"

definition demo_data :: "u8 list" where
  "demo_data = gdt_64_bytes @ gdtdesc_64_bytes demo_syms @ kernel_64_bytes @ kgdtdesc_64_bytes demo_syms"

definition demo_start_kernel :: mem where
  "demo_start_kernel = (\<lambda>_. 0)(0 := 0x7F, 1 := 0x45, 2 := 0x4C, 3 := 0x46, 26 := 0x10, 32 := 64, 56 := 1,
     73 := 0x04, 90 := 0x10, 104 := 100)"

definition demo_start_img :: "nat \<Rightarrow> u8" where
  "demo_start_img i = (if 1536 \<le> i \<and> i < 1636 then demo_data ! (i - 1536) else demo_start_kernel (of_nat i - 512))"

definition demo_cpu :: cpu where
  "demo_cpu = \<lparr>cr0 = 0x11, cr3 = 0, cr4 = 0, msr = (\<lambda>_. 0), gdt_lim = 0x17, gdt_base = 0x7c60, cs = 8, ds = 16, rip = 0x100000,
     rsp = 0x7bfc, rbp = 0x7bf8\<rparr>"

lemma length_demo_data:
  "length gdt_64_bytes = 24" "length (gdtdesc_64_bytes S) = 10" "length kernel_64_bytes = 56" "length (kgdtdesc_64_bytes S) = 10"
  by (simp_all add: gdt_bytes_simps)

lemma demo_untouched: "n < 0x1000 \<Longrightarrow> untouched demo_syms (0x100000 + of_nat n)"
proof -
  assume n: "n < 0x1000"
  then have u: "unat (0x100000 + of_nat n :: u64) = 0x100000 + n"
    using unat_small64 [of n] unat_add_less [of "0x100000 :: u64" n] by simp
  have "unat (0x100000 + of_nat n - 0x105000 :: u64) = 2 ^ 64 + 0x100000 + n - 0x105000"
    using n u unat_sub_if' [of "0x100000 + of_nat n :: u64" "0x105000"] by simp
  moreover have "unat (0x100000 + of_nat n - 0x10A000 :: u64) = 2 ^ 64 + 0x100000 + n - 0x10A000"
    using n u unat_sub_if' [of "0x100000 + of_nat n :: u64" "0x10A000"] by simp
  moreover have "0x100000 + of_nat n \<noteq> (0x472 :: u64)" "0x100000 + of_nat n \<noteq> (0x473 :: u64)"
    using u by (auto simp: word_unat_eq_iff)
  ultimately show ?thesis using n by (simp add: untouched_def demo_syms_def)
qed

lemma demo_data_at:
  assumes "\<forall>k < 100. m (0x100000 + of_nat k) = demo_data ! k" "off + length xs \<le> 100" "take (length xs) (drop off demo_data) = xs"
    "a = 0x100000 + of_nat off"
  shows "data_at demo_syms m a xs"
proof -
  have "untouched demo_syms (a + of_nat i) \<and> m (a + of_nat i) = xs ! i" if i: "i < length xs" for i
  proof -
    have e: "a + of_nat i = 0x100000 + of_nat (off + i)" by (simp add: assms(4))
    have x: "xs ! i = demo_data ! (off + i)"
    proof -
      have "off \<le> length demo_data" using assms(2) by (simp add: demo_data_def length_demo_data)
      then have "take (length xs) (drop off demo_data) ! i = demo_data ! (off + i)" using i by simp
      then show ?thesis by (simp add: assms(3))
    qed
    have "off + i < 100" using i assms(2) by simp
    with assms(1) have "m (0x100000 + of_nat (off + i)) = demo_data ! (off + i)" "untouched demo_syms (0x100000 + of_nat (off + i))"
      using demo_untouched [of "off + i"] by (blast, linarith)
    then show ?thesis by (simp only: e x)
  qed
  moreover have "unat a = 0x100000 + off"
    using assms(2,4) unat_add_less [of "0x100000 :: u64" off] by simp
  ultimately show ?thesis using assms(2) by (simp add: data_at_def)
qed

lemma demo_boot_data: "\<forall>k < 100. m (0x100000 + of_nat k) = demo_data ! k \<Longrightarrow> boot_data demo_syms m"
proof -
  assume m: "\<forall>k < 100. m (0x100000 + of_nat k) = demo_data ! k"
  note at = demo_data_at [OF m]
  show ?thesis
    unfolding boot_data_def
    by (intro conjI at [where off = 24] at [where off = 0] at [where off = 90] at [where off = 34])
      (simp_all add: demo_data_def length_demo_data, simp_all add: demo_syms_def)
qed

theorem boot_to_kernel_witness:
  "\<exists>m1 d1 c' m2. bootmain (demo_ide demo_start_img) (\<lambda>_. 0, ata0) = Some (Enter 0x100000, m1, d1)
     \<and> start_kernel demo_syms demo_processor 0x7000 demo_cpu m1 = cret (c', m2) \<and> rip c' = 0x8004200100 \<and> rbp c' = 0
     \<and> vread m2 (cr3 c') 0x800410002A = Some 0xff"
proof -
  let ?f = "file_mem demo_start_img"
  have f: "?f a = demo_start_kernel a" if "unat a < 1024" for a using that by (simp add: file_mem_def demo_start_img_def)
  define e where "e = elf_at ?f 0"
  have e: "e_magic e = ELF_MAGIC" "e_phoff e = 64" "e_phnum e = 1" "e_entry e = 0x100000"
    unfolding e_def by (simp_all add: elf_at_def load16_def load32_def load64_def f) (simp_all add: demo_start_kernel_def ELF_MAGIC_def)
  let ?p = "\<lparr>p_offset = 1024, p_pa = 0x100000, p_memsz = 100\<rparr>"
  have ps: "[?p] = map (\<lambda>i. proghdr_at ?f (e_phoff e + of_nat (56 * i))) [0..<unat (e_phnum e)]"
    by (simp add: e proghdr_at_def load32_def load64_def f) (simp add: demo_start_kernel_def)
  have ok: "\<forall>p \<in> set [?p]. seg_ok p" "sorted_wrt (\<lambda>p q. seg_span p \<inter> seg_span q = {}) [?p]"
    by (auto simp: seg_ok_def seg_span_def span_start_def span_sectors_def)
  have t: "tables_ok (pml4phys demo_syms)" by (simp add: tables_ok_def demo_syms_def)
  have w: "long_mode_cpu demo_processor 0x7000" by (simp add: long_mode_cpu_def demo_processor_def bit_simps)
  have data: "boot_data demo_syms m"
    if "\<forall>p \<in> set [?p]. \<forall>k < unat (p_memsz p). m (p_pa p + of_nat k) = demo_start_img (512 + unat (p_offset p) + k)" for m
    using that by (intro demo_boot_data) (simp add: demo_start_img_def)
  have byte: "demo_start_img 1578 = 0xff" by (simp add: demo_start_img_def demo_data_def gdt_bytes_simps nth_append quad_bytes_def)
  obtain m1 d1 c' m2 where r: "bootmain (demo_ide demo_start_img) (\<lambda>_. 0, ata0) = Some (Enter (ucast (e_entry e)), m1, d1)"
      "start_kernel demo_syms demo_processor 0x7000 demo_cpu m1 = cret (c', m2)" "rip c' = i386_init_sym demo_syms" "rbp c' = 0"
      "\<forall>p \<in> set [?p]. \<forall>k < unat (p_memsz p). let a = p_pa p + of_nat k in unat a < 0x10000000 \<and> untouched demo_syms a
         \<longrightarrow> vread m2 (cr3 c') (KERNBASE + a) = Some (demo_start_img (512 + unat (p_offset p) + k))"
    using boot_to_kernel [OF demo_ide_disk e_def e(1) _ ps ok t w data, of "\<lambda>_. 0" ata0 demo_cpu] e(2,3) by auto
  from r(5) have "unat (0x10002A :: u64) < 0x10000000 \<and> untouched demo_syms 0x10002A \<longrightarrow> vread m2 (cr3 c') (KERNBASE + 0x10002A) = Some (demo_start_img 1578)"
    by (simp add: Let_def) (drule spec [of _ 42], simp)
  moreover have "untouched demo_syms 0x10002A" using demo_untouched [of 42] by simp
  ultimately have "vread m2 (cr3 c') 0x800410002A = Some 0xff" by (simp add: byte KERNBASE_def)
  with r(1-4) show ?thesis by (simp add: e demo_syms_def KERNBASE_def)
qed

end
