(* ===== verification/Memlayout.thy ===== *)
theory Memlayout
  imports Kdebug Start
begin

text \<open>
  The constants of \<^verbatim>\<open>inc/memlayout.h\<close> and the remaining ones of \<^verbatim>\<open>inc/mmu.h\<close>: the memory map against the first page tables, the
  selectors against the kernel's descriptor table, and the structures the processor reads or writes as a whole.
\<close>

section \<open>The memory map\<close>

definition IOPHYSMEM :: u64 where "IOPHYSMEM = 0x0A0000"
definition EXTPHYSMEM :: u64 where "EXTPHYSMEM = 0x100000"
definition KSTACKTOP :: u64 where "KSTACKTOP = KERNBASE"
definition KSTKSIZE :: u64 where "KSTKSIZE = 16 * of_nat PGSIZE"
definition KSTKGAP :: u64 where "KSTKGAP = 8 * of_nat PGSIZE"
definition MMIOLIM :: u64 where "MMIOLIM = KSTACKTOP - of_nat PTSIZE"
definition MMIOBASE :: u64 where "MMIOBASE = MMIOLIM - of_nat PTSIZE"
definition UVPT :: u64 where "UVPT = 0x10000000000"
definition UPAGES :: u64 where "UPAGES = ULIM - 25 * of_nat PTSIZE"
definition UENVS :: u64 where "UENVS = UPAGES - of_nat PTSIZE"
definition UTOP :: u64 where "UTOP = UENVS"
definition UXSTACKTOP :: u64 where "UXSTACKTOP = 0xef800000"
definition USTACKTOP :: u64 where "USTACKTOP = UXSTACKTOP - 2 * of_nat PGSIZE"
definition UTEXT :: u64 where "UTEXT = 4 * of_nat PTSIZE"
definition UTEMP :: u64 where "UTEMP = 2 * of_nat PTSIZE"
definition PFTEMP :: u64 where "PFTEMP = UTEMP + of_nat PTSIZE - of_nat PGSIZE"

lemmas memlayout_defs = KERNBASE_def ULIM_def USTABDATA_def IOPHYSMEM_def EXTPHYSMEM_def KSTACKTOP_def KSTKSIZE_def KSTKGAP_def
  MMIOLIM_def MMIOBASE_def UVPT_def UPAGES_def UENVS_def UTOP_def UXSTACKTOP_def USTACKTOP_def UTEXT_def UTEMP_def PFTEMP_def
  PTSIZE_def PGSIZE_def NPTENTRIES_def

text \<open>The boundaries of the map from the bottom to the top.\<close>

definition map_bounds :: "u64 list" where
  "map_bounds = [0, USTABDATA, UTEMP, PFTEMP, UTEXT, USTACKTOP, UXSTACKTOP, UTOP, UPAGES, ULIM, MMIOLIM, KSTACKTOP, UVPT]"

text \<open>
  C36. The memory map: its boundaries ascend, and each is the start of a page; \<^verbatim>\<open>ULIM\<close> is \<^verbatim>\<open>MMIOBASE\<close>, and the addresses are those of
  the drawing. Under the first page tables nothing from \<^verbatim>\<open>UTOP\<close> to \<^verbatim>\<open>KERNBASE\<close> is mapped, nothing is open to the user, and the
  display of the text console is where the kernel looks for it.
\<close>

theorem memory_map:
  assumes "tables_ok pml4"
  shows "sorted_wrt (<) map_bounds \<and> list_all (\<lambda>a. PGOFF a = 0) map_bounds
    \<and> ULIM = MMIOBASE \<and> MMIOLIM = 0x8003e00000 \<and> UPAGES = 0x8000a00000 \<and> UENVS = 0x8000800000 \<and> UTOP = UENVS
    \<and> (UTOP \<le> la \<and> la < KERNBASE \<longrightarrow> walk (setup_tables pml4 m) (ucast pml4) la = None)
    \<and> (walk (setup_tables pml4 m) (ucast pml4) la = Some (pa, w, u) \<longrightarrow> w \<and> \<not> u \<and> pa < 0x10000000)
    \<and> walk (setup_tables pml4 m) (ucast pml4) (KERNBASE + 0xB8000) = Some (0xB8000, True, False)"
proof -
  have "walk (setup_tables pml4 m) (ucast pml4) la = None" if "UTOP \<le> la" "la < KERNBASE"
  proof -
    have "\<not> la < 0x10000000" using that(1) by (simp add: memlayout_defs word_less_nat_alt word_le_nat_alt)
    moreover have "\<not> la - KERNBASE < 0x10000000"
      using that unat_sub_if' [of la KERNBASE] by (simp add: memlayout_defs word_less_nat_alt word_le_nat_alt)
    ultimately show ?thesis by (simp only: boot_translation [OF assms] if_False)
  qed
  then show ?thesis
    by (auto simp: map_bounds_def PGOFF_def memlayout_defs boot_translation [OF assms])
qed

section \<open>Selectors\<close>

definition GD_KT :: u16 where "GD_KT = 0x08"
definition GD_KD :: u16 where "GD_KD = 0x10"
definition GD_UT :: u16 where "GD_UT = 0x18"
definition GD_UD :: u16 where "GD_UD = 0x20"
definition GD_TSS0 :: u16 where "GD_TSS0 = 0x28"

definition entry_of :: "u16 \<Rightarrow> u8 list" where
  "entry_of sel = take 8 (drop (unat sel) kernel_64_bytes)"

definition desc_dpl :: "u8 list \<Rightarrow> u8" where
  "desc_dpl d = drop_bit 5 (d ! 5) AND 3"

text \<open>
  The selectors of the header fit the table of \<^verbatim>\<open>entry.S\<close>: code and data for the kernel and for the user at their levels, and a
  place for the task state segment; the limit of 0x37 is the table's last byte.
\<close>

lemma kernel_selectors:
  "code64 (entry_of GD_KT) \<and> desc_dpl (entry_of GD_KT) = 0 \<and> data_seg (entry_of GD_KD) \<and> desc_dpl (entry_of GD_KD) = 0
   \<and> code64 (entry_of GD_UT) \<and> desc_dpl (entry_of GD_UT) = 3 \<and> data_seg (entry_of GD_UD) \<and> desc_dpl (entry_of GD_UD) = 3
   \<and> entry_of GD_TSS0 ! 5 = 0x80 OR ucast STS_T64A \<and> length kernel_64_bytes = 0x37 + 1"
  by (simp add: entry_of_def code64_def data_seg_def desc_dpl_def gdt_bytes_simps quad_bytes_def upt_rec STS_T64A_def
    GD_KT_def GD_KD_def GD_UT_def GD_UD_def GD_TSS0_def)

theorem memory_map_witness:
  "walk (setup_tables 0x105000 (\<lambda>a. 0)) 0x105000 0x8003C00000 = None
   \<and> walk (setup_tables 0x105000 (\<lambda>a. 0)) 0x105000 0x80040B8000 = Some (0xB8000, True, False)"
proof -
  have "tables_ok 0x105000" by (simp add: tables_ok_def)
  from memory_map [OF this, of "0x8003C00000" "\<lambda>a. 0"] show ?thesis by (simp add: memlayout_defs)
qed

section \<open>Flags\<close>

definition CR4_PCE :: u32 where "CR4_PCE = 0x00000100"
definition CR4_MCE :: u32 where "CR4_MCE = 0x00000040"
definition CR4_PSE :: u32 where "CR4_PSE = 0x00000010"
definition CR4_DE :: u32 where "CR4_DE = 0x00000008"
definition CR4_TSD :: u32 where "CR4_TSD = 0x00000004"
definition CR4_PVI :: u32 where "CR4_PVI = 0x00000002"
definition CR4_VME :: u32 where "CR4_VME = 0x00000001"

definition FL_CF :: u32 where "FL_CF = 0x00000001"
definition FL_PF :: u32 where "FL_PF = 0x00000004"
definition FL_AF :: u32 where "FL_AF = 0x00000010"
definition FL_ZF :: u32 where "FL_ZF = 0x00000040"
definition FL_SF :: u32 where "FL_SF = 0x00000080"
definition FL_TF :: u32 where "FL_TF = 0x00000100"
definition FL_IF :: u32 where "FL_IF = 0x00000200"
definition FL_DF :: u32 where "FL_DF = 0x00000400"
definition FL_OF :: u32 where "FL_OF = 0x00000800"
definition FL_IOPL_MASK :: u32 where "FL_IOPL_MASK = 0x00003000"
definition FL_IOPL_0 :: u32 where "FL_IOPL_0 = 0x00000000"
definition FL_IOPL_1 :: u32 where "FL_IOPL_1 = 0x00001000"
definition FL_IOPL_2 :: u32 where "FL_IOPL_2 = 0x00002000"
definition FL_IOPL_3 :: u32 where "FL_IOPL_3 = 0x00003000"
definition FL_NT :: u32 where "FL_NT = 0x00004000"
definition FL_RF :: u32 where "FL_RF = 0x00010000"
definition FL_VM :: u32 where "FL_VM = 0x00020000"
definition FL_AC :: u32 where "FL_AC = 0x00040000"
definition FL_VIF :: u32 where "FL_VIF = 0x00080000"
definition FL_VIP :: u32 where "FL_VIP = 0x00100000"

definition FEC_PR :: u32 where "FEC_PR = 0x1"
definition FEC_WR :: u32 where "FEC_WR = 0x2"
definition FEC_U :: u32 where "FEC_U = 0x4"

text \<open>Flags of one register are single bits, no two the same; the four privilege levels fill their mask.\<close>

definition single_bits :: "u32 list \<Rightarrow> bool" where
  "single_bits fs \<longleftrightarrow> list_all (\<lambda>f. f \<noteq> 0 \<and> f AND (f - 1) = 0) fs \<and> distinct fs"

lemma flags_single_bits:
  "single_bits [CR0_PE, CR0_MP, CR0_EM, CR0_TS, CR0_ET, CR0_NE, CR0_WP, CR0_AM, CR0_NW, CR0_CD, CR0_PG]
   \<and> single_bits [CR4_VME, CR4_PVI, CR4_TSD, CR4_DE, CR4_PSE, CR4_PAE, CR4_MCE, CR4_PCE]
   \<and> single_bits [FL_CF, FL_PF, FL_AF, FL_ZF, FL_SF, FL_TF, FL_IF, FL_DF, FL_OF, FL_NT, FL_RF, FL_VM, FL_AC, FL_VIF, FL_VIP, FL_ID]
   \<and> single_bits [PTE_P, PTE_W, PTE_U, PTE_PWT, PTE_PCD, PTE_A, PTE_D, PTE_PS] \<and> single_bits [FEC_PR, FEC_WR, FEC_U]
   \<and> map (\<lambda>l. push_bit 12 l) [0, 1, 2, 3] = [FL_IOPL_0, FL_IOPL_1, FL_IOPL_2, FL_IOPL_3] \<and> FL_IOPL_3 = FL_IOPL_MASK
   \<and> PTE_MBZ = PTE_PS OR 0x100 \<and> PTE_USER AND (PTE_PWT OR PTE_PCD OR PTE_A OR PTE_D OR PTE_PS) = 0"
  by (intro conjI; code_simp)

section \<open>Structures of the processor\<close>

text \<open>The task state segment and the operand of \<^verbatim>\<open>lgdt\<close> and its like, packed, and their bytes in memory.\<close>

record taskstate =
  ts_res1 :: u32
  ts_esp0 :: u64
  ts_esp1 :: u64
  ts_esp2 :: u64
  ts_res2 :: u64
  ts_ist1 :: u64
  ts_ist2 :: u64
  ts_ist3 :: u64
  ts_ist4 :: u64
  ts_ist5 :: u64
  ts_ist6 :: u64
  ts_ist7 :: u64
  ts_res3 :: u64
  ts_res4 :: u16
  ts_iomb :: u16

record pseudodesc =
  pd_lim :: u16
  pd_base :: u64

definition pd_bytes :: "pseudodesc \<Rightarrow> u8 list" where
  "pd_bytes d = word_bytes (ucast (pd_lim d)) @ quad_bytes (pd_base d)"

definition ts_bytes :: "taskstate \<Rightarrow> u8 list" where
  "ts_bytes t = take 4 (quad_bytes (ucast (ts_res1 t)))
     @ concat (map quad_bytes [ts_esp0 t, ts_esp1 t, ts_esp2 t, ts_res2 t, ts_ist1 t, ts_ist2 t, ts_ist3 t, ts_ist4 t, ts_ist5 t,
         ts_ist6 t, ts_ist7 t, ts_res3 t])
     @ word_bytes (ucast (ts_res4 t)) @ word_bytes (ucast (ts_iomb t))"

text \<open>The processor finds the stack pointer for level 0 at byte 4, the I/O map base at byte 102 of 104, and the kernel's \<^verbatim>\<open>lgdt\<close> operand is such a structure.\<close>

lemma structure_layout:
  "length (ts_bytes t) = 104 \<and> number (take 8 (drop 4 (ts_bytes t))) = ts_esp0 t \<and> drop 102 (ts_bytes t) = word_bytes (ucast (ts_iomb t))
   \<and> length (pd_bytes d) = 10 \<and> kgdtdesc_64_bytes S = pd_bytes \<lparr>pd_lim = 0x37, pd_base = kernel_64 S\<rparr>"
  by (simp add: ts_bytes_def pd_bytes_def word_bytes_def number_quad kgdtdesc_64_bytes_def)

end
