(* ===== verification/Printfmt_Text.thy ===== *)
theory Printfmt_Text
  imports Printfmt
begin

text \<open>
  What \<^verbatim>\<open>vprintfmt\<close> prints. A format is described by its items (plain characters and conversions with
  flag, width and precision); \<open>render\<close> is its text, and \<open>formats\<close> relates items and arguments to the characters
  specified for them. The main result is that the engine, run on the rendered text, hands \<^verbatim>\<open>putch\<close> exactly
  those characters, in order, and returns. The specification is that of the program, which its users see; where the comments of
  \<^verbatim>\<open>printfmt.c\<close> promise other characters, \<open>conv_documented\<close> and \<open>printf_deviations\<close> say on which arguments and which.
\<close>

section \<open>Numerals\<close>

text \<open>The numeral of \<open>n\<close> in base \<open>b\<close>, most significant digit first.\<close>

function num_text :: "nat \<Rightarrow> nat \<Rightarrow> u8 list" where
  "num_text b n =
     (if 2 \<le> b \<and> b \<le> n then num_text b (n div b) @ [hexdigit (of_nat (n mod b))]
      else [hexdigit (of_nat n)])"
  by pat_completeness auto
termination
  by (relation "measure snd") auto

declare num_text.simps [simp del]

lemma length_num_text_base: "2 \<le> b \<Longrightarrow> n < b ^ k \<Longrightarrow> 0 < k \<Longrightarrow> length (num_text b n) \<le> k"
proof (induction k arbitrary: n)
  case (Suc k)
  show ?case
  proof (cases "b \<le> n")
    case True
    with Suc.prems have k: "0 < k" by (cases k) auto
    have "n div b < b ^ k" using Suc.prems by (simp add: less_mult_imp_div_less mult.commute)
    with Suc.IH [OF Suc.prems(1) this k] True Suc.prems(1) show ?thesis by (simp add: num_text.simps [of b n])
  qed (simp add: num_text.simps [of b n])
qed simp

lemma length_num_text: "2 \<le> b \<Longrightarrow> n < 2 ^ k \<Longrightarrow> 0 < k \<Longrightarrow> length (num_text b n) \<le> k"
  by (rule length_num_text_base, assumption, erule order.strict_trans2, rule power_mono) simp_all

text \<open>\<^verbatim>\<open>printnum\<close> pads on the left and prints the numeral, for every base the engine uses.\<close>

definition number_text :: "pspec \<Rightarrow> nat \<Rightarrow> u64 \<Rightarrow> i32 list" where
  "number_text sp b num =
     (let ds = num_text b (unat num)
      in map ucast (replicate (nat (sint (width sp)) - length ds) (padc sp) @ ds))"

lemma printnum_text:
  assumes b: "2 \<le> base" "base \<le> 16"
  shows "unat num < 2 ^ k \<Longrightarrow> 0 < k \<Longrightarrow> - 1000000 \<le> sint wd - int k \<Longrightarrow> k \<le> 64 \<Longrightarrow>
    printnum putch num (of_nat base) wd pc w =
    cret (fold putch (replicate (nat (sint wd) - length (num_text base (unat num))) pc
      @ map ucast (num_text base (unat num))) w)"
proof (induction k arbitrary: num wd)
  case (Suc k)
  have b64: "unat (of_nat base :: u64) = base" and ub: "(ucast (of_nat base :: u32) :: u64) = of_nat base"
    and "unat (of_nat base :: u32) = base"
    using b by (simp_all add: unat_of_nat unsigned_of_nat take_bit_nat_eq_self)
  then have b0: "(of_nat base :: u32) \<noteq> 0" using b by auto
  have lt16: "num mod of_nat base < 16"
  proof -
    have "unat num mod base < base" using b by (intro mod_less_divisor) simp
    then have "unat num mod base < 16" using b by linarith
    then show ?thesis using b64 by (simp add: word_less_nat_alt unat_mod)
  qed
  have dig: "hexdigit (num mod of_nat base) = hexdigit (of_nat (unat num mod base))"
  proof -
    have e: "unat (num mod of_nat base) = unat num mod base" using b64 by (simp add: unat_mod)
    show ?thesis by (simp add: e [symmetric])
  qed
  show ?case
  proof (cases "base \<le> unat num")
    case True
    then have "1 < unat num" using b by simp
    with Suc.prems have k: "0 < k" by (cases k) auto
    have d: "unat (num div of_nat base) = unat num div base" using b64 by (simp add: unat_div)
    have "unat num div base \<le> unat num div 2" using b by (simp add: div_le_mono2)
    also have "\<dots> < 2 ^ k" using Suc.prems by simp
    finally have "unat (num div of_nat base) < 2 ^ k" using d by simp
    moreover have p: "sint (wd - 1) = sint wd - 1" using Suc.prems by (intro sint32_pred) simp
    ultimately have "printnum putch (num div of_nat base) (of_nat base) (wd - 1) pc w =
        cret (fold putch (replicate (nat (sint wd - 1) - length (num_text base (unat num div base))) pc
          @ map ucast (num_text base (unat num div base))) w)"
      using Suc.IH [of "num div of_nat base" "wd - 1"] k Suc.prems by (simp add: d)
    moreover have "nat (sint wd - 1) - l = nat (sint wd) - Suc l" for l by arith
    ultimately show ?thesis
      using True b b0 ub b64 lt16 dig
      by (subst printnum.simps) (simp add: word_le_nat_alt num_text.simps [of base "unat num"])
  next
    case False
    have p: "sint (wd - 1) = sint wd - 1" using Suc.prems by (intro sint32_pred) simp
    have "nat (sint wd - 1) = nat (sint wd) - Suc 0" by arith
    then show ?thesis
      using False b b0 ub b64 lt16 dig
      by (subst printnum.simps)
        (simp add: word_le_nat_alt num_text.simps [of base "unat num"] put_pad_fold p)
  qed
qed simp

lemma printnum_number_text:
  assumes "2 \<le> base" "base \<le> 16" "- 1000 \<le> sint (width sp)"
  shows "printnum putch num (of_nat base) (width sp) (ucast (padc sp)) w =
    cret (fold putch (number_text sp base num) w)"
  using printnum_text [OF assms(1,2), of num 64 "width sp"] assms(3) unat_lt64 [of num]
  by (simp add: number_text_def Let_def)

section \<open>Bytes the printing does not change\<close>

text \<open>\<open>kpre\<close>: the bytes \<open>xs\<close> lie at \<open>p\<close> in \<open>m\<close>, at addresses of \<open>K\<close>; \<open>kstr\<close>: a string does, with its NUL.\<close>

fun kpre :: "(u64 \<Rightarrow> bool) \<Rightarrow> mem \<Rightarrow> u64 \<Rightarrow> u8 list \<Rightarrow> bool" where
  "kpre K m p [] \<longleftrightarrow> True"
| "kpre K m p (x # xs) \<longleftrightarrow> m p = x \<and> K p \<and> kpre K m (p + 1) xs"

definition kstr :: "(u64 \<Rightarrow> bool) \<Rightarrow> mem \<Rightarrow> u64 \<Rightarrow> u8 list \<Rightarrow> bool" where
  "kstr K m p xs \<longleftrightarrow> 0 \<notin> set xs \<and> kpre K m p (xs @ [0])"

lemma kpre_append: "kpre K m p (xs @ ys) \<longleftrightarrow> kpre K m p xs \<and> kpre K m (p + of_nat (length xs)) ys"
  by (induction xs arbitrary: p) (auto simp: add.assoc)

lemma kpre_cong: "kpre K m p xs \<Longrightarrow> (\<And>a. K a \<Longrightarrow> m' a = m a) \<Longrightarrow> kpre K m' p xs"
  by (induction xs arbitrary: p) auto

lemma kstr_cstr: "kstr K m p xs \<Longrightarrow> cstr m p xs"
  unfolding kstr_def by (induction xs arbitrary: p) auto

lemma cstr_kstr: "cstr m p xs \<Longrightarrow> (\<And>a. K a) \<Longrightarrow> kstr K m p xs"
  unfolding kstr_def by (induction xs arbitrary: p) auto

lemma kstr_Cons: "kstr K m p (x # xs) \<longleftrightarrow> x \<noteq> 0 \<and> m p = x \<and> K p \<and> kstr K m (p + 1) xs"
  by (auto simp: kstr_def)

lemma kstr_Nil: "kstr K m p [] \<longleftrightarrow> m p = 0 \<and> K p"
  by (auto simp: kstr_def)

section \<open>Items of a format\<close>

datatype flag = NoFlag | Zero | Left
datatype prec = NoPrec | Prec nat | StarPrec
datatype item = Lit u8 | Percent | Conv flag "nat option" prec u8

fun render_flag :: "flag \<Rightarrow> u8 list" where
  "render_flag NoFlag = []"
| "render_flag Zero = [c_0]"
| "render_flag Left = [c_minus]"

fun render_prec :: "prec \<Rightarrow> u8 list" where
  "render_prec NoPrec = []"
| "render_prec (Prec k) = c_dot # num_text 10 k"
| "render_prec StarPrec = [c_dot, c_star]"

fun render :: "item \<Rightarrow> u8 list" where
  "render (Lit c) = [c]"
| "render Percent = [c_pct, c_pct]"
| "render (Conv fl wd pr c) =
     c_pct # render_flag fl @ (case wd of None \<Rightarrow> [] | Some n \<Rightarrow> num_text 10 n) @ render_prec pr @ [c]"

text \<open>Widths and precisions are written without leading zeroes, as a leading zero is a flag.\<close>

definition conv_chars :: "u8 set" where
  "conv_chars = {c_c, c_s, c_d, c_u, c_o, c_p, c_x}"

fun item_ok :: "item \<Rightarrow> bool" where
  "item_ok (Lit c) \<longleftrightarrow> c \<notin> {0, c_pct, c_esc}"
| "item_ok Percent \<longleftrightarrow> True"
| "item_ok (Conv fl wd pr c) \<longleftrightarrow> c \<in> conv_chars
     \<and> (case wd of None \<Rightarrow> True | Some n \<Rightarrow> 0 < n \<and> n < 2 ^ 31)
     \<and> (case pr of Prec k \<Rightarrow> 0 < k \<and> k < 2 ^ 31 | _ \<Rightarrow> True)"

text \<open>The specification the flags, width and precision denote, and the arguments left after it.\<close>

fun flag_padc :: "flag \<Rightarrow> u8" where
  "flag_padc NoFlag = c_space"
| "flag_padc Zero = c_0"
| "flag_padc Left = c_minus"

definition wid_val :: "nat option \<Rightarrow> prec \<Rightarrow> i32" where
  "wid_val wd pr = (case wd of Some n \<Rightarrow> of_nat n | None \<Rightarrow> if pr = NoPrec then - 1 else 0)"

definition spec_of :: "flag \<Rightarrow> nat option \<Rightarrow> prec \<Rightarrow> i32 \<Rightarrow> pspec" where
  "spec_of fl wd pr k = \<lparr>padc = flag_padc fl, width = wid_val wd pr, precision = k, lflag = 0, altflag = False\<rparr>"

inductive spec_args :: "flag \<Rightarrow> nat option \<Rightarrow> prec \<Rightarrow> u64 list \<Rightarrow> pspec \<Rightarrow> u64 list \<Rightarrow> bool" where
  no_prec: "spec_args fl wd NoPrec args (spec_of fl wd NoPrec (- 1)) args"
| prec: "spec_args fl wd (Prec k) args (spec_of fl wd (Prec k) (of_nat k)) args"
| star: "spec_args fl wd StarPrec (a # args) (spec_of fl wd StarPrec (ucast a)) args"

text \<open>A string under a precision: all of it when the precision is negative.\<close>

definition cut :: "i32 \<Rightarrow> 'a list \<Rightarrow> 'a list" where
  "cut prec xs = (if prec <s 0 then xs else take (nat (sint prec)) xs)"

text \<open>The characters of a string under width and precision.\<close>

definition string_text :: "pspec \<Rightarrow> u8 list \<Rightarrow> i32 list" where
  "string_text sp xs =
     (let ys = cut (precision sp) xs;
          n = nat (sint (width sp)) - length ys
      in if padc sp = c_minus then map scast ys @ replicate n c_space
         else replicate n (ucast (padc sp)) @ map scast ys)"

definition signed_text :: "pspec \<Rightarrow> nat \<Rightarrow> i64 \<Rightarrow> i32 list" where
  "signed_text sp b num =
     (if num <s 0 then c_minus # number_text sp b (- num) else number_text sp b num)"

text \<open>
  \<open>conv_text L K m sp c args out rest\<close>: the conversion \<open>c\<close> under \<open>sp\<close> prints \<open>out\<close> for the first of \<open>args\<close> and
  leaves \<open>rest\<close>. \<^verbatim>\<open>%d\<close> and \<^verbatim>\<open>%o\<close> are signed, \<^verbatim>\<open>%u\<close>, \<^verbatim>\<open>%x\<close> and \<^verbatim>\<open>%p\<close> unsigned; all read 64 bits. A number is padded on the
  left, with minus signs under the flag \<^verbatim>\<open>-\<close>; a string is padded too.
\<close>

inductive conv_text ::
    "rodata \<Rightarrow> (u64 \<Rightarrow> bool) \<Rightarrow> mem \<Rightarrow> pspec \<Rightarrow> u8 \<Rightarrow> u64 list \<Rightarrow> i32 list \<Rightarrow> u64 list \<Rightarrow> bool"
  for L K m sp where
  conv_c: "conv_text L K m sp c_c (a # args) [ucast a] args"
| conv_d: "conv_text L K m sp c_d (a # args) (signed_text sp 10 a) args"
| conv_o: "conv_text L K m sp c_o (a # args) (signed_text sp 8 a) args"
| conv_u: "conv_text L K m sp c_u (a # args) (number_text sp 10 a) args"
| conv_x: "conv_text L K m sp c_x (a # args) (number_text sp 16 a) args"
| conv_p: "conv_text L K m sp c_p (a # args) (c_0 # c_x # number_text sp 16 a) args"
| conv_s: "kstr K m (if a = 0 then null_str L else a) xs \<Longrightarrow> length xs < 2 ^ 29 \<Longrightarrow>
    conv_text L K m sp c_s (a # args) (string_text sp xs) args"

inductive formats ::
    "rodata \<Rightarrow> (u64 \<Rightarrow> bool) \<Rightarrow> mem \<Rightarrow> item list \<Rightarrow> u64 list \<Rightarrow> i32 list \<Rightarrow> bool"
  for L K m where
  fmt_nil: "formats L K m [] args []"
| fmt_lit: "formats L K m is args out \<Longrightarrow> formats L K m (Lit c # is) args (ucast c # out)"
| fmt_pct: "formats L K m is args out \<Longrightarrow> formats L K m (Percent # is) args (c_pct # out)"
| fmt_conv: "spec_args fl wd pr args sp args' \<Longrightarrow> conv_text L K m sp c args' out args'' \<Longrightarrow>
    formats L K m is args'' outs \<Longrightarrow> formats L K m (Conv fl wd pr c # is) args (out @ outs)"

section \<open>What the comments say\<close>

text \<open>
  The conversions as the comments of \<^verbatim>\<open>printfmt.c\<close> describe them: \<^verbatim>\<open>-\<close> pads on the right, \<^verbatim>\<open>%o\<close> is unsigned, and padding and width
  are for the numeric formats only.
\<close>

definition doc_number :: "pspec \<Rightarrow> nat \<Rightarrow> u64 \<Rightarrow> i32 list" where
  "doc_number sp b num =
     (let ds = map ucast (num_text b (unat num)); n = nat (sint (width sp)) - length ds
      in if padc sp = c_minus then ds @ replicate n c_space else replicate n (ucast (padc sp)) @ ds)"

definition doc_signed :: "pspec \<Rightarrow> nat \<Rightarrow> i64 \<Rightarrow> i32 list" where
  "doc_signed sp b num = (if num <s 0 then c_minus # doc_number sp b (- num) else doc_number sp b num)"

inductive doc_text ::
    "rodata \<Rightarrow> (u64 \<Rightarrow> bool) \<Rightarrow> mem \<Rightarrow> pspec \<Rightarrow> u8 \<Rightarrow> u64 list \<Rightarrow> i32 list \<Rightarrow> u64 list \<Rightarrow> bool"
  for L K m sp where
  doc_c: "doc_text L K m sp c_c (a # args) [ucast a] args"
| doc_d: "doc_text L K m sp c_d (a # args) (doc_signed sp 10 a) args"
| doc_o: "doc_text L K m sp c_o (a # args) (doc_number sp 8 a) args"
| doc_u: "doc_text L K m sp c_u (a # args) (doc_number sp 10 a) args"
| doc_x: "doc_text L K m sp c_x (a # args) (doc_number sp 16 a) args"
| doc_p: "doc_text L K m sp c_p (a # args) (c_0 # c_x # doc_number sp 16 a) args"
| doc_s: "kstr K m (if a = 0 then null_str L else a) xs \<Longrightarrow> length xs < 2 ^ 29 \<Longrightarrow>
    doc_text L K m sp c_s (a # args) (map scast (cut (precision sp) xs)) args"

text \<open>
  Where code and comments agree: \<^verbatim>\<open>%c\<close> always, a number when the flag \<^verbatim>\<open>-\<close> comes without a width and \<^verbatim>\<open>%o\<close> has an argument below
  $2^{63}$, and a string without a width.
\<close>

definition documented :: "pspec \<Rightarrow> u8 \<Rightarrow> u64 list \<Rightarrow> bool" where
  "documented sp c args \<longleftrightarrow> c = c_c \<or> sint (width sp) \<le> 0 \<and> (c = c_o \<longrightarrow> \<not> hd args <s 0)
     \<or> c \<noteq> c_s \<and> padc sp \<noteq> c_minus \<and> (c = c_o \<longrightarrow> \<not> hd args <s 0)"

lemma number_documented: "sint (width sp) \<le> 0 \<or> padc sp \<noteq> c_minus \<Longrightarrow> number_text sp b v = doc_number sp b v"
  by (auto simp: number_text_def doc_number_def Let_def)

lemma signed_documented: "sint (width sp) \<le> 0 \<or> padc sp \<noteq> c_minus \<Longrightarrow> signed_text sp b v = doc_signed sp b v"
  using number_documented [of sp b] by (simp add: signed_text_def doc_signed_def)

theorem conv_documented: "conv_text L K m sp c args out args' \<Longrightarrow> documented sp c args \<Longrightarrow> doc_text L K m sp c args out args'"
proof (induction rule: conv_text.induct)
  case (conv_d a args)
  then have "signed_text sp 10 a = doc_signed sp 10 a" by (intro signed_documented) (auto simp: documented_def)
  then show ?case by (simp add: doc_d)
next
  case (conv_o a args)
  then have "signed_text sp 8 a = doc_number sp 8 a"
    using number_documented [of sp 8 a] by (auto simp: documented_def signed_text_def)
  then show ?case by (simp add: doc_o)
next
  case (conv_u a args)
  then have "number_text sp 10 a = doc_number sp 10 a" by (intro number_documented) (auto simp: documented_def)
  then show ?case by (simp add: doc_u)
next
  case (conv_x a args)
  then have "number_text sp 16 a = doc_number sp 16 a" by (intro number_documented) (auto simp: documented_def)
  then show ?case by (simp add: doc_x)
next
  case (conv_p a args)
  then have "number_text sp 16 a = doc_number sp 16 a" by (intro number_documented) (auto simp: documented_def)
  then show ?case by (simp add: doc_p)
next
  case (conv_s a xs args)
  then have "string_text sp xs = map scast (cut (precision sp) xs)" by (auto simp: documented_def string_text_def Let_def)
  with conv_s show ?case by (simp add: doc_s)
qed (rule doc_c)

text \<open>
  Where they differ: \<^verbatim>\<open>%o\<close> of \<open>- 1\<close> prints a minus sign and 1 and not 22 digits, \<^verbatim>\<open>%-4d\<close> of 5 prints three minus signs before the digit and
  not three spaces behind it, and \<^verbatim>\<open>%4s\<close> pads.
\<close>

theorem printf_deviations:
  "conv_text L K m (spec_of NoFlag None NoPrec (- 1)) c_o (- 1 # args) (map ucast [c_minus, 0x31 :: u8]) args"
  "doc_text L K m (spec_of NoFlag None NoPrec (- 1)) c_o (- 1 # args) (map ucast ((0x31 :: u8) # replicate 21 0x37)) args"
  "conv_text L K m (spec_of Left (Some 4) NoPrec (- 1)) c_d (5 # args) (map ucast [c_minus, c_minus, c_minus, 0x35 :: u8]) args"
  "doc_text L K m (spec_of Left (Some 4) NoPrec (- 1)) c_d (5 # args) (map ucast [0x35 :: u8, c_space, c_space, c_space]) args"
  "string_text (spec_of NoFlag (Some 4) NoPrec (- 1)) [0x61] = map ucast [c_space, c_space, c_space, 0x61 :: u8]"
proof -
  have r: "replicate 3 x = [x, x, x]" for x :: 'z by (simp add: numeral_3_eq_3)
  have r21: "replicate 21 x = [x, x, x, x, x, x, x, x, x, x, x, x, x, x, x, x, x, x, x, x, x]" for x :: 'z by (simp add: numeral_eq_Suc)
  have t: "num_text 8 (Suc 0) = [0x31]" "num_text 10 5 = [0x35]" by (simp_all add: num_text.simps hexdigit_def)
  have "signed_text (spec_of NoFlag None NoPrec (- 1)) 8 (- 1) = map ucast [c_minus, 0x31 :: u8]"
    by (simp add: signed_text_def number_text_def t spec_of_def wid_val_def word_sless_alt)
  then show "conv_text L K m (spec_of NoFlag None NoPrec (- 1)) c_o (- 1 # args) (map ucast [c_minus, 0x31 :: u8]) args"
    using conv_o [of L K m "spec_of NoFlag None NoPrec (- 1)" "- 1" args] by simp
  have "num_text 8 18446744073709551615 = 0x31 # replicate 21 0x37"
    by (simp add: num_text.simps hexdigit_def r21)
  moreover have "unat (- 1 :: u64) = 18446744073709551615" by (simp add: unsigned_minus_1_eq_mask mask_eq_exp_minus_1)
  ultimately show "doc_text L K m (spec_of NoFlag None NoPrec (- 1)) c_o (- 1 # args) (map ucast ((0x31 :: u8) # replicate 21 0x37)) args"
    using doc_o [of L K m "spec_of NoFlag None NoPrec (- 1)" "- 1" args]
    by (simp add: doc_number_def spec_of_def wid_val_def)
  show "conv_text L K m (spec_of Left (Some 4) NoPrec (- 1)) c_d (5 # args) (map ucast [c_minus, c_minus, c_minus, 0x35 :: u8]) args"
    using conv_d [of L K m "spec_of Left (Some 4) NoPrec (- 1)" 5 args]
    by (simp add: signed_text_def number_text_def t spec_of_def wid_val_def word_sless_alt r)
  show "doc_text L K m (spec_of Left (Some 4) NoPrec (- 1)) c_d (5 # args) (map ucast [0x35 :: u8, c_space, c_space, c_space]) args"
    using doc_d [of L K m "spec_of Left (Some 4) NoPrec (- 1)" 5 args]
    by (simp add: doc_signed_def doc_number_def t spec_of_def wid_val_def word_sless_alt r)
  show "string_text (spec_of NoFlag (Some 4) NoPrec (- 1)) [0x61] = map ucast [c_space, c_space, c_space, 0x61 :: u8]"
    by (simp add: string_text_def spec_of_def wid_val_def cut_def word_sless_alt r)
qed

section \<open>Reading a conversion specification\<close>

abbreviation "is_dig c \<equiv> c_0 \<le> c \<and> c \<le> (c_9 :: u8)"

lemma hexdigit_dec:
  assumes "d < 10"
  shows "hexdigit (of_nat d) = 0x30 + of_nat d" "ucast (hexdigit (of_nat d)) - 0x30 = (of_nat d :: i32)"
    "is_dig (hexdigit (of_nat d))" "0 < d \<Longrightarrow> c_0 < hexdigit (of_nat d)"
proof -
  have "d \<in> {0, 1, 2, 3, 4, 5, 6, 7, 8, 9}" using assms by auto
  then show "hexdigit (of_nat d) = 0x30 + of_nat d" "ucast (hexdigit (of_nat d)) - 0x30 = (of_nat d :: i32)"
    "is_dig (hexdigit (of_nat d))" "0 < d \<Longrightarrow> c_0 < hexdigit (of_nat d)"
    by (auto simp: hexdigit_def)
qed

lemma num_text_digits: "\<forall>c \<in> set (num_text 10 n). is_dig c"
proof (induction n rule: less_induct)
  case (less n)
  show ?case
    using less [of "n div 10"] hexdigit_dec(3) [of n] hexdigit_dec(3) [of "n mod 10"]
    by (simp add: num_text.simps [of 10 n])
qed

lemma num_text_first: "0 < n \<Longrightarrow> \<exists>c cs. num_text 10 n = c # cs \<and> c_0 < c \<and> c \<le> c_9"
proof (induction n rule: less_induct)
  case (less n)
  show ?case
  proof (cases "10 \<le> n")
    case True
    then obtain c cs where "num_text 10 (n div 10) = c # cs" "c_0 < c" "c \<le> c_9"
      using less.IH [of "n div 10"] by (auto simp: div_greater_zero_iff)
    with True show ?thesis by (simp add: num_text.simps [of 10 n])
  next
    case False
    with less show ?thesis
      using hexdigit_dec(3,4) [of n] by (simp add: num_text.simps [of 10 n])
  qed
qed

abbreviation "dec_step d acc \<equiv> acc * 10 + ucast (d :: u8) - (0x30 :: i32)"

lemma fold_num_text: "fold dec_step (num_text 10 n) 0 = of_nat n"
proof (induction n rule: less_induct)
  case (less n)
  show ?case
  proof (cases "10 \<le> n")
    case True
    have "fold dec_step (num_text 10 n) 0 = of_nat (n div 10) * 10 + (ucast (hexdigit (of_nat (n mod 10))) - 0x30)"
      using True less [of "n div 10"] by (simp add: num_text.simps [of 10 n])
    also have "\<dots> = of_nat (n div 10 * 10 + n mod 10)"
      by (subst hexdigit_dec(2), simp, simp only: of_nat_add of_nat_mult of_nat_numeral)
    also have "n div 10 * 10 + n mod 10 = n" by simp
    finally show ?thesis .
  next
    case False
    with hexdigit_dec(2) [of n] show ?thesis by (simp add: num_text.simps [of 10 n])
  qed
qed

lemma width_digits_text:
  "kpre K m fmt ds \<Longrightarrow> \<forall>c \<in> set ds. is_dig c \<Longrightarrow> \<not> is_dig (m (fmt + of_nat (length ds))) \<Longrightarrow>
   width_digits m fmt ch prec = Some (fold dec_step (ch # ds) prec, fmt + of_nat (length ds))"
proof (induction ds arbitrary: fmt ch prec)
  case Nil
  then show ?case by (subst width_digits.simps) (auto simp: Let_def)
next
  case (Cons d ds)
  from Cons.prems Cons.IH [of "fmt + 1" d "dec_step ch prec"] show ?case
    by (subst width_digits.simps) (auto simp: Let_def add.assoc not_le [symmetric])
qed

lemma reswitch_number:
  assumes "kpre K m fmt (num_text 10 n)" "0 < n" "\<not> is_dig (m (fmt + of_nat (length (num_text 10 n))))"
  shows "reswitch m fmt aq sp =
    reswitch m (fmt + of_nat (length (num_text 10 n))) aq (process_precision (sp\<lparr>precision := of_nat n\<rparr>))"
proof -
  obtain c cs where c: "num_text 10 n = c # cs" "c_0 < c" "c \<le> c_9" using num_text_first [OF assms(2)] by blast
  have "width_digits m (fmt + 1) c 0 = Some (fold dec_step (c # cs) 0, fmt + 1 + of_nat (length cs))"
    using assms num_text_digits [of n] by (intro width_digits_text) (auto simp: c add.assoc)
  also have "fold dec_step (c # cs) 0 = of_nat n" using fold_num_text [of n] c by simp
  finally have w: "width_digits m (fmt + 1) c 0 = Some (of_nat n, fmt + 1 + of_nat (length cs))" .
  have "m fmt = c" "c \<noteq> c_minus" "c \<noteq> c_0" using assms(1) c by auto
  with c w show ?thesis by (subst reswitch.simps) (simp add: add.assoc)
qed

lemma reswitch_conv: "c \<in> conv_chars \<Longrightarrow> m fmt = c \<Longrightarrow> reswitch m fmt aq sp = cret (c, fmt + 1, aq, sp)"
  by (subst reswitch.simps) (auto simp: conv_chars_def)

lemma conv_not_dig: "c \<in> conv_chars \<Longrightarrow> \<not> is_dig c"
  by (auto simp: conv_chars_def)

lemma render_prec_head:
  "c \<in> conv_chars \<Longrightarrow> kpre K m fmt (render_prec pr @ [c]) \<Longrightarrow> \<not> is_dig (m fmt)"
  by (cases pr) (auto dest: conv_not_dig)

lemma reswitch_prec:
  assumes "kpre K m fmt (render_prec pr @ [c])" "c \<in> conv_chars"
    "\<And>k. pr = Prec k \<Longrightarrow> 0 < k \<and> k < 2 ^ 31" "spec_args fl wd pr args sp args'"
    "wid = (case wd of None \<Rightarrow> - 1 | Some n \<Rightarrow> of_nat n)" "\<And>n. wd = Some n \<Longrightarrow> n < 2 ^ 31"
  shows "reswitch m fmt args \<lparr>padc = flag_padc fl, width = wid, precision = - 1, lflag = 0, altflag = False\<rparr>
    = cret (c, fmt + of_nat (length (render_prec pr @ [c])), args', sp)"
proof -
  have neg: "\<not> (of_nat n :: i32) <s 0" if "wd = Some n" for n
    using assms(6) [OF that] by (simp add: word_sless_alt sint32_of_nat)
  show ?thesis
  proof (cases pr)
    case NoPrec
    with assms show ?thesis
      by (auto simp: reswitch_conv spec_of_def wid_val_def elim: spec_args.cases)
  next
    case (Prec k)
    let ?sp = "\<lparr>padc = flag_padc fl, width = wid_val wd pr, precision = - 1, lflag = 0, altflag = False\<rparr>"
    have "reswitch m fmt args \<lparr>padc = flag_padc fl, width = wid, precision = - 1, lflag = 0, altflag = False\<rparr>
        = reswitch m (fmt + 1) args ?sp"
      using assms(1,5) Prec neg
      by (subst reswitch.simps) (auto simp: Let_def wid_val_def word_sless_alt split: option.splits)
    also have "\<dots> = reswitch m (fmt + 1 + of_nat (length (num_text 10 k))) args
        (process_precision (?sp\<lparr>precision := of_nat k\<rparr>))"
      using assms(1,3) Prec conv_not_dig [OF assms(2)] by (intro reswitch_number) (auto simp: kpre_append)
    also have "process_precision (?sp\<lparr>precision := of_nat k\<rparr>) = spec_of fl wd pr (of_nat k)"
      using neg by (auto simp: process_precision_def spec_of_def wid_val_def Prec word_sless_alt split: option.splits)
    also have "\<dots> = sp" using assms(4) Prec by (auto elim: spec_args.cases)
    also have "reswitch m (fmt + 1 + of_nat (length (num_text 10 k))) args sp = cret (c, fmt + of_nat (length (render_prec pr @ [c])), args, sp)"
      using assms(1,2) Prec by (subst reswitch_conv) (auto simp: kpre_append add.commute add.left_commute)
    finally show ?thesis using assms(4) Prec by (auto elim: spec_args.cases)
  next
    case StarPrec
    then obtain a where a: "args = a # args'" "sp = spec_of fl wd StarPrec (ucast a)"
      using assms(4) by (auto elim: spec_args.cases)
    let ?sp = "\<lparr>padc = flag_padc fl, width = wid_val wd pr, precision = - 1, lflag = 0, altflag = False\<rparr>"
    have "reswitch m fmt args \<lparr>padc = flag_padc fl, width = wid, precision = - 1, lflag = 0, altflag = False\<rparr>
        = reswitch m (fmt + 1) args ?sp"
      using assms(1,5) StarPrec neg
      by (subst reswitch.simps) (auto simp: Let_def wid_val_def word_sless_alt split: option.splits)
    also have "\<dots> = reswitch m (fmt + 1 + 1) args' (process_precision (?sp\<lparr>precision := ucast a\<rparr>))"
      using assms(1) StarPrec a by (subst reswitch.simps) (simp add: Let_def va_arg32_def va_arg64_def)
    also have "process_precision (?sp\<lparr>precision := ucast a\<rparr>) = sp"
      using neg by (auto simp: process_precision_def spec_of_def wid_val_def a StarPrec word_sless_alt split: option.splits)
    also have "reswitch m (fmt + 1 + 1) args' sp = cret (c, fmt + 1 + 1 + 1, args', sp)"
      using assms(1,2) StarPrec by (subst reswitch_conv) auto
    finally show ?thesis using StarPrec by (simp add: add.assoc)
  qed
qed

lemma reswitch_spec:
  assumes "kpre K m fmt (tl (render (Conv fl wd pr c)))" "item_ok (Conv fl wd pr c)"
    "spec_args fl wd pr args sp args'"
  shows "reswitch m fmt args pspec0 = cret (c, fmt + of_nat (length (tl (render (Conv fl wd pr c)))), args', sp)"
proof -
  let ?w = "case wd of None \<Rightarrow> [] | Some n \<Rightarrow> num_text 10 n"
  let ?pw = "\<lambda>k. \<lparr>padc = flag_padc fl, width = k, precision = - 1, lflag = 0, altflag = False\<rparr>"
  define f1 where "f1 = fmt + of_nat (length (render_flag fl))"
  define f2 where "f2 = f1 + of_nat (length ?w)"
  have c: "c \<in> conv_chars" using assms(2) by simp
  have k1: "kpre K m f1 ?w" and k2: "kpre K m f2 (render_prec pr @ [c])"
    using assms(1) by (simp_all add: kpre_append f1_def f2_def add.assoc)
  have "reswitch m fmt args pspec0 = reswitch m f1 args (?pw (- 1))"
    using assms(1) by (cases fl) (simp_all add: f1_def pspec0_def reswitch.simps [of m fmt])
  also have "\<dots> = reswitch m f2 args (?pw (case wd of None \<Rightarrow> - 1 | Some n \<Rightarrow> of_nat n))"
  proof (cases wd)
    case (Some n)
    with k1 assms(2) render_prec_head [OF c k2] have
      "reswitch m f1 args (?pw (- 1)) = reswitch m f2 args (process_precision ((?pw (- 1))\<lparr>precision := of_nat n\<rparr>))"
      unfolding f2_def by (simp add: reswitch_number [of K m f1 n])
    then show ?thesis using Some by (simp add: process_precision_def word_sless_alt)
  qed (simp add: f2_def)
  also have "\<dots> = cret (c, f2 + of_nat (length (render_prec pr @ [c])), args', sp)"
    using k2 c assms(2,3) by (intro reswitch_prec) (auto split: option.splits)
  finally show ?thesis by (simp add: f1_def f2_def add.assoc add.commute add.left_commute)
qed

section \<open>Strings\<close>

lemma cut_Cons:
  "cut prec (x # xs) = (if prec <s 0 \<or> 0 \<le>s prec - 1 then x # cut (if prec <s 0 then prec else prec - 1) xs else [])"
proof (cases "prec <s 0")
  case False
  then have s: "0 \<le> sint prec" by (simp add: word_sless_alt)
  then have p: "sint (prec - 1) = sint prec - 1" by (intro sint32_pred) simp
  show ?thesis
  proof (cases "sint prec = 0")
    case True
    with False p show ?thesis by (simp add: cut_def word_sle_eq)
  next
    case nz: False
    then have "nat (sint prec) = Suc (nat (sint (prec - 1)))" using s p by simp
    moreover have "\<not> prec - 1 <s 0" "0 \<le>s prec - 1" using p s nz by (simp_all add: word_sless_alt word_sle_eq)
    ultimately show ?thesis using False by (simp add: cut_def)
  qed
qed (simp add: cut_def)

lemma cut_Nil [simp]: "cut prec [] = []"
  by (simp add: cut_def)

lemma length_cut_le: "length (cut prec xs) \<le> length xs"
  by (simp add: cut_def)

lemma strnlen_cut:
  assumes "cstr m p xs" "length xs < 2 ^ 29"
  shows "strnlen m p (scast prec) = of_nat (length (cut prec xs))"
proof -
  let ?n = "unat (scast prec :: u64)"
  have "takeWhile (\<lambda>x. x \<noteq> 0) (bytes m p n) = take n xs" for n
    using assms(1) by (rule takeWhile_bytes_cstr)
  then have "strnlen m p (scast prec) = of_nat (length (take ?n xs))"
    by (simp add: strnlen_def strnlen_loop_takeWhile)
  also have "take ?n xs = cut prec xs"
  proof (cases "prec <s 0")
    case True
    then have s: "sint prec < 0" by (simp add: word_sless_alt)
    define k where "k = nat (- sint prec)"
    have k: "0 < k" "k \<le> 2147483648" "sint prec = - int k"
      using s sint32_bounds(1) [of prec] by (simp_all add: k_def)
    have "(scast prec :: u64) = of_int (sint prec)" by simp
    also have "\<dots> = - of_nat k" unfolding k(3) by simp
    finally have "?n = 2 ^ 64 - k" using k unat_minus_small [of k] by simp
    then have "2 ^ 29 \<le> ?n" using k(2) by simp
    with assms(2) True show ?thesis by (simp add: cut_def)
  next
    case False
    then have "0 \<le> sint prec" by (simp add: word_sless_alt)
    then have "scast prec = (of_nat (nat (sint prec)) :: u64)" by simp
    moreover have "nat (sint prec) < 2 ^ 64" using sint32_bounds(2) [of prec] by simp
    ultimately have "?n = nat (sint prec)" by (simp add: unat_of_nat)
    with False show ?thesis by (simp add: cut_def)
  qed
  finally show ?thesis .
qed

section \<open>The engine on rendered text\<close>

lemma ucast_scast8: "ucast (scast (x :: u8) :: i32) = x"
  by (rule bit_word_eqI) (simp add: bit_simps)

lemma scast8_eq_0: "(scast (x :: u8) :: i32) = 0 \<longleftrightarrow> x = 0"
  using ucast_scast8 [of x] by auto

text \<open>
  Beyond keeping an invariant, the text of what is printed needs that printing leaves alone the bytes the engine
  still has to read: \<open>K\<close> holds of the addresses whose content stays that of \<open>m0\<close>.
\<close>

locale putch_text = putch_inv putch I
  for putch :: "('d, 's) putch" and I :: "('d, 's) pst \<Rightarrow> bool" +
  fixes K :: "u64 \<Rightarrow> bool" and m0 :: mem
  assumes keeps: "I w \<Longrightarrow> K a \<Longrightarrow> pmem w a = m0 a"
begin

lemma put_str_text:
  "kstr K m0 p xs \<Longrightarrow> I w \<Longrightarrow>
   put_str putch False p prec wid w =
     cret (wid - of_nat (length (cut prec xs)), fold putch (map scast (cut prec xs)) w)"
proof (induction xs arbitrary: p prec wid w)
  case Nil
  then show ?case by (subst put_str.simps) (simp add: kstr_Nil keeps)
next
  case (Cons x xs)
  then have m: "pmem w p = x" "x \<noteq> 0" and t: "kstr K m0 (p + 1) xs" by (simp_all add: kstr_Cons keeps)
  have nz: "(scast x :: i32) \<noteq> 0" using m(2) by (simp add: scast8_eq_0)
  show ?case
    using m(1) nz Cons.IH [OF t putch_I [OF Cons.prems(2)], of "if prec <s 0 then prec else prec - 1" "wid - 1" "scast x"]
    by (subst put_str.simps) (simp add: cut_Cons diff_diff_eq)
qed

lemma put_string_text:
  assumes "kstr K m0 (if p = 0 then null_str L else p) xs" "length xs < 2 ^ 29" "I w"
    "- 1000 \<le> sint (width sp)" "altflag sp = False"
  shows "put_string L putch p sp w = cret (fold putch (string_text sp xs) w)"
proof -
  let ?p = "if p = 0 then null_str L else p" and ?ys = "cut (precision sp) xs"
  let ?l = "length ?ys"
  have l: "?l < 2 ^ 29" using length_cut_le [of "precision sp" xs] assms(2) by linarith
  then have sl: "sint (of_nat ?l :: i32) = int ?l" by (intro sint32_of_nat) simp
  have sub: "sint (wd - of_nat ?l) = sint wd - int ?l" if "- 1000 \<le> sint wd" for wd :: i32
    using that l sl sint32_bounds(2) [of wd] by (subst sint32_sub) simp_all
  have str: "put_str putch False ?p (precision sp) wid w' = cret (wid - of_nat ?l, fold putch (map scast ?ys) w')"
    if "I w'" for wid w' using put_str_text [OF assms(1) that] .
  have "cstr (pmem w) ?p xs"
    using kpre_cong [of K m0 ?p "xs @ [0]" "pmem w"] keeps [OF assms(3)] assms(1) kstr_cstr
    unfolding kstr_def by blast
  then have len: "strnlen (pmem w) ?p (scast (precision sp)) = of_nat ?l"
    using assms(2) by (rule strnlen_cut)
  show ?thesis
  proof (cases "0 <s width sp \<and> padc sp \<noteq> c_minus")
    case True
    define wd where "wd = width sp - of_nat ?l"
    have "sint wd = sint (width sp) - int ?l" using sub [OF assms(4)] by (simp add: wd_def)
    then have n: "nat (sint wd) = nat (sint (width sp)) - ?l" by simp
    have neg: "nat (sint ((if 0 <s wd then 0 else wd) - of_nat ?l)) = 0"
    proof (cases "0 <s wd")
      case False
      then have "sint wd \<le> 0" "- 1000 - 2 ^ 29 \<le> sint wd"
        using l \<open>sint wd = _\<close> assms(4) by (simp_all add: word_sless_alt)
      then have "sint (wd - of_nat ?l) = sint wd - int ?l" using l sl by (subst sint32_sub) simp_all
      with False \<open>sint wd \<le> 0\<close> show ?thesis by simp
    qed (use sub [of 0] in simp)
    have "put_string L putch p sp w = cret (put_pad putch c_space ((if 0 <s wd then 0 else wd) - of_nat ?l)
        (fold putch (map scast ?ys) (put_pad putch (ucast (padc sp)) wd w)))"
      using True len str [OF put_pad_I [OF assms(3)]] assms(5)
      by (simp add: put_string_def Let_def wd_def)
    with True n show ?thesis
      unfolding put_pad_fold neg by (simp add: string_text_def Let_def)
  next
    case False
    have n: "nat (sint (width sp - of_nat ?l)) = nat (sint (width sp)) - ?l" using sub [OF assms(4)] by simp
    have "put_string L putch p sp w = cret (put_pad putch c_space (width sp - of_nat ?l) (fold putch (map scast ?ys) w))"
      using False str [OF assms(3)] assms(5) by (auto simp: put_string_def Let_def)
    moreover have "\<not> 0 <s width sp \<Longrightarrow> nat (sint (width sp)) = 0" by (simp add: word_sless_alt)
    ultimately show ?thesis
      using False unfolding put_pad_fold n by (auto simp: string_text_def Let_def)
  qed
qed

lemma signed_text_prints:
  assumes "2 \<le> base" "base \<le> 16" "- 1000 \<le> sint (width sp)"
  shows "put_signed putch num (of_nat base) sp w = cret (fold putch (signed_text sp base num) w)"
  by (simp add: put_signed_def signed_text_def printnum_number_text [OF assms])

lemma directive_text:
  assumes "conv_text L K m0 sp c args out rest" "I w" "- 1000 \<le> sint (width sp)" "altflag sp = False"
  shows "directive L putch c fmt args sp w = cret (fmt, rest, fold putch out w)"
  using assms(1)
proof cases
  case (conv_s a xs)
  then show ?thesis
    using put_string_text [OF conv_s(4,5) assms(2-4)] by (simp add: directive_def va_arg64_def)
qed (use signed_text_prints [of 10 sp] signed_text_prints [of 8 sp] printnum_number_text [of 10 sp putch]
      printnum_number_text [of 16 sp putch] assms(3)
    in \<open>simp_all add: directive_def va_arg64_def va_arg32_def getint_def getuint_def word_sle_eq\<close>)

lemma width_spec_of: "spec_args fl wd pr args sp args' \<Longrightarrow> item_ok (Conv fl wd pr c) \<Longrightarrow>
    - 1000 \<le> sint (width sp) \<and> altflag sp = False"
  by (erule spec_args.cases; cases wd) (auto simp: spec_of_def wid_val_def sint32_of_nat)

lemma kpre_now: "kpre K m0 p xs \<Longrightarrow> I w \<Longrightarrow> kpre K (pmem w) p xs"
  by (rule kpre_cong) (simp_all add: keeps)

lemma plain_text_stop:
  "kpre K m0 fmt [x] \<Longrightarrow> I w \<Longrightarrow> x \<in> {0, c_pct, c_esc} \<Longrightarrow> plain_text putch fmt w = cret (x, fmt + 1, w)"
  by (subst plain_text.simps) (auto simp: keeps)

text \<open>A conversion is consumed whole: its specification, its arguments, its text.\<close>

lemma vprintfmt_conv:
  assumes "kpre K m0 fmt (render (Conv fl wd pr c))" "item_ok (Conv fl wd pr c)" "I w"
    "spec_args fl wd pr args sp args'" "conv_text L K m0 sp c args' out args''"
  shows "vprintfmt L putch fmt args w =
    vprintfmt L putch (fmt + of_nat (length (render (Conv fl wd pr c)))) args'' (fold putch out w)"
proof -
  let ?r = "tl (render (Conv fl wd pr c))"
  have k: "kpre K m0 fmt [c_pct]" "kpre K m0 (fmt + 1) ?r" using assms(1) by simp_all
  have "reswitch (pmem w) (fmt + 1) args pspec0 = cret (c, fmt + 1 + of_nat (length ?r), args', sp)"
    by (rule reswitch_spec [OF kpre_now [OF k(2) assms(3)] assms(2,4)])
  moreover have "directive L putch c f args' sp w = cret (f, args'', fold putch out w)" for f
    using directive_text [OF assms(5,3)] width_spec_of [OF assms(4,2)] by blast
  moreover have "c \<noteq> c_e" using assms(2) by (auto simp: conv_chars_def)
  ultimately show ?thesis
    using plain_text_stop [OF k(1) assms(3)]
    by (subst vprintfmt.simps) (simp add: add.assoc)
qed

text \<open>On a rendered format the engine returns, having printed the specified characters in order.\<close>

lemma vprintfmt_text:
  "formats L K m0 its args out \<Longrightarrow> list_all item_ok its \<Longrightarrow> kpre K m0 fmt (concat (map render its) @ [0]) \<Longrightarrow>
   I w \<Longrightarrow> vprintfmt L putch fmt args w = cret (fold putch out w)"
proof (induction arbitrary: fmt w rule: formats.induct)
  case (fmt_nil args)
  then show ?case using plain_text_stop [of fmt 0 w] by (subst vprintfmt.simps) simp
next
  case (fmt_lit its args out c)
  have "pmem w fmt = c" using fmt_lit.prems by (simp add: keeps)
  then have "plain_text putch fmt w = plain_text putch (fmt + 1) (putch (ucast c) w)"
    using fmt_lit.prems by (subst plain_text.simps) simp
  then have "vprintfmt L putch fmt args w = vprintfmt L putch (fmt + 1) args (putch (ucast c) w)"
    by (simp add: vprintfmt.simps [of L putch fmt] vprintfmt.simps [of L putch "fmt + 1"])
  also have "\<dots> = cret (fold putch out (putch (ucast c) w))"
    using fmt_lit.prems by (intro fmt_lit.IH) (simp_all add: putch_I)
  finally show ?case by simp
next
  case (fmt_pct its args out)
  have k: "kpre K m0 fmt [c_pct]" "pmem w (fmt + 1) = c_pct" using fmt_pct.prems by (simp_all add: keeps)
  then have "reswitch (pmem w) (fmt + 1) args pspec0 = cret (c_pct, fmt + 1 + 1, args, pspec0)"
    by (subst reswitch.simps) simp
  then have "vprintfmt L putch fmt args w = vprintfmt L putch (fmt + 1 + 1) args (putch c_pct w)"
    using plain_text_stop [OF k(1) fmt_pct.prems(3)]
    by (subst vprintfmt.simps) (simp add: directive_def add.assoc)
  also have "\<dots> = cret (fold putch out (putch c_pct w))"
    using fmt_pct.prems by (intro fmt_pct.IH) (simp_all add: putch_I)
  finally show ?case by simp
next
  case (fmt_conv fl wd pr args sp args' c out args'' its outs)
  have "vprintfmt L putch fmt args w =
      vprintfmt L putch (fmt + of_nat (length (render (Conv fl wd pr c)))) args'' (fold putch out w)"
    using fmt_conv by (intro vprintfmt_conv) (simp_all add: kpre_append del: render.simps)
  also have "\<dots> = cret (fold putch outs (fold putch out w))"
    using fmt_conv by (intro fmt_conv.IH) (simp_all add: kpre_append fold_I del: render.simps)
  finally show ?case by simp
qed

end

section \<open>Printing to a buffer\<close>

definition in_block :: "u64 \<Rightarrow> nat \<Rightarrow> u64 \<Rightarrow> bool" where
  "in_block b n a \<longleftrightarrow> unat b \<le> unat a \<and> unat a < unat b + n"

interpretation sprint_text: putch_text sprintputch "sprint_inv b k m0" "\<lambda>a. \<not> in_block b k a" m0 for b k m0
  by unfold_locales (auto simp: sprint_inv_def in_block_def)

lemma fold_sprintputch:
  "unat b + k < 2 ^ 64 \<Longrightarrow> unat e = unat b + k \<Longrightarrow>
   fold sprintputch cs (\<lparr>buf = b, ebuf = e, cnt = c\<rparr>, s) =
     (\<lparr>buf = b + of_nat (min (length cs) k), ebuf = e, cnt = c + of_nat (length cs)\<rparr>,
      s\<lparr>mem := write_bytes (mem s) b (map ucast (take k cs))\<rparr>)"
proof (induction cs arbitrary: b k c s)
  case (Cons x cs)
  show ?case
  proof (cases k)
    case 0
    then have "\<not> b < e" using Cons.prems by (simp add: word_less_nat_alt)
    with 0 Cons.prems Cons.IH [of b 0 "c + 1" s] show ?thesis
      by (simp add: sprintputch_def add.assoc)
  next
    case (Suc j)
    then have "b < e" and "unat (b + 1) = Suc (unat b)"
      using Cons.prems unat_add_less [of b 1] by (simp_all add: word_less_nat_alt)
    with Suc Cons.prems Cons.IH [of "b + 1" j "c + 1" "s\<lparr>mem := (mem s)(b := ucast x)\<rparr>"]
    show ?thesis by (simp add: sprintputch_def add.assoc fun_upd_def)
  qed
qed simp

lemma vsnprintf_text:
  assumes "list_all item_ok its"
    and "kpre (\<lambda>a. \<not> in_block b (nat (sint n) - 1) a) (mem s) fmt (concat (map render its) @ [0])"
    and "formats L (\<lambda>a. \<not> in_block b (nat (sint n) - 1) a) (mem s) its args out"
    and "b \<noteq> 0" "1 \<le>s n" "unat b + nat (sint n) \<le> 2 ^ 64"
  shows "vsnprintf L b n fmt args s =
    cret (of_nat (length out), s\<lparr>mem := write_bytes (mem s) b (map ucast (take (nat (sint n) - 1) out) @ [0])\<rparr>)"
proof -
  let ?k = "nat (sint n) - 1" and ?sb = "\<lparr>buf = b, ebuf = b + scast n - 1, cnt = 0\<rparr>"
  have inv: "sprint_inv b ?k (mem s) (?sb, s)" by (rule sprint_inv_start [OF assms(5,6)])
  have "vprintfmt L sprintputch fmt args (?sb, s) = cret (fold sprintputch out (?sb, s))"
    by (rule sprint_text.vprintfmt_text [OF assms(3,1,2) inv])
  also have "fold sprintputch out (?sb, s) =
      (\<lparr>buf = b + of_nat (min (length out) ?k), ebuf = b + scast n - 1, cnt = of_nat (length out)\<rparr>,
       s\<lparr>mem := write_bytes (mem s) b (map ucast (take ?k out))\<rparr>)"
    using inv fold_sprintputch [of b ?k "b + scast n - 1" out 0 s] by (simp add: sprint_inv_def)
  finally have v: "vprintfmt L sprintputch fmt args (?sb, s) =
    cret (\<lparr>buf = b + of_nat (min (length out) ?k), ebuf = b + scast n - 1, cnt = of_nat (length out)\<rparr>,
       s\<lparr>mem := write_bytes (mem s) b (map ucast (take ?k out))\<rparr>)" .
  have "\<not> n <s 1" using assms(5) by (simp add: word_sle_eq word_sless_alt)
  with v assms(4) show ?thesis by (simp add: vsnprintf_def Let_def write_append)
qed

text \<open>
  C2. \<^verbatim>\<open>vsnprintf\<close> prints what the format says: on the text of a list of items (plain characters,
  \<^verbatim>\<open>%%\<close> and the conversions c, s, d, u, o, x, p with flag, width and precision) that lies
  outside the buffer, it returns the number of characters of the specified output, and memory has changed
  by the first \<open>n - 1\<close> of these characters and a NUL written at the start of the buffer, and by nothing else.
  (The specified output is what the engine's users see. It differs from the comments of \<^verbatim>\<open>printfmt.c\<close> for \<^verbatim>\<open>%o\<close> of a negative
  argument, which has a sign, for \<^verbatim>\<open>-\<close> with a width on a number, which pads on the left with minus signs, and for a width on
  \<^verbatim>\<open>%s\<close>, which is respected; elsewhere it is that of the comments, by \<open>conv_documented\<close>.)
\<close>

theorem vsnprintf_prints:
  assumes "list_all item_ok its"
    and "kpre (\<lambda>a. \<not> in_block b (nat (sint n) - 1) a) (mem s) fmt (concat (map render its) @ [0])"
    and "formats L (\<lambda>a. \<not> in_block b (nat (sint n) - 1) a) (mem s) its args out"
    and "b \<noteq> 0" "1 \<le>s n" "unat b + nat (sint n) \<le> 2 ^ 64"
  shows "vsnprintf L b n fmt args s =
    cret (of_nat (length out), s\<lparr>mem := write_bytes (mem s) b (map ucast (take (nat (sint n) - 1) out) @ [0])\<rparr>)"
  by (rule vsnprintf_text [OF assms])

text \<open>\<^verbatim>\<open>snprintf(buf, 4, "%04x", 255)\<close>: \<^verbatim>\<open>"00ff"\<close> is cut to three characters, the result is 4.\<close>

theorem vsnprintf_prints_witness:
  "\<exists>m. bytes m 64 5 = [0x25, 0x30, 0x34, 0x78, 0]
   \<and> vsnprintf demo_rodata 100 4 64 [255] \<lparr>mem = m, color_flag = 7, color_parsing = 0\<rparr>
     = cret (4, \<lparr>mem = write_bytes m 100 [0x30, 0x30, 0x66, 0], color_flag = 7, color_parsing = 0\<rparr>)"
proof -
  let ?m = "(\<lambda>_. 0)(64 := 0x25, 65 := 0x30, 66 := 0x34, 67 := 0x78)"
  let ?K = "\<lambda>a. \<not> in_block 100 (nat (sint (4 :: i32)) - 1) a"
  let ?its = "[Conv Zero (Some 4) NoPrec c_x]"
  let ?s = "\<lparr>mem = ?m, color_flag = 7, color_parsing = 0\<rparr> :: pstate"
  have t: "num_text 10 4 = [0x34]" "num_text 16 255 = [0x66, 0x66]"
    by (simp_all add: num_text.simps hexdigit_def)
  have 1: "list_all item_ok ?its" by (simp add: conv_chars_def)
  have 2: "kpre ?K (mem ?s) 64 (concat (map render ?its) @ [0])"
    by (simp add: t in_block_def)
  have o: "number_text (spec_of Zero (Some 4) NoPrec (- 1)) 16 255 = [0x30, 0x30, 0x66, 0x66]"
  proof -
    have "replicate 2 x = [x, x]" for x :: i32 by (simp add: numeral_2_eq_2)
    then show ?thesis by (simp add: number_text_def t spec_of_def wid_val_def)
  qed
  have "formats demo_rodata ?K ?m ?its [255] (number_text (spec_of Zero (Some 4) NoPrec (- 1)) 16 255 @ [])"
    by (rule fmt_conv [OF no_prec conv_x fmt_nil])
  then have 3: "formats demo_rodata ?K (mem ?s) ?its [255] [0x30, 0x30, 0x66, 0x66]" by (simp add: o)
  have "vsnprintf demo_rodata 100 4 64 [255] ?s =
      cret (4, ?s\<lparr>mem := write_bytes ?m 100 [0x30, 0x30, 0x66, 0]\<rparr>)"
    using vsnprintf_prints [OF 1 2 3] by (simp add: word_sle_eq del: write_bytes.simps)
  then show ?thesis by (intro exI [of _ ?m]) (simp add: bytes_numeral del: write_bytes.simps)
qed

section \<open>Numerals and strtol\<close>

lemma hexdigit_strtol:
  assumes "d < b" "b \<le> 16"
  shows "digit_below (of_nat b) (hexdigit (of_nat d)) \<and> digit_val (hexdigit (of_nat d)) = of_nat d
    \<and> hexdigit (of_nat d) \<notin> {0, 0x09, 0x20, 0x2B, 0x2D, 0x78}"
proof -
  have d: "d \<in> {0, 1, 2, 3, 4, 5, 6, 7, 8, 9, 10, 11, 12, 13, 14, 15}"
  proof -
    have "d < 16" using assms by linarith
    then show ?thesis unfolding insert_iff empty_iff by presburger
  qed
  then have s: "strtol_digit (hexdigit (of_nat d)) = Some (of_nat d)"
    and h: "hexdigit (of_nat d) \<notin> {0, 0x09, 0x20, 0x2B, 0x2D, 0x78}"
    by (elim insertE emptyE; simp add: hexdigit_def strtol_digit_def word_sle_eq)+
  have "sint (of_nat d :: i32) = int d" "sint (of_nat b :: i32) = int b"
    using assms by (simp_all add: sint32_of_nat)
  then have "\<not> (of_nat b :: i32) \<le>s of_nat d" using assms by (simp add: word_sle_eq)
  moreover have "scast (of_nat d :: i32) = (of_nat d :: i64)" using assms by (intro scast_nat_small) simp
  ultimately show ?thesis using s h by (simp add: digit_below_def digit_val_def)
qed

lemma num_text_strtol:
  assumes "2 \<le> b" "b \<le> 16"
  shows "(\<forall>c \<in> set (num_text b n). digit_below (of_nat b) c \<and> c \<notin> {0, 0x09, 0x20, 0x2B, 0x2D, 0x78})
    \<and> num_text b n \<noteq> [] \<and> foldl (\<lambda>v c. v * of_nat b + digit_val c) (0 :: i64) (num_text b n) = of_nat n"
proof (induction n rule: less_induct)
  case (less n)
  show ?case
  proof (cases "b \<le> n")
    case True
    with assms have "n div b < n" by simp
    note IH = less [OF this]
    have "n mod b < b" using assms by simp
    note h = hexdigit_strtol [OF this assms(2)]
    have "of_nat (n div b) * of_nat b + of_nat (n mod b) = (of_nat (n div b * b + n mod b) :: i64)"
      by (simp only: of_nat_add of_nat_mult)
    also have "n div b * b + n mod b = n" by simp
    finally show ?thesis
      using True assms IH h by (simp add: num_text.simps [of b n])
  next
    case False
    with hexdigit_strtol [of n b] assms show ?thesis by (simp add: num_text.simps [of b n])
  qed
qed

lemma digit_below_0: "\<not> digit_below b 0"
  by (simp add: digit_below_def strtol_digit_def word_sle_eq)

lemma strtol_digits_num_text:
  assumes "2 \<le> b" "b \<le> 16" "cstr m p (num_text b n)"
  shows "strtol_digits m p (of_nat b) 0 = Some (of_nat n, p + of_nat (length (num_text b n)))"
proof -
  have "scast (of_nat b :: i32) = (of_nat b :: i64)" using assms by (intro scast_nat_small) simp
  moreover have "\<forall>i < length (num_text b n). m (p + of_nat i) = num_text b n ! i"
    using assms(3) cstr_nth by blast
  ultimately show ?thesis
    using strtol_digits_eval [of "num_text b n" m p "of_nat b" 0] num_text_strtol [OF assms(1,2), of n]
      cstr_end [OF assms(3)] digit_below_0 by simp
qed

lemma strtol_prefix_num_text:
  assumes "2 \<le> b" "b \<le> 16" "cstr m p (num_text b n)"
  shows "strtol_prefix m p (of_nat b) = (of_nat b, p)" "m p \<notin> {0x09, 0x20, 0x2B, 0x2D}"
proof -
  obtain c cs where c: "num_text b n = c # cs" using num_text_strtol [OF assms(1,2), of n] by (cases "num_text b n") auto
  have n: "\<forall>x \<in> set (c # cs). x \<notin> {0, 0x09, 0x20, 0x2B, 0x2D, 0x78}"
    using num_text_strtol [OF assms(1,2), of n] c by simp
  have p: "m p = c" "cstr m (p + 1) cs" using assms(3) c by simp_all
  then have "m (p + 1) \<noteq> 0x78" using n by (cases cs) auto
  moreover have "unat (of_nat b :: i32) = b" using assms by (simp add: unat_of_nat)
  then have "(of_nat b :: i32) \<noteq> 0" using assms by auto
  ultimately show "strtol_prefix m p (of_nat b) = (of_nat b, p)" by (simp add: strtol_prefix_def)
  show "m p \<notin> {0x09, 0x20, 0x2B, 0x2D}" using n p by auto
qed

lemma map_ucast_inj: "map ucast xs = (map ucast ys :: i32 list) \<longleftrightarrow> xs = (ys :: u8 list)"
proof (rule inj_map_eq_map, rule injI)
  fix x y :: u8 assume "(ucast x :: i32) = ucast y"
  then have "(ucast (ucast x :: i32) :: u8) = ucast (ucast y :: i32)" by simp
  moreover have "(ucast (ucast z :: i32) :: u8) = z" for z :: u8
    by (rule bit_word_eqI) (simp add: bit_simps)
  ultimately show "x = y" by simp
qed

lemma strtol_signed_text:
  assumes "2 \<le> b" "b \<le> 16" "map ucast xs = signed_text (spec_of NoFlag None NoPrec (- 1)) b a" "cstr m p xs"
  shows "strtol m p 0 (of_nat b) = Some (m, a)"
proof (cases "a <s 0")
  case True
  then have "map ucast xs = (map ucast (c_minus # num_text b (unat (- a))) :: i32 list)"
    using assms(3) by (simp add: signed_text_def number_text_def spec_of_def wid_val_def)
  then have xs: "xs = c_minus # num_text b (unat (- a))" by (simp only: map_ucast_inj)
  with assms(4) have p: "m p = c_minus" "cstr m (p + 1) (num_text b (unat (- a)))" by simp_all
  then have "strtol_space m p = Some p" "strtol_sign m p = (True, p + 1)"
    by (simp_all add: strtol_space.simps [of m p] strtol_sign_def)
  with p(2) assms(1,2) show ?thesis
    by (simp add: strtol_def strtol_prefix_num_text(1) strtol_digits_num_text)
next
  case False
  then have "map ucast xs = (map ucast (num_text b (unat a)) :: i32 list)"
    using assms(3) by (simp add: signed_text_def number_text_def spec_of_def wid_val_def)
  then have xs: "xs = num_text b (unat a)" by (simp only: map_ucast_inj)
  with assms(4) have p: "cstr m p (num_text b (unat a))" by simp
  have "strtol_space m p = Some p" "strtol_sign m p = (False, p)"
    using strtol_prefix_num_text(2) [OF assms(1,2) p]
    by (simp_all add: strtol_space.simps [of m p] strtol_sign_def)
  with p assms(1,2) show ?thesis
    by (simp add: strtol_def strtol_prefix_num_text(1) strtol_digits_num_text)
qed

lemma strtol_number_text:
  assumes "2 \<le> b" "b \<le> 16" "map ucast xs = number_text (spec_of NoFlag None NoPrec (- 1)) b a" "cstr m p xs"
  shows "strtol m p 0 (of_nat b) = Some (m, a)"
proof -
  have "map ucast xs = (map ucast (num_text b (unat a)) :: i32 list)"
    using assms(3) by (simp add: number_text_def spec_of_def wid_val_def)
  then have xs: "xs = num_text b (unat a)" by (simp only: map_ucast_inj)
  with assms(4) have p: "cstr m p (num_text b (unat a))" by simp
  have "strtol_space m p = Some p" "strtol_sign m p = (False, p)"
    using strtol_prefix_num_text(2) [OF assms(1,2) p]
    by (simp_all add: strtol_space.simps [of m p] strtol_sign_def)
  with p assms(1,2) show ?thesis
    by (simp add: strtol_def strtol_prefix_num_text(1) strtol_digits_num_text)
qed

lemma cstr_write_bytes: "0 \<notin> set xs \<Longrightarrow> length xs < 2 ^ 64 \<Longrightarrow> cstr (write_bytes m p (xs @ [0])) p xs"
proof (induction xs arbitrary: m p)
  case (Cons x xs)
  have e: "p - (p + 1) = - 1" by simp
  have "unat (p - (p + 1)) = 18446744073709551615" unfolding e by (simp add: unsigned_minus_1_eq_mask mask_eq_exp_minus_1)
  then have "write_bytes (m(p := x)) (p + 1) (xs @ [0]) p = (m(p := x)) p"
    using Cons.prems(2) by (intro write_bytes_outside) simp
  with Cons show ?case by simp
qed simp

text \<open>The text of a number in base 8, 10 or 16 has at most 23 characters, none of them NUL.\<close>

lemma num_text_short: "b \<in> {8, 10, 16} \<Longrightarrow> length (num_text b (unat (a :: u64))) \<le> 22"
proof -
  assume b: "b \<in> {8, 10, 16}"
  have "unat a < 2 ^ 64" by (rule order.strict_trans2 [OF unsigned_less]) simp
  also have "(2 :: nat) ^ 64 \<le> 8 ^ 22" by simp
  also have "8 ^ 22 \<le> b ^ 22" using b by (intro power_mono) auto
  finally show ?thesis using b by (intro length_num_text_base) auto
qed

definition number_conv :: "u8 \<Rightarrow> nat \<Rightarrow> u64 \<Rightarrow> u8 list \<Rightarrow> bool" where
  "number_conv c b a xs \<longleftrightarrow> (c = c_d \<and> b = 10 \<or> c = c_o \<and> b = 8) \<and> map ucast xs = signed_text (spec_of NoFlag None NoPrec (- 1)) b a
     \<or> (c = c_u \<and> b = 10 \<or> c = c_x \<and> b = 16) \<and> map ucast xs = number_text (spec_of NoFlag None NoPrec (- 1)) b a"

lemma number_conv_ex:
  assumes "(c, b) \<in> {(c_d, 10), (c_o, 8), (c_u, 10), (c_x, 16)}"
  shows "\<exists>xs. number_conv c b a xs \<and> 0 \<notin> set xs \<and> length xs \<le> 23"
proof -
  let ?neg = "(c = c_d \<or> c = c_o) \<and> (a :: u64) <s 0"
  let ?xs = "if ?neg then c_minus # num_text b (unat (- a)) else num_text b (unat a)"
  have b: "b \<in> {8, 10, 16}" using assms by auto
  then have "0 \<notin> set (num_text b n)" for n using num_text_strtol [of b n] by fastforce
  moreover have "number_conv c b a ?xs"
    using assms by (auto simp: number_conv_def signed_text_def number_text_def spec_of_def wid_val_def)
  ultimately show ?thesis
    using num_text_short [OF b, of a] num_text_short [OF b, of "- a"] by (intro exI [of _ ?xs]) auto
qed

lemma number_conv_formats:
  assumes "(c, b) \<in> {(c_d, 10), (c_o, 8), (c_u, 10), (c_x, 16)}" "number_conv c b a xs"
  shows "formats L K m [Conv NoFlag None NoPrec c] (a # args) (map ucast xs)"
proof -
  have "conv_text L K m (spec_of NoFlag None NoPrec (- 1)) c (a # args) (map ucast xs) args"
    using assms by (auto simp: number_conv_def intro: conv_text.intros)
  from fmt_conv [OF no_prec this fmt_nil] show ?thesis by simp
qed

lemma number_conv_strtol:
  "(c, b) \<in> {(c_d, 10), (c_o, 8), (c_u, 10), (c_x, 16)} \<Longrightarrow> number_conv c b a xs \<Longrightarrow> cstr m p xs \<Longrightarrow> strtol m p 0 (of_nat b) = Some (m, a)"
  unfolding number_conv_def using strtol_signed_text [of b xs a m p] strtol_number_text [of b xs a m p] by auto

text \<open>
  C33. Printing and reading back: \<^verbatim>\<open>vsnprintf\<close> with the format \<^verbatim>\<open>%d\<close>, \<^verbatim>\<open>%u\<close>, \<^verbatim>\<open>%o\<close> or \<^verbatim>\<open>%x\<close>, on any 64-bit number and a buffer of 24
  bytes or more, returns, and \<^verbatim>\<open>strtol\<close>, called on the buffer with the base of the conversion, returns the number it was
  given, sign included, and stores nothing.
\<close>

theorem print_strtol_roundtrip:
  assumes "(c, b) \<in> {(c_d, 10), (c_o, 8), (c_u, 10), (c_x, 16)}"
    and "kpre (\<lambda>i. \<not> in_block q (nat (sint n) - 1) i) (mem s) fmt [c_pct, c, 0]"
    and "q \<noteq> 0" "24 \<le>s n" "unat q + nat (sint n) \<le> 2 ^ 64"
  shows "\<exists>k t. vsnprintf L q n fmt (a # args) s = cret (k, t) \<and> strtol (mem t) q 0 (of_nat b) = Some (mem t, a)"
proof -
  obtain xs where xs: "number_conv c b a xs" "0 \<notin> set xs" "length xs \<le> 23" using number_conv_ex [OF assms(1)] by blast
  let ?its = "[Conv NoFlag None NoPrec c]"
  have n: "24 \<le> sint n" "1 \<le>s n" using assms(4) by (simp_all add: word_sle_eq)
  have ok: "list_all item_ok ?its" using assms(1) by (auto simp: conv_chars_def)
  have "concat (map render ?its) @ [0] = [c_pct, c, 0]" by simp
  then have k: "kpre (\<lambda>i. \<not> in_block q (nat (sint n) - 1) i) (mem s) fmt (concat (map render ?its) @ [0])" using assms(2) by simp
  note v = vsnprintf_text [OF ok k number_conv_formats [OF assms(1) xs(1)] assms(3) n(2) assms(5), of L args]
  have "take (nat (sint n) - 1) (map ucast xs) = (map ucast xs :: i32 list)" using xs(3) n(1) by simp
  moreover have "map ucast (map ucast xs :: i32 list) = xs"
    by (simp add: comp_def) (rule map_idI, rule bit_word_eqI, simp add: bit_simps)
  ultimately have v': "vsnprintf L q n fmt (a # args) s = cret (of_nat (length xs), s\<lparr>mem := write_bytes (mem s) q (xs @ [0])\<rparr>)"
    using v by simp
  have "cstr (write_bytes (mem s) q (xs @ [0])) q xs" using xs by (intro cstr_write_bytes) auto
  from v' number_conv_strtol [OF assms(1) xs(1) this] show ?thesis by auto
qed

text \<open>\<^verbatim>\<open>snprintf(buf, 24, "%d", -42)\<close>.\<close>

theorem print_strtol_roundtrip_witness:
  "\<exists>k t. vsnprintf demo_rodata 100 24 64 [- 42] \<lparr>mem = (\<lambda>_. 0)(64 := 0x25, 65 := 0x64), color_flag = 7, color_parsing = 0\<rparr> = cret (k, t)
    \<and> strtol (mem t) 100 0 (of_nat 10) = Some (mem t, - 42)"
proof -
  let ?s = "\<lparr>mem = (\<lambda>_. 0)(64 := 0x25, 65 := 0x64), color_flag = 7, color_parsing = 0\<rparr> :: pstate"
  have k: "kpre (\<lambda>i. \<not> in_block 100 (nat (sint (24 :: i32)) - 1) i) (mem ?s) 64 [c_pct, c_d, 0]"
    by (simp add: in_block_def)
  show ?thesis by (rule print_strtol_roundtrip [OF _ k]) (simp_all add: word_sle_eq)
qed

end
