(* ===== verification/Console_Out.thy ===== *)
theory Console_Out
  imports Printfmt_Text
begin

text \<open>
  The output half of \<^verbatim>\<open>kern/console.c\<close>: the serial port, the parallel port, the text-mode display and
  \<^verbatim>\<open>cons_putc\<close>, which feeds all three.

  The devices behind the I/O ports are a parameter: an \<open>hwops\<close> record says how \<^verbatim>\<open>inb\<close> and \<^verbatim>\<open>outb\<close> act on their
  state, and whether the word at \<^verbatim>\<open>CGA_BUF\<close> reads back what is written. The display cells lie in memory at
  \<^verbatim>\<open>crt_buf\<close>. The state extends that of the formatting engine, whose two colour globals
  the display uses.
\<close>

section \<open>State\<close>

record 'h hwops =
  hw_inb :: "u16 \<Rightarrow> 'h \<Rightarrow> u8 \<times> 'h"
  hw_outb :: "u16 \<Rightarrow> u8 \<Rightarrow> 'h \<Rightarrow> 'h"
  cga_present :: bool

record 'h cstate = pstate +
  hw :: 'h
  serial_exists :: bool
  addr_6845 :: u32
  crt_buf :: u64
  crt_pos :: u16
  shift :: u32
  cons_buf :: "u8 list"
  rpos :: u32
  wpos :: u32

definition inb :: "'h hwops \<Rightarrow> u32 \<Rightarrow> 'h cstate \<Rightarrow> u8 \<times> 'h cstate" where
  "inb H port s = (let (b, h) = hw_inb H (ucast port) (hw s) in (b, s\<lparr>hw := h\<rparr>))"

definition outb :: "'h hwops \<Rightarrow> u32 \<Rightarrow> u8 \<Rightarrow> 'h cstate \<Rightarrow> 'h cstate" where
  "outb H port v s = s\<lparr>hw := hw_outb H (ucast port) v (hw s)\<rparr>"

definition delay :: "'h hwops \<Rightarrow> 'h cstate \<Rightarrow> 'h cstate" where
  "delay H s = (let s = snd (inb H 0x84 s); s = snd (inb H 0x84 s); s = snd (inb H 0x84 s)
     in snd (inb H 0x84 s))"

section \<open>Serial port\<close>

definition COM1 :: u32 where
  "COM1 = 0x3F8"

text \<open>Wait until a bit of a status port is set, at most 12800 times.\<close>

function wait_port :: "'h hwops \<Rightarrow> u32 \<Rightarrow> u8 \<Rightarrow> nat \<Rightarrow> 'h cstate \<Rightarrow> 'h cstate" where
  "wait_port H port bits i s =
     (let (b, s) = inb H port s in
      if b AND bits = 0 \<and> i < 12800 then wait_port H port bits (i + 1) (delay H s) else s)"
  by pat_completeness auto
termination
  by (relation "measure (\<lambda>(H, port, bits, i, s). 12800 - i)") auto

definition serial_putc :: "'h hwops \<Rightarrow> i32 \<Rightarrow> 'h cstate \<Rightarrow> 'h cstate" where
  "serial_putc H c s = outb H (COM1 + 0) (ucast c) (wait_port H (COM1 + 5) 0x20 0 s)"

definition serial_init :: "'h hwops \<Rightarrow> 'h cstate \<Rightarrow> 'h cstate" where
  "serial_init H s =
     (let s = outb H (COM1 + 2) 0 s;
          s = outb H (COM1 + 3) 0x80 s;
          s = outb H (COM1 + 0) (of_nat (115200 div 9600)) s;
          s = outb H (COM1 + 1) 0 s;
          s = outb H (COM1 + 3) (0x03 AND NOT 0x80) s;
          s = outb H (COM1 + 4) 0 s;
          s = outb H (COM1 + 1) 0x01 s;
          (b, s) = inb H (COM1 + 5) s;
          s = s\<lparr>serial_exists := b \<noteq> 0xFF\<rparr>;
          s = snd (inb H (COM1 + 2) s)
      in snd (inb H (COM1 + 0) s))"

section \<open>Parallel port\<close>

definition lpt_putc :: "'h hwops \<Rightarrow> i32 \<Rightarrow> 'h cstate \<Rightarrow> 'h cstate" where
  "lpt_putc H c s =
     (let s = wait_port H (0x378 + 1) 0x80 0 s;
          s = outb H (0x378 + 0) (ucast c) s;
          s = outb H (0x378 + 2) (0x08 OR 0x04 OR 0x01) s
      in outb H (0x378 + 2) 0x08 s)"

section \<open>Display\<close>

definition CRT_COLS :: nat where
  "CRT_COLS = 80"

definition CRT_SIZE :: nat where
  "CRT_SIZE = 25 * CRT_COLS"

text \<open>
  When the word at \<^verbatim>\<open>CGA_BUF\<close> reads back, its old content is restored; when it does not, there is no
  memory there to change.
\<close>

definition cga_init :: "'h hwops \<Rightarrow> 'h cstate \<Rightarrow> 'h cstate" where
  "cga_init H s =
     (let (cp, addr) = (if cga_present H then (KERNBASE + 0xB8000, 0x3D4) else (KERNBASE + 0xB0000, 0x3B4));
          s = s\<lparr>addr_6845 := addr\<rparr>;
          s = outb H addr 14 s;
          (hi, s) = inb H (addr + 1) s;
          s = outb H addr 15 s;
          (lo, s) = inb H (addr + 1) s
      in s\<lparr>crt_buf := cp, crt_pos := push_bit 8 (ucast hi) OR ucast lo\<rparr>)"

definition cell_addr :: "'h cstate \<Rightarrow> u16 \<Rightarrow> u64" where
  "cell_addr s i = crt_buf s + 2 * ucast i"

text \<open>\<^verbatim>\<open>crt_pos -= (crt_pos % CRT_COLS)\<close>\<close>

definition line_start :: "u16 \<Rightarrow> u16" where
  "line_start p = p - p mod of_nat CRT_COLS"

text \<open>The \<^verbatim>\<open>switch\<close> of \<^verbatim>\<open>cga_putc\<close>, the tab apart.\<close>

definition cga_switch :: "i32 \<Rightarrow> 'h cstate \<Rightarrow> 'h cstate" where
  "cga_switch c s =
     (if c AND 0xff = 0x08 then
        if crt_pos s > 0 then
          let s = s\<lparr>crt_pos := crt_pos s - 1\<rparr>
          in s\<lparr>mem := store16 (mem s) (cell_addr s (crt_pos s)) (ucast ((c AND NOT 0xff) OR 0x20))\<rparr>
        else s
      else if c AND 0xff = 0x0A then
        s\<lparr>crt_pos := line_start (crt_pos s + of_nat CRT_COLS)\<rparr>
      else if c AND 0xff = 0x0D then s\<lparr>crt_pos := line_start (crt_pos s)\<rparr>
      else s\<lparr>mem := store16 (mem s) (cell_addr s (crt_pos s)) (ucast c), crt_pos := crt_pos s + 1\<rparr>)"

definition last_row :: "nat list" where
  "last_row = [CRT_SIZE - CRT_COLS ..< CRT_SIZE]"

definition cga_scroll :: "'h cstate \<Rightarrow> 'h cstate" where
  "cga_scroll s =
     (if of_nat CRT_SIZE \<le> crt_pos s then
        let m = fst (memmove (mem s) (crt_buf s) (crt_buf s + 2 * of_nat CRT_COLS)
                  (of_nat ((CRT_SIZE - CRT_COLS) * 2)));
            m = fold (\<lambda>i m. store16 m (crt_buf s + 2 * of_nat i) (0x0700 OR 0x20))
                  last_row m
        in s\<lparr>mem := m, crt_pos := crt_pos s - of_nat CRT_COLS\<rparr>
      else s)"

definition cga_cursor :: "'h hwops \<Rightarrow> 'h cstate \<Rightarrow> 'h cstate" where
  "cga_cursor H s =
     (let s = outb H (addr_6845 s) 14 s;
          s = outb H (addr_6845 s + 1) (ucast (drop_bit 8 (crt_pos s))) s;
          s = outb H (addr_6845 s) 15 s
      in outb H (addr_6845 s + 1) (ucast (crt_pos s)) s)"

definition cga_attr :: "i32 \<Rightarrow> i32 \<Rightarrow> i32" where
  "cga_attr flag c =
     (let c = c OR push_bit 8 flag
      in if c AND NOT 0xFF = 0 then c OR 0x0700 else c)"

lemma cga_attr_low: "cga_attr flag c AND 0xff = c AND 0xff"
proof -
  have "(x OR push_bit 8 y) AND 0xff = x AND (0xff :: i32)" for x y
  proof (rule bit_word_eqI)
    fix n assume "n < LENGTH(32)"
    have "bit (0xff :: i32) n \<longleftrightarrow> n < 8"
    proof -
      have "(0xff :: i32) = mask 8" by (simp add: mask_numeral)
      then show ?thesis by (simp only: bit_mask_iff) auto
    qed
    then show "bit ((x OR push_bit 8 y) AND 0xff) n = bit (x AND 0xff) n"
      by (auto simp: bit_simps)
  qed
  from this [of c flag] this [of "c OR push_bit 8 flag" 7] show ?thesis
    by (simp add: cga_attr_def Let_def)
qed

text \<open>
  A tab is printed as five spaces through \<^verbatim>\<open>cons_putc\<close>, so the two routines call each other; a
  space is not a tab, so they do so once.
\<close>

function cga_putc :: "'h hwops \<Rightarrow> i32 \<Rightarrow> 'h cstate \<Rightarrow> 'h cstate"
  and cons_putc :: "'h hwops \<Rightarrow> i32 \<Rightarrow> 'h cstate \<Rightarrow> 'h cstate" where
  "cga_putc H c s =
     (if color_parsing s \<noteq> 0 then s
      else let c = cga_attr (color_flag s) c;
               s = (if c AND 0xff = 0x09 then
                      cons_putc H 0x20 (cons_putc H 0x20 (cons_putc H 0x20 (cons_putc H 0x20 (cons_putc H 0x20 s))))
                    else cga_switch c s)
           in cga_cursor H (cga_scroll s))"
| "cons_putc H c s = cga_putc H c (lpt_putc H c (serial_putc H c s))"
  by pat_completeness auto
termination
  by (relation "measure (\<lambda>x. case x of Inl (H, c, s) \<Rightarrow> if c AND 0xff = 0x09 then 2 else 0
        | Inr (H, c, s) \<Rightarrow> if c AND 0xff = 0x09 then 3 else 1)")
    (auto simp: cga_attr_low)

definition cputchar :: "'h hwops \<Rightarrow> i32 \<Rightarrow> 'h cstate \<Rightarrow> 'h cstate" where
  "cputchar H c s = cons_putc H c s"

declare cga_putc.simps [simp del] cons_putc.simps [simp del] wait_port.simps [simp del]

section \<open>Display cells\<close>

abbreviation "cell b i \<equiv> b + 2 * of_nat i :: u64"

lemma cell_bytes: "cell b i = b + of_nat (2 * i)" "cell b i + 1 = b + of_nat (2 * i + 1)"
  by (simp_all add: add.assoc)

lemma offset_eq_iff: "x < 4000 \<Longrightarrow> y < 4000 \<Longrightarrow> (b :: u64) + of_nat x = b + of_nat y \<longleftrightarrow> x = y"
  by (simp add: word_of_nat_eq_iff take_bit_nat_eq_self)

lemma load16_store16_same: "load16 (store16 m a v) a = v"
proof -
  have "a \<noteq> a + 1" by simp
  moreover have "(ucast (ucast v :: u8) :: u16) OR push_bit 8 (ucast (ucast (drop_bit 8 v) :: u8)) = v"
    by (rule bit_word_eqI) (auto simp: bit_simps)
  ultimately show ?thesis by (simp add: load16_def store16_def)
qed

lemma load16_store16:
  assumes "i < 2000" "j < 2000"
  shows "load16 (store16 m (cell b j) v) (cell b i) = (if i = j then v else load16 m (cell b i))"
proof (cases "i = j")
  case True
  then show ?thesis by (simp only: load16_store16_same) simp
next
  case False
  have "2 * i \<noteq> 2 * j + 1" "2 * i + 1 \<noteq> 2 * j" by presburger+
  then have "cell b i \<noteq> cell b j" "cell b i \<noteq> cell b j + 1" "cell b i + 1 \<noteq> cell b j" "cell b i + 1 \<noteq> cell b j + 1"
    using False assms unfolding cell_bytes(2) unfolding cell_bytes(1) by (subst offset_eq_iff; simp)+
  with False show ?thesis by (simp add: load16_def store16_def)
qed

lemma load16_copy_up:
  assumes "i < 2000" "k = 2 * j" "n = 2 * q" "q \<le> 2000" "j \<le> 2000"
  shows "load16 (copy m b (b + of_nat k) n) (cell b i) =
    (if i < q then load16 m (cell b (i + j)) else load16 m (cell b i))"
proof -
  have u: "unat (of_nat x :: u64) = x" if "x < 4000" for x using that by (simp add: unat_of_nat)
  have c: "copy m b (b + of_nat k) n (b + of_nat x) = (if x < n then m (b + of_nat (x + k)) else m (b + of_nat x))"
    if "x < 4000" for x using u [OF that] by (simp add: copy_def add.commute add.left_commute)
  have "2 * i < 4000" "2 * i + 1 < 4000" using assms(1) by simp_all
  from c [OF this(1)] c [OF this(2)] assms show ?thesis
    unfolding load16_def cell_bytes(2) unfolding cell_bytes(1) by (simp add: algebra_simps)
qed

lemma load16_fold_store16:
  assumes "i < 2000" "\<forall>j \<in> set js. j < 2000"
  shows "load16 (fold (\<lambda>j m. store16 m (cell b j) v) js m) (cell b i) =
    (if i \<in> set js then v else load16 m (cell b i))"
  using assms(2)
proof (induction js arbitrary: m)
  case (Cons j js)
  then show ?case using load16_store16 [OF assms(1), of j m b v] by auto
qed simp

text \<open>Writes to the cells touch no byte outside the display.\<close>

lemma store16_frame:
  assumes "unat b + 4000 \<le> 2 ^ 64" "j < 2000" "\<not> in_block b 4000 a"
  shows "store16 m (cell b j) v a = m a"
proof -
  have "in_block b 4000 (b + of_nat x)" if "x < 4000" for x
  proof -
    have "unat (b + of_nat x) = unat b + x" using assms(1) that by (intro unat_add_less) simp
    with that show ?thesis by (simp add: in_block_def)
  qed
  from this [of "2 * j"] this [of "2 * j + 1"] assms(2)
  have "in_block b 4000 (cell b j)" "in_block b 4000 (cell b j + 1)"
    unfolding cell_bytes(2) unfolding cell_bytes(1) by simp_all
  with assms(3) have "a \<noteq> cell b j" "a \<noteq> cell b j + 1" by auto
  then show ?thesis by (simp add: store16_def)
qed

lemma fold_store16_frame:
  assumes "unat b + 4000 \<le> 2 ^ 64" "\<not> in_block b 4000 a" "\<forall>j \<in> set js. j < 2000"
  shows "fold (\<lambda>j m. store16 m (cell b j) v) js m a = m a"
  using assms(3)
proof (induction js arbitrary: m)
  case (Cons j js)
  then show ?case using store16_frame [OF assms(1) _ assms(2), of j m v] by simp
qed simp

lemma copy_frame:
  assumes "unat b + 4000 \<le> 2 ^ 64" "n \<le> 4000" "\<not> in_block b 4000 a"
  shows "copy m b s n a = m a"
proof -
  have "\<not> unat (a - b) < n"
  proof
    assume l: "unat (a - b) < n"
    have "unat (b + of_nat (unat (a - b))) = unat b + unat (a - b)"
      using assms(1,2) l by (intro unat_add_less) simp
    then have "unat a = unat b + unat (a - b)" by simp
    with assms(2,3) l show False by (simp add: in_block_def)
  qed
  then show ?thesis by (simp add: copy_def)
qed

section \<open>Devices\<close>

text \<open>The port routines change nothing but the devices.\<close>

definition hw_eq :: "'h cstate \<Rightarrow> 'h cstate \<Rightarrow> bool" where
  "hw_eq s t \<longleftrightarrow> t = s\<lparr>hw := hw t\<rparr>"

lemma hw_eq_refl [intro]: "hw_eq s s"
  by (simp add: hw_eq_def)

lemma hw_eq_trans: "hw_eq s t \<Longrightarrow> hw_eq t u \<Longrightarrow> hw_eq s u"
  by (metis hw_eq_def cstate.update_convs(1) cstate.surjective cstate.select_convs(1))

lemma hw_eq_inb [intro]: "hw_eq s t \<Longrightarrow> hw_eq s (snd (inb H port t))"
  by (erule hw_eq_trans) (simp add: hw_eq_def inb_def case_prod_unfold Let_def)

lemma hw_eq_outb [intro]: "hw_eq s t \<Longrightarrow> hw_eq s (outb H port v t)"
  by (erule hw_eq_trans) (simp add: hw_eq_def outb_def)

lemma hw_eq_wait_port: "hw_eq s (wait_port H port bits i s)"
proof (induction H port bits i s rule: wait_port.induct)
  case (1 H port bits i s)
  obtain b t where bt: "inb H port s = (b, t)" by (cases "inb H port s")
  have t: "hw_eq s t" using hw_eq_inb [OF hw_eq_refl, of s H port] by (simp add: bt)
  then have d: "hw_eq s (delay H t)"
    unfolding delay_def Let_def by (intro hw_eq_inb)
  show ?case
    using 1 [OF refl bt [symmetric]] hw_eq_trans [OF d] t
    by (subst wait_port.simps) (simp add: bt)
qed

lemma hw_eq_serial_putc: "hw_eq s (serial_putc H c s)"
  unfolding serial_putc_def by (intro hw_eq_outb hw_eq_wait_port)

lemma hw_eq_lpt_putc: "hw_eq s (lpt_putc H c s)"
  unfolding lpt_putc_def Let_def by (intro hw_eq_outb hw_eq_wait_port)

lemma hw_eq_cga_cursor: "hw_eq s (cga_cursor H s)"
  unfolding cga_cursor_def Let_def by (intro hw_eq_outb hw_eq_refl)

lemma hw_eqD:
  assumes "hw_eq s t"
  shows "mem t = mem s" "color_flag t = color_flag s" "color_parsing t = color_parsing s"
    "serial_exists t = serial_exists s" "addr_6845 t = addr_6845 s" "crt_buf t = crt_buf s" "crt_pos t = crt_pos s"
    "shift t = shift s" "cons_buf t = cons_buf s" "rpos t = rpos s" "wpos t = wpos s"
proof -
  have t: "t = s\<lparr>hw := hw t\<rparr>" using assms by (simp add: hw_eq_def)
  show "mem t = mem s" "color_flag t = color_flag s" "color_parsing t = color_parsing s"
    "serial_exists t = serial_exists s" "addr_6845 t = addr_6845 s" "crt_buf t = crt_buf s" "crt_pos t = crt_pos s"
    "shift t = shift s" "cons_buf t = cons_buf s" "rpos t = rpos s" "wpos t = wpos s"
    by (subst t, simp)+
qed

section \<open>The display as a terminal\<close>

text \<open>
  The specification: a terminal is its \<open>CRT_SIZE\<close> cells, row by row, and a cursor inside them. A character goes into the cell at the
  cursor; backspace blanks the cell before it; newline and carriage return move to the start of the next and of
  this line; a tab is five spaces. When the cursor has left the screen the cells move up by a row.
\<close>

type_synonym tty = "u16 list \<times> nat"

definition tty_move :: "i32 \<Rightarrow> tty \<Rightarrow> tty" where
  "tty_move c t = (let (cs, p) = t in
     if c AND 0xff = 0x08 then
       if p > 0 then (cs[p - 1 := ucast ((c AND NOT 0xff) OR 0x20)], p - 1) else (cs, p)
     else if c AND 0xff = 0x0A then (cs, (p div 80 + 1) * 80)
     else if c AND 0xff = 0x0D then (cs, p div 80 * 80)
     else (cs[p := ucast c], p + 1))"

definition tty_scroll :: "tty \<Rightarrow> tty" where
  "tty_scroll t = (let (cs, p) = t in
     if 2000 \<le> p then (drop 80 cs @ replicate 80 0x0720, p - 80) else (cs, p))"

definition tty_put :: "i32 \<Rightarrow> i32 \<Rightarrow> tty \<Rightarrow> tty" where
  "tty_put flag c t =
     (let f = (\<lambda>c t. tty_scroll (tty_move (cga_attr flag c) t))
      in if c AND 0xff = 0x09 then (f 0x20 ^^ 5) t else f c t)"

definition tty_of :: "'h cstate \<Rightarrow> tty" where
  "tty_of s = (map (\<lambda>i. load16 (mem s) (cell (crt_buf s) i)) [0..<2000], unat (crt_pos s))"

text \<open>The invariant of the display: the cursor is on the screen, the cells inside the address space.\<close>

definition crt_ok :: "'h cstate \<Rightarrow> bool" where
  "crt_ok s \<longleftrightarrow> unat (crt_pos s) < 2000 \<and> unat (crt_buf s) + 4000 < 2 ^ 64"

lemma unat_line_start: "unat (line_start p) = unat p div 80 * 80"
proof -
  have "unat (p mod 80) = unat p mod 80" by (simp add: unat_mod)
  moreover have "p mod 80 \<le> p" by (simp add: word_le_nat_alt unat_mod)
  ultimately have "unat (p - p mod 80) = unat p - unat p mod 80" by (simp add: unat_sub)
  then show ?thesis by (simp add: line_start_def CRT_COLS_def minus_mod_eq_div_mult)
qed

lemma tty_of_store:
  assumes "j < 2000"
  shows "map (\<lambda>i. load16 (store16 m (cell b j) v) (cell b i)) [0..<2000] =
    (map (\<lambda>i. load16 m (cell b i)) [0..<2000])[j := v]"
proof (rule nth_equalityI)
  fix i assume "i < length (map (\<lambda>i. load16 (store16 m (cell b j) v) (cell b i)) [0..<2000])"
  then have "i < 2000" by simp
  then show "map (\<lambda>i. load16 (store16 m (cell b j) v) (cell b i)) [0..<2000] ! i =
      (map (\<lambda>i. load16 m (cell b i)) [0..<2000])[j := v] ! i"
    using load16_store16 [of i j m b v] assms by (simp add: nth_list_update)
qed simp

lemma cells_store:
  assumes "unat (p :: u16) < 2000"
  shows "map (\<lambda>i. load16 (store16 m (b + 2 * ucast p) v) (cell b i)) [0..<2000] =
    (map (\<lambda>i. load16 m (cell b i)) [0..<2000])[unat p := v]"
  using tty_of_store [OF assms, of m b v] by simp

text \<open>Each part of \<^verbatim>\<open>cga_putc\<close> implements the corresponding step of the terminal.\<close>

lemma cga_switch_tty:
  assumes "crt_ok s"
  shows "tty_of (cga_switch c s) = tty_move c (tty_of s)"
proof -
  have p: "unat (crt_pos s) < 2000" using assms by (simp add: crt_ok_def)
  have up: "unat (crt_pos s + 80) = unat (crt_pos s) + 80" "unat (crt_pos s + 1) = unat (crt_pos s) + 1"
    using p by (simp_all add: unat_word_ariths)
  have div: "(x + 80) div 80 = x div 80 + 1" for x :: nat by simp
  consider "c AND 0xff = 0x08" "crt_pos s > 0" | "c AND 0xff = 0x08" "crt_pos s = 0" | "c AND 0xff \<noteq> 0x08"
    by (auto simp: word_gt_0)
  then show ?thesis
  proof cases
    case 1
    then have q: "unat (crt_pos s - 1) = unat (crt_pos s) - 1" "0 < unat (crt_pos s)"
      by (simp_all add: unat_minus_one word_gt_0 unat_gt_0)
    with p have "unat (crt_pos s - 1) < 2000" by simp
    from cells_store [OF this] 1 q show ?thesis
      by (simp add: cga_switch_def tty_move_def tty_of_def Let_def cell_addr_def)
  next
    case 2
    then show ?thesis by (simp add: cga_switch_def tty_move_def tty_of_def)
  next
    case 3
    then show ?thesis
      using up cells_store [OF p] div
      by (simp add: cga_switch_def tty_move_def tty_of_def Let_def cell_addr_def unat_line_start CRT_COLS_def)
  qed
qed

lemma cga_switch_frame:
  assumes "crt_ok s" "\<not> in_block (crt_buf s) 4000 a"
  shows "mem (cga_switch c s) a = mem s a"
proof -
  have f: "store16 (mem s) (crt_buf s + 2 * ucast p) v a = mem s a" if "unat (p :: u16) < 2000" for p v
    using store16_frame [OF _ that assms(2), of "mem s" v] assms(1) by (simp add: crt_ok_def)
  have "unat (crt_pos s - 1) < 2000" if "crt_pos s > 0"
    using assms(1) that by (auto simp: crt_ok_def unat_minus_one word_gt_0)
  with f assms(1) show ?thesis
    by (simp add: cga_switch_def Let_def cell_addr_def crt_ok_def)
qed

lemma cga_switch_pos: "crt_ok s \<Longrightarrow> unat (crt_pos (cga_switch c s)) < 2080"
proof -
  assume "crt_ok s"
  then have p: "unat (crt_pos s) < 2000" by (simp add: crt_ok_def)
  have "snd (tty_move c (tty_of s)) < 2080"
    using p by (auto simp: tty_move_def tty_of_def)
  then show ?thesis using cga_switch_tty [OF \<open>crt_ok s\<close>, of c] by (metis tty_of_def snd_conv)
qed

lemma cga_switch_rest:
  "crt_buf (cga_switch c s) = crt_buf s" "color_flag (cga_switch c s) = color_flag s"
  "color_parsing (cga_switch c s) = color_parsing s" "cons_buf (cga_switch c s) = cons_buf s"
  "rpos (cga_switch c s) = rpos s" "wpos (cga_switch c s) = wpos s" "shift (cga_switch c s) = shift s"
  "serial_exists (cga_switch c s) = serial_exists s" "addr_6845 (cga_switch c s) = addr_6845 s"
  by (simp_all add: cga_switch_def Let_def)

text \<open>Scrolling, through \<^verbatim>\<open>memmove\<close> as it is compiled.\<close>

lemma last_row_iff: "i \<in> set last_row \<longleftrightarrow> 1920 \<le> i \<and> i < 2000"
  unfolding last_row_def CRT_SIZE_def CRT_COLS_def set_upt by simp

lemma cga_scroll_mem:
  assumes "unat (crt_buf s) + 4000 < 2 ^ 64" "2000 \<le> unat (crt_pos s)"
  shows "cga_scroll s = s\<lparr>crt_pos := crt_pos s - 80,
    mem := fold (\<lambda>i m. store16 m (cell (crt_buf s) i) 0x0720) last_row
      (copy (mem s) (crt_buf s) (crt_buf s + of_nat 160) 3840)\<rparr>"
proof -
  have "unat (crt_buf s + of_nat 160) = unat (crt_buf s) + 160" using assms(1) by (intro unat_add_less) simp
  then have "memmove (mem s) (crt_buf s) (crt_buf s + 160) 3840 = (copy (mem s) (crt_buf s) (crt_buf s + 160) 3840, crt_buf s)"
    using memmove_copy [of "crt_buf s + 160" 3840 "crt_buf s" "mem s"] assms(1) by simp
  with assms(2) show ?thesis
    by (simp add: cga_scroll_def CRT_SIZE_def CRT_COLS_def word_le_nat_alt Let_def)
qed

lemma cga_scroll_tty:
  assumes "unat (crt_buf s) + 4000 < 2 ^ 64"
  shows "tty_of (cga_scroll s) = tty_scroll (tty_of s)"
proof (cases "2000 \<le> unat (crt_pos s)")
  case True
  have "unat (crt_pos s - 80) = unat (crt_pos s) - 80" using True by (simp add: unat_sub word_le_nat_alt)
  moreover have "map (\<lambda>i. load16 (fold (\<lambda>i m. store16 m (cell b i) v) last_row
      (copy m b (b + of_nat 160) 3840)) (cell b i)) [0..<2000] =
      drop 80 (map (\<lambda>i. load16 m (cell b i)) [0..<2000]) @ replicate 80 v" for m b v
  proof (rule nth_equalityI)
    fix i assume "i < length (map (\<lambda>i. load16 (fold (\<lambda>i m. store16 m (cell b i) v) last_row
      (copy m b (b + of_nat 160) 3840)) (cell b i)) [0..<2000])"
    then have i: "i < 2000" by simp
    then show "map (\<lambda>i. load16 (fold (\<lambda>i m. store16 m (cell b i) v) last_row
      (copy m b (b + of_nat 160) 3840)) (cell b i)) [0..<2000] ! i =
      (drop 80 (map (\<lambda>i. load16 m (cell b i)) [0..<2000]) @ replicate 80 v) ! i"
      using load16_fold_store16 [OF i, of last_row b v] last_row_iff load16_copy_up [OF i, of 160 80 3840 1920 m b]
      by (simp add: nth_append add.commute)
  qed simp
  ultimately show ?thesis
    using cga_scroll_mem [OF assms True] True by (simp add: tty_of_def tty_scroll_def)
next
  case False
  then show ?thesis
    by (simp add: cga_scroll_def tty_of_def tty_scroll_def CRT_SIZE_def CRT_COLS_def word_le_nat_alt)
qed

section \<open>The whole of cons_putc\<close>

text \<open>What output may change: the devices, the cursor and the display bytes.\<close>

definition disp_only :: "'h cstate \<Rightarrow> 'h cstate \<Rightarrow> bool" where
  "disp_only s t \<longleftrightarrow> crt_buf t = crt_buf s \<and> color_flag t = color_flag s \<and> color_parsing t = color_parsing s
     \<and> serial_exists t = serial_exists s \<and> addr_6845 t = addr_6845 s \<and> shift t = shift s
     \<and> cons_buf t = cons_buf s \<and> rpos t = rpos s \<and> wpos t = wpos s
     \<and> (\<forall>a. in_block (crt_buf s) 4000 a \<or> mem t a = mem s a)"

lemma disp_only_trans: "disp_only s t \<Longrightarrow> disp_only t u \<Longrightarrow> disp_only s u"
  unfolding disp_only_def by metis

lemma hw_eq_disp_only: "hw_eq s t \<Longrightarrow> disp_only s t"
  by (simp add: disp_only_def hw_eqD)

lemma hw_eq_tty: "hw_eq s t \<Longrightarrow> tty_of t = tty_of s" and hw_eq_crt_ok: "hw_eq s t \<Longrightarrow> crt_ok t = crt_ok s"
  by (simp_all add: tty_of_def crt_ok_def hw_eqD)

lemma cga_switch_disp: "crt_ok s \<Longrightarrow> disp_only s (cga_switch c s)"
  using cga_switch_frame [of s]
  by (auto simp: disp_only_def cga_switch_rest)

lemma cga_scroll_disp:
  assumes "unat (crt_buf s) + 4000 < 2 ^ 64" "unat (crt_pos s) < 2080"
  shows "disp_only s (cga_scroll s) \<and> crt_ok (cga_scroll s)"
proof (cases "2000 \<le> unat (crt_pos s)")
  case True
  have "unat (crt_pos s - 80) < 2000" using assms(2) True by (simp add: unat_sub word_le_nat_alt)
  moreover have "fold (\<lambda>i m. store16 m (cell (crt_buf s) i) v) last_row (copy (mem s) (crt_buf s) q 3840) a = mem s a"
    if "\<not> in_block (crt_buf s) 4000 a" for a v q
    using fold_store16_frame [of "crt_buf s" a last_row] copy_frame [of "crt_buf s" 3840 a] that assms(1) last_row_iff
    by simp
  ultimately show ?thesis
    using cga_scroll_mem [OF assms(1) True] assms(1) by (auto simp: disp_only_def crt_ok_def)
next
  case False
  then have "cga_scroll s = s" by (simp add: cga_scroll_def CRT_SIZE_def CRT_COLS_def word_le_nat_alt)
  with False assms show ?thesis by (simp add: disp_only_def crt_ok_def)
qed

definition out_step :: "'h cstate \<Rightarrow> 'h cstate \<Rightarrow> (tty \<Rightarrow> tty) \<Rightarrow> bool" where
  "out_step s t f \<longleftrightarrow> crt_ok t \<and> disp_only s t \<and> tty_of t = f (tty_of s)"

lemma out_step_trans: "out_step s t f \<Longrightarrow> out_step t u g \<Longrightarrow> out_step s u (\<lambda>x. g (f x))"
  by (auto simp: out_step_def intro: disp_only_trans)

lemma hw_eq_out_step: "hw_eq s t \<Longrightarrow> crt_ok s \<Longrightarrow> out_step s t (\<lambda>x. x)"
  by (simp add: out_step_def hw_eq_disp_only hw_eq_tty hw_eq_crt_ok)

lemma scroll_cursor_step:
  assumes "unat (crt_buf s) + 4000 < 2 ^ 64" "unat (crt_pos s) < 2080"
  shows "out_step s (cga_cursor H (cga_scroll s)) tty_scroll"
  using cga_scroll_disp [OF assms] cga_scroll_tty [OF assms(1)] hw_eq_cga_cursor [of "cga_scroll s" H]
  by (auto simp: out_step_def hw_eq_tty hw_eq_crt_ok intro: disp_only_trans hw_eq_disp_only)

lemma cga_putc_plain:
  assumes "crt_ok s" "c AND 0xff \<noteq> 0x09" "color_parsing s = 0"
  shows "out_step s (cga_putc H c s) (\<lambda>x. tty_scroll (tty_move (cga_attr (color_flag s) c) x))"
proof -
  let ?t = "cga_switch (cga_attr (color_flag s) c) s"
  have b: "unat (crt_buf ?t) + 4000 < 2 ^ 64" using assms(1) by (simp add: crt_ok_def cga_switch_rest)
  have "out_step ?t (cga_cursor H (cga_scroll ?t)) tty_scroll"
    using scroll_cursor_step [OF b cga_switch_pos [OF assms(1)]] .
  then show ?thesis
    using assms(2,3) disp_only_trans [OF cga_switch_disp [OF assms(1), of "cga_attr (color_flag s) c"]]
    by (subst cga_putc.simps) (auto simp: out_step_def cga_attr_low cga_switch_tty [OF assms(1)])
qed

lemma ports_step: "crt_ok s \<Longrightarrow> out_step s (lpt_putc H c (serial_putc H c s)) (\<lambda>x. x)"
  by (rule hw_eq_out_step [OF hw_eq_trans [OF hw_eq_serial_putc hw_eq_lpt_putc]])

lemma cons_putc_plain:
  assumes "crt_ok s" "c AND 0xff \<noteq> 0x09" "color_parsing s = 0"
  shows "out_step s (cons_putc H c s) (\<lambda>x. tty_scroll (tty_move (cga_attr (color_flag s) c) x))"
proof -
  let ?t = "lpt_putc H c (serial_putc H c s)"
  have t: "out_step s ?t (\<lambda>x. x)" by (rule ports_step [OF assms(1)])
  then have "out_step ?t (cga_putc H c ?t) (\<lambda>x. tty_scroll (tty_move (cga_attr (color_flag s) c) x))"
    using cga_putc_plain [of ?t c H] assms by (simp add: out_step_def disp_only_def)
  with out_step_trans [OF t] show ?thesis by (simp add: cons_putc.simps)
qed

lemma cons_putc_space:
  assumes "crt_ok s" "color_parsing s = 0"
  shows "out_step s ((cons_putc H 0x20 ^^ n) s) ((\<lambda>x. tty_scroll (tty_move (cga_attr (color_flag s) 0x20) x)) ^^ n)"
proof (induction n)
  case 0
  then show ?case using assms by (auto simp: out_step_def disp_only_def)
next
  case (Suc n)
  let ?t = "(cons_putc H 0x20 ^^ n) s"
  have "crt_ok ?t" "color_parsing ?t = 0" "color_flag ?t = color_flag s"
    using Suc assms(2) by (simp_all add: out_step_def disp_only_def)
  then have "out_step ?t (cons_putc H 0x20 ?t) (\<lambda>x. tty_scroll (tty_move (cga_attr (color_flag s) 0x20) x))"
    using cons_putc_plain [of ?t "0x20" H] by simp
  from out_step_trans [OF Suc this] show ?case by (simp add: comp_def)
qed

lemma tty_scroll_on_screen: "snd t < 2000 \<Longrightarrow> tty_scroll t = t"
  by (simp add: tty_scroll_def case_prod_unfold)

lemma cons_putc_step:
  assumes "crt_ok s"
  shows "out_step s (cons_putc H c s) (if color_parsing s \<noteq> 0 then (\<lambda>x. x) else tty_put (color_flag s) c)"
proof -
  let ?t = "lpt_putc H c (serial_putc H c s)"
  have t: "out_step s ?t (\<lambda>x. x)" by (rule ports_step [OF assms(1)])
  then have ct: "crt_ok ?t" "color_parsing ?t = color_parsing s" "color_flag ?t = color_flag s"
    by (simp_all add: out_step_def disp_only_def)
  consider "color_parsing s \<noteq> 0" | "color_parsing s = 0" "c AND 0xff \<noteq> 0x09" | "color_parsing s = 0" "c AND 0xff = 0x09"
    by blast
  then show ?thesis
  proof cases
    case 1
    with ct have "cons_putc H c s = ?t" by (simp add: cons_putc.simps [of H c] cga_putc.simps [of H c])
    with 1 t show ?thesis by simp
  next
    case 2
    with cons_putc_plain [OF assms] show ?thesis by (simp add: out_step_def tty_put_def)
  next
    case 3
    let ?f = "\<lambda>x. tty_scroll (tty_move (cga_attr (color_flag s) 0x20) x)" and ?u = "(cons_putc H 0x20 ^^ 5) ?t"
    have u: "out_step ?t ?u (?f ^^ 5)" using cons_putc_space [OF ct(1), where H = H and n = 5] 3 ct by simp
    have "cons_putc H c s = cga_cursor H (cga_scroll ?u)"
      using 3 ct by (simp add: cons_putc.simps [of H c s] cga_putc.simps [of H c] cga_attr_low eval_nat_numeral)
    moreover have "unat (crt_buf ?u) + 4000 < 2 ^ 64" "unat (crt_pos ?u) < 2000"
      using u by (simp_all add: out_step_def crt_ok_def)
    ultimately have "out_step ?u (cons_putc H c s) tty_scroll" using scroll_cursor_step [of ?u H] by simp
    moreover have "tty_scroll (tty_of ?u) = tty_of ?u"
      using \<open>unat (crt_pos ?u) < 2000\<close> by (intro tty_scroll_on_screen) (simp add: tty_of_def)
    ultimately have "out_step ?u (cons_putc H c s) (\<lambda>x. x)" by (simp add: out_step_def)
    from out_step_trans [OF t out_step_trans [OF u this]] 3 show ?thesis by (simp add: out_step_def tty_put_def)
  qed
qed

section \<open>Properties\<close>

text \<open>
  C3. \<^verbatim>\<open>cons_putc\<close> implements a terminal: from a state with the cursor on the screen it leaves the cursor on the screen, the
  cells and the cursor change as the terminal specification says for the character under the current colour (tabs,
  line ends, backspace and scrolling included; not at all while an escape sequence is being parsed), and no byte of
  memory outside the display changes, whatever the devices answer.
\<close>

theorem cons_putc_terminal:
  assumes "crt_ok s"
  shows "crt_ok (cons_putc H c s)
    \<and> tty_of (cons_putc H c s) = (if color_parsing s \<noteq> 0 then tty_of s else tty_put (color_flag s) c (tty_of s))
    \<and> (\<forall>a. in_block (crt_buf s) 4000 a \<or> mem (cons_putc H c s) a = mem s a)"
  using cons_putc_step [OF assms, of H c] by (auto simp: out_step_def disp_only_def)

definition demo_hw :: "unit hwops" where
  "demo_hw = \<lparr>hw_inb = \<lambda>_ h. (0xFF, h), hw_outb = \<lambda>_ _ h. h, cga_present = True\<rparr>"

definition demo_cstate :: "unit cstate" where
  "demo_cstate = \<lparr>mem = \<lambda>_. 0, color_flag = 7, color_parsing = 0, hw = (), serial_exists = True,
     addr_6845 = 0x3D4, crt_buf = KERNBASE + 0xB8000, crt_pos = 1999, shift = 0,
     cons_buf = replicate 512 0, rpos = 0, wpos = 0\<rparr>"

lemma demo_crt_ok: "crt_ok demo_cstate"
  by (simp add: crt_ok_def demo_cstate_def KERNBASE_def)

text \<open>A character in the last cell scrolls the screen: the cursor is then at the start of the last row.\<close>

theorem cons_putc_terminal_witness:
  "crt_ok demo_cstate \<and> snd (tty_of (cons_putc demo_hw 0x41 demo_cstate)) = 1920"
proof -
  have "snd (tty_of demo_cstate) = 1999" by (simp add: tty_of_def demo_cstate_def)
  moreover have "snd (tty_put 7 0x41 t) = snd (tty_scroll (fst t, snd t + 1))" if "snd t = 1999" for t
    using that by (simp add: tty_put_def cga_attr_def tty_move_def tty_scroll_def case_prod_unfold)
  ultimately have "snd (tty_put 7 0x41 (tty_of demo_cstate)) = 1920"
    by (simp add: tty_scroll_def)
  moreover have "color_parsing demo_cstate = 0" "color_flag demo_cstate = 7" by (simp_all add: demo_cstate_def)
  ultimately show ?thesis
    using cons_putc_terminal [OF demo_crt_ok, of demo_hw "0x41"] demo_crt_ok by simp
qed

end
