(* ===== verification/Kprintf.thy ===== *)
theory Kprintf
  imports Console_Out
begin

text \<open>
  \<^verbatim>\<open>kern/printf.c\<close>: \<^verbatim>\<open>cprintf\<close>, the formatting engine printing to the console.
\<close>

section \<open>Definitions\<close>

text \<open>
  \<^verbatim>\<open>*cnt++\<close> increments the local pointer, not the count behind it, so the count stays what it was.
\<close>

definition putch :: "'h hwops \<Rightarrow> i32 \<Rightarrow> i32 \<times> 'h cstate \<Rightarrow> i32 \<times> 'h cstate" where
  "putch H ch w = (fst w, cputchar H ch (snd w))"

definition vcprintf :: "'h hwops \<Rightarrow> rodata \<Rightarrow> u64 \<Rightarrow> u64 list \<Rightarrow> 'h cstate \<Rightarrow> (i32 \<times> 'h cstate) cres" where
  "vcprintf H L fmt ap s =
     cbind (vprintfmt L (putch H) fmt ap (0, s)) (\<lambda>(cnt, s). cret (cnt, s))"

definition cprintf :: "'h hwops \<Rightarrow> rodata \<Rightarrow> u64 \<Rightarrow> u64 list \<Rightarrow> 'h cstate \<Rightarrow> (i32 \<times> 'h cstate) cres" where
  "cprintf H L fmt ap s = vcprintf H L fmt ap s"

section \<open>The console as a target of the engine\<close>

text \<open>
  What printing leaves alone: everything but the devices, the display and the two colour globals.
\<close>

definition out_only :: "'h cstate \<Rightarrow> 'h cstate \<Rightarrow> bool" where
  "out_only s t \<longleftrightarrow> disp_only (s\<lparr>color_flag := color_flag t, color_parsing := color_parsing t\<rparr>) t"

definition con_inv :: "i32 \<Rightarrow> 'h cstate \<Rightarrow> i32 \<times> 'h cstate \<Rightarrow> bool" where
  "con_inv n s0 w \<longleftrightarrow> fst w = n \<and> crt_ok (snd w) \<and> out_only s0 (snd w)"

lemma out_only_trans: "out_only s t \<Longrightarrow> disp_only t u \<Longrightarrow> out_only s u"
  unfolding out_only_def disp_only_def by (simp, metis)

lemma con_inv_putch: "con_inv n s0 w \<Longrightarrow> con_inv n s0 (putch H c w)"
  using cons_putc_step [of "snd w" H c]
  by (auto simp: con_inv_def putch_def cputchar_def out_step_def intro: out_only_trans)

interpretation con: putch_text "putch H" "con_inv n s0" "\<lambda>a. \<not> in_block (crt_buf s0) 4000 a" "mem s0" for H n s0
proof
  show "con_inv n s0 w \<Longrightarrow> con_inv n s0 (putch H c w)" for w :: "i32 \<times> 'a cstate" and c
    by (rule con_inv_putch)
  show "con_inv n s0 (d, s) \<Longrightarrow> con_inv n s0 (d, s\<lparr>color_flag := f\<rparr>)" for d f and s :: "'a cstate"
    by (auto simp: con_inv_def crt_ok_def out_only_def disp_only_def)
  show "con_inv n s0 (d, s) \<Longrightarrow> con_inv n s0 (d, s\<lparr>color_parsing := f\<rparr>)" for d f and s :: "'a cstate"
    by (auto simp: con_inv_def crt_ok_def out_only_def disp_only_def)
  show "con_inv n s0 w \<Longrightarrow> \<not> in_block (crt_buf s0) 4000 a \<Longrightarrow> mem (snd w) a = mem s0 a" for w :: "i32 \<times> 'a cstate" and a
    by (auto simp: con_inv_def out_only_def disp_only_def)
qed

lemma con_inv_start: "crt_ok s \<Longrightarrow> con_inv n s (n, s)"
  by (simp add: con_inv_def out_only_def disp_only_def)

lemma fold_putch: "fold (putch H) cs (n, s) = (n, fold (cputchar H) cs s)"
  by (induction cs arbitrary: s) (simp_all add: putch_def)

lemma fold_cputchar_step:
  assumes "crt_ok s" "color_parsing s = 0"
  shows "out_step s (fold (cputchar H) cs s) (fold (tty_put (color_flag s)) cs)"
  using assms
proof (induction cs arbitrary: s)
  case Nil
  then show ?case by (simp add: out_step_def disp_only_def)
next
  case (Cons c cs)
  have 1: "out_step s (cputchar H c s) (tty_put (color_flag s) c)"
    using cons_putc_step [OF Cons.prems(1), of H c] Cons.prems(2) by (simp add: cputchar_def)
  then have "crt_ok (cputchar H c s)" "color_parsing (cputchar H c s) = 0" "color_flag (cputchar H c s) = color_flag s"
    using Cons.prems(2) by (simp_all add: out_step_def disp_only_def)
  with Cons.IH [of "cputchar H c s"]
  have "out_step (cputchar H c s) (fold (cputchar H) cs (cputchar H c s)) (fold (tty_put (color_flag s)) cs)" by simp
  from out_step_trans [OF 1 this] show ?case by (simp add: comp_def)
qed

lemma cprintf_inv: "crt_ok s \<Longrightarrow> ok (\<lambda>(r, t). r = 0 \<and> crt_ok t \<and> out_only s t) (cprintf H L fmt ap s)"
  unfolding cprintf_def vcprintf_def
  by (rule ok_bind [OF con.vprintfmt_I [OF con_inv_start]]) (auto simp: con_inv_def)

lemma cprintf_text:
  assumes "list_all item_ok its"
    and "kpre (\<lambda>a. \<not> in_block (crt_buf s) 4000 a) (mem s) fmt (concat (map render its) @ [0])"
    and "formats L (\<lambda>a. \<not> in_block (crt_buf s) 4000 a) (mem s) its args out"
    and "crt_ok s" "color_parsing s = 0"
  shows "\<exists>t. cprintf H L fmt args s = cret (0, t) \<and> out_step s t (fold (tty_put (color_flag s)) out)"
proof -
  have "vprintfmt L (putch H) fmt args (0, s) = cret (fold (putch H) out (0, s))"
    by (rule con.vprintfmt_text [OF assms(3,1,2) con_inv_start [OF assms(4)]])
  with fold_cputchar_step [OF assms(4,5), of H out] show ?thesis
    by (simp add: cprintf_def vcprintf_def fold_putch)
qed

section \<open>Properties\<close>

text \<open>
  Whatever the format and the arguments, when \<^verbatim>\<open>cprintf\<close> returns it returns 0 (it does
  not count the characters, its counter's pointer being incremented instead), the cursor is on
  the screen and no byte outside the display has changed.
\<close>

theorem cprintf_confined:
  assumes "crt_ok s" "cprintf H L fmt ap s = cret (r, t)"
  shows "r = 0 \<and> crt_ok t \<and> (\<forall>a. in_block (crt_buf s) 4000 a \<or> mem t a = mem s a)"
  using okD [OF cprintf_inv [OF assms(1)] assms(2)] by (auto simp: out_only_def disp_only_def)

definition demo_a :: "unit cstate" where
  "demo_a = demo_cstate\<lparr>mem := (\<lambda>_. 0)(64 := 0x41)\<rparr>"

lemma demo_a_cprintf: "\<exists>t. cprintf demo_hw demo_rodata 64 [] demo_a = cret (0, t)"
proof -
  let ?K = "\<lambda>a. \<not> in_block (crt_buf demo_a) 4000 a"
  have ok: "crt_ok demo_a" using demo_crt_ok by (simp add: demo_a_def crt_ok_def)
  have f: "formats demo_rodata ?K (mem demo_a) [Lit 0x41] [] [ucast (0x41 :: u8)]"
    by (intro fmt_lit fmt_nil)
  have k: "kpre ?K (mem demo_a) 64 (concat (map render [Lit 0x41]) @ [0])"
    by (simp add: demo_a_def demo_cstate_def in_block_def KERNBASE_def)
  have "vprintfmt demo_rodata (putch demo_hw) 64 [] (0, demo_a) = cret (fold (putch demo_hw) [ucast (0x41 :: u8)] (0, demo_a))"
    by (rule con.vprintfmt_text [OF f _ k con_inv_start [OF ok]]) simp
  then show ?thesis by (simp add: cprintf_def vcprintf_def putch_def)
qed

theorem cprintf_confined_witness:
  "crt_ok demo_a \<and> (\<exists>t. cprintf demo_hw demo_rodata 64 [] demo_a = cret (0, t) \<and> crt_ok t \<and> mem t 64 = 0x41)"
proof -
  have ok: "crt_ok demo_a" using demo_crt_ok by (simp add: demo_a_def crt_ok_def)
  obtain t where t: "cprintf demo_hw demo_rodata 64 [] demo_a = cret (0, t)" using demo_a_cprintf by blast
  have "crt_ok t \<and> mem t 64 = mem demo_a 64"
  proof -
    have "\<not> in_block (crt_buf demo_a) 4000 64" by (simp add: in_block_def demo_a_def demo_cstate_def KERNBASE_def)
    then show ?thesis using cprintf_confined [OF ok t] by blast
  qed
  with ok t show ?thesis by (auto simp: demo_a_def)
qed

text \<open>
  C14. \<^verbatim>\<open>cprintf\<close> shows what its format says: on the text of a list of items, outside the display,
  it returns, and the terminal has received exactly the specified characters in the current colour. (They differ from the comments
  of \<^verbatim>\<open>printfmt.c\<close> for \<^verbatim>\<open>%o\<close> of a negative argument, for \<^verbatim>\<open>-\<close> with a width on a number and for a width on \<^verbatim>\<open>%s\<close>:
  see \<open>conv_documented\<close> and \<open>printf_deviations\<close>.)
\<close>

theorem cprintf_shows:
  assumes "list_all item_ok its"
    and "kpre (\<lambda>a. \<not> in_block (crt_buf s) 4000 a) (mem s) fmt (concat (map render its) @ [0])"
    and "formats L (\<lambda>a. \<not> in_block (crt_buf s) 4000 a) (mem s) its args out"
    and "crt_ok s" "color_parsing s = 0"
  shows "\<exists>t. cprintf H L fmt args s = cret (0, t) \<and> crt_ok t
    \<and> tty_of t = fold (tty_put (color_flag s)) out (tty_of s)"
  using cprintf_text [OF assms] by (auto simp: out_step_def)

theorem cprintf_shows_witness:
  "\<exists>t. cprintf demo_hw demo_rodata 64 [] demo_a = cret (0, t) \<and> crt_ok t
     \<and> tty_of t = tty_put 7 0x41 (tty_of demo_a)"
proof -
  let ?K = "\<lambda>a. \<not> in_block (crt_buf demo_a) 4000 a"
  have ok: "crt_ok demo_a" using demo_crt_ok by (simp add: demo_a_def crt_ok_def)
  have f: "formats demo_rodata ?K (mem demo_a) [Lit 0x41] [] [ucast (0x41 :: u8)]"
    by (intro fmt_lit fmt_nil)
  have k: "kpre ?K (mem demo_a) 64 (concat (map render [Lit 0x41]) @ [0])"
    by (simp add: demo_a_def demo_cstate_def in_block_def KERNBASE_def)
  have c: "color_parsing demo_a = 0" "color_flag demo_a = 7" by (simp_all add: demo_a_def demo_cstate_def)
  have i: "list_all item_ok [Lit 0x41]" by simp
  from cprintf_shows [OF i k f ok c(1), of demo_hw] c(2) show ?thesis by simp
qed

end
