(* ===== verification/Console_In.thy ===== *)
theory Console_In
  imports Kprintf
begin

text \<open>
  The input half of \<^verbatim>\<open>kern/console.c\<close>: the keyboard driver with its scan code tables and modifier state, the
  serial receiver, the circular buffer \<^verbatim>\<open>cons\<close> both feed, \<^verbatim>\<open>cons_getc\<close>, \<^verbatim>\<open>getchar\<close> and \<^verbatim>\<open>cons_init\<close>.

  The locale \<open>bounded_fifo\<close> is what a reader of the console relies on; the circular buffer interprets it.
\<close>

section \<open>Scan code tables\<close>

text \<open>Bits of \<^verbatim>\<open>shift\<close>.\<close>

abbreviation (input) "SHIFT \<equiv> 0x01"
abbreviation (input) "CTL \<equiv> 0x02"
abbreviation (input) "ALT \<equiv> 0x04"
abbreviation (input) "CAPSLOCK \<equiv> 0x08"
abbreviation (input) "NUMLOCK \<equiv> 0x10"
abbreviation (input) "SCROLLLOCK \<equiv> 0x20"
abbreviation (input) "E0ESC \<equiv> 0x40"

definition shiftcode :: "u8 \<Rightarrow> u8" where
  "shiftcode d = (if d = 0x1D \<or> d = 0x9D then CTL else if d = 0x2A \<or> d = 0x36 then SHIFT
     else if d = 0x38 \<or> d = 0xB8 then ALT else 0)"

definition togglecode :: "u8 \<Rightarrow> u8" where
  "togglecode d = (if d = 0x3A then CAPSLOCK else if d = 0x45 then NUMLOCK else if d = 0x46 then SCROLLLOCK else 0)"

text \<open>A \<^verbatim>\<open>[256]\<close> table: its leading entries, designated entries, and 0 elsewhere.\<close>

definition table :: "u8 list \<Rightarrow> (u8 \<times> u8) list \<Rightarrow> u8 \<Rightarrow> u8" where
  "table xs ys d =
     (case map_of ys d of Some v \<Rightarrow> v | None \<Rightarrow> if unat d < length xs then xs ! unat d else 0)"

definition keypad_entries :: "(u8 \<times> u8) list" where
  "keypad_entries =
     [(0xC7, 0xE0), (0x9C, 0x0A), (0xB5, 0x2F), (0xC8, 0xE2), (0xC9, 0xE6), (0xCB, 0xE4), (0xCD, 0xE5),
      (0xCF, 0xE1), (0xD0, 0xE3), (0xD1, 0xE7), (0xD2, 0xE8), (0xD3, 0xE9)]"

definition normalmap :: "u8 \<Rightarrow> u8" where
  "normalmap = table
     [0, 0x1B, 0x31, 0x32, 0x33, 0x34, 0x35, 0x36,
      0x37, 0x38, 0x39, 0x30, 0x2D, 0x3D, 0x08, 0x09,
      0x71, 0x77, 0x65, 0x72, 0x74, 0x79, 0x75, 0x69,
      0x6F, 0x70, 0x5B, 0x5D, 0x0A, 0, 0x61, 0x73,
      0x64, 0x66, 0x67, 0x68, 0x6A, 0x6B, 0x6C, 0x3B,
      0x27, 0x60, 0, 0x5C, 0x7A, 0x78, 0x63, 0x76,
      0x62, 0x6E, 0x6D, 0x2C, 0x2E, 0x2F, 0, 0x2A,
      0, 0x20, 0, 0, 0, 0, 0, 0,
      0, 0, 0, 0, 0, 0, 0, 0x37,
      0x38, 0x39, 0x2D, 0x34, 0x35, 0x36, 0x2B, 0x31,
      0x32, 0x33, 0x30, 0x2E, 0, 0, 0, 0]
     keypad_entries"

definition shiftmap :: "u8 \<Rightarrow> u8" where
  "shiftmap = table
     [0, 0x1B, 0x21, 0x40, 0x23, 0x24, 0x25, 0x5E,
      0x26, 0x2A, 0x28, 0x29, 0x5F, 0x2B, 0x08, 0x09,
      0x51, 0x57, 0x45, 0x52, 0x54, 0x59, 0x55, 0x49,
      0x4F, 0x50, 0x7B, 0x7D, 0x0A, 0, 0x41, 0x53,
      0x44, 0x46, 0x47, 0x48, 0x4A, 0x4B, 0x4C, 0x3A,
      0x22, 0x7E, 0, 0x7C, 0x5A, 0x58, 0x43, 0x56,
      0x42, 0x4E, 0x4D, 0x3C, 0x3E, 0x3F, 0, 0x2A,
      0, 0x20, 0, 0, 0, 0, 0, 0,
      0, 0, 0, 0, 0, 0, 0, 0x37,
      0x38, 0x39, 0x2D, 0x34, 0x35, 0x36, 0x2B, 0x31,
      0x32, 0x33, 0x30, 0x2E, 0, 0, 0, 0]
     keypad_entries"

definition ctlmap :: "u8 \<Rightarrow> u8" where
  "ctlmap = table
     [0, 0, 0, 0, 0, 0, 0, 0,
      0, 0, 0, 0, 0, 0, 0, 0,
      0x11, 0x17, 0x05, 0x12, 0x14, 0x19, 0x15, 0x09,
      0x0F, 0x10, 0, 0, 0x0D, 0, 0x01, 0x13,
      0x04, 0x06, 0x07, 0x08, 0x0A, 0x0B, 0x0C, 0,
      0, 0, 0, 0x1C, 0x1A, 0x18, 0x03, 0x16,
      0x02, 0x0E, 0x0D, 0, 0, 0xEF, 0, 0]
     [(0x97, 0xE0), (0xB5, 0xEF), (0xC8, 0xE2), (0xC9, 0xE6), (0xCB, 0xE4), (0xCD, 0xE5),
      (0xCF, 0xE1), (0xD0, 0xE3), (0xD1, 0xE7), (0xD2, 0xE8), (0xD3, 0xE9)]"

definition charcode :: "u32 \<Rightarrow> u8 \<Rightarrow> u8" where
  "charcode i = (if i = 0 then normalmap else if i = 1 then shiftmap else ctlmap)"

section \<open>Keyboard and serial port\<close>

text \<open>The addresses of the kernel's own string literals, with those of the formatting engine.\<close>

record klits =
  lits :: rodata
  reboot_str :: u64
  noserial_str :: u64

definition caps_case :: "u32 \<Rightarrow> i32 \<Rightarrow> i32" where
  "caps_case sh c =
     (if sh AND CAPSLOCK \<noteq> 0 then
        if 0x61 \<le>s c \<and> c \<le>s 0x7A then c + (0x41 - 0x61)
        else if 0x41 \<le>s c \<and> c \<le>s 0x5A then c + (0x61 - 0x41)
        else c
      else c)"

text \<open>What a byte from the keyboard does to the modifiers, and the character it finishes (0 for none).\<close>

definition kbd_decode :: "u8 \<Rightarrow> u32 \<Rightarrow> u32 \<times> i32" where
  "kbd_decode data sh =
     (if data = 0xE0 then (sh OR E0ESC, 0)
      else if data AND 0x80 \<noteq> 0 then
        let data = (if sh AND E0ESC \<noteq> 0 then data else data AND 0x7F)
        in (sh AND NOT (ucast (shiftcode data) OR E0ESC), 0)
      else
        let (data, sh) = (if sh AND E0ESC \<noteq> 0 then (data OR 0x80, sh AND NOT E0ESC) else (data, sh));
            sh = sh OR ucast (shiftcode data);
            sh = sh XOR ucast (togglecode data);
            c = (ucast (charcode (sh AND (CTL OR SHIFT)) data) :: i32)
        in (sh, caps_case sh c))"

text \<open>
  Only a finished character can be \<^verbatim>\<open>KEY_DEL\<close>, so the test for Ctrl-Alt-Del may follow every byte.
\<close>

definition kbd_proc_data :: "'h hwops \<Rightarrow> 'k klits_scheme \<Rightarrow> 'h cstate \<Rightarrow> (i32 \<times> 'h cstate) cres" where
  "kbd_proc_data H L s =
     (let (st, s) = inb H 0x64 s in
      if st AND 0x01 = 0 then cret (- 1, s)
      else
        let (data, s) = inb H 0x60 s;
            (sh, c) = kbd_decode data (shift s);
            s = s\<lparr>shift := sh\<rparr>
        in if NOT sh AND (CTL OR ALT) = 0 \<and> c = 0xE9 then
             cbind (cprintf H (lits L) (reboot_str L) [] s) (\<lambda>(r, s). cret (c, outb H 0x92 0x3 s))
           else cret (c, s))"

definition serial_proc_data :: "'h hwops \<Rightarrow> 'h cstate \<Rightarrow> (i32 \<times> 'h cstate) cres" where
  "serial_proc_data H s =
     (let (st, s) = inb H (COM1 + 5) s in
      if st AND 0x01 = 0 then cret (- 1, s)
      else let (b, s) = inb H (COM1 + 0) s in cret (ucast b, s))"

section \<open>The input buffer\<close>

definition CONSBUFSIZE :: nat where
  "CONSBUFSIZE = 512"

definition cons_put :: "i32 \<Rightarrow> 'h cstate \<Rightarrow> 'h cstate cres" where
  "cons_put c s =
     (if unat (wpos s) < CONSBUFSIZE then
        let s = s\<lparr>cons_buf := (cons_buf s)[unat (wpos s) := ucast c], wpos := wpos s + 1\<rparr>
        in cret (if wpos s = of_nat CONSBUFSIZE then s\<lparr>wpos := 0\<rparr> else s)
      else cfail Undefined)"

partial_function (option) cons_intr ::
    "('h cstate \<Rightarrow> (i32 \<times> 'h cstate) cres) \<Rightarrow> 'h cstate \<Rightarrow> 'h cstate cres" where
  "cons_intr proc s =
     cbind (proc s) (\<lambda>(c, s).
       if c = - 1 then cret s
       else if c = 0 then cons_intr proc s
       else cbind (cons_put c s) (cons_intr proc))"

definition serial_intr :: "'h hwops \<Rightarrow> 'h cstate \<Rightarrow> 'h cstate cres" where
  "serial_intr H s = (if serial_exists s then cons_intr (serial_proc_data H) s else cret s)"

definition kbd_intr :: "'h hwops \<Rightarrow> 'k klits_scheme \<Rightarrow> 'h cstate \<Rightarrow> 'h cstate cres" where
  "kbd_intr H L s = cons_intr (kbd_proc_data H L) s"

definition cons_take :: "'h cstate \<Rightarrow> (i32 \<times> 'h cstate) cres" where
  "cons_take s =
     (if rpos s \<noteq> wpos s then
        if unat (rpos s) < CONSBUFSIZE then
          let c = ucast (cons_buf s ! unat (rpos s)); s = s\<lparr>rpos := rpos s + 1\<rparr>
          in cret (c, if rpos s = of_nat CONSBUFSIZE then s\<lparr>rpos := 0\<rparr> else s)
        else cfail Undefined
      else cret (0, s))"

definition cons_getc :: "'h hwops \<Rightarrow> 'k klits_scheme \<Rightarrow> 'h cstate \<Rightarrow> (i32 \<times> 'h cstate) cres" where
  "cons_getc H L s =
     cbind (serial_intr H s) (\<lambda>s. cbind (kbd_intr H L s) cons_take)"

partial_function (option) getchar :: "'h hwops \<Rightarrow> 'k klits_scheme \<Rightarrow> 'h cstate \<Rightarrow> (i32 \<times> 'h cstate) cres" where
  "getchar H L s = cbind (cons_getc H L s) (\<lambda>(c, s). if c = 0 then getchar H L s else cret (c, s))"

definition kbd_init :: "'h cstate \<Rightarrow> 'h cstate" where
  "kbd_init s = s"

definition cons_init :: "'h hwops \<Rightarrow> 'k klits_scheme \<Rightarrow> 'h cstate \<Rightarrow> 'h cstate cres" where
  "cons_init H L s =
     (let s = serial_init H (kbd_init (cga_init H s)) in
      if \<not> serial_exists s then cbind (cprintf H (lits L) (noserial_str L) [] s) (\<lambda>(r, s). cret s)
      else cret s)"

definition iscons :: "i32 \<Rightarrow> i32" where
  "iscons fdnum = 1"

section \<open>The input buffer as a queue\<close>

text \<open>Putting a list of elements into a queue, and taking a number of them out.\<close>

fun enq_all :: "('e \<Rightarrow> 's \<Rightarrow> 's cres) \<Rightarrow> 'e list \<Rightarrow> 's \<Rightarrow> 's cres" where
  "enq_all enq [] s = cret s"
| "enq_all enq (c # cs) s = cbind (enq c s) (enq_all enq cs)"

fun deq_n :: "('s \<Rightarrow> ('e \<times> 's) cres) \<Rightarrow> nat \<Rightarrow> 's \<Rightarrow> ('e list \<times> 's) cres" where
  "deq_n deq 0 s = cret ([], s)"
| "deq_n deq (Suc n) s = cbind (deq s) (\<lambda>(c, s). cbind (deq_n deq n s) (\<lambda>(cs, s). cret (c # cs, s)))"

locale bounded_fifo =
  fixes enq :: "'e \<Rightarrow> 's \<Rightarrow> 's cres" and deq :: "'s \<Rightarrow> ('e \<times> 's) cres"
    and items :: "'s \<Rightarrow> 'e list" and inv :: "'s \<Rightarrow> bool" and elem :: "'e \<Rightarrow> bool" and cap :: nat
  assumes enq: "inv s \<Longrightarrow> elem c \<Longrightarrow> length (items s) < cap \<Longrightarrow>
      \<exists>t. enq c s = cret t \<and> inv t \<and> items t = items s @ [c]"
    and deq: "inv s \<Longrightarrow> items s = c # cs \<Longrightarrow> \<exists>t. deq s = cret (c, t) \<and> inv t \<and> items t = cs"
begin

lemma enq_all_items:
  "inv s \<Longrightarrow> list_all elem cs \<Longrightarrow> length (items s) + length cs \<le> cap \<Longrightarrow>
   \<exists>t. enq_all enq cs s = cret t \<and> inv t \<and> items t = items s @ cs"
proof (induction cs arbitrary: s)
  case (Cons c cs)
  then obtain t where "enq c s = cret t" "inv t" "items t = items s @ [c]" using enq [of s c] by auto
  with Cons.IH [of t] Cons.prems show ?case by auto
qed auto

lemma deq_n_items: "inv s \<Longrightarrow> items s = xs @ ys \<Longrightarrow>
    \<exists>t. deq_n deq (length xs) s = cret (xs, t) \<and> inv t \<and> items t = ys"
proof (induction xs arbitrary: s)
  case (Cons x xs)
  then obtain t where t: "deq s = cret (x, t)" "inv t" "items t = xs @ ys" using deq [of s x "xs @ ys"] by auto
  from Cons.IH [OF t(2,3)] t(1) show ?case by auto
qed auto

text \<open>First in, first out, over any run that fits.\<close>

lemma fifo:
  assumes "inv s" "items s = []" "list_all elem cs" "length cs \<le> cap"
  shows "\<exists>t u. enq_all enq cs s = cret t \<and> deq_n deq (length cs) t = cret (cs, u) \<and> inv u \<and> items u = []"
proof -
  obtain t where t: "enq_all enq cs s = cret t" "inv t" "items t = cs" using enq_all_items [OF assms(1,3)] assms(2,4) by auto
  with deq_n_items [OF t(2), of cs "[]"] show ?thesis by auto
qed

end

definition ring_ok :: "'h cstate \<Rightarrow> bool" where
  "ring_ok s \<longleftrightarrow> length (cons_buf s) = 512 \<and> unat (rpos s) < 512 \<and> unat (wpos s) < 512"

definition ring_count :: "'h cstate \<Rightarrow> nat" where
  "ring_count s = (unat (wpos s) + 512 - unat (rpos s)) mod 512"

definition ring_items :: "'h cstate \<Rightarrow> i32 list" where
  "ring_items s = map (\<lambda>i. ucast (cons_buf s ! ((unat (rpos s) + i) mod 512))) [0..<ring_count s]"

lemma length_ring_items [simp]: "length (ring_items s) = ring_count s"
  by (simp add: ring_items_def)

lemma ring_next:
  assumes "unat (p :: u32) < 512"
  shows "unat (if p + 1 = 512 then 0 else p + 1) = (unat p + 1) mod 512"
proof -
  have u: "unat (p + 1) = unat p + 1" using assms by (simp add: unat_word_ariths)
  then have "p + 1 = 512 \<longleftrightarrow> unat p + 1 = 512" by (simp add: word_unat_eq_iff)
  with u assms show ?thesis by auto
qed

lemma cons_put_eq:
  assumes "ring_ok s"
  shows "\<exists>t. cons_put c s = cret t \<and> ring_ok t \<and> rpos t = rpos s \<and> unat (wpos t) = (unat (wpos s) + 1) mod 512
    \<and> cons_buf t = (cons_buf s)[unat (wpos s) := ucast c]"
proof -
  have "unat (wpos s) < 512" using assms by (simp add: ring_ok_def)
  with ring_next [OF this] assms show ?thesis
    by (auto simp: cons_put_def CONSBUFSIZE_def ring_ok_def Let_def split: if_splits)
qed

lemma cons_take_eq:
  assumes "ring_ok s" "rpos s \<noteq> wpos s"
  shows "\<exists>t. cons_take s = cret (ucast (cons_buf s ! unat (rpos s)), t) \<and> ring_ok t
    \<and> unat (rpos t) = (unat (rpos s) + 1) mod 512 \<and> wpos t = wpos s \<and> cons_buf t = cons_buf s"
proof -
  have "unat (rpos s) < 512" using assms by (simp add: ring_ok_def)
  with ring_next [OF this] assms show ?thesis
    by (auto simp: cons_take_def CONSBUFSIZE_def ring_ok_def Let_def split: if_splits)
qed

text \<open>Arithmetic of a ring of 512 slots with read position \<open>r\<close> and write position \<open>w\<close>.\<close>

lemma ring_arith:
  fixes r w :: nat
  assumes "r < 512" "w < 512"
  shows "(r + (w + 512 - r) mod 512) mod 512 = w"
    and "i < (w + 512 - r) mod 512 \<Longrightarrow> (r + i) mod 512 \<noteq> w"
    and "(w + 512 - r) mod 512 < 511 \<Longrightarrow> ((w + 1) mod 512 + 512 - r) mod 512 = Suc ((w + 512 - r) mod 512)"
    and "r \<noteq> w \<Longrightarrow> (w + 512 - r) mod 512 = Suc ((w + 512 - (r + 1) mod 512) mod 512)"
    and "(w + 512 - r) mod 512 = 511 \<Longrightarrow> (w + 1) mod 512 = r"
proof -
  have m: "x mod 512 = (if x < 512 then x else x - 512)" if "x < 1024" for x :: nat
    using that by (auto simp: le_mod_geq)
  have n: "(x + 512 - y) mod 512 = (if y \<le> x then x - y else x + 512 - y)" if "x < 512" "y < 512" for x y :: nat
    using that by (subst m) auto
  have s: "(x + 1) mod 512 = (if x = 511 then 0 else x + 1)" if "x < 512" for x :: nat
    using that by (subst m) auto
  show "(r + (w + 512 - r) mod 512) mod 512 = w"
    unfolding n [OF assms(2,1)] using assms by (subst m) auto
  show "(r + i) mod 512 \<noteq> w" if "i < (w + 512 - r) mod 512"
    using that assms unfolding n [OF assms(2,1)] by (subst m) (auto split: if_splits)
  define W where "W = (if w = 511 then 0 else w + 1)"
  define R where "R = (if r = 511 then 0 else r + 1)"
  have W: "(w + 1) mod 512 = W" "W < 512" and R: "(r + 1) mod 512 = R" "R < 512"
    using assms by (simp_all only: s W_def R_def) auto
  show "((w + 1) mod 512 + 512 - r) mod 512 = Suc ((w + 512 - r) mod 512)" if "(w + 512 - r) mod 512 < 511"
    using that assms unfolding W(1) unfolding n [OF W(2) assms(1)] n [OF assms(2,1)] unfolding W_def by (auto split: if_splits)
  show "(w + 512 - r) mod 512 = Suc ((w + 512 - (r + 1) mod 512) mod 512)" if "r \<noteq> w"
    using that assms unfolding R(1) unfolding n [OF assms(2) R(2)] n [OF assms(2,1)] unfolding R_def by (auto split: if_splits)
  show "(w + 1) mod 512 = r" if "(w + 512 - r) mod 512 = 511"
    using that assms unfolding n [OF assms(2,1)] W(1) W_def by (auto split: if_splits)
qed

lemma ring_items_put:
  assumes "ring_ok s" "ring_count s < 511"
  shows "\<exists>t. cons_put c s = cret t \<and> ring_ok t \<and> ring_items t = ring_items s @ [ucast (ucast c :: u8)]"
proof -
  obtain t where t: "cons_put c s = cret t" "ring_ok t" "rpos t = rpos s" "unat (wpos t) = (unat (wpos s) + 1) mod 512"
    "cons_buf t = (cons_buf s)[unat (wpos s) := ucast c]"
    using cons_put_eq [OF assms(1)] by blast
  have b: "unat (rpos s) < 512" "unat (wpos s) < 512" "length (cons_buf s) = 512"
    using assms(1) by (simp_all add: ring_ok_def)
  note ar = ring_arith [OF b(1,2), folded ring_count_def]
  have "ring_count t = Suc (ring_count s)"
    using ar(3) [OF assms(2)] t(3,4) by (simp add: ring_count_def)
  moreover have "map (\<lambda>i. ucast (cons_buf t ! ((unat (rpos s) + i) mod 512))) [0..<ring_count s] = ring_items s"
    unfolding ring_items_def t(5) by (rule map_cong [OF refl]) (simp add: ar(2) [THEN not_sym])
  ultimately have "ring_items t = ring_items s @ [ucast (ucast c :: u8)]"
    using ar(1) b(2,3) t(3,5) by (simp add: ring_items_def)
  with t show ?thesis by blast
qed

lemma ring_items_take:
  assumes "ring_ok s" "ring_items s = c # cs"
  shows "\<exists>t. cons_take s = cret (c, t) \<and> ring_ok t \<and> ring_items t = cs"
proof -
  have b: "unat (rpos s) < 512" "unat (wpos s) < 512" "length (cons_buf s) = 512"
    using assms(1) by (simp_all add: ring_ok_def)
  have len: "ring_count s = Suc (length cs)" using assms(2) length_ring_items [of s] by simp
  then have ne: "rpos s \<noteq> wpos s" by (auto simp: ring_count_def)
  then obtain t where t: "cons_take s = cret (ucast (cons_buf s ! unat (rpos s)), t)" "ring_ok t"
    "unat (rpos t) = (unat (rpos s) + 1) mod 512" "wpos t = wpos s" "cons_buf t = cons_buf s"
    using cons_take_eq [OF assms(1)] by blast
  have "unat (rpos s) \<noteq> unat (wpos s)" using ne by (simp add: word_unat_eq_iff)
  from ring_arith(4) [OF b(1,2) this] have cnt: "ring_count s = Suc (ring_count t)"
    using t(3,4) by (simp add: ring_count_def)
  have m: "(x + Suc r mod 512) mod 512 = Suc (x + r) mod 512" for x r :: nat
    by (metis add_Suc_right mod_add_right_eq)
  have "ring_items s = ucast (cons_buf s ! unat (rpos s)) # ring_items t"
    unfolding ring_items_def cnt upt_conv_Cons [OF zero_less_Suc] map_Suc_upt [symmetric]
    using b t(3,5) m by (simp add: add.commute)
  with assms(2) t show ?thesis by auto
qed

interpretation ring: bounded_fifo cons_put cons_take ring_items ring_ok "\<lambda>c. ucast (ucast c :: u8) = c" 511
proof
  show "\<exists>t. cons_put c s = cret t \<and> ring_ok t \<and> ring_items t = ring_items s @ [c]"
    if "ring_ok s" "ucast (ucast c :: u8) = c" "length (ring_items s) < 511" for s :: "'a cstate" and c
    using ring_items_put [of s c] that by simp
  show "\<exists>t. cons_take s = cret (c, t) \<and> ring_ok t \<and> ring_items t = cs"
    if "ring_ok s" "ring_items s = c # cs" for s :: "'a cstate" and c cs
    using that by (rule ring_items_take)
qed

section \<open>Invariants of the console\<close>

definition console_ok :: "'h cstate \<Rightarrow> bool" where
  "console_ok s \<longleftrightarrow> crt_ok s \<and> ring_ok s"

definition is_byte :: "i32 \<Rightarrow> bool" where
  "is_byte c \<longleftrightarrow> 0 \<le> sint c \<and> sint c < 256"

lemma is_byte_ucast: "is_byte (ucast (b :: u8))"
proof -
  have "sint (ucast b :: i32) = int (unat b)" using unsigned_less [of b, where 'a = nat]
    by (subst sint32_of_nat [symmetric]) simp_all
  then show ?thesis using unsigned_less [of b, where 'a = int] by (simp add: is_byte_def)
qed

lemma caps_case_byte: "is_byte c \<Longrightarrow> is_byte (caps_case sh c)"
  using sint32_sub [of c "0x20"] sint32_add [of c "0x20"]
  by (auto simp: is_byte_def caps_case_def word_sle_eq)

lemma kbd_decode_byte: "is_byte (snd (kbd_decode data sh))"
proof -
  have "is_byte 0" by (simp add: is_byte_def)
  then show ?thesis
    by (auto simp: kbd_decode_def Let_def case_prod_unfold intro: caps_case_byte is_byte_ucast)
qed

text \<open>The console in order, and memory outside the display as it was in \<open>s0\<close>.\<close>

definition console_inv :: "'h cstate \<Rightarrow> 'h cstate \<Rightarrow> bool" where
  "console_inv s0 s \<longleftrightarrow> console_ok s \<and> crt_buf s = crt_buf s0
     \<and> (\<forall>a. in_block (crt_buf s0) 4000 a \<or> mem s a = mem s0 a)"

lemma console_inv_refl: "console_ok s \<Longrightarrow> console_inv s s"
  by (simp add: console_inv_def)

lemma console_inv_out: "console_inv s0 s \<Longrightarrow> crt_ok t \<Longrightarrow> out_only s t \<Longrightarrow> console_inv s0 t"
  unfolding console_inv_def console_ok_def ring_ok_def out_only_def disp_only_def by (simp, metis)

lemma cprintf_console: "console_inv s0 s \<Longrightarrow> ok (\<lambda>(r, t). console_inv s0 t) (cprintf H L fmt ap s)"
proof -
  assume s: "console_inv s0 s"
  then have "crt_ok s" by (simp add: console_inv_def console_ok_def)
  from cprintf_inv [OF this] show ?thesis by (rule ok_mono) (auto intro: console_inv_out [OF s])
qed

lemma hw_eq_console: "hw_eq s t \<Longrightarrow> console_inv s0 t = console_inv s0 s"
  by (simp add: console_inv_def console_ok_def crt_ok_def ring_ok_def hw_eqD)

lemma inb_console: "console_inv s0 (snd (inb H port s)) = console_inv s0 s"
  by (rule hw_eq_console [OF hw_eq_inb [OF hw_eq_refl]])

lemma outb_console: "console_inv s0 (outb H port v s) = console_inv s0 s"
  by (rule hw_eq_console [OF hw_eq_outb [OF hw_eq_refl]])

text \<open>A source of input keeps the console in order and yields bytes, or -1 when it is empty.\<close>

definition good_proc :: "'h cstate \<Rightarrow> ('h cstate \<Rightarrow> (i32 \<times> 'h cstate) cres) \<Rightarrow> bool" where
  "good_proc s0 proc \<longleftrightarrow>
     (\<forall>s. console_inv s0 s \<longrightarrow> ok (\<lambda>(c, t). console_inv s0 t \<and> (c = - 1 \<or> is_byte c)) (proc s))"

lemma good_serial: "good_proc s0 (serial_proc_data H)"
  by (auto simp: good_proc_def serial_proc_data_def Let_def case_prod_unfold inb_console is_byte_ucast)

lemma good_kbd: "good_proc s0 (kbd_proc_data H L)"
proof -
  have set: "console_inv s0 (s\<lparr>shift := x\<rparr>) = console_inv s0 s" for s :: "'a cstate" and x
    by (simp add: console_inv_def console_ok_def crt_ok_def ring_ok_def)
  have reboot: "ok (\<lambda>(c, t). console_inv s0 t \<and> (c = - 1 \<or> is_byte c))
      (cbind (cprintf H (lits L) (reboot_str L) [] s) (\<lambda>(r, s). cret (c, outb H 0x92 0x3 s)))"
    if "console_inv s0 s" "is_byte c" for s c
    by (rule ok_bind [OF cprintf_console [OF that(1)]]) (auto simp: outb_console that(2))
  have del: "is_byte 0xE9" by (simp add: is_byte_def)
  show ?thesis
    unfolding good_proc_def kbd_proc_data_def Let_def case_prod_unfold
    by (auto simp: inb_console set kbd_decode_byte del intro!: reboot [unfolded case_prod_unfold])
qed

lemma cons_intr_ok:
  assumes "good_proc s0 proc" "console_inv s0 s"
  shows "ok (console_inv s0) (cons_intr proc s)"
proof (rule ok_of_Some)
  fix r assume ret: "cons_intr proc s = Some r"
  have "proc = proc \<longrightarrow> console_inv s0 s \<longrightarrow> ok (console_inv s0) (Some r)"
  proof (rule cons_intr.raw_induct
      [where P = "\<lambda>p s r. p = proc \<longrightarrow> console_inv s0 s \<longrightarrow> ok (console_inv s0) (Some r)", OF _ ret], intro impI)
    fix f p s r
    assume IH: "\<And>p s r. f p s = Some r \<Longrightarrow> p = proc \<longrightarrow> console_inv s0 s \<longrightarrow> ok (console_inv s0) (Some r)"
      and eq: "cbind (p s) (\<lambda>(c, s). if c = - 1 then cret s else if c = 0 then f p s
          else cbind (cons_put c s) (f p)) = Some r"
      and p: "p = proc" and s: "console_inv s0 s"
    have f: "ok (console_inv s0) (f proc s)" if "console_inv s0 s" for s
      using IH that by (blast intro: ok_of_Some)
    have put: "ok (console_inv s0) (cbind (cons_put c s) (f proc))" if s: "console_inv s0 s" for c s
    proof -
      obtain t where t: "cons_put c s = cret t" "ring_ok t"
        using cons_put_eq [of s c] s by (auto simp: console_inv_def console_ok_def)
      have "crt_pos t = crt_pos s \<and> crt_buf t = crt_buf s \<and> mem t = mem s"
        using t(1) by (auto simp: cons_put_def Let_def split: if_splits)
      with s t(2) have "console_inv s0 t" by (auto simp: console_inv_def console_ok_def crt_ok_def)
      with t f [of t] show ?thesis by simp
    qed
    show "ok (console_inv s0) (Some r)"
      unfolding eq [symmetric] p
      by (rule ok_bind [OF assms(1) [unfolded good_proc_def, rule_format, OF s]]) (auto intro!: f put)
  qed
  with assms(2) show "ok (console_inv s0) (Some r)" by simp
qed

lemma cons_take_ok: "console_inv s0 s \<Longrightarrow> ok (\<lambda>(c, t). console_inv s0 t \<and> is_byte c) (cons_take s)"
proof (cases "rpos s = wpos s")
  case False
  assume s: "console_inv s0 s"
  then obtain t where t: "cons_take s = cret (ucast (cons_buf s ! unat (rpos s)), t)" "ring_ok t"
    using cons_take_eq [of s] False by (auto simp: console_inv_def console_ok_def)
  have "crt_pos t = crt_pos s \<and> crt_buf t = crt_buf s \<and> mem t = mem s"
    using t(1) by (auto simp: cons_take_def Let_def split: if_splits)
  with s t show ?thesis by (auto simp: console_inv_def console_ok_def crt_ok_def is_byte_ucast)
qed (simp add: cons_take_def is_byte_def)

lemma cons_getc_ok: "console_inv s0 s \<Longrightarrow> ok (\<lambda>(c, t). console_inv s0 t \<and> is_byte c) (cons_getc H L s)"
proof -
  assume s: "console_inv s0 s"
  have 1: "ok (console_inv s0) (serial_intr H s)"
    using cons_intr_ok [OF good_serial s] s by (simp add: serial_intr_def)
  have 2: "ok (\<lambda>(c, t). console_inv s0 t \<and> is_byte c) (cbind (kbd_intr H L t) cons_take)" if "console_inv s0 t" for t
    unfolding kbd_intr_def by (rule ok_bind [OF cons_intr_ok [OF good_kbd that] cons_take_ok])
  show ?thesis unfolding cons_getc_def by (rule ok_bind [OF 1 2])
qed

section \<open>Modifiers and letters\<close>

definition letter_codes :: "u8 list" where
  "letter_codes =
     [0x10, 0x11, 0x12, 0x13, 0x14, 0x15, 0x16, 0x17, 0x18, 0x19, 0x1E, 0x1F, 0x20, 0x21, 0x22, 0x23,
      0x24, 0x25, 0x26, 0x2C, 0x2D, 0x2E, 0x2F, 0x30, 0x31, 0x32]"

lemma letter_tables:
  assumes "d \<in> set letter_codes"
  shows "d \<noteq> 0xE0 \<and> d AND 0x80 = 0 \<and> shiftcode d = 0 \<and> togglecode d = 0
    \<and> 0x61 \<le> normalmap d \<and> normalmap d \<le> 0x7A \<and> shiftmap d = normalmap d - 0x20"
proof -
  have "list_all (\<lambda>d. d \<noteq> 0xE0 \<and> d AND 0x80 = 0 \<and> shiftcode d = 0 \<and> togglecode d = 0
    \<and> 0x61 \<le> normalmap d \<and> normalmap d \<le> 0x7A \<and> shiftmap d = normalmap d - 0x20) letter_codes"
    unfolding letter_codes_def
    by (simp add: shiftcode_def togglecode_def normalmap_def shiftmap_def table_def keypad_entries_def)
  with assms show ?thesis by (simp add: list_all_iff)
qed

lemma caps_letter:
  assumes "0x61 \<le> (l :: u8)" "l \<le> 0x7A"
  shows "caps_case sh (ucast l) = (if sh AND 0x08 \<noteq> 0 then ucast l - 0x20 else ucast l)"
    and "caps_case sh (ucast (l - 0x20)) = (if sh AND 0x08 \<noteq> 0 then ucast l else ucast l - 0x20)"
proof -
  have l: "97 \<le> unat l" "unat l \<le> 122" using assms by (simp_all add: word_le_nat_alt)
  have "(0x20 :: u8) \<le> l" using l by (simp add: word_le_nat_alt)
  then have u: "unat (l - 0x20) = unat l - 32" by (simp add: unat_sub)
  have s: "sint (ucast b :: i32) = int (unat b)" for b :: u8
    using unsigned_less [of b, where 'a = nat] by (subst sint32_of_nat [symmetric]) simp_all
  have e: "(ucast (l - 0x20) :: i32) = ucast l - 0x20"
  proof -
    have "(ucast (l - 0x20) :: i32) = of_nat (unat (l - 0x20))" by simp
    also have "\<dots> = of_nat (unat l - 32)" by (simp only: u)
    also have "\<dots> = of_nat (unat l) - of_nat 32" using l by (intro of_nat_diff) simp
    finally show ?thesis by simp
  qed
  have lu: "97 \<le> uint l" "uint l \<le> 122" using assms by (simp_all add: word_le_def)
  have su: "sint (ucast l :: i32) = uint l" using s [of l] by simp
  have sd: "sint (ucast l - 0x20 :: i32) = uint l - 32"
    using sint32_sub [of "ucast l" "0x20"] lu su by simp
  show "caps_case sh (ucast l) = (if sh AND 0x08 \<noteq> 0 then ucast l - 0x20 else ucast l)"
    using lu unfolding caps_case_def word_sle_eq su by simp
  show "caps_case sh (ucast (l - 0x20)) = (if sh AND 0x08 \<noteq> 0 then ucast l else ucast l - 0x20)"
    using lu unfolding e caps_case_def word_sle_eq sd by simp
qed

text \<open>
  A letter key, pressed without Ctrl and not after an E0 prefix, yields its lower-case letter when
  Shift and Caps Lock agree (neither or both active) and the upper-case letter otherwise, and leaves the modifiers as they are.
\<close>

theorem kbd_letter_case:
  assumes "d \<in> set letter_codes" "sh AND 0x40 = 0" "sh AND 0x02 = 0"
  shows "kbd_decode d sh =
    (sh, if (sh AND 0x01 = 0) = (sh AND 0x08 = 0) then ucast (normalmap d) else ucast (normalmap d) - 0x20)"
proof -
  note t = letter_tables [OF assms(1)]
  have "sh AND (0x02 OR 0x01) = sh AND 0x02 OR sh AND 0x01" by (simp only: bit.conj_disj_distrib)
  then have m: "sh AND (0x02 OR 0x01) = sh AND 0x01" using assms(3) by simp
  have "sh AND 0x01 = 0 \<or> sh AND 0x01 = 1"
    by (cases "even sh") (simp_all add: and_one_eq odd_iff_mod_2_eq_one even_iff_mod_2_eq_zero)
  then show ?thesis
    using t assms(2) m caps_letter [of "normalmap d" sh]
    by (auto simp: kbd_decode_def Let_def charcode_def)
qed

theorem kbd_letter_case_witness:
  "kbd_decode 0x1E 0 = (0, 0x61) \<and> kbd_decode 0x1E 0x01 = (0x01, 0x41) \<and> kbd_decode 0x1E 0x09 = (0x09, 0x61)"
proof -
  have a: "normalmap 0x1E = 0x61" by (simp add: normalmap_def table_def keypad_entries_def)
  have d: "0x1E \<in> set letter_codes" by (simp add: letter_codes_def)
  show ?thesis
    using kbd_letter_case [OF d, of 0] kbd_letter_case [OF d, of "0x01"] kbd_letter_case [OF d, of "0x09"] a by simp
qed

text \<open>
  C37. The console input buffer is a first-in first-out queue: up to 511 bytes put into the empty buffer one
  after another are taken out in the same order, and the buffer is then empty again.
\<close>

theorem cons_buffer_fifo:
  assumes "ring_ok s" "ring_items s = []" "list_all (\<lambda>c. ucast (ucast c :: u8) = c) cs" "length cs \<le> 511"
  shows "\<exists>t u. enq_all cons_put cs s = cret t \<and> deq_n cons_take (length cs) t = cret (cs, u)
    \<and> ring_ok u \<and> ring_items u = []"
  using assms by (rule ring.fifo)

theorem cons_buffer_fifo_witness:
  "ring_ok demo_cstate \<and> (\<exists>t u. enq_all cons_put [0x61, 0x62] demo_cstate = cret t
     \<and> deq_n cons_take 2 t = cret ([0x61, 0x62], u) \<and> ring_items u = [])"
proof -
  have r: "ring_ok demo_cstate" "ring_items demo_cstate = []"
    by (simp_all add: ring_ok_def ring_items_def ring_count_def demo_cstate_def)
  have "list_all (\<lambda>c. ucast (ucast c :: u8) = c) [0x61, 0x62 :: i32]" by simp
  from cons_buffer_fifo [OF r this] r(1) show ?thesis by (auto simp: numeral_2_eq_2)
qed

text \<open>
  The buffer has no overrun check: a byte put into a buffer that holds 511 makes the write position meet the
  read position, and the buffer then counts as empty: all 512 bytes are lost.
\<close>

theorem cons_buffer_overrun:
  assumes "ring_ok s" "length (ring_items s) = 511"
  shows "\<exists>t. cons_put c s = cret t \<and> ring_ok t \<and> ring_items t = [] \<and> cons_take t = cret (0, t)"
proof -
  obtain t where t: "cons_put c s = cret t" "ring_ok t" "rpos t = rpos s" "unat (wpos t) = (unat (wpos s) + 1) mod 512"
    using cons_put_eq [OF assms(1)] by blast
  have b: "unat (rpos s) < 512" "unat (wpos s) < 512" using assms(1) by (simp_all add: ring_ok_def)
  have "unat (wpos t) = unat (rpos t)"
    using ring_arith(5) [OF b] assms(2) t(3,4) by (simp add: ring_count_def)
  then have "wpos t = rpos t" by (simp add: word_unat_eq_iff)
  with t show ?thesis by (auto simp: ring_items_def ring_count_def cons_take_def)
qed

theorem cons_buffer_overrun_witness:
  "\<exists>t. cons_put 0x61 (demo_cstate\<lparr>rpos := 1\<rparr>) = cret t \<and> ring_items t = []"
proof -
  have "ring_ok (demo_cstate\<lparr>rpos := 1\<rparr>)" "length (ring_items (demo_cstate\<lparr>rpos := 1\<rparr>)) = 511"
    by (simp_all add: ring_ok_def ring_count_def demo_cstate_def)
  from cons_buffer_overrun [OF this, of "0x61"] show ?thesis by blast
qed

text \<open>
  C38. Whatever the devices deliver, \<^verbatim>\<open>cons_getc\<close> keeps the console in order (cursor on the screen, buffer positions
  in range) and, when it returns, returns a byte, 0 when nothing is waiting.
\<close>

theorem cons_getc_keeps_console:
  assumes "console_ok s" "cons_getc H L s = cret (c, t)"
  shows "console_ok t \<and> 0 \<le> sint c \<and> sint c < 256"
  using okD [OF cons_getc_ok [OF console_inv_refl [OF assms(1)]] assms(2)]
  by (simp add: is_byte_def console_inv_def)

definition demo_idle :: "unit hwops" where
  "demo_idle = \<lparr>hw_inb = \<lambda>_ h. (0, h), hw_outb = \<lambda>_ _ h. h, cga_present = True\<rparr>"

definition demo_klits :: klits where
  "demo_klits = \<lparr>lits = demo_rodata, reboot_str = 0, noserial_str = 0\<rparr>"

theorem cons_getc_keeps_console_witness:
  "console_ok demo_cstate \<and> (\<exists>c t. cons_getc demo_idle demo_klits demo_cstate = cret (c, t) \<and> console_ok t)"
proof -
  have ok: "console_ok demo_cstate"
    using demo_crt_ok by (simp add: console_ok_def ring_ok_def demo_cstate_def)
  have i: "inb demo_idle port s = (0, s)" for port s by (simp add: inb_def demo_idle_def)
  have "cons_getc demo_idle demo_klits demo_cstate = cret (0, demo_cstate)"
    by (simp add: cons_getc_def serial_intr_def kbd_intr_def cons_intr.simps serial_proc_data_def
        kbd_proc_data_def i cons_take_def) (simp add: demo_cstate_def)
  with cons_getc_keeps_console [OF ok this] ok show ?thesis by blast
qed

end
