(* ===== verification/Readline.thy ===== *)
theory Readline
  imports Console_In
begin

text \<open>
  \<^verbatim>\<open>lib/readline.c\<close>: reading an edited line from the console into a static buffer of \<^verbatim>\<open>BUFLEN\<close> bytes, whose address is
  part of the literal record.
\<close>

section \<open>Definitions\<close>

record rlits = klits +
  prompt_fmt :: u64
  readerr_fmt :: u64
  rl_buf :: u64

definition BUFLEN :: nat where
  "BUFLEN = 1024"

partial_function (option) readline_loop ::
    "'h hwops \<Rightarrow> 'k rlits_scheme \<Rightarrow> bool \<Rightarrow> nat \<Rightarrow> 'h cstate \<Rightarrow> (u64 \<times> 'h cstate) cres" where
  "readline_loop H L echoing i s =
     cbind (getchar H L s) (\<lambda>(c, s).
       if c <s 0 then
         cbind (cprintf H (lits L) (readerr_fmt L) [ucast c] s) (\<lambda>(r, s). cret (0, s))
       else if (c = 0x08 \<or> c = 0x7f) \<and> 0 < i then
         readline_loop H L echoing (i - 1) (if echoing then cputchar H 0x08 s else s)
       else if 0x20 \<le>s c \<and> i < BUFLEN - 1 then
         let s = (if echoing then cputchar H c s else s)
         in readline_loop H L echoing (i + 1) (s\<lparr>mem := (mem s)(rl_buf L + of_nat i := ucast c)\<rparr>)
       else if c = 0x0A \<or> c = 0x0D then
         let s = (if echoing then cputchar H 0x0A s else s)
         in cret (rl_buf L, s\<lparr>mem := (mem s)(rl_buf L + of_nat i := 0)\<rparr>)
       else readline_loop H L echoing i s)"

definition readline :: "'h hwops \<Rightarrow> 'k rlits_scheme \<Rightarrow> u64 \<Rightarrow> 'h cstate \<Rightarrow> (u64 \<times> 'h cstate) cres" where
  "readline H L prompt s =
     cbind (if prompt \<noteq> 0 then cbind (cprintf H (lits L) (prompt_fmt L) [prompt] s) (\<lambda>(r, s). cret s) else cret s)
       (readline_loop H L (iscons 0 \<noteq> 0) 0)"

section \<open>The console under readline\<close>

lemma getchar_ok:
  assumes "console_inv s0 s"
  shows "ok (\<lambda>(c, t). console_inv s0 t \<and> is_byte c) (getchar H L s)"
proof (rule ok_of_Some)
  let ?Q = "\<lambda>(c, t). console_inv s0 t \<and> is_byte c"
  fix r assume ret: "getchar H L s = Some r"
  have "console_inv s0 s \<longrightarrow> ok ?Q (Some r)"
  proof (rule getchar.raw_induct [where P = "\<lambda>H L s r. console_inv s0 s \<longrightarrow> ok ?Q (Some r)", OF _ ret], intro impI)
    fix f H L s r
    assume IH: "\<And>H L s r. f H L s = Some r \<Longrightarrow> console_inv s0 s \<longrightarrow> ok ?Q (Some r)"
      and eq: "cbind (cons_getc H L s) (\<lambda>(c, s). if c = 0 then f H L s else cret (c, s)) = Some r"
      and s: "console_inv s0 s"
    have f: "ok ?Q (f H L s)" if "console_inv s0 s" for s
      using IH that by (blast intro: ok_of_Some)
    show "ok ?Q (Some r)"
      unfolding eq [symmetric] by (rule ok_bind [OF cons_getc_ok [OF s]]) (auto dest: f)
  qed
  with assms show "ok ?Q (Some r)" by simp
qed

lemma cputchar_console: "console_inv s0 s \<Longrightarrow> console_inv s0 (cputchar H c s)"
proof -
  assume s: "console_inv s0 s"
  then have "crt_ok s" by (simp add: console_inv_def console_ok_def)
  from cons_putc_step [OF this, of H c] have "crt_ok (cputchar H c s)" "disp_only s (cputchar H c s)"
    by (simp_all add: out_step_def cputchar_def)
  then show ?thesis by (intro console_inv_out [OF s]) (simp_all add: out_only_def disp_only_def)
qed

section \<open>The line so far\<close>

text \<open>
  While \<^verbatim>\<open>readline\<close> runs, the first \<open>i\<close> bytes of its buffer are printable characters and
  only the buffer and the display have changed.
\<close>

definition line_inv :: "u64 \<Rightarrow> 'h cstate \<Rightarrow> nat \<Rightarrow> 'h cstate \<Rightarrow> bool" where
  "line_inv b s0 i s \<longleftrightarrow> console_ok s \<and> crt_buf s = crt_buf s0 \<and> i < BUFLEN
     \<and> (\<forall>j < i. 0x20 \<le> mem s (b + of_nat j))
     \<and> (\<forall>a. in_block (crt_buf s0) 4000 a \<or> in_block b 1024 a \<or> mem s a = mem s0 a)"

definition buf_apart :: "u64 \<Rightarrow> 'h cstate \<Rightarrow> bool" where
  "buf_apart b s \<longleftrightarrow> unat b + 1024 \<le> 2 ^ 64 \<and> (\<forall>a. in_block b 1024 a \<longrightarrow> \<not> in_block (crt_buf s) 4000 a)"

lemma buf_byte: "unat b + 1024 \<le> 2 ^ 64 \<Longrightarrow> i < 1024 \<Longrightarrow> in_block b 1024 (b + of_nat i)"
  using unat_add_less [of b i] by (simp add: in_block_def)

lemma line_inv_console:
  assumes "line_inv b s0 i s" "buf_apart b s0" "console_inv s t"
  shows "line_inv b s0 i t"
proof -
  have "mem t (b + of_nat j) = mem s (b + of_nat j)" if "j < i" for j
  proof -
    have "in_block b 1024 (b + of_nat j)"
      using that assms(1,2) by (intro buf_byte) (simp_all add: line_inv_def buf_apart_def BUFLEN_def)
    then show ?thesis using assms by (auto simp: line_inv_def buf_apart_def console_inv_def)
  qed
  moreover have "in_block (crt_buf s0) 4000 a \<or> in_block b 1024 a \<or> mem t a = mem s0 a" for a
    using assms(1,3) unfolding line_inv_def console_inv_def by metis
  ultimately show ?thesis using assms(1,3) by (simp add: line_inv_def console_inv_def)
qed

lemma line_inv_write:
  assumes "line_inv b s0 i s" "unat b + 1024 \<le> 2 ^ 64"
  shows "0x20 \<le> v \<Longrightarrow> i < BUFLEN - 1 \<Longrightarrow> line_inv b s0 (i + 1) (s\<lparr>mem := (mem s)(b + of_nat i := v)\<rparr>)"
proof -
  assume v: "0x20 \<le> v" and i: "i < BUFLEN - 1"
  have "in_block b 1024 (b + of_nat i)" using assms(2) i by (intro buf_byte) (simp_all add: BUFLEN_def)
  with assms(1) v i show ?thesis
    by (auto simp: line_inv_def console_ok_def crt_ok_def ring_ok_def less_Suc_eq)
qed

lemma line_inv_less: "line_inv b s0 i s \<Longrightarrow> line_inv b s0 (i - 1) s"
  by (auto simp: line_inv_def)

definition line_done :: "u64 \<Rightarrow> 'h cstate \<Rightarrow> u64 \<times> 'h cstate \<Rightarrow> bool" where
  "line_done b s0 r \<longleftrightarrow> fst r = b \<and> console_ok (snd r) \<and> crt_buf (snd r) = crt_buf s0
     \<and> (\<exists>xs. cstr (mem (snd r)) b xs \<and> length xs < BUFLEN \<and> (\<forall>x \<in> set xs. 0x20 \<le> x))
     \<and> (\<forall>a. in_block (crt_buf s0) 4000 a \<or> in_block b 1024 a \<or> mem (snd r) a = mem s0 a)"

lemma cstr_bytes: "(\<forall>j < i. m (b + of_nat j) \<noteq> 0) \<Longrightarrow> m (b + of_nat i) = 0 \<Longrightarrow> cstr m b (bytes m b i)"
proof (induction i arbitrary: b)
  case (Suc i)
  from Suc.prems(1) have "m b \<noteq> 0" by force
  moreover have "\<forall>j < i. m (b + 1 + of_nat j) \<noteq> 0" using Suc.prems(1) by (auto simp: All_less_Suc2 add.assoc)
  ultimately show ?case using Suc.IH [of "b + 1"] Suc.prems(2) by (simp add: add.assoc)
qed simp

lemma set_bytes: "x \<in> set (bytes m b i) \<longleftrightarrow> (\<exists>j < i. x = m (b + of_nat j))"
  by (auto simp: in_set_conv_nth)

lemma line_inv_done:
  assumes "line_inv b s0 i s" "buf_apart b s0"
  shows "line_done b s0 (b, s\<lparr>mem := (mem s)(b + of_nat i := 0)\<rparr>)"
proof -
  let ?m = "(mem s)(b + of_nat i := 0)"
  have i: "i < 1024" and b: "unat b + 1024 \<le> 2 ^ 64" using assms by (simp_all add: line_inv_def buf_apart_def BUFLEN_def)
  have same: "?m (b + of_nat j) = mem s (b + of_nat j)" if "j < i" for j
    using that i offset_eq_iff [of j i b] by simp
  have ge: "0x20 \<le> ?m (b + of_nat j)" if "j < i" for j
    using that same [OF that] assms(1) by (simp add: line_inv_def)
  have "x \<noteq> 0" if "0x20 \<le> x" for x :: u8 using that by auto
  with ge have "\<forall>j < i. ?m (b + of_nat j) \<noteq> 0" by blast
  then have "cstr ?m b (bytes ?m b i)" by (rule cstr_bytes) simp
  moreover have "\<forall>x \<in> set (bytes ?m b i). 0x20 \<le> x" using ge by (auto simp only: set_bytes)
  moreover have "in_block b 1024 (b + of_nat i)" using b i by (rule buf_byte)
  ultimately show ?thesis
    using assms(1) i unfolding line_done_def fst_conv snd_conv
    by (auto simp: line_inv_def BUFLEN_def console_ok_def crt_ok_def ring_ok_def intro!: exI [of _ "bytes ?m b i"])
qed

lemma printable_byte: "is_byte c \<Longrightarrow> 0x20 \<le>s c \<Longrightarrow> (0x20 :: u8) \<le> ucast c"
proof -
  assume c: "is_byte c" "0x20 \<le>s c"
  then have "32 \<le> sint c" "sint c < 256" by (simp_all add: is_byte_def word_sle_eq)
  define k where "k = nat (sint c)"
  have k: "32 \<le> k" "k < 256" "c = of_nat k"
    using \<open>32 \<le> sint c\<close> \<open>sint c < 256\<close> by (simp_all add: k_def)
  have "unat (ucast c :: u8) = k" unfolding k(3) using k(1,2)
    by (simp add: unsigned_of_nat unat_of_nat take_bit_nat_eq_self unsigned_ucast_eq)
  with k(1) show ?thesis by (simp add: word_le_nat_alt)
qed

lemma readline_loop_ok:
  assumes "line_inv (rl_buf L) s0 i s" "buf_apart (rl_buf L) s0"
  shows "ok (line_done (rl_buf L) s0) (readline_loop H L e i s)"
proof (rule ok_of_Some)
  let ?b = "rl_buf L"
  let ?Q = "ok (line_done ?b s0)"
  fix r assume ret: "readline_loop H L e i s = Some r"
  have "L = L \<longrightarrow> line_inv ?b s0 i s \<longrightarrow> ?Q (Some r)"
  proof (rule readline_loop.raw_induct
      [where P = "\<lambda>H L' e i s r. L' = L \<longrightarrow> line_inv ?b s0 i s \<longrightarrow> ?Q (Some r)", OF _ ret], intro impI)
    fix f H L' e i s r
    assume IH: "\<And>H L' e i s r. f H L' e i s = Some r \<Longrightarrow> L' = L \<longrightarrow> line_inv ?b s0 i s \<longrightarrow> ?Q (Some r)"
      and eq: "cbind (getchar H L' s) (\<lambda>(c, s).
       if c <s 0 then cbind (cprintf H (lits L') (readerr_fmt L') [ucast c] s) (\<lambda>(r, s). cret (0, s))
       else if (c = 0x08 \<or> c = 0x7f) \<and> 0 < i then f H L' e (i - 1) (if e then cputchar H 0x08 s else s)
       else if 0x20 \<le>s c \<and> i < BUFLEN - 1 then
         let s = (if e then cputchar H c s else s)
         in f H L' e (i + 1) (s\<lparr>mem := (mem s)(rl_buf L' + of_nat i := ucast c)\<rparr>)
       else if c = 0x0A \<or> c = 0x0D then
         let s = (if e then cputchar H 0x0A s else s)
         in cret (rl_buf L', s\<lparr>mem := (mem s)(rl_buf L' + of_nat i := 0)\<rparr>)
       else f H L' e i s) = Some r"
      and L': "L' = L" and s: "line_inv ?b s0 i s"
    have f: "?Q (f H L e i s)" if "line_inv ?b s0 i s" for i s
      using IH that by (blast intro: ok_of_Some)
    have b: "unat ?b + 1024 \<le> 2 ^ 64" using assms(2) by (simp add: buf_apart_def)
    have echo: "line_inv ?b s0 i (if e then cputchar H c t else t)" if "line_inv ?b s0 i t" for c t
    proof -
      have "console_inv t t" using that by (intro console_inv_refl) (simp add: line_inv_def)
      from line_inv_console [OF that assms(2) cputchar_console [OF this]] that show ?thesis by simp
    qed
    have "console_ok s" using s by (simp add: line_inv_def)
    note gc = getchar_ok [OF console_inv_refl [OF this], of H L]
    show "?Q (Some r)"
      unfolding eq [symmetric] L'
    proof (rule ok_bind [OF gc], clarify)
      fix c t assume t: "console_inv s t" and c: "is_byte c"
      have l: "line_inv ?b s0 i t" by (rule line_inv_console [OF s assms(2) t])
      have neg: "\<not> c <s 0" using c by (simp add: is_byte_def word_sless_alt)
      have bs: "?Q (f H L e (i - 1) (if e then cputchar H 0x08 t else t))"
        by (rule f [OF line_inv_less [OF echo [OF l]]])
      have chr: "?Q (f H L e (i + 1) (u\<lparr>mem := (mem u)(?b + of_nat i := ucast c)\<rparr>))"
        if "u = (if e then cputchar H c t else t)" "0x20 \<le>s c" "i < BUFLEN - 1" for u
        using that echo [OF l] printable_byte [OF c that(2)] by (intro f line_inv_write [OF _ b]) simp_all
      have nl: "line_done ?b s0 (?b, u\<lparr>mem := (mem u)(?b + of_nat i := 0)\<rparr>)"
        if "u = (if e then cputchar H 0x0A t else t)" for u
        using that echo [OF l] by (intro line_inv_done [OF _ assms(2)]) simp_all
      show "?Q (if c <s 0 then cbind (cprintf H (lits L) (readerr_fmt L) [ucast c] t) (\<lambda>(r, s). cret (0, s))
       else if (c = 0x08 \<or> c = 0x7f) \<and> 0 < i then f H L e (i - 1) (if e then cputchar H 0x08 t else t)
       else if 0x20 \<le>s c \<and> i < BUFLEN - 1 then
         let s = (if e then cputchar H c t else t)
         in f H L e (i + 1) (s\<lparr>mem := (mem s)(?b + of_nat i := ucast c)\<rparr>)
       else if c = 0x0A \<or> c = 0x0D then
         let s = (if e then cputchar H 0x0A t else t)
         in cret (?b, s\<lparr>mem := (mem s)(?b + of_nat i := 0)\<rparr>)
       else f H L e i t)"
        unfolding Let_def
        by (intro ok_if) (use neg in blast, rule bs, rule chr [OF refl], blast, blast, simp only: ok_simps,
          rule nl [OF refl], rule f [OF l])
    qed
  qed
  with assms(1) show "?Q (Some r)" by simp
qed

lemma readline_line:
  assumes "console_ok s" "buf_apart (rl_buf L) s"
  shows "ok (line_done (rl_buf L) s) (readline H L prompt s)"
proof -
  have start: "line_inv (rl_buf L) s 0 s" using assms(1) by (simp add: line_inv_def BUFLEN_def)
  have "ok (line_inv (rl_buf L) s 0)
      (if prompt \<noteq> 0 then cbind (cprintf H (lits L) (prompt_fmt L) [prompt] s) (\<lambda>(r, s). cret s) else cret s)"
    using line_inv_console [OF start assms(2)] start
    by (auto intro!: ok_bind [OF cprintf_console [OF console_inv_refl [OF assms(1)]]])
  then show ?thesis unfolding readline_def by (rule ok_bind) (rule readline_loop_ok [OF _ assms(2)])
qed

section \<open>Properties\<close>

text \<open>
  C13. \<^verbatim>\<open>readline\<close> is memory-safe for every input and every device: when it returns, it returns its buffer, which
  holds a NUL-terminated line of at most 1023 characters, none of them a control character; no byte of memory outside
  that buffer and the display has changed, and the console is in order. (The error return cannot be taken: the console
  never delivers a negative character.)
\<close>

theorem readline_safe:
  assumes "console_ok s" "buf_apart (rl_buf L) s" "readline H L prompt s = cret (p, t)"
  shows "p = rl_buf L \<and> console_ok t
    \<and> (\<exists>xs. cstr (mem t) (rl_buf L) xs \<and> length xs \<le> 1023 \<and> (\<forall>x \<in> set xs. 0x20 \<le> x))
    \<and> (\<forall>a. in_block (crt_buf s) 4000 a \<or> in_block (rl_buf L) 1024 a \<or> mem t a = mem s a)"
  using okD [OF readline_line [OF assms(1,2)] assms(3)] by (auto simp: line_done_def BUFLEN_def)

text \<open>A serial line on which one newline is waiting; the other ports read 0.\<close>

definition serial_hw :: "u8 list hwops" where
  "serial_hw = \<lparr>hw_inb = \<lambda>p h. if p = 0x3FD then (if h = [] then 0 else 1, h)
       else if p = 0x3F8 \<and> h \<noteq> [] then (hd h, tl h) else (0, h),
     hw_outb = \<lambda>_ _ h. h, cga_present = True\<rparr>"

definition serial_cstate :: "u8 list cstate" where
  "serial_cstate = \<lparr>mem = \<lambda>_. 0, color_flag = 7, color_parsing = 0, hw = [0x0A], serial_exists = True,
     addr_6845 = 0x3D4, crt_buf = KERNBASE + 0xB8000, crt_pos = 0, shift = 0,
     cons_buf = replicate 512 0, rpos = 0, wpos = 0\<rparr>"

definition demo_rlits :: rlits where
  "demo_rlits = \<lparr>lits = demo_rodata, reboot_str = 0, noserial_str = 0, prompt_fmt = 0, readerr_fmt = 0, rl_buf = 4096\<rparr>"

lemma serial_getc:
  "\<exists>t. cons_getc serial_hw demo_rlits serial_cstate = cret (0x0A, t)"
proof -
  have "serial_intr serial_hw serial_cstate =
      cret (serial_cstate\<lparr>hw := [], cons_buf := (replicate 512 0)[0 := 0x0A], wpos := 1\<rparr>)"
    by (simp add: serial_intr_def cons_intr.simps serial_proc_data_def inb_def serial_hw_def serial_cstate_def
        COM1_def cons_put_def CONSBUFSIZE_def Let_def)
  moreover have "kbd_intr serial_hw demo_rlits s = cret s" for s
    by (simp add: kbd_intr_def cons_intr.simps kbd_proc_data_def inb_def serial_hw_def)
  moreover have "(replicate 512 0)[0 := 0x0A] ! 0 = (0x0A :: u8)" by simp
  ultimately show ?thesis
    by (simp add: cons_getc_def cons_take_def CONSBUFSIZE_def Let_def serial_cstate_def del: list_update_code)
qed

theorem readline_safe_witness:
  "console_ok serial_cstate \<and> buf_apart 4096 serial_cstate
   \<and> (\<exists>p t. readline serial_hw demo_rlits 0 serial_cstate = cret (p, t) \<and> p = 4096 \<and> console_ok t)"
proof -
  have ok: "console_ok serial_cstate"
    by (simp add: console_ok_def crt_ok_def ring_ok_def serial_cstate_def KERNBASE_def)
  have ap: "buf_apart (rl_buf demo_rlits) serial_cstate"
    by (auto simp: buf_apart_def in_block_def demo_rlits_def serial_cstate_def KERNBASE_def)
  obtain t where "cons_getc serial_hw demo_rlits serial_cstate = cret (0x0A, t)" using serial_getc by blast
  then have "getchar serial_hw demo_rlits serial_cstate = cret (0x0A, t)" by (subst getchar.simps) simp
  then have "\<exists>t. readline serial_hw demo_rlits 0 serial_cstate = cret (4096, t)"
    by (simp add: readline_def iscons_def readline_loop.simps [of _ _ _ 0] word_sless_alt word_sle_eq Let_def
        demo_rlits_def [THEN arg_cong [of _ _ rl_buf]])
  then obtain u where u: "readline serial_hw demo_rlits 0 serial_cstate = cret (4096, u)" by blast
  from readline_safe [OF ok ap u] ok ap u show ?thesis by (auto simp: demo_rlits_def)
qed

end
