(* ===== verification/Monitor.thy ===== *)
theory Monitor
  imports Kdebug Readline Elf_Load
begin

text \<open>
  \<^verbatim>\<open>kern/monitor.c\<close>: the command interpreter. \<^verbatim>\<open>runcmd\<close> splits a line into words in place and calls a command of the table,
  \<^verbatim>\<open>monitor\<close> reads lines for ever.

  The addresses of the literals and of the kernel's linker symbols extend the literal record of \<^verbatim>\<open>readline\<close>. What the code
  leaves to the machine is the record \<open>menv\<close>: the frame pointer and instruction pointer \<^verbatim>\<open>mon_backtrace\<close> reads, the table of
  debug sections, and what uninitialised locals hold. The stack that the backtrace walks lies in memory. Integer arguments of
  \<^verbatim>\<open>cprintf\<close> reach their 64-bit slot zero-extended, as the compiler passes them; a \<^verbatim>\<open>char\<close> is extended with its sign first.
\<close>

section \<open>Definitions\<close>

record mlits = rlits +
  help_name :: u64
  help_desc :: u64
  kerninfo_name :: u64
  kerninfo_desc :: u64
  backtrace_name :: u64
  backtrace_desc :: u64
  help_fmt :: u64
  ki_title :: u64
  ki_start :: u64
  ki_entry :: u64
  ki_etext :: u64
  ki_edata :: u64
  ki_end :: u64
  ki_size :: u64
  bt_title :: u64
  bt_frame :: u64
  bt_file :: u64
  bt_char :: u64
  bt_offset :: u64
  bt_nargs :: u64
  bt_arg :: u64
  bt_newline :: u64
  unknown_str :: u64
  whitespace_str :: u64
  toomany_fmt :: u64
  unknown_fmt :: u64
  welcome_fmt :: u64
  typehelp_fmt :: u64
  prompt_str :: u64
  sym_start :: u64
  sym_entry :: u64
  sym_etext :: u64
  sym_edata :: u64
  sym_end :: u64

record menv =
  en_secs :: "dwarf_section list"
  en_cu :: dwarf_cu
  en_locals :: rip_locals
  en_info :: ripinfo
  en_rbp :: u64
  en_rip :: u64
  en_argv :: "u64 list"

datatype mon_func = Mon_help | Mon_kerninfo | Mon_backtrace

record command =
  cmd_name :: u64
  cmd_desc :: u64
  cmd_func :: mon_func

definition commands :: "'k mlits_scheme \<Rightarrow> command list" where
  "commands L =
     [\<lparr>cmd_name = help_name L, cmd_desc = help_desc L, cmd_func = Mon_help\<rparr>,
      \<lparr>cmd_name = kerninfo_name L, cmd_desc = kerninfo_desc L, cmd_func = Mon_kerninfo\<rparr>,
      \<lparr>cmd_name = backtrace_name L, cmd_desc = backtrace_desc L, cmd_func = Mon_backtrace\<rparr>]"

text \<open>A call of \<^verbatim>\<open>cprintf\<close> whose result is not used.\<close>

definition say :: "'h hwops \<Rightarrow> 'k mlits_scheme \<Rightarrow> u64 \<Rightarrow> u64 list \<Rightarrow> 'h cstate \<Rightarrow> 'h cstate cres" where
  "say H L fmt args s = cbind (cprintf H (lits L) fmt args s) (\<lambda>(r, s). cret s)"

text \<open>\<^verbatim>\<open>print_cu\<close> of \<^verbatim>\<open>kern/libdwarf_rw.c\<close>, which prints a unit header; \<open>fmt\<close> is the address of its format.\<close>

definition print_cu :: "'h hwops \<Rightarrow> 'k mlits_scheme \<Rightarrow> u64 \<Rightarrow> dwarf_cu \<Rightarrow> 'h cstate \<Rightarrow> 'h cstate cres" where
  "print_cu H L fmt cu s = say H L fmt [cu_length cu, ucast (cu_version cu), ucast (addr_size cu)] s"

fun help_loop :: "'h hwops \<Rightarrow> 'k mlits_scheme \<Rightarrow> command list \<Rightarrow> 'h cstate \<Rightarrow> 'h cstate cres" where
  "help_loop H L [] s = cret s"
| "help_loop H L (c # cs) s = cbind (say H L (help_fmt L) [cmd_name c, cmd_desc c] s) (help_loop H L cs)"

definition mon_help :: "'h hwops \<Rightarrow> 'k mlits_scheme \<Rightarrow> nat \<Rightarrow> u64 list \<Rightarrow> 'h cstate \<Rightarrow> (i32 \<times> 'h cstate) cres" where
  "mon_help H L argc argv s = cbind (help_loop H L (commands L) s) (\<lambda>s. cret (0, s))"

text \<open>Division of a signed number by 1024, which rounds towards 0.\<close>

definition kilo :: "i64 \<Rightarrow> i64" where
  "kilo x = (if x <s 0 then - ((- x) div 1024) else x div 1024)"

definition mon_kerninfo :: "'h hwops \<Rightarrow> 'k mlits_scheme \<Rightarrow> nat \<Rightarrow> u64 list \<Rightarrow> 'h cstate \<Rightarrow> (i32 \<times> 'h cstate) cres" where
  "mon_kerninfo H L argc argv s =
     cbind (say H L (ki_title L) [] s) (\<lambda>s.
     cbind (say H L (ki_start L) [sym_start L] s) (\<lambda>s.
     cbind (say H L (ki_entry L) [sym_entry L, sym_entry L - KERNBASE] s) (\<lambda>s.
     cbind (say H L (ki_etext L) [sym_etext L, sym_etext L - KERNBASE] s) (\<lambda>s.
     cbind (say H L (ki_edata L) [sym_edata L, sym_edata L - KERNBASE] s) (\<lambda>s.
     cbind (say H L (ki_end L) [sym_end L, sym_end L - KERNBASE] s) (\<lambda>s.
     cbind (say H L (ki_size L) [kilo (ROUNDUP (sym_end L - sym_entry L) 1024)] s) (\<lambda>s. cret (0, s))))))))"

section \<open>Backtrace\<close>

fun print_name :: "'h hwops \<Rightarrow> 'k mlits_scheme \<Rightarrow> u64 \<Rightarrow> nat \<Rightarrow> 'h cstate \<Rightarrow> 'h cstate cres" where
  "print_name H L a 0 s = cret s"
| "print_name H L a (Suc n) s =
     cbind (say H L (bt_char L) [ucast (scast (mem s a) :: i32)] s) (print_name H L (a + 1) n)"

fun print_args :: "'h hwops \<Rightarrow> 'k mlits_scheme \<Rightarrow> u64 \<Rightarrow> nat \<Rightarrow> nat \<Rightarrow> 'h cstate \<Rightarrow> 'h cstate cres" where
  "print_args H L rbp i 0 s = cret s"
| "print_args H L rbp i (Suc n) s =
     cbind (say H L (bt_arg L) [ucast (load32 (mem s) (rbp - of_nat ((i + 1) * 4)))] s) (print_args H L rbp (i + 1) n)"

definition show_frame :: "'h hwops \<Rightarrow> 'k mlits_scheme \<Rightarrow> u64 \<Rightarrow> u64 \<Rightarrow> ripinfo \<Rightarrow> 'h cstate \<Rightarrow> 'h cstate cres" where
  "show_frame H L rbp rip info s =
     cbind (say H L (bt_frame L) [rbp, rip] s) (\<lambda>s.
     cbind (say H L (bt_file L) [rip_file info, ucast (rip_line info)] s) (\<lambda>s.
     cbind (print_name H L (rip_fn_name info) (nat (sint (rip_fn_namelen info))) s) (\<lambda>s.
     cbind (say H L (bt_offset L) [rip - rip_fn_addr info] s) (\<lambda>s.
     cbind (say H L (bt_nargs L) [of_nat (rip_fn_narg info)] s) (\<lambda>s.
     cbind (print_args H L rbp 0 (rip_fn_narg info) s) (\<lambda>s.
     say H L (bt_newline L) [] s))))))"

definition lookup_rip :: "'k mlits_scheme \<Rightarrow> menv \<Rightarrow> mem \<Rightarrow> u64 \<Rightarrow> ripinfo \<Rightarrow> ripinfo cres" where
  "lookup_rip L E m rip info =
     cbind (debuginfo_rip m (en_secs E) (unknown_str L) (en_cu E) (en_locals E) rip info) (\<lambda>(r, dbg, info). cret info)"

partial_function (option) bt_loop ::
    "'h hwops \<Rightarrow> 'k mlits_scheme \<Rightarrow> menv \<Rightarrow> u64 \<Rightarrow> u64 \<Rightarrow> ripinfo \<Rightarrow> 'h cstate \<Rightarrow> 'h cstate cres" where
  "bt_loop H L E rbp rip info s =
     (if rbp = 0 then cret s
      else
        cbind (show_frame H L rbp rip info s) (\<lambda>s.
          let rip = load64 (mem s) (rbp + 8);
              rbp = load64 (mem s) rbp
          in cbind (lookup_rip L E (mem s) rip info) (\<lambda>info. bt_loop H L E rbp rip info s)))"

definition mon_backtrace :: "'h hwops \<Rightarrow> 'k mlits_scheme \<Rightarrow> menv \<Rightarrow> nat \<Rightarrow> u64 list \<Rightarrow> 'h cstate \<Rightarrow> (i32 \<times> 'h cstate) cres" where
  "mon_backtrace H L E argc argv s =
     cbind (say H L (bt_title L) [] s) (\<lambda>s.
     cbind (lookup_rip L E (mem s) (en_rip E) (en_info E)) (\<lambda>info.
     cbind (bt_loop H L E (en_rbp E) (en_rip E) info s) (\<lambda>s. cret (0, s))))"

section \<open>The command line\<close>

definition MAXARGS :: nat where
  "MAXARGS = 16"

text \<open>White space is overwritten with NULs, which ends the word before it.\<close>

partial_function (option) gobble :: "u64 \<Rightarrow> u64 \<Rightarrow> mem \<Rightarrow> (u64 \<times> mem) cres" where
  "gobble ws bp m =
     (if m bp = 0 then cret (bp, m)
      else cbind (clift (strchr m ws (m bp))) (\<lambda>p.
        if p \<noteq> 0 then gobble ws (bp + 1) (m(bp := 0)) else cret (bp, m)))"

partial_function (option) skip_word :: "u64 \<Rightarrow> u64 \<Rightarrow> mem \<Rightarrow> u64 cres" where
  "skip_word ws bp m =
     (if m bp = 0 then cret bp
      else cbind (clift (strchr m ws (m bp))) (\<lambda>p. if p = 0 then skip_word ws (bp + 1) m else cret bp))"

text \<open>\<^verbatim>\<open>argv[i] = p\<close> on the array of \<^verbatim>\<open>MAXARGS\<close> pointers.\<close>

definition argv_set :: "u64 list \<Rightarrow> nat \<Rightarrow> u64 \<Rightarrow> u64 list cres" where
  "argv_set argv i p = (if i < length argv then cret (argv[i := p]) else cfail Undefined)"

text \<open>\<^verbatim>\<open>None\<close> when there are too many words.\<close>

partial_function (option) parse_args :: "u64 \<Rightarrow> nat \<Rightarrow> u64 list \<Rightarrow> u64 \<Rightarrow> mem \<Rightarrow> ((nat \<times> u64 list) option \<times> mem) cres" where
  "parse_args ws argc argv bp m =
     cbind (gobble ws bp m) (\<lambda>(bp, m).
       if m bp = 0 then cret (Some (argc, argv), m)
       else if argc = MAXARGS - 1 then cret (None, m)
       else
         cbind (argv_set argv argc bp) (\<lambda>argv.
         cbind (skip_word ws bp m) (\<lambda>bp. parse_args ws (argc + 1) argv bp m)))"

definition call_func ::
    "'h hwops \<Rightarrow> 'k mlits_scheme \<Rightarrow> menv \<Rightarrow> mon_func \<Rightarrow> nat \<Rightarrow> u64 list \<Rightarrow> 'h cstate \<Rightarrow> (i32 \<times> 'h cstate) cres" where
  "call_func H L E f argc argv s =
     (case f of
        Mon_help \<Rightarrow> mon_help H L argc argv s
      | Mon_kerninfo \<Rightarrow> mon_kerninfo H L argc argv s
      | Mon_backtrace \<Rightarrow> mon_backtrace H L E argc argv s)"

fun find_cmd :: "mem \<Rightarrow> u64 \<Rightarrow> command list \<Rightarrow> mon_func option cres" where
  "find_cmd m w [] = cret None"
| "find_cmd m w (c # cs) =
     cbind (clift (strcmp m w (cmd_name c))) (\<lambda>r. if r = 0 then cret (Some (cmd_func c)) else find_cmd m w cs)"

text \<open>\<open>call\<close> is the call \<^verbatim>\<open>commands[i].func(argc, argv, tf)\<close>, \<open>argv\<close> what the array holds at first.\<close>

definition runcmd_with ::
    "(mon_func \<Rightarrow> nat \<Rightarrow> u64 list \<Rightarrow> 'h cstate \<Rightarrow> (i32 \<times> 'h cstate) cres) \<Rightarrow>
      'h hwops \<Rightarrow> 'k mlits_scheme \<Rightarrow> u64 list \<Rightarrow> u64 \<Rightarrow> 'h cstate \<Rightarrow> (i32 \<times> 'h cstate) cres" where
  "runcmd_with call H L argv bp s =
     cbind (argv_set argv 0 0) (\<lambda>argv.
     cbind (parse_args (whitespace_str L) 0 argv bp (mem s)) (\<lambda>(r, m).
       let s = s\<lparr>mem := m\<rparr> in
       case r of
         None \<Rightarrow> cbind (say H L (toomany_fmt L) [of_nat MAXARGS] s) (\<lambda>s. cret (0, s))
       | Some (argc, argv) \<Rightarrow>
           cbind (argv_set argv argc 0) (\<lambda>argv.
             if argc = 0 then cret (0, s)
             else cbind (find_cmd (mem s) (argv ! 0) (commands L)) (\<lambda>c.
               case c of
                 Some f \<Rightarrow> call f argc argv s
               | None \<Rightarrow> cbind (say H L (unknown_fmt L) [argv ! 0] s) (\<lambda>s. cret (0, s))))))"

definition runcmd :: "'h hwops \<Rightarrow> 'k mlits_scheme \<Rightarrow> menv \<Rightarrow> u64 \<Rightarrow> 'h cstate \<Rightarrow> (i32 \<times> 'h cstate) cres" where
  "runcmd H L E = runcmd_with (call_func H L E) H L (en_argv E)"

partial_function (option) monitor_loop :: "'h hwops \<Rightarrow> 'k mlits_scheme \<Rightarrow> menv \<Rightarrow> 'h cstate \<Rightarrow> 'h cstate cres" where
  "monitor_loop H L E s =
     cbind (readline H L (prompt_str L) s) (\<lambda>(bp, s).
       if bp \<noteq> 0 then cbind (runcmd H L E bp s) (\<lambda>(r, s). if r <s 0 then cret s else monitor_loop H L E s)
       else monitor_loop H L E s)"

definition monitor :: "'h hwops \<Rightarrow> 'k mlits_scheme \<Rightarrow> menv \<Rightarrow> 'h cstate \<Rightarrow> 'h cstate cres" where
  "monitor H L E s =
     cbind (say H L (welcome_fmt L) [] s) (\<lambda>s.
     cbind (say H L (typehelp_fmt L) [] s) (\<lambda>s. monitor_loop H L E s))"

declare bt_loop.simps [code] gobble.simps [code] skip_word.simps [code] parse_args.simps [code] monitor_loop.simps [code]

section \<open>Words of a line\<close>

definition is_ws :: "u8 \<Rightarrow> bool" where
  "is_ws c \<longleftrightarrow> c \<in> {0x09, 0x0D, 0x0A, 0x20}"

definition whites :: "u8 list" where
  "whites = [0x09, 0x0D, 0x0A, 0x20]"

function words :: "u8 list \<Rightarrow> u8 list list" where
  "words xs =
     (case dropWhile is_ws xs of
        [] \<Rightarrow> []
      | x # ys \<Rightarrow> (x # takeWhile (Not \<circ> is_ws) ys) # words (dropWhile (Not \<circ> is_ws) ys))"
  by pat_completeness auto
termination
proof (relation "measure length")
  fix xs x and ys :: "u8 list"
  assume "dropWhile is_ws xs = x # ys"
  then have "length ys < length xs" using length_dropWhile_le [of is_ws xs] by simp
  then show "(dropWhile (Not \<circ> is_ws) ys, xs) \<in> measure length"
    using length_dropWhile_le [of "Not \<circ> is_ws" ys] by simp
qed simp

declare words.simps [simp del]

text \<open>Where the words of a line at \<open>bp\<close> start.\<close>

function word_ptrs :: "u64 \<Rightarrow> u8 list \<Rightarrow> u64 list" where
  "word_ptrs bp xs =
     (case dropWhile is_ws xs of
        [] \<Rightarrow> []
      | x # ys \<Rightarrow>
          let p = bp + of_nat (length (takeWhile is_ws xs)) in
          p # word_ptrs (p + 1 + of_nat (length (takeWhile (Not \<circ> is_ws) ys))) (dropWhile (Not \<circ> is_ws) ys))"
  by pat_completeness auto
termination
proof (relation "measure (length \<circ> snd)")
  fix xs x and ys :: "u8 list" and bp p :: u64
  assume "dropWhile is_ws xs = x # ys"
  then have "length ys < length xs" using length_dropWhile_le [of is_ws xs] by simp
  then show "((p + 1 + of_nat (length (takeWhile (Not \<circ> is_ws) ys)), dropWhile (Not \<circ> is_ws) ys), bp, xs) \<in> measure (length \<circ> snd)"
    using length_dropWhile_le [of "Not \<circ> is_ws" ys] by simp
qed simp

declare word_ptrs.simps [simp del]

text \<open>The line with its white space overwritten.\<close>

fun blank :: "mem \<Rightarrow> u64 \<Rightarrow> u8 list \<Rightarrow> mem" where
  "blank m bp [] = m"
| "blank m bp (x # xs) = blank (if is_ws x then m(bp := 0) else m) (bp + 1) xs"

lemma blank_append: "blank m bp (xs @ ys) = blank (blank m bp xs) (bp + of_nat (length xs)) ys"
  by (induction xs arbitrary: m bp) (simp_all add: add.assoc)

lemma blank_word: "\<forall>x \<in> set xs. \<not> is_ws x \<Longrightarrow> blank m bp xs = m"
  by (induction xs arbitrary: bp) simp_all

lemma offset64_eq_iff: "x < 2 ^ 64 \<Longrightarrow> y < 2 ^ 64 \<Longrightarrow> (b :: u64) + of_nat x = b + of_nat y \<longleftrightarrow> x = y"
  by (simp add: word_of_nat_eq_iff take_bit_nat_eq_self)

lemma blank_at: "blank m bp xs a = (if \<exists>i < length xs. a = bp + of_nat i \<and> is_ws (xs ! i) then 0 else m a)"
proof (induction xs arbitrary: m bp)
  case (Cons x xs)
  have "(\<exists>i < length (x # xs). a = bp + of_nat i \<and> is_ws ((x # xs) ! i))
      \<longleftrightarrow> a = bp \<and> is_ws x \<or> (\<exists>i < length xs. a = bp + 1 + of_nat i \<and> is_ws (xs ! i))"
    by (auto simp: Ex_less_Suc2 add.assoc)
  then show ?case unfolding blank.simps Cons by (auto simp del: length_Cons)
qed simp

lemma blank_kept: "(\<And>i. i < length xs \<Longrightarrow> \<not> K (bp + of_nat i)) \<Longrightarrow> K a \<Longrightarrow> blank m bp xs a = m a"
  by (auto simp: blank_at)

lemma kstr_blank: "kstr K m p ys \<Longrightarrow> (\<And>i. i < length xs \<Longrightarrow> \<not> K (bp + of_nat i)) \<Longrightarrow> kstr K (blank m bp xs) p ys"
  unfolding kstr_def using kpre_cong [of K m p "ys @ [0]" "blank m bp xs"] blank_kept [of xs K bp] by blast

lemma cstr_blank: "cstr m bp (xs @ ys) \<Longrightarrow> cstr (blank m bp xs) (bp + of_nat (length xs)) ys"
proof -
  assume c: "cstr m bp (xs @ ys)"
  from cstr_length [OF this] have len: "length xs + length ys < 2 ^ 64" by simp
  have "cstr m (bp + of_nat (length xs)) ys" using cstr_drop [OF c, of "length xs"] by simp
  then show ?thesis
  proof (rule cstr_cong [rotated])
    fix i assume "i \<le> length ys"
    then have "bp + of_nat (length xs) + of_nat i \<noteq> bp + of_nat j" if "j < length xs" for j
      using that len offset64_eq_iff [of "length xs + i" j bp] by (simp add: add.assoc)
    then show "blank m bp xs (bp + of_nat (length xs) + of_nat i) = m (bp + of_nat (length xs) + of_nat i)"
      by (auto simp: blank_at)
  qed
qed

lemma cstr_first_word:
  assumes "cstr m bp (w @ xs)" "\<forall>x \<in> set w. \<not> is_ws x" "xs = [] \<or> is_ws (hd xs)"
  shows "cstr (blank m bp (w @ xs)) bp w"
proof -
  from cstr_length [OF assms(1)] have len: "length w + length xs < 2 ^ 64" by simp
  have at: "(of_nat i :: u64) = of_nat j \<longleftrightarrow> i = j" if "i \<le> length w + length xs" "j < length w + length xs" for i j
    using that len offset64_eq_iff [of i j 0] by simp
  have b: "blank m bp (w @ xs) (bp + of_nat i) = (if i < length w then w ! i else 0)" if i: "i \<le> length w" for i
  proof (cases "i < length w")
    case True
    then have "m (bp + of_nat i) = w ! i" using cstr_nth [OF assms(1), of i] by (simp add: nth_append)
    moreover have "\<not> is_ws (w ! i)" using True assms(2) by simp
    ultimately show ?thesis using True at by (auto simp: blank_at nth_append)
  next
    case False
    then have [simp]: "i = length w" using i by simp
    show ?thesis
    proof (cases xs)
      case Nil
      with cstr_end [OF assms(1)] show ?thesis by (simp add: blank_at)
    next
      case (Cons x ys)
      with assms(3) show ?thesis by (auto simp: blank_at nth_append intro!: exI [of _ "length w"])
    qed
  qed
  then have "bytes (blank m bp (w @ xs)) bp (length w) = w" by (auto intro: nth_equalityI)
  moreover have "cstr (blank m bp (w @ xs)) bp (bytes (blank m bp (w @ xs)) bp (length w))"
  proof (rule cstr_bytes)
    show "\<forall>j < length w. blank m bp (w @ xs) (bp + of_nat j) \<noteq> 0"
      using b cstr_no_zero [OF assms(1)] by (auto simp: in_set_conv_nth)
    show "blank m bp (w @ xs) (bp + of_nat (length w)) = 0" using b [of "length w"] by simp
  qed
  ultimately show ?thesis by simp
qed

lemma strchr_ws: "kstr K m ws whites \<Longrightarrow> ws \<noteq> 0 \<Longrightarrow> unat ws + 4 < 2 ^ 64 \<Longrightarrow>
  \<exists>p. strchr m ws c = Some p \<and> (p \<noteq> 0 \<longleftrightarrow> is_ws c)"
proof -
  assume k: "kstr K m ws whites" and ws: "ws \<noteq> 0" "unat ws + 4 < 2 ^ 64"
  have "ws + of_nat i \<noteq> 0" if "i \<le> 4" for i
  proof -
    have "unat (ws + of_nat i) = unat ws + i" using that ws by (intro unat_add_less) linarith
    moreover have "0 < unat ws" using ws(1) by (simp add: unat_gt_0)
    ultimately have "unat (ws + of_nat i) \<noteq> 0" by linarith
    then show ?thesis by force
  qed
  moreover have "length (takeWhile (\<lambda>x. x \<noteq> c) whites) \<le> 4"
    using length_takeWhile_le [of "\<lambda>x. x \<noteq> c" whites] by (simp add: whites_def)
  moreover have "c \<in> set whites \<longleftrightarrow> is_ws c" by (simp add: whites_def is_ws_def)
  ultimately show ?thesis using strchr_cstr [OF kstr_cstr [OF k], of c] by auto
qed
text \<open>The two loops of \<^verbatim>\<open>runcmd\<close> on a line. \<open>K\<close> holds of the addresses the line does not use.\<close>

definition ws_lit :: "(u64 \<Rightarrow> bool) \<Rightarrow> mem \<Rightarrow> u64 \<Rightarrow> bool" where
  "ws_lit K m ws \<longleftrightarrow> kstr K m ws whites \<and> ws \<noteq> 0 \<and> unat ws + 4 < 2 ^ 64"

definition line_at :: "(u64 \<Rightarrow> bool) \<Rightarrow> mem \<Rightarrow> u64 \<Rightarrow> u8 list \<Rightarrow> bool" where
  "line_at K m bp xs \<longleftrightarrow> cstr m bp xs \<and> (\<forall>i < length xs. \<not> K (bp + of_nat i))"

lemma line_at_Cons: "line_at K m bp (x # xs) \<Longrightarrow> m bp = x \<and> x \<noteq> 0 \<and> \<not> K bp \<and> line_at K m (bp + 1) xs"
  by (auto simp: line_at_def All_less_Suc2 add.assoc)

lemma line_at_append: "line_at K m bp (xs @ ys) \<Longrightarrow> line_at K (blank m bp xs) (bp + of_nat (length xs)) ys"
  unfolding line_at_def using cstr_blank [of m bp xs ys] by (auto simp: add.assoc of_nat_add [symmetric] simp del: of_nat_add)

lemma line_at_write: "line_at K m bp (x # xs) \<Longrightarrow> line_at K (m(bp := 0)) (bp + 1) xs"
proof -
  assume l: "line_at K m bp (x # xs)"
  then have "length xs + 1 < 2 ^ 64" using cstr_length [of m bp "x # xs"] by (simp add: line_at_def)
  then have "(m(bp := 0)) (bp + 1 + of_nat i) = m (bp + 1 + of_nat i)" if "i \<le> length xs" for i
    using that offset64_eq_iff [of "Suc i" 0 bp] by (simp add: add.assoc)
  with line_at_Cons [OF l] show ?thesis unfolding line_at_def by (auto intro: cstr_cong [rotated])
qed

lemma ws_lit_blank: "ws_lit K m ws \<Longrightarrow> (\<And>i. i < length xs \<Longrightarrow> \<not> K (bp + of_nat i)) \<Longrightarrow> ws_lit K (blank m bp xs) ws"
  unfolding ws_lit_def using kstr_blank [of K m ws whites xs bp] by blast

lemma ws_lit_write: "ws_lit K m ws \<Longrightarrow> \<not> K bp \<Longrightarrow> ws_lit K (m(bp := 0)) ws"
  using ws_lit_blank [of K m ws "[0x20]" bp] by (simp add: is_ws_def)

lemma gobble_line:
  "line_at K m bp xs \<Longrightarrow> ws_lit K m ws \<Longrightarrow>
   gobble ws bp m = cret (bp + of_nat (length (takeWhile is_ws xs)), blank m bp (takeWhile is_ws xs))"
proof (induction xs arbitrary: m bp)
  case Nil
  then show ?case by (simp add: gobble.simps [of ws bp] line_at_def)
next
  case (Cons x xs)
  note c = line_at_Cons [OF Cons.prems(1)]
  from Cons.prems(2) obtain p where "strchr m ws x = Some p" "p \<noteq> 0 \<longleftrightarrow> is_ws x"
    unfolding ws_lit_def using strchr_ws by blast
  moreover have "is_ws x \<Longrightarrow> gobble ws (bp + 1) (m(bp := 0)) =
      cret (bp + 1 + of_nat (length (takeWhile is_ws xs)), blank (m(bp := 0)) (bp + 1) (takeWhile is_ws xs))"
    by (rule Cons.IH [OF line_at_write [OF Cons.prems(1)] ws_lit_write [OF Cons.prems(2)]]) (use c in blast)
  ultimately show ?case using c by (cases "is_ws x") (simp_all add: gobble.simps [of ws bp] add.assoc)
qed

lemma skip_word_line:
  "line_at K m bp xs \<Longrightarrow> ws_lit K m ws \<Longrightarrow>
   skip_word ws bp m = cret (bp + of_nat (length (takeWhile (Not \<circ> is_ws) xs)))"
proof (induction xs arbitrary: bp)
  case Nil
  then show ?case by (simp add: skip_word.simps [of ws bp] line_at_def)
next
  case (Cons x xs)
  note c = line_at_Cons [OF Cons.prems(1)]
  from Cons.prems(2) obtain p where "strchr m ws x = Some p" "p \<noteq> 0 \<longleftrightarrow> is_ws x"
    unfolding ws_lit_def using strchr_ws by blast
  with c Cons.IH [of "bp + 1"] Cons.prems(2) show ?case
    by (cases "is_ws x") (simp_all add: skip_word.simps [of ws bp] add.assoc)
qed

lemma words_Nil: "dropWhile is_ws xs = [] \<Longrightarrow> words xs = []"
  by (subst words.simps) (simp only: list.case)

lemma words_Cons: "dropWhile is_ws xs = x # ys \<Longrightarrow>
    words xs = (x # takeWhile (Not \<circ> is_ws) ys) # words (dropWhile (Not \<circ> is_ws) ys)"
  by (subst words.simps) simp

lemma word_ptrs_Cons: "dropWhile is_ws xs = x # ys \<Longrightarrow> \<not> is_ws x \<Longrightarrow>
    word_ptrs bp xs = (bp + of_nat (length (takeWhile is_ws xs)))
      # word_ptrs (bp + of_nat (length (takeWhile is_ws xs)) + of_nat (length (takeWhile (Not \<circ> is_ws) (x # ys)))) (dropWhile (Not \<circ> is_ws) (x # ys))"
  by (subst word_ptrs.simps) (simp add: Let_def add.assoc)

lemma argv_set_ok: "i < length argv \<Longrightarrow> argv_set argv i p = cret (argv[i := p])"
  by (simp add: argv_set_def)

text \<open>What \<^verbatim>\<open>argv\<close> holds after \<open>argc\<close> words were there already; the words lie in the line.\<close>

definition argv_words :: "(u64 \<Rightarrow> bool) \<Rightarrow> mem \<Rightarrow> nat \<Rightarrow> u64 list \<Rightarrow> u64 list \<Rightarrow> u64 list \<Rightarrow> u8 list list \<Rightarrow> bool" where
  "argv_words K m argc argv argv' ps ws \<longleftrightarrow> length argv' = length argv \<and> take argc argv' = take argc argv
     \<and> (\<forall>i < length ws. argv' ! (argc + i) = ps ! i \<and> cstr m (argv' ! (argc + i)) (ws ! i)
          \<and> (\<forall>j < length (ws ! i). \<not> K (argv' ! (argc + i) + of_nat j)))"

lemma argv_words_Cons:
  assumes "argv_words K m (argc + 1) (argv[argc := p]) argv' ps ws" "argc < length argv" "cstr m p w" "\<forall>j < length w. \<not> K (p + of_nat j)"
  shows "argv_words K m argc argv argv' (p # ps) (w # ws)"
proof -
  have t: "take (Suc argc) argv' = take (Suc argc) (argv[argc := p])" and l: "length argv' = length argv"
    using assms(1) by (simp_all add: argv_words_def)
  have "argv' ! argc = p"
  proof -
    have "take (Suc argc) argv' ! argc = take (Suc argc) (argv[argc := p]) ! argc" by (simp add: t)
    then show ?thesis using assms(2) by simp
  qed
  moreover have "take argc argv' = take argc argv"
  proof -
    have "take argc (take (Suc argc) argv') = take argc (take (Suc argc) (argv[argc := p]))" by (simp add: t)
    then show ?thesis by (simp add: min_def)
  qed
  ultimately show ?thesis using assms l by (auto simp: argv_words_def nth_Cons split: nat.split)
qed

definition parse_spec :: "(u64 \<Rightarrow> bool) \<Rightarrow> u64 \<Rightarrow> nat \<Rightarrow> u64 list \<Rightarrow> u64 \<Rightarrow> mem \<Rightarrow> u8 list \<Rightarrow> bool" where
  "parse_spec K ws argc argv bp m xs \<longleftrightarrow>
     (if argc + length (words xs) < MAXARGS then
        \<exists>argv'. parse_args ws argc argv bp m = cret (Some (argc + length (words xs), argv'), blank m bp xs)
          \<and> argv_words K (blank m bp xs) argc argv argv' (word_ptrs bp xs) (words xs)
      else \<exists>m'. parse_args ws argc argv bp m = cret (None, m') \<and> (\<forall>a. K a \<longrightarrow> m' a = m a))"

lemma parse_args_words:
  "line_at K m bp xs \<Longrightarrow> ws_lit K m ws \<Longrightarrow> argc < MAXARGS \<Longrightarrow> length argv = MAXARGS \<Longrightarrow>
   parse_spec K ws argc argv bp m xs"
proof (induction xs arbitrary: argc argv bp m rule: words.induct)
  case (1 xs)
  let ?sp = "takeWhile is_ws xs" and ?bp = "bp + of_nat (length (takeWhile is_ws xs))"
  let ?m = "blank m bp ?sp"
  have kept: "\<And>i. i < length xs \<Longrightarrow> \<not> K (bp + of_nat i)" using "1.prems"(1) by (simp add: line_at_def)
  then have kept_sp: "\<And>i. i < length ?sp \<Longrightarrow> \<not> K (bp + of_nat i)"
    using length_takeWhile_le [of is_ws xs] by (meson less_le_trans)
  note g = gobble_line [OF "1.prems"(1,2)]
  have l1: "line_at K ?m ?bp (dropWhile is_ws xs)"
    by (rule line_at_append) (use "1.prems"(1) in simp)
  have ws1: "ws_lit K ?m ws" using "1.prems"(2) kept_sp by (rule ws_lit_blank)
  show ?case
  proof (cases "dropWhile is_ws xs")
    case Nil
    then have sp: "?sp = xs" using takeWhile_dropWhile_id [of is_ws xs] by simp
    show ?thesis
      using g [unfolded sp] l1 [unfolded sp Nil] "1.prems"(3) words_Nil [OF Nil]
      by (auto simp: parse_spec_def parse_args.simps [of ws argc argv bp] line_at_def argv_words_def)
  next
    case (Cons x ys)
    let ?w = "takeWhile (Not \<circ> is_ws) (x # ys)" and ?rest = "dropWhile (Not \<circ> is_ws) (x # ys)"
    have x: "\<not> is_ws x" using Cons hd_dropWhile [of is_ws xs] by simp
    have wd: "words xs = ?w # words ?rest" using words_Cons [OF Cons] x by simp
    have xs: "xs = ?sp @ ?w @ ?rest" using takeWhile_dropWhile_id [of is_ws xs] Cons by simp
    have w: "\<forall>c \<in> set ?w. \<not> is_ws c" using set_takeWhileD [of _ "Not \<circ> is_ws" "x # ys"] by auto
    have l1': "line_at K ?m ?bp (?w @ ?rest)" using l1 unfolding Cons by (simp only: takeWhile_dropWhile_id)
    have nz: "?m ?bp \<noteq> 0" using l1 Cons line_at_Cons by fastforce
    have sk: "skip_word ws ?bp ?m = cret (?bp + of_nat (length ?w))"
      using skip_word_line [OF l1 ws1] unfolding Cons .
    have l2: "line_at K ?m (?bp + of_nat (length ?w)) ?rest"
      using line_at_append [OF l1'] by (simp only: blank_word [OF w])
    have bl: "blank ?m (?bp + of_nat (length ?w)) ?rest = blank m bp xs"
    proof -
      have "blank m bp xs = blank m bp (?sp @ ?w @ ?rest)" by (rule arg_cong [OF xs])
      also have "\<dots> = blank ?m (?bp + of_nat (length ?w)) ?rest" by (simp only: blank_append blank_word [OF w])
      finally show ?thesis ..
    qed
    have cw: "cstr (blank m bp xs) ?bp ?w"
    proof -
      have "?rest = [] \<or> is_ws (hd ?rest)" using hd_dropWhile [of "Not \<circ> is_ws" "x # ys"] by fastforce
      moreover have "cstr ?m ?bp (?w @ ?rest)" using l1' unfolding line_at_def by (rule conjunct1)
      ultimately have "cstr (blank ?m ?bp (?w @ ?rest)) ?bp ?w" by (intro cstr_first_word [OF _ w])
      then show ?thesis using bl by (simp only: blank_append blank_word [OF w])
    qed
    have kw: "\<forall>j < length ?w. \<not> K (?bp + of_nat j)"
      using l1' unfolding line_at_def by (simp only: length_append) (meson trans_less_add1)
    show ?thesis
    proof (cases "argc = MAXARGS - 1")
      case True
      then have "parse_args ws argc argv bp m = cret (None, ?m)"
        using g nz by (subst parse_args.simps) simp
      moreover have "\<not> argc + length (words xs) < MAXARGS" using True wd by simp
      ultimately show ?thesis using blank_kept [of ?sp K bp, OF kept_sp] by (auto simp: parse_spec_def)
    next
      case False
      have step: "parse_args ws argc argv bp m = parse_args ws (argc + 1) (argv[argc := ?bp]) (?bp + of_nat (length ?w)) ?m"
        using g nz sk False "1.prems"(3,4) by (simp add: parse_args.simps [of ws argc argv bp] argv_set_ok)
      have rest: "?rest = dropWhile (Not \<circ> is_ws) ys" using x by simp
      have "parse_spec K ws (argc + 1) (argv[argc := ?bp]) (?bp + of_nat (length ?w)) ?m ?rest"
        using False "1.prems"(3,4) l2 ws1 unfolding rest by (intro "1.IH" [OF Cons]) simp_all
      moreover have "?m a = m a" if "K a" for a using blank_kept [of ?sp K bp, OF kept_sp that] .
      moreover have "argv_words K (blank m bp xs) argc argv argv' (word_ptrs bp xs) (words xs)"
        if "argv_words K (blank m bp xs) (argc + 1) (argv[argc := ?bp]) argv' (word_ptrs (?bp + of_nat (length ?w)) ?rest) (words ?rest)" for argv'
        unfolding wd word_ptrs_Cons [OF Cons x] by (rule argv_words_Cons [OF that _ cw kw]) (use "1.prems"(3,4) in simp)
      moreover have "length (words xs) = Suc (length (words ?rest))" by (simp add: wd del: takeWhile.simps dropWhile.simps)
      ultimately show ?thesis
        unfolding parse_spec_def step bl by (auto simp del: takeWhile.simps dropWhile.simps split: if_splits)
    qed
  qed
qed
section \<open>Dispatch\<close>

definition names_ok :: "(u64 \<Rightarrow> bool) \<Rightarrow> mem \<Rightarrow> 'k mlits_scheme \<Rightarrow> bool" where
  "names_ok K m L \<longleftrightarrow> kstr K m (help_name L) (ascii ''help'') \<and> kstr K m (kerninfo_name L) (ascii ''kerninfo'')
     \<and> kstr K m (backtrace_name L) (ascii ''backtrace'')"

lemma strcmp_eq: "cstr m p xs \<Longrightarrow> cstr m q ys \<Longrightarrow> \<exists>r. strcmp m p q = Some r \<and> (r = 0 \<longleftrightarrow> xs = ys)"
  using strcmp_byte_cmp [of m p xs q ys] byte_cmp_0_iff [of xs ys] cstr_no_zero by blast

text \<open>What \<^verbatim>\<open>runcmd\<close> does with the words of a line, \<open>call\<close> being how it calls a command.\<close>

definition named_func :: "u8 list \<Rightarrow> mon_func option" where
  "named_func w =
     (if w = ascii ''help'' then Some Mon_help else if w = ascii ''kerninfo'' then Some Mon_kerninfo
      else if w = ascii ''backtrace'' then Some Mon_backtrace else None)"

definition dispatch ::
    "(mon_func \<Rightarrow> nat \<Rightarrow> u64 list \<Rightarrow> 'h cstate \<Rightarrow> (i32 \<times> 'h cstate) cres) \<Rightarrow>
      'h hwops \<Rightarrow> 'k mlits_scheme \<Rightarrow> u8 list list \<Rightarrow> u64 list \<Rightarrow> 'h cstate \<Rightarrow> (i32 \<times> 'h cstate) cres" where
  "dispatch call H L ws argv s =
     (case named_func (hd ws) of
        Some f \<Rightarrow> call f (length ws) argv s
      | None \<Rightarrow> cbind (say H L (unknown_fmt L) [argv ! 0] s) (\<lambda>s. cret (0, s)))"

lemma find_cmd_names:
  assumes "names_ok K m L" "cstr m p w"
  shows "find_cmd m p (commands L) = cret (named_func w)"
proof -
  have c: "cstr m (help_name L) (ascii ''help'')" "cstr m (kerninfo_name L) (ascii ''kerninfo'')"
    "cstr m (backtrace_name L) (ascii ''backtrace'')"
    using assms(1) by (auto simp: names_ok_def intro: kstr_cstr)
  from strcmp_eq [OF assms(2) c(1)] strcmp_eq [OF assms(2) c(2)] strcmp_eq [OF assms(2) c(3)]
  obtain a b d where "strcmp m p (help_name L) = Some a" "a = 0 \<longleftrightarrow> w = ascii ''help''"
    "strcmp m p (kerninfo_name L) = Some b" "b = 0 \<longleftrightarrow> w = ascii ''kerninfo''"
    "strcmp m p (backtrace_name L) = Some d" "d = 0 \<longleftrightarrow> w = ascii ''backtrace''"
    by blast
  then show ?thesis by (simp add: commands_def named_func_def)
qed

definition off_line :: "u64 \<Rightarrow> u8 list \<Rightarrow> u64 \<Rightarrow> bool" where
  "off_line bp xs a \<longleftrightarrow> (\<forall>i < length xs. a \<noteq> bp + of_nat i)"

lemma runcmd_words:
  assumes "cstr (mem s) bp xs" and "ws_lit (off_line bp xs) (mem s) (whitespace_str L)"
    and "names_ok (off_line bp xs) (mem s) L" and "length argv0 = MAXARGS"
  shows "if words xs = [] then \<forall>call. runcmd_with call H L argv0 bp s = cret (0, s\<lparr>mem := blank (mem s) bp xs\<rparr>)
    else if length (words xs) \<le> 15 then
      \<exists>argv. length argv = MAXARGS \<and> (\<forall>i < length (words xs). argv ! i = word_ptrs bp xs ! i
          \<and> cstr (blank (mem s) bp xs) (argv ! i) (words xs ! i) \<and> (\<forall>j < length (words xs ! i). \<not> off_line bp xs (argv ! i + of_nat j))) \<and> argv ! length (words xs) = 0
        \<and> (\<forall>call. runcmd_with call H L argv0 bp s = dispatch call H L (words xs) argv (s\<lparr>mem := blank (mem s) bp xs\<rparr>))
    else \<exists>m. (\<forall>a. off_line bp xs a \<longrightarrow> m a = mem s a)
      \<and> (\<forall>call. runcmd_with call H L argv0 bp s = cbind (say H L (toomany_fmt L) [16] (s\<lparr>mem := m\<rparr>)) (\<lambda>s. cret (0, s)))"
proof -
  let ?K = "off_line bp xs" and ?m = "blank (mem s) bp xs" and ?argv = "argv0[0 := 0]"
  have kept: "\<And>i. i < length xs \<Longrightarrow> \<not> ?K (bp + of_nat i)" by (auto simp: off_line_def)
  have l: "line_at ?K (mem s) bp xs" using assms(1) kept by (simp add: line_at_def)
  have p: "parse_spec ?K (whitespace_str L) 0 ?argv bp (mem s) xs"
    by (rule parse_args_words [OF l assms(2)]) (simp_all add: MAXARGS_def assms(4))
  have n: "names_ok ?K ?m L" using assms(3) kept by (auto simp: names_ok_def intro: kstr_blank)
  have a0: "argv_set argv0 0 0 = cret ?argv" using assms(4) by (simp add: argv_set_ok MAXARGS_def)
  show ?thesis
  proof (cases "length (words xs) \<le> 15")
    case False
    then obtain m where "parse_args (whitespace_str L) 0 ?argv bp (mem s) = cret (None, m)" "\<forall>a. ?K a \<longrightarrow> m a = mem s a"
      using p by (auto simp: parse_spec_def MAXARGS_def)
    with False a0 show ?thesis by (auto simp: runcmd_with_def MAXARGS_def)
  next
    case True
    then obtain argv where pa: "parse_args (whitespace_str L) 0 ?argv bp (mem s) = cret (Some (length (words xs), argv), ?m)"
      and aw: "argv_words ?K ?m 0 ?argv argv (word_ptrs bp xs) (words xs)"
      using p by (auto simp: parse_spec_def MAXARGS_def)
    let ?argv' = "argv[length (words xs) := 0]"
    have len: "length (words xs) < length argv" "length argv = MAXARGS" using True aw assms(4) by (simp_all add: argv_words_def MAXARGS_def)
    have w: "\<forall>i < length (words xs). ?argv' ! i = word_ptrs bp xs ! i \<and> cstr ?m (?argv' ! i) (words xs ! i) \<and> (\<forall>j < length (words xs ! i). \<not> ?K (?argv' ! i + of_nat j))"
      using aw unfolding argv_words_def by auto
    show ?thesis
    proof (cases "words xs = []")
      case True
      with pa a0 len show ?thesis by (simp add: runcmd_with_def argv_set_ok)
    next
      case False
      have "cstr ?m (?argv' ! 0) (hd (words xs))" unfolding hd_conv_nth [OF False] using w False by blast
      from find_cmd_names [OF n this]
      have "runcmd_with call H L argv0 bp s = dispatch call H L (words xs) ?argv' (s\<lparr>mem := ?m\<rparr>)" for call
        using pa a0 len False by (simp add: runcmd_with_def argv_set_ok dispatch_def Let_def split: option.split)
      with True False w len show ?thesis by (auto intro!: exI [of _ ?argv'])
    qed
  qed
qed

text \<open>
  C11. \<^verbatim>\<open>runcmd\<close> on a line: white space is overwritten with NULs; the array \<^verbatim>\<open>argv\<close>, of 16 pointers, points at the words of the line
  in order, each NUL-terminated and at its place in the line, and has a null pointer behind the last; the command the first word
  names is called with the number of words and this array, whatever the command does (\<open>call\<close> ranges over all functions), and any
  other word is reported as unknown. An empty line does nothing. With 16 words or more nothing is called: the error is reported and 0
  returned, with no change outside the line. No pointer is stored outside \<^verbatim>\<open>argv\<close>. \<^verbatim>\<open>runcmd\<close> itself is the case of the commands of
  the table.
\<close>

theorem runcmd_dispatch:
  assumes "cstr (mem s) bp xs" and "ws_lit (off_line bp xs) (mem s) (whitespace_str L)"
    and "names_ok (off_line bp xs) (mem s) L" and "length argv0 = MAXARGS"
  shows "(if words xs = [] then \<forall>call. runcmd_with call H L argv0 bp s = cret (0, s\<lparr>mem := blank (mem s) bp xs\<rparr>)
    else if length (words xs) \<le> 15 then
      \<exists>argv. length argv = MAXARGS \<and> (\<forall>i < length (words xs). argv ! i = word_ptrs bp xs ! i
          \<and> cstr (blank (mem s) bp xs) (argv ! i) (words xs ! i) \<and> (\<forall>j < length (words xs ! i). \<not> off_line bp xs (argv ! i + of_nat j))) \<and> argv ! length (words xs) = 0
        \<and> (\<forall>call. runcmd_with call H L argv0 bp s = dispatch call H L (words xs) argv (s\<lparr>mem := blank (mem s) bp xs\<rparr>))
    else \<exists>m. (\<forall>a. off_line bp xs a \<longrightarrow> m a = mem s a)
      \<and> (\<forall>call. runcmd_with call H L argv0 bp s = cbind (say H L (toomany_fmt L) [16] (s\<lparr>mem := m\<rparr>)) (\<lambda>s. cret (0, s))))
    \<and> (en_argv E = argv0 \<longrightarrow> runcmd H L E bp s = runcmd_with (call_func H L E) H L argv0 bp s)"
  using runcmd_words [OF assms, of H] by (simp add: runcmd_def)

section \<open>The monitor's state\<close>

text \<open>Every command returns 0 and prints only; the console stays in order.\<close>

lemma say_ok: "console_inv s0 s \<Longrightarrow> ok (console_inv s0) (say H L fmt args s)"
  unfolding say_def by (rule ok_bind [OF cprintf_console]) auto

lemma help_loop_ok: "console_inv s0 s \<Longrightarrow> ok (console_inv s0) (help_loop H L cs s)"
  by (induction cs arbitrary: s) (auto intro: ok_bind [OF say_ok])

lemma print_name_ok: "console_inv s0 s \<Longrightarrow> ok (console_inv s0) (print_name H L a n s)"
  by (induction n arbitrary: a s) (auto intro: ok_bind [OF say_ok])

lemma print_args_ok: "console_inv s0 s \<Longrightarrow> ok (console_inv s0) (print_args H L rbp i n s)"
  by (induction n arbitrary: i s) (auto intro: ok_bind [OF say_ok])

lemma show_frame_ok: "console_inv s0 s \<Longrightarrow> ok (console_inv s0) (show_frame H L rbp rip info s)"
  unfolding show_frame_def
  by (rule ok_bind [OF say_ok], assumption, rule ok_bind [OF say_ok], assumption, rule ok_bind [OF print_name_ok], assumption,
    rule ok_bind [OF say_ok], assumption, rule ok_bind [OF say_ok], assumption, rule ok_bind [OF print_args_ok], assumption,
    rule say_ok)

lemma bt_loop_ok:
  assumes "console_inv s0 s"
  shows "ok (console_inv s0) (bt_loop H L E rbp rip info s)"
proof (rule ok_of_Some)
  let ?P = "\<lambda>H L E rbp rip info s r. console_inv s0 s \<longrightarrow> ok (console_inv s0) (Some r)"
  fix r assume run: "bt_loop H L E rbp rip info s = Some r"
  have "?P H L E rbp rip info s r"
  proof (rule bt_loop.raw_induct [where P = ?P, OF _ run], intro impI)
    fix f H L E rbp rip info s r
    assume IH: "\<And>H L E rbp rip info s r. f H L E rbp rip info s = Some r \<Longrightarrow> ?P H L E rbp rip info s r"
      and eq: "(if rbp = 0 then cret s
      else
        cbind (show_frame H L rbp rip info s) (\<lambda>s.
          let rip = load64 (mem s) (rbp + 8);
              rbp = load64 (mem s) rbp
          in cbind (lookup_rip L E (mem s) rip info) (\<lambda>info. f H L E rbp rip info s))) = Some r"
      and s: "console_inv s0 s"
    have f: "ok (console_inv s0) (f H L E rbp rip info s)" if "console_inv s0 s" for rbp rip info s
      using IH that by (blast intro: ok_of_Some)
    show "ok (console_inv s0) (Some r)"
      unfolding eq [symmetric] Let_def
      by (rule ok_if, simp add: s, rule ok_bind [OF show_frame_ok [OF s]], rule ok_bind_any, rule f)
  qed
  with assms show "ok (console_inv s0) (Some r)" by simp
qed

definition cmd_res :: "'h cstate \<Rightarrow> i32 \<times> 'h cstate \<Rightarrow> bool" where
  "cmd_res s0 r \<longleftrightarrow> fst r = 0 \<and> console_inv s0 (snd r)"

lemma cmd_done: "ok (console_inv s0) r \<Longrightarrow> ok (cmd_res s0) (cbind r (\<lambda>s. cret (0, s)))"
  by (rule ok_bind) (simp_all add: cmd_res_def)

lemma mon_kerninfo_ok: "console_inv s0 s \<Longrightarrow> ok (cmd_res s0) (mon_kerninfo H L argc argv s)"
  unfolding mon_kerninfo_def
  by (rule ok_bind [OF say_ok], assumption, rule ok_bind [OF say_ok], assumption, rule ok_bind [OF say_ok], assumption,
    rule ok_bind [OF say_ok], assumption, rule ok_bind [OF say_ok], assumption, rule ok_bind [OF say_ok], assumption,
    rule cmd_done, rule say_ok)

lemma mon_backtrace_ok: "console_inv s0 s \<Longrightarrow> ok (cmd_res s0) (mon_backtrace H L E argc argv s)"
  unfolding mon_backtrace_def
  by (rule ok_bind [OF say_ok], assumption, rule ok_bind_any, rule cmd_done, rule bt_loop_ok)

lemma call_func_ok: "console_inv s0 s \<Longrightarrow> ok (cmd_res s0) (call_func H L E f argc argv s)"
  by (cases f) (auto simp: call_func_def mon_help_def intro: cmd_done help_loop_ok mon_kerninfo_ok mon_backtrace_ok)

lemma call_func_0: "ok (\<lambda>r. fst r = 0) (call_func H L E f argc argv s)"
  by (cases f) (auto simp: call_func_def mon_help_def mon_kerninfo_def mon_backtrace_def intro!: ok_bind_any)

lemma runcmd_0: "ok (\<lambda>r. fst r = 0) (runcmd H L E bp s)"
  unfolding runcmd_def runcmd_with_def
  by (intro ok_bind_any) (auto simp: Let_def split: option.split prod.split intro!: ok_bind_any call_func_0)

text \<open>Nothing but the display and the line buffer has changed since \<open>s0\<close>.\<close>

definition mon_inv :: "u64 \<Rightarrow> 'h cstate \<Rightarrow> 'h cstate \<Rightarrow> bool" where
  "mon_inv b s0 s \<longleftrightarrow> console_ok s \<and> crt_buf s = crt_buf s0
     \<and> (\<forall>a. in_block (crt_buf s0) 4000 a \<or> in_block b 1024 a \<or> mem s a = mem s0 a)"

lemma mon_inv_console: "mon_inv b s0 s \<Longrightarrow> console_inv s t \<Longrightarrow> mon_inv b s0 t"
  unfolding mon_inv_def console_inv_def by metis

lemma console_ok_mem: "console_ok (s\<lparr>mem := m\<rparr>) = console_ok s"
  by (simp add: console_ok_def crt_ok_def ring_ok_def)

lemma runcmd_ok:
  assumes l: "line_at (\<lambda>a. \<not> in_block b 1024 a) (mem s) bp xs" and ws: "ws_lit (\<lambda>a. \<not> in_block b 1024 a) (mem s) (whitespace_str L)"
    and argv: "length (en_argv E) = MAXARGS" and s: "mon_inv b s0 s"
  shows "ok (\<lambda>r. fst r = 0 \<and> mon_inv b s0 (snd r)) (runcmd H L E bp s)"
proof -
  let ?K = "\<lambda>a. \<not> in_block b 1024 a" and ?argv = "(en_argv E)[0 := 0]" and ?Q = "\<lambda>r. fst r = 0 \<and> mon_inv b s0 (snd r)"
  have p: "parse_spec ?K (whitespace_str L) 0 ?argv bp (mem s) xs"
    by (rule parse_args_words [OF l ws]) (simp_all add: MAXARGS_def argv)
  have m: "mon_inv b s0 (s\<lparr>mem := m\<rparr>)" if "\<And>a. ?K a \<Longrightarrow> m a = mem s a" for m
    using s that unfolding mon_inv_def console_ok_mem by simp metis
  have Q: "ok ?Q r" if "ok (cmd_res (s\<lparr>mem := m\<rparr>)) r" "\<And>a. ?K a \<Longrightarrow> m a = mem s a" for r m
    using that(1) by (rule ok_mono) (auto simp: cmd_res_def intro: mon_inv_console [OF m [OF that(2)]])
  have c: "console_inv (s\<lparr>mem := m\<rparr>) (s\<lparr>mem := m\<rparr>)" for m
    using s by (intro console_inv_refl) (simp add: mon_inv_def console_ok_mem)
  have a0: "argv_set (en_argv E) 0 0 = cret ?argv" using argv by (simp add: argv_set_ok MAXARGS_def)
  show ?thesis
  proof (cases "length (words xs) < MAXARGS")
    case False
    then obtain m where "parse_args (whitespace_str L) 0 ?argv bp (mem s) = cret (None, m)" and k: "\<And>a. ?K a \<Longrightarrow> m a = mem s a"
      using p by (auto simp: parse_spec_def)
    then show ?thesis using Q [OF cmd_done [OF say_ok [OF c]] k] by (simp add: runcmd_def runcmd_with_def a0)
  next
    case True
    let ?m = "blank (mem s) bp xs"
    obtain argv' where pa: "parse_args (whitespace_str L) 0 ?argv bp (mem s) = cret (Some (length (words xs), argv'), ?m)"
      using True p by (auto simp: parse_spec_def)
    have k: "?m a = mem s a" if "?K a" for a
      by (rule blank_kept [of xs ?K, OF _ that]) (use l in \<open>simp add: line_at_def\<close>)
    have Q': "ok ?Q r" if "ok (cmd_res (s\<lparr>mem := ?m\<rparr>)) r" for r by (rule Q [OF that k])
    have f: "ok ?Q (case g of Some f \<Rightarrow> call_func H L E f n argv (s\<lparr>mem := ?m\<rparr>)
        | None \<Rightarrow> cbind (say H L (unknown_fmt L) [argv ! 0] (s\<lparr>mem := ?m\<rparr>)) (\<lambda>s. cret (0, s)))" for g n argv
      by (cases g) (simp_all add: Q' [OF call_func_ok [OF c]] Q' [OF cmd_done [OF say_ok [OF c]]])
    show ?thesis
      unfolding runcmd_def runcmd_with_def a0 pa cbind_simps Let_def prod.case option.case
      by (rule ok_bind_any, rule ok_if, simp add: m k, rule ok_bind_any, rule f)
  qed
qed

text \<open>One round of the loop of \<^verbatim>\<open>monitor\<close>.\<close>

inductive mon_step :: "'h hwops \<Rightarrow> 'k mlits_scheme \<Rightarrow> menv \<Rightarrow> 'h cstate \<Rightarrow> 'h cstate \<Rightarrow> bool"
  for H L E where
  run: "readline H L (prompt_str L) s = cret (bp, t) \<Longrightarrow> bp \<noteq> 0 \<Longrightarrow> runcmd H L E bp t = cret (r, u) \<Longrightarrow> \<not> r <s 0 \<Longrightarrow> mon_step H L E s u"
| null: "readline H L (prompt_str L) s = cret (0, t) \<Longrightarrow> mon_step H L E s t"

lemma mon_step_loop: "mon_step H L E s t \<Longrightarrow> monitor_loop H L E s = monitor_loop H L E t"
  by (subst monitor_loop.simps) (auto elim!: mon_step.cases)

lemma monitor_loop_diverges: "ok (\<lambda>_. False) (monitor_loop H L E s)"
proof (rule ok_of_Some)
  let ?P = "\<lambda>H L E s (r :: fault + 'a cstate). ok (\<lambda>_. False) (Some r)"
  fix r assume run: "monitor_loop H L E s = Some r"
  show "ok (\<lambda>_. False) (Some r)"
  proof (rule monitor_loop.raw_induct [where P = ?P, OF _ run])
    fix f H L E s r
    assume IH: "\<And>H L E s r. f H L E s = Some r \<Longrightarrow> ok (\<lambda>_. False) (Some r)"
      and eq: "cbind (readline H L (prompt_str L) s) (\<lambda>(bp, s).
       if bp \<noteq> 0 then cbind (runcmd H L E bp s) (\<lambda>(r, s). if r <s 0 then cret s else f H L E s)
       else f H L E s) = Some r"
    have f: "ok (\<lambda>_. False) (f H L E s)" for s using IH by (rule ok_of_Some)
    show "ok (\<lambda>_. False) (Some r)"
      unfolding eq [symmetric] by (intro ok_bind_any) (auto intro!: f ok_bind [OF runcmd_0])
  qed
qed

text \<open>The states in which \<^verbatim>\<open>monitor\<close>, called in \<open>s\<close>, is about to read a line.\<close>

inductive mon_reach :: "'h hwops \<Rightarrow> 'k mlits_scheme \<Rightarrow> menv \<Rightarrow> 'h cstate \<Rightarrow> 'h cstate \<Rightarrow> bool"
  for H L E s where
  start: "say H L (welcome_fmt L) [] s = cret t \<Longrightarrow> say H L (typehelp_fmt L) [] t = cret u \<Longrightarrow> mon_reach H L E s u"
| round: "mon_reach H L E s t \<Longrightarrow> mon_step H L E t u \<Longrightarrow> mon_reach H L E s u"

lemma mon_reach_monitor: "mon_reach H L E s t \<Longrightarrow> monitor H L E s = monitor_loop H L E t"
  by (induction rule: mon_reach.induct) (auto simp: monitor_def dest: mon_step_loop)

definition mon_start :: "'k mlits_scheme \<Rightarrow> menv \<Rightarrow> 'h cstate \<Rightarrow> bool" where
  "mon_start L E s \<longleftrightarrow> console_ok s \<and> buf_apart (rl_buf L) s \<and> length (en_argv E) = MAXARGS
     \<and> ws_lit (\<lambda>a. \<not> in_block (crt_buf s) 4000 a \<and> \<not> in_block (rl_buf L) 1024 a) (mem s) (whitespace_str L)"

lemma ws_lit_cong: "ws_lit K m ws \<Longrightarrow> (\<And>a. K a \<Longrightarrow> K' a \<and> m' a = m a) \<Longrightarrow> ws_lit K' m' ws"
proof -
  have "kpre K m p xs \<Longrightarrow> (\<And>a. K a \<Longrightarrow> K' a \<and> m' a = m a) \<Longrightarrow> kpre K' m' p xs" for p xs
    by (induction xs arbitrary: p) auto
  then show "ws_lit K m ws \<Longrightarrow> (\<And>a. K a \<Longrightarrow> K' a \<and> m' a = m a) \<Longrightarrow> ws_lit K' m' ws"
    by (auto simp: ws_lit_def kstr_def)
qed

lemma mon_step_inv:
  assumes st: "mon_start L E s0" and s: "mon_inv (rl_buf L) s0 s" and step: "mon_step H L E s t"
  shows "mon_inv (rl_buf L) s0 t"
proof -
  let ?b = "rl_buf L"
  have c: "console_ok s" and ap: "buf_apart ?b s" using st s by (simp_all add: mon_start_def mon_inv_def buf_apart_def)
  note rl = readline_line [OF c ap, of H "prompt_str L"]
  have after: "mon_inv ?b s0 u" if "line_done ?b s (p, u)" for p u
    using that s unfolding line_done_def mon_inv_def by simp metis
  from step show ?thesis
  proof cases
    case (run p u r)
    from okD [OF rl run(1)] have d: "line_done ?b s (p, u)" .
    then obtain xs where xs: "cstr (mem u) ?b xs" "length xs < 1024" by (auto simp: line_done_def BUFLEN_def)
    have p: "p = ?b" using d by (simp add: line_done_def)
    have "unat ?b + 1024 \<le> 2 ^ 64" using ap by (simp add: buf_apart_def)
    with xs have l: "line_at (\<lambda>a. \<not> in_block ?b 1024 a) (mem u) p xs" by (simp add: line_at_def p buf_byte)
    have i: "mon_inv ?b s0 u" by (rule after [OF d])
    have "ws_lit (\<lambda>a. \<not> in_block ?b 1024 a) (mem u) (whitespace_str L)"
    proof (rule ws_lit_cong)
      show "ws_lit (\<lambda>a. \<not> in_block (crt_buf s0) 4000 a \<and> \<not> in_block ?b 1024 a) (mem s0) (whitespace_str L)"
        using st by (simp add: mon_start_def)
      show "\<not> in_block ?b 1024 a \<and> mem u a = mem s0 a" if "\<not> in_block (crt_buf s0) 4000 a \<and> \<not> in_block ?b 1024 a" for a
        using that i unfolding mon_inv_def by blast
    qed
    from okD [OF runcmd_ok [OF l this _ i] run(3)] st show ?thesis by (simp add: mon_start_def)
  next
    case null
    then show ?thesis using okD [OF rl] after by blast
  qed
qed

text \<open>
  \<^verbatim>\<open>monitor\<close> never returns: every command returns 0, so the loop, which ends only on a negative
  result, runs until the machine is switched off, panics, or does something undefined.
\<close>

theorem monitor_never_returns: "monitor H L E s \<noteq> cret t"
proof -
  have "ok (\<lambda>_. False) (monitor H L E s)"
    unfolding monitor_def by (intro ok_bind_any monitor_loop_diverges)
  then show ?thesis by (auto simp: ok_def)
qed

text \<open>
  C10. The invariant of the monitor: whatever is typed, whenever it is about to read a line the console is in order and only the
  display and the line buffer have changed since it was called; so the program, its literals and the stack are intact. From such a
  state the run goes on as that of the whole monitor.
\<close>

theorem monitor_invariant:
  assumes "mon_start L E s" and "mon_reach H L E s t"
  shows "console_ok t \<and> crt_buf t = crt_buf s \<and> monitor H L E s = monitor_loop H L E t
    \<and> (\<forall>a. in_block (crt_buf s) 4000 a \<or> in_block (rl_buf L) 1024 a \<or> mem t a = mem s a)"
proof -
  from assms(2) have "mon_inv (rl_buf L) s t"
  proof (induction rule: mon_reach.induct)
    case (start t u)
    have "console_inv s s" using assms(1) by (intro console_inv_refl) (simp add: mon_start_def)
    from okD [OF say_ok [OF this] start(1)] have "console_inv s t" .
    from okD [OF say_ok [OF this] start(2)] show ?case unfolding console_inv_def mon_inv_def by blast
  next
    case (round t u)
    show ?case by (rule mon_step_inv [OF assms(1) round.IH round.hyps(2)])
  qed
  with mon_reach_monitor [OF assms(2)] show ?thesis by (simp add: mon_inv_def)
qed

section \<open>The frames of a backtrace\<close>

text \<open>
  \<open>frames K m rbp rip fs ret\<close>: following saved frame pointers from \<open>rbp\<close> gives the frames \<open>fs\<close>, each with its frame pointer and the
  instruction pointer in it, down to a saved 0 with the return address \<open>ret\<close>; the words read lie where \<open>K\<close> holds.
\<close>

inductive frames :: "(u64 \<Rightarrow> bool) \<Rightarrow> mem \<Rightarrow> u64 \<Rightarrow> u64 \<Rightarrow> (u64 \<times> u64) list \<Rightarrow> u64 \<Rightarrow> bool"
  for K m where
  bottom: "frames K m 0 rip [] rip"
| frame: "rbp \<noteq> 0 \<Longrightarrow> (\<And>i. i < 16 \<Longrightarrow> K (rbp + of_nat i)) \<Longrightarrow> frames K m (load64 m rbp) (load64 m (rbp + 8)) fs ret \<Longrightarrow>
    frames K m rbp rip ((rbp, rip) # fs) ret"

text \<open>Each frame is looked up and shown; the address below the last is looked up too.\<close>

fun show_frames ::
    "'h hwops \<Rightarrow> 'k mlits_scheme \<Rightarrow> menv \<Rightarrow> u64 \<Rightarrow> (u64 \<times> u64) list \<Rightarrow> ripinfo \<Rightarrow> 'h cstate \<Rightarrow> 'h cstate cres" where
  "show_frames H L E ret [] info s = cbind (lookup_rip L E (mem s) ret info) (\<lambda>_. cret s)"
| "show_frames H L E ret ((rbp, rip) # fs) info s =
     cbind (lookup_rip L E (mem s) rip info) (\<lambda>info. cbind (show_frame H L rbp rip info s) (show_frames H L E ret fs info))"

lemma cret_bind: "cbind r cret = r"
  by (cases r) (auto simp: cbind_def cret_def split: sum.split)

lemma cbind_cong_ok: "ok P r \<Longrightarrow> (\<And>x. P x \<Longrightarrow> k x = k' x) \<Longrightarrow> cbind r k = cbind r k'"
  by (cases r) (auto simp: ok_def cbind_def cret_def split: sum.split)

lemma bt_loop_frames:
  assumes "frames (\<lambda>a. \<not> in_block (crt_buf s0) 4000 a) (mem s0) rbp rip fs ret"
  shows "console_inv s0 s \<Longrightarrow>
    cbind (lookup_rip L E (mem s) rip info) (\<lambda>info. bt_loop H L E rbp rip info s) = show_frames H L E ret fs info s"
  using assms
proof (induction arbitrary: info s)
  case (bottom rip)
  then show ?case by (simp add: bt_loop.simps)
next
  case (frame rbp fs ret rip)
  have "bt_loop H L E rbp rip info s = cbind (show_frame H L rbp rip info s) (show_frames H L E ret fs info)" for info
  proof -
    have "cbind (show_frame H L rbp rip info s) (\<lambda>s.
        cbind (lookup_rip L E (mem s) (load64 (mem s) (rbp + 8)) info) (\<lambda>info. bt_loop H L E (load64 (mem s) rbp) (load64 (mem s) (rbp + 8)) info s))
      = cbind (show_frame H L rbp rip info s) (show_frames H L E ret fs info)"
    proof (rule cbind_cong_ok [OF show_frame_ok [OF frame.prems]])
      fix t assume t: "console_inv s0 t"
      have same: "mem t (rbp + of_nat i) = mem s0 (rbp + of_nat i)" if "i < 16" for i
        using t frame.hyps(2) [OF that] by (auto simp: console_inv_def)
      have "load64 (mem t) rbp = load64 (mem s0) rbp" using same by (intro load64_cong) simp
      moreover have "load64 (mem t) (rbp + 8) = load64 (mem s0) (rbp + 8)"
      proof (rule load64_cong)
        fix i :: nat assume "i < 8"
        with same [of "8 + i"] show "mem t (rbp + 8 + of_nat i) = mem s0 (rbp + 8 + of_nat i)" by (simp add: add.assoc)
      qed
      ultimately show "cbind (lookup_rip L E (mem t) (load64 (mem t) (rbp + 8)) info)
          (\<lambda>info. bt_loop H L E (load64 (mem t) rbp) (load64 (mem t) (rbp + 8)) info t) = show_frames H L E ret fs info t"
        using frame.IH [OF t] by simp
    qed
    then show ?thesis using frame.hyps(1) by (subst bt_loop.simps) (simp add: Let_def)
  qed
  then show ?case by simp
qed

text \<open>
  C24. \<^verbatim>\<open>mon_backtrace\<close> shows exactly the frames of the chain of saved frame pointers, innermost first, each with the debug
  information of its own instruction pointer, and stops after the frame whose saved pointer is 0. Printing does not disturb the
  stack. The return address of the last frame is looked up as well, though never shown, so an address below \<^verbatim>\<open>ULIM\<close> there panics.
\<close>

theorem backtrace_frames:
  assumes "console_ok s" and "frames (\<lambda>a. \<not> in_block (crt_buf s) 4000 a) (mem s) (en_rbp E) (en_rip E) fs ret"
  shows "mon_backtrace H L E argc argv s =
    cbind (say H L (bt_title L) [] s) (\<lambda>t. cbind (show_frames H L E ret fs (en_info E) t) (\<lambda>t. cret (0, t)))"
proof -
  have c: "console_inv s s" by (rule console_inv_refl [OF assms(1)])
  have "cbind (lookup_rip L E (mem t) (en_rip E) (en_info E)) (\<lambda>info. cbind (bt_loop H L E (en_rbp E) (en_rip E) info t) (\<lambda>t. cret (0, t)))
      = cbind (show_frames H L E ret fs (en_info E) t) (\<lambda>t. cret (0, t))" if "console_inv s t" for t
    using bt_loop_frames [OF assms(2) that, of L E "en_info E" H] by (simp flip: cbind_assoc)
  then show ?thesis unfolding mon_backtrace_def by (intro cbind_cong_ok [OF say_ok [OF c]])
qed

section \<open>Help\<close>

definition help_items :: "item list" where
  "help_items = [Conv NoFlag None NoPrec c_s, Lit 0x20, Lit 0x2d, Lit 0x20, Conv NoFlag None NoPrec c_s, Lit 0x0a]"

definition help_line :: "u8 list \<times> u8 list \<Rightarrow> i32 list" where
  "help_line p = map scast (fst p) @ [0x20, 0x2d, 0x20] @ map scast (snd p) @ [0x0a]"

definition cmd_text :: "(u64 \<Rightarrow> bool) \<Rightarrow> mem \<Rightarrow> command \<Rightarrow> u8 list \<times> u8 list \<Rightarrow> bool" where
  "cmd_text K m c p \<longleftrightarrow> kstr K m (cmd_name c) (fst p) \<and> kstr K m (cmd_desc c) (snd p) \<and> cmd_name c \<noteq> 0 \<and> cmd_desc c \<noteq> 0
     \<and> length (fst p) < 2 ^ 29 \<and> length (snd p) < 2 ^ 29"

lemma plain_string_text: "string_text (spec_of NoFlag None NoPrec (- 1)) xs = map scast xs"
  by (simp add: string_text_def spec_of_def wid_val_def cut_def word_sless_alt)

lemma help_formats:
  assumes "cmd_text K m c p"
  shows "formats R K m help_items [cmd_name c, cmd_desc c] (help_line p)"
proof -
  let ?sp = "spec_of NoFlag None NoPrec (- 1)"
  have s: "conv_text R K m ?sp c_s [a] (map scast xs) []" "conv_text R K m ?sp c_s [a, b] (map scast xs) [b]"
    if "kstr K m a xs" "a \<noteq> 0" "length xs < 2 ^ 29" for a b xs
    using conv_s [of K m a R xs ?sp] that by (simp_all add: plain_string_text)
  have "formats R K m help_items [cmd_name c, cmd_desc c]
      (map scast (fst p) @ (ucast (0x20 :: u8) # ucast (0x2d :: u8) # ucast (0x20 :: u8) # (map scast (snd p) @ [ucast (0x0a :: u8)])))"
    using assms unfolding help_items_def cmd_text_def
    by (intro fmt_conv [OF no_prec s(2)] fmt_conv [OF no_prec s(1)] fmt_lit fmt_nil) auto
  then show ?thesis by (simp add: help_line_def)
qed

definition off_display :: "'h cstate \<Rightarrow> u64 \<Rightarrow> bool" where
  "off_display s a \<longleftrightarrow> \<not> in_block (crt_buf s) 4000 a"

lemma say_help:
  assumes "cmd_text (off_display s) (mem s) c p" "kpre (off_display s) (mem s) (help_fmt L) (ascii ''%s - %s'' @ [0x0a, 0])"
    "crt_ok s" "color_parsing s = 0"
  shows "\<exists>t. say H L (help_fmt L) [cmd_name c, cmd_desc c] s = cret t \<and> out_step s t (fold (tty_put (color_flag s)) (help_line p))"
proof -
  have r: "concat (map render help_items) @ [0] = ascii ''%s - %s'' @ [0x0a, 0]" by code_simp
  have i: "list_all item_ok help_items" by code_simp
  have k: "off_display s = (\<lambda>a. \<not> in_block (crt_buf s) 4000 a)" by (simp add: off_display_def [abs_def])
  obtain t where "cprintf H (lits L) (help_fmt L) [cmd_name c, cmd_desc c] s = cret (0, t)"
    "out_step s t (fold (tty_put (color_flag s)) (help_line p))"
    using cprintf_text [OF i _ help_formats [OF assms(1) [unfolded k]] assms(3,4), of "help_fmt L"] assms(2)
    unfolding r k by blast
  then show ?thesis by (simp add: say_def)
qed

lemma cmd_text_cong: "cmd_text K m c p \<Longrightarrow> (\<And>a. K a \<Longrightarrow> m' a = m a) \<Longrightarrow> cmd_text K m' c p"
  unfolding cmd_text_def kstr_def using kpre_cong by blast

lemma help_loop_shows:
  assumes "list_all2 (cmd_text (off_display s) (mem s)) cs ps"
    "kpre (off_display s) (mem s) (help_fmt L) (ascii ''%s - %s'' @ [0x0a, 0])" "crt_ok s" "color_parsing s = 0"
  shows "\<exists>t. help_loop H L cs s = cret t \<and> out_step s t (fold (tty_put (color_flag s)) (concat (map help_line ps)))"
  using assms
proof (induction cs arbitrary: s ps)
  case Nil
  then show ?case by (simp add: out_step_def disp_only_def)
next
  case (Cons c cs)
  then obtain p ps' where ps: "ps = p # ps'" and p: "cmd_text (off_display s) (mem s) c p"
    and ps': "list_all2 (cmd_text (off_display s) (mem s)) cs ps'"
    by (auto simp: list_all2_Cons1)
  obtain t where t: "say H L (help_fmt L) [cmd_name c, cmd_desc c] s = cret t"
    and st: "out_step s t (fold (tty_put (color_flag s)) (help_line p))"
    using say_help [OF p Cons.prems(2-4)] by blast
  have d: "disp_only s t" "crt_ok t" using st by (simp_all add: out_step_def)
  then have k: "off_display t = off_display s" and m: "\<And>a. off_display s a \<Longrightarrow> mem t a = mem s a"
    and col: "color_flag t = color_flag s" "color_parsing t = 0"
    using Cons.prems(4) by (auto simp: off_display_def disp_only_def fun_eq_iff)
  have "list_all2 (cmd_text (off_display t) (mem t)) cs ps'"
    unfolding k using ps' by (rule list_all2_mono) (rule cmd_text_cong [OF _ m])
  moreover have "kpre (off_display t) (mem t) (help_fmt L) (ascii ''%s - %s'' @ [0x0a, 0])"
    unfolding k by (rule kpre_cong [OF Cons.prems(2) m])
  ultimately obtain u where "help_loop H L cs t = cret u"
    "out_step t u (fold (tty_put (color_flag s)) (concat (map help_line ps')))"
    using Cons.IH [of t ps'] d col by auto
  with t out_step_trans [OF st] show ?case by (auto simp: ps comp_def)
qed

definition help_text :: "u8 list" where
  "help_text = ascii ''help - Display this list of commands'' @ [0x0a]
     @ ascii ''kerninfo - Display information about the kernel'' @ [0x0a] @ ascii ''backtrace - Backtrace'' @ [0x0a]"

definition help_rodata :: "(u64 \<Rightarrow> bool) \<Rightarrow> mem \<Rightarrow> 'k mlits_scheme \<Rightarrow> bool" where
  "help_rodata K m L \<longleftrightarrow> kpre K m (help_fmt L) (ascii ''%s - %s'' @ [0x0a, 0])
     \<and> list_all2 (cmd_text K m) (commands L)
       [(ascii ''help'', ascii ''Display this list of commands''),
        (ascii ''kerninfo'', ascii ''Display information about the kernel''),
        (ascii ''backtrace'', ascii ''Backtrace'')]"

lemma mon_help_text:
  assumes "help_rodata (off_display s) (mem s) L" and "crt_ok s" and "color_parsing s = 0"
  shows "\<exists>t. mon_help H L argc argv s = cret (0, t) \<and> out_step s t (fold (tty_put (color_flag s)) (map scast help_text))"
proof -
  let ?ps = "[(ascii ''help'', ascii ''Display this list of commands''),
    (ascii ''kerninfo'', ascii ''Display information about the kernel''), (ascii ''backtrace'', ascii ''Backtrace'')]"
  have txt_eq: "concat (map help_line ?ps) = map scast help_text" by code_simp
  obtain t where "help_loop H L (commands L) s = cret t"
    "out_step s t (fold (tty_put (color_flag s)) (concat (map help_line ?ps)))"
    using help_loop_shows [of s "commands L" ?ps L H] assms unfolding help_rodata_def by blast
  then show ?thesis unfolding txt_eq by (simp add: mon_help_def)
qed

text \<open>
  \<^verbatim>\<open>help\<close> shows the table of commands: with the literals of the program in memory it returns 0, and the terminal has received
  exactly the three lines of names and descriptions in the current colour.
\<close>

theorem mon_help_shows:
  assumes "help_rodata (off_display s) (mem s) L" and "crt_ok s" and "color_parsing s = 0"
  shows "\<exists>t. mon_help H L argc argv s = cret (0, t) \<and> crt_ok t
    \<and> tty_of t = fold (tty_put (color_flag s)) (map scast help_text) (tty_of s)"
  using mon_help_text [OF assms, of H argc argv] by (auto simp: out_step_def)

section \<open>The properties on an example\<close>

text \<open>Literals at \<open>0x1000\<close>, a line at \<open>0x2000\<close>, the line buffer at \<open>0x4000\<close>; the other formats are empty strings.\<close>

definition demo_mlits :: mlits where
  "demo_mlits =
    \<lparr>lits = demo_rodata, reboot_str = 0, noserial_str = 0, prompt_fmt = 0, readerr_fmt = 0, rl_buf = 0x4000,
     help_name = 0x1009, help_desc = 0x100e, kerninfo_name = 0x102c, kerninfo_desc = 0x1035, backtrace_name = 0x105a, backtrace_desc = 0x1064,
     help_fmt = 0x1000, ki_title = 0, ki_start = 0, ki_entry = 0, ki_etext = 0, ki_edata = 0,
     ki_end = 0, ki_size = 0, bt_title = 0, bt_frame = 0, bt_file = 0, bt_char = 0,
     bt_offset = 0, bt_nargs = 0, bt_arg = 0, bt_newline = 0, unknown_str = 0, whitespace_str = 0x106e,
     toomany_fmt = 0, unknown_fmt = 0, welcome_fmt = 0, typehelp_fmt = 0, prompt_str = 0, sym_start = 0,
     sym_entry = 0, sym_etext = 0, sym_edata = 0, sym_end = 0\<rparr>"

definition demo_literals :: "u8 list" where
  "demo_literals =
     [0x25, 0x73, 0x20, 0x2d, 0x20, 0x25, 0x73, 0x0a, 0, 0x68, 0x65, 0x6c, 0x70, 0, 0x44, 0x69, 0x73, 0x70, 0x6c, 0x61, 0x79, 0x20, 0x74, 0x68,
      0x69, 0x73, 0x20, 0x6c, 0x69, 0x73, 0x74, 0x20, 0x6f, 0x66, 0x20, 0x63, 0x6f, 0x6d, 0x6d, 0x61, 0x6e, 0x64, 0x73, 0, 0x6b, 0x65, 0x72, 0x6e,
      0x69, 0x6e, 0x66, 0x6f, 0, 0x44, 0x69, 0x73, 0x70, 0x6c, 0x61, 0x79, 0x20, 0x69, 0x6e, 0x66, 0x6f, 0x72, 0x6d, 0x61, 0x74, 0x69, 0x6f, 0x6e,
      0x20, 0x61, 0x62, 0x6f, 0x75, 0x74, 0x20, 0x74, 0x68, 0x65, 0x20, 0x6b, 0x65, 0x72, 0x6e, 0x65, 0x6c, 0, 0x62, 0x61, 0x63, 0x6b, 0x74, 0x72,
      0x61, 0x63, 0x65, 0, 0x42, 0x61, 0x63, 0x6b, 0x74, 0x72, 0x61, 0x63, 0x65, 0, 0x09, 0x0d, 0x0a, 0x20, 0]"

definition demo_line :: "u8 list" where
  "demo_line = ascii '' help  me ''"

definition demo_mon_mem :: mem where
  "demo_mon_mem a = (if a < 0x2000 then list_mem 0x1000 demo_literals a else list_mem 0x2000 demo_line a)"

definition demo_mon :: "u8 list cstate" where
  "demo_mon = serial_cstate\<lparr>mem := demo_mon_mem\<rparr>"

definition demo_menv :: menv where
  "demo_menv = \<lparr>en_secs = [], en_cu = demo_cu, en_locals = demo_locals, en_info = rip0, en_rbp = 0x3000, en_rip = 0x8004200010, en_argv = replicate 16 0\<rparr>"

lemma demo_mon_display: "off_display demo_mon = (\<lambda>a. \<not> in_block (KERNBASE + 0xB8000) 4000 a)"
  by (simp add: off_display_def [abs_def] demo_mon_def serial_cstate_def)

lemma demo_mon_ok: "console_ok demo_mon" "crt_ok demo_mon" "color_parsing demo_mon = 0" "color_flag demo_mon = 7" "mem demo_mon = demo_mon_mem"
  by (simp_all add: demo_mon_def console_ok_def crt_ok_def ring_ok_def serial_cstate_def KERNBASE_def)

lemma demo_strings:
  "kpre (\<lambda>a. a < 0x2000) demo_mon_mem 0x1000 (ascii ''%s - %s'' @ [0x0a, 0])"
  "kstr (\<lambda>a. a < 0x2000) demo_mon_mem 0x1009 (ascii ''help'')"
  "kstr (\<lambda>a. a < 0x2000) demo_mon_mem 0x100e (ascii ''Display this list of commands'')"
  "kstr (\<lambda>a. a < 0x2000) demo_mon_mem 0x102c (ascii ''kerninfo'')"
  "kstr (\<lambda>a. a < 0x2000) demo_mon_mem 0x1035 (ascii ''Display information about the kernel'')"
  "kstr (\<lambda>a. a < 0x2000) demo_mon_mem 0x105a (ascii ''backtrace'')"
  "kstr (\<lambda>a. a < 0x2000) demo_mon_mem 0x1064 (ascii ''Backtrace'')"
  "kstr (\<lambda>a. a < 0x2000) demo_mon_mem 0x106e whites"
  by code_simp+

lemma kpre_mono: "kpre K m p xs \<Longrightarrow> (\<And>a. K a \<Longrightarrow> K' a) \<Longrightarrow> kpre K' m p xs"
  by (induction xs arbitrary: p) auto

lemma kstr_mono: "kstr K m p xs \<Longrightarrow> (\<And>a. K a \<Longrightarrow> K' a) \<Longrightarrow> kstr K' m p xs"
  unfolding kstr_def using kpre_mono by blast

lemma low_off_display: "a < 0x2000 \<Longrightarrow> \<not> in_block (KERNBASE + 0xB8000) 4000 a"
  by (simp add: in_block_def KERNBASE_def word_less_nat_alt)

lemma low_off_line: "a < 0x2000 \<Longrightarrow> off_line 0x2000 demo_line a"
proof -
  assume a: "a < 0x2000"
  have "unat (0x2000 + of_nat i :: u64) = 0x2000 + i" if "i < length demo_line" for i
    using that unat_add_less [of "0x2000" i] by (simp add: demo_line_def ascii_def)
  then have "0x2000 \<le> unat (0x2000 + of_nat i :: u64)" if "i < length demo_line" for i using that by simp
  with a show ?thesis unfolding off_line_def word_less_nat_alt by fastforce
qed

lemma demo_help_rodata: "help_rodata (\<lambda>a. \<not> in_block (KERNBASE + 0xB8000) 4000 a) demo_mon_mem demo_mlits"
  using demo_strings(2-8) [THEN kstr_mono, OF low_off_display] kpre_mono [OF demo_strings(1) low_off_display]
  by (simp add: help_rodata_def commands_def demo_mlits_def cmd_text_def) (simp add: ascii_def)

theorem mon_help_shows_witness:
  "\<exists>t. mon_help serial_hw demo_mlits 0 [] demo_mon = cret (0, t) \<and> crt_ok t
     \<and> tty_of t = fold (tty_put 7) (map scast help_text) (tty_of demo_mon)"
proof -
  have "help_rodata (off_display demo_mon) (mem demo_mon) demo_mlits" using demo_help_rodata by (simp only: demo_mon_display demo_mon_ok)
  from mon_help_shows [OF this demo_mon_ok(2,3), of serial_hw 0 "[]"] show ?thesis by (simp only: demo_mon_ok)
qed

lemma demo_line_facts:
  "cstr demo_mon_mem 0x2000 demo_line" "ws_lit (off_line 0x2000 demo_line) demo_mon_mem (whitespace_str demo_mlits)"
  "names_ok (off_line 0x2000 demo_line) demo_mon_mem demo_mlits" "words demo_line = [ascii ''help'', ascii ''me'']"
proof -
  show "cstr demo_mon_mem 0x2000 demo_line" by code_simp
  show "ws_lit (off_line 0x2000 demo_line) demo_mon_mem (whitespace_str demo_mlits)"
    using kstr_mono [OF demo_strings(8) low_off_line] by (simp add: ws_lit_def demo_mlits_def)
  show "names_ok (off_line 0x2000 demo_line) demo_mon_mem demo_mlits"
    using demo_strings(2-8) [THEN kstr_mono, OF low_off_line] by (simp add: names_ok_def demo_mlits_def)
  show "words demo_line = [ascii ''help'', ascii ''me'']" by code_simp
qed

theorem runcmd_dispatch_witness:
  "\<exists>argv m. cstr m (argv ! 0) (ascii ''help'') \<and> cstr m (argv ! 1) (ascii ''me'') \<and> argv ! 2 = 0 \<and> length argv = 16
     \<and> (\<forall>call. runcmd_with call serial_hw demo_mlits (en_argv demo_menv) 0x2000 demo_mon = call Mon_help 2 argv (demo_mon\<lparr>mem := m\<rparr>))
     \<and> runcmd serial_hw demo_mlits demo_menv 0x2000 demo_mon = mon_help serial_hw demo_mlits 2 argv (demo_mon\<lparr>mem := m\<rparr>)"
proof -
  let ?m = "blank demo_mon_mem 0x2000 demo_line" and ?argv0 = "en_argv demo_menv"
  have "length ?argv0 = MAXARGS" by (simp add: demo_menv_def MAXARGS_def)
  note out = runcmd_dispatch [where s = demo_mon, unfolded demo_mon_ok(5), OF demo_line_facts(1-3) this, where H = serial_hw and E = demo_menv]
  have "words demo_line \<noteq> []" "length (words demo_line) \<le> 15" by (simp_all add: demo_line_facts(4))
  with out obtain argv where l: "length argv = MAXARGS" and
    a: "\<forall>i < length (words demo_line). cstr ?m (argv ! i) (words demo_line ! i)"
    "argv ! length (words demo_line) = 0" and
    c: "\<And>call. runcmd_with call serial_hw demo_mlits ?argv0 0x2000 demo_mon =
      dispatch call serial_hw demo_mlits (words demo_line) argv (demo_mon\<lparr>mem := ?m\<rparr>)" and
    r: "runcmd serial_hw demo_mlits demo_menv 0x2000 demo_mon = runcmd_with (call_func serial_hw demo_mlits demo_menv) serial_hw demo_mlits ?argv0 0x2000 demo_mon"
    by auto
  have "cstr ?m (argv ! 0) (ascii ''help'')" "cstr ?m (argv ! 1) (ascii ''me'')"
    using a(1) [rule_format, of 0] a(1) [rule_format, of 1] by (simp_all add: demo_line_facts(4))
  moreover have "argv ! 2 = 0" using a(2) by (simp add: demo_line_facts(4) numeral_2_eq_2)
  moreover have d: "runcmd_with call serial_hw demo_mlits ?argv0 0x2000 demo_mon = call Mon_help 2 argv (demo_mon\<lparr>mem := ?m\<rparr>)" for call
    by (simp add: c demo_line_facts(4) dispatch_def named_func_def numeral_2_eq_2)
  moreover have "runcmd serial_hw demo_mlits demo_menv 0x2000 demo_mon = mon_help serial_hw demo_mlits 2 argv (demo_mon\<lparr>mem := ?m\<rparr>)"
    by (simp add: r d call_func_def)
  moreover have "length argv = 16" using l by (simp add: MAXARGS_def)
  ultimately show ?thesis by blast
qed

definition demo_stack :: mem where
  "demo_stack a = (if a < 0x3000 then demo_mon_mem a
     else if a < 0x3100 then list_mem 0x3000 [0, 0x31, 0, 0, 0, 0, 0, 0, 0x20, 0, 0x20, 4, 0x80, 0, 0, 0] a
     else list_mem 0x3100 [0, 0, 0, 0, 0, 0, 0, 0, 0x30, 0, 0x20, 4, 0x80, 0, 0, 0] a)"

lemma demo_frame_words:
  "load64 demo_stack 0x3000 = 0x3100" "load64 demo_stack 0x3008 = 0x8004200020"
  "load64 demo_stack 0x3100 = 0" "load64 demo_stack 0x3108 = 0x8004200030"
  by code_simp+

theorem backtrace_frames_witness:
  "mon_backtrace serial_hw demo_mlits demo_menv 0 [] (demo_mon\<lparr>mem := demo_stack\<rparr>) =
    cbind (say serial_hw demo_mlits (bt_title demo_mlits) [] (demo_mon\<lparr>mem := demo_stack\<rparr>)) (\<lambda>t.
      cbind (show_frames serial_hw demo_mlits demo_menv 0x8004200030 [(0x3000, 0x8004200010), (0x3100, 0x8004200020)] rip0 t)
        (\<lambda>t. cret (0, t)))"
proof -
  let ?s = "demo_mon\<lparr>mem := demo_stack\<rparr>"
  have c: "console_ok ?s" using demo_mon_ok(1) by (simp add: console_ok_mem)
  have k: "\<not> in_block (KERNBASE + 0xB8000) 4000 (p + of_nat i)" if "unat p < 0x4000" "i < 16" for p :: u64 and i
    using that unat_add_less [of p i] by (simp add: in_block_def KERNBASE_def)
  have "frames (\<lambda>a. \<not> in_block (KERNBASE + 0xB8000) 4000 a) demo_stack 0x3100 0x8004200020 [(0x3100, 0x8004200020)] 0x8004200030"
    by (rule frame) (simp_all add: k frames.bottom demo_frame_words)
  then have "frames (\<lambda>a. \<not> in_block (KERNBASE + 0xB8000) 4000 a) demo_stack 0x3000 0x8004200010
      [(0x3000, 0x8004200010), (0x3100, 0x8004200020)] 0x8004200030"
    by (intro frame) (simp_all add: k demo_frame_words)
  then have "frames (\<lambda>a. \<not> in_block (crt_buf ?s) 4000 a) (mem ?s) (en_rbp demo_menv) (en_rip demo_menv)
      [(0x3000, 0x8004200010), (0x3100, 0x8004200020)] 0x8004200030"
    by (simp add: demo_menv_def demo_mon_def serial_cstate_def)
  from backtrace_frames [OF c this, of serial_hw demo_mlits 0 "[]"] show ?thesis by (simp add: demo_menv_def)
qed

lemma say_empty: "crt_ok s \<Longrightarrow> mem s fmt = 0 \<Longrightarrow> \<not> in_block (crt_buf s) 4000 fmt \<Longrightarrow> say H L fmt args s = cret s"
proof -
  assume c: "crt_ok s" and e: "mem s fmt = 0" "\<not> in_block (crt_buf s) 4000 fmt"
  have "formats (lits L) (\<lambda>a. \<not> in_block (crt_buf s) 4000 a) (mem s) [] args []" by (rule fmt_nil)
  from con.vprintfmt_text [OF this _ _ con_inv_start [OF c], of fmt] e show ?thesis
    by (simp add: say_def cprintf_def vcprintf_def)
qed

lemma runcmd_empty: "mem s bp = 0 \<Longrightarrow> length (en_argv E) = MAXARGS \<Longrightarrow> runcmd H L E bp s = cret (0, s)"
  by (simp add: runcmd_def runcmd_with_def argv_set_ok MAXARGS_def parse_args.simps gobble.simps)

lemma demo_readline: "\<exists>t. readline serial_hw demo_mlits 0 demo_mon = cret (0x4000, t) \<and> mem t 0x4000 = 0"
proof -
  have "serial_intr serial_hw demo_mon = cret (demo_mon\<lparr>hw := [], cons_buf := (replicate 512 0)[0 := 0x0A], wpos := 1\<rparr>)"
    by (simp add: serial_intr_def cons_intr.simps serial_proc_data_def inb_def serial_hw_def serial_cstate_def demo_mon_def
        COM1_def cons_put_def CONSBUFSIZE_def Let_def)
  moreover have "kbd_intr serial_hw demo_mlits s = cret s" for s
    by (simp add: kbd_intr_def cons_intr.simps kbd_proc_data_def inb_def serial_hw_def)
  moreover have "(replicate 512 0)[0 := 0x0A] ! 0 = (0x0A :: u8)" by simp
  ultimately have "\<exists>t. cons_getc serial_hw demo_mlits demo_mon = cret (0x0A, t)"
    by (simp add: cons_getc_def cons_take_def CONSBUFSIZE_def Let_def serial_cstate_def demo_mon_def del: list_update_code)
  then obtain t where "cons_getc serial_hw demo_mlits demo_mon = cret (0x0A, t)" by blast
  then have "getchar serial_hw demo_mlits demo_mon = cret (0x0A, t)" by (subst getchar.simps) simp
  then show ?thesis
    by (auto simp: readline_def iscons_def readline_loop.simps [of _ _ _ 0] word_sless_alt word_sle_eq Let_def
        demo_mlits_def [THEN arg_cong [of _ _ rl_buf]])
qed

theorem monitor_invariant_witness:
  "\<exists>t. mon_reach serial_hw demo_mlits demo_menv demo_mon t \<and> console_ok t \<and> mem t 0x1000 = 0x25
     \<and> monitor serial_hw demo_mlits demo_menv demo_mon = monitor_loop serial_hw demo_mlits demo_menv t"
proof -
  have z: "welcome_fmt demo_mlits = 0" "typehelp_fmt demo_mlits = 0" "prompt_str demo_mlits = 0" "rl_buf demo_mlits = 0x4000"
    "whitespace_str demo_mlits = 0x106e" by (simp_all add: demo_mlits_def)
  have d: "crt_buf demo_mon = KERNBASE + 0xB8000" by (simp add: demo_mon_def serial_cstate_def)
  have m0: "mem demo_mon 0 = 0" "mem demo_mon 0x1000 = 0x25" unfolding demo_mon_ok(5)
    by (simp_all add: demo_mon_mem_def list_mem_def demo_literals_def)
  have off: "\<not> in_block (KERNBASE + 0xB8000) 4000 a \<and> \<not> in_block 0x4000 1024 a" if "a < 0x2000" for a
    using that low_off_display [OF that] by (simp add: in_block_def word_less_nat_alt)
  have st: "mon_start demo_mlits demo_menv demo_mon"
    unfolding mon_start_def z d demo_mon_ok(5)
  proof (intro conjI)
    show "buf_apart 0x4000 demo_mon" by (auto simp: buf_apart_def in_block_def d KERNBASE_def)
    show "ws_lit (\<lambda>a. \<not> in_block (KERNBASE + 0xB8000) 4000 a \<and> \<not> in_block 0x4000 1024 a) demo_mon_mem 0x106e"
      using kstr_mono [OF demo_strings(8) off] by (simp add: ws_lit_def)
  qed (simp_all add: demo_mon_ok demo_menv_def MAXARGS_def)
  have "say serial_hw demo_mlits 0 [] demo_mon = cret demo_mon"
    using demo_mon_ok(2) m0(1) off [of 0] d by (intro say_empty) simp_all
  then have r0: "mon_reach serial_hw demo_mlits demo_menv demo_mon demo_mon" by (intro mon_reach.start) (simp_all add: z)
  obtain t where t: "readline serial_hw demo_mlits 0 demo_mon = cret (0x4000, t)" "mem t 0x4000 = 0" using demo_readline by blast
  have "runcmd serial_hw demo_mlits demo_menv 0x4000 t = cret (0, t)"
    using t(2) by (intro runcmd_empty) (simp_all add: demo_menv_def MAXARGS_def)
  then have "mon_step serial_hw demo_mlits demo_menv demo_mon t"
    using t(1) by (intro mon_step.run [where r = 0]) (simp_all add: z)
  with r0 have r: "mon_reach serial_hw demo_mlits demo_menv demo_mon t" by (rule mon_reach.round)
  note inv = monitor_invariant [OF st r, unfolded d z]
  have "mem t 0x1000 = mem demo_mon 0x1000" using inv off [of "0x1000"] by auto
  with inv r m0 show ?thesis by auto
qed

end
