(* ===== verification/Init.thy ===== *)
theory Init
  imports Monitor
begin

text \<open>
  \<^verbatim>\<open>kern/init.c\<close>: \<^verbatim>\<open>i386_init\<close>, which clears the BSS, sets up the console, loads the debug sections and enters the monitor, and
  the panic routines.

  The disk and the console share one device state. Globals kept in the fields of the console state are cleared with the BSS;
  the words that calls push onto the stack, which a backtrace reads, are in memory from the start, as nothing else in the model
  writes there. The instructions \<^verbatim>\<open>cli; cld\<close> of \<^verbatim>\<open>_panic\<close> have no counterpart.
\<close>

section \<open>Definitions\<close>

record ilits = mlits +
  octal_fmt :: u64
  entering_fmt :: u64
  leaving_fmt :: u64
  panic_fmt :: u64
  warn_fmt :: u64
  nl_fmt :: u64

function test_backtrace :: "'h hwops \<Rightarrow> 'k ilits_scheme \<Rightarrow> menv \<Rightarrow> i32 \<Rightarrow> 'h cstate \<Rightarrow> 'h cstate cres" where
  "test_backtrace H L E x s =
     cbind (say H L (entering_fmt L) [ucast x] s) (\<lambda>s.
     cbind (if 0 <s x then test_backtrace H L E (x - 1) s
            else cbind (mon_backtrace H L E 0 [] s) (\<lambda>(r, s). cret s)) (\<lambda>s.
     say H L (leaving_fmt L) [ucast x] s))"
  by pat_completeness auto
termination
  by (relation "measure (\<lambda>(H, L, E, x, s). nat (sint x))") (auto simp: word_sless_alt sint32_pred)

declare test_backtrace.simps [simp del]

text \<open>\<^verbatim>\<open>memset(edata, 0, end - edata)\<close>, and the uninitialised globals among the fields of the state.\<close>

definition clear_bss :: "'k mlits_scheme \<Rightarrow> 'h cstate \<Rightarrow> 'h cstate" where
  "clear_bss L s =
     s\<lparr>mem := fst (memset (mem s) (sym_edata L) 0 (sym_end L - sym_edata L)), color_parsing := 0, serial_exists := False,
       addr_6845 := 0, crt_buf := 0, crt_pos := 0, shift := 0, cons_buf := replicate 512 0, rpos := 0, wpos := 0\<rparr>"

text \<open>\<^verbatim>\<open>while (1) monitor(NULL);\<close>\<close>

partial_function (option) monitor_forever :: "'h hwops \<Rightarrow> 'k mlits_scheme \<Rightarrow> menv \<Rightarrow> 'h cstate \<Rightarrow> 'h cstate cres" where
  "monitor_forever H L E s = cbind (monitor H L E s) (\<lambda>s. monitor_forever H L E s)"

text \<open>\<open>E\<close> is what the test backtrace finds, \<open>E'\<close> what the monitor's commands find.\<close>

definition i386_init ::
    "'h hwops \<Rightarrow> 'h ideops \<Rightarrow> 'k ilits_scheme \<Rightarrow> elits \<Rightarrow> menv \<Rightarrow> menv \<Rightarrow> dwarf_section list \<Rightarrow> 'h cstate \<Rightarrow> 'h cstate cres" where
  "i386_init H D L EL E E' secs s =
     cbind (cons_init H L (clear_bss L s)) (\<lambda>s.
     cbind (say H L (octal_fmt L) [6828] s) (\<lambda>s.
     cbind (read_section_headers D EL (0x10000 + KERNBASE) (sym_end L) secs (mem s, hw s)) (\<lambda>(end_debug, secs, m, h).
       let s = s\<lparr>mem := m, hw := h\<rparr> in
       cbind (test_backtrace H L (E\<lparr>en_secs := secs\<rparr>) 5 s) (\<lambda>s.
       monitor_forever H L (E'\<lparr>en_secs := secs\<rparr>) s))))"

text \<open>
  The first component of the state is \<^verbatim>\<open>panicstr\<close>. \<open>dead\<close> is the code behind the label of that name, so that what
  \<^verbatim>\<open>_panic\<close> does before it can be told apart from the monitor, which does not return.
\<close>

definition panic_to ::
    "(u64 \<times> 'h cstate \<Rightarrow> 'b cres) \<Rightarrow> 'h hwops \<Rightarrow> 'k ilits_scheme \<Rightarrow> u64 \<Rightarrow> i32 \<Rightarrow> u64 \<Rightarrow> u64 list \<Rightarrow> u64 \<times> 'h cstate \<Rightarrow> 'b cres" where
  "panic_to dead H L file_name ln fmt ap ps =
     (case ps of (panicstr, s) \<Rightarrow>
       if panicstr \<noteq> 0 then dead (panicstr, s)
       else
         cbind (say H L (panic_fmt L) [file_name, ucast ln] s) (\<lambda>s.
         cbind (vcprintf H (lits L) fmt ap s) (\<lambda>(r, s).
         cbind (say H L (nl_fmt L) [] s) (\<lambda>s. dead (fmt, s)))))"

definition panic ::
    "'h hwops \<Rightarrow> 'k ilits_scheme \<Rightarrow> menv \<Rightarrow> u64 \<Rightarrow> i32 \<Rightarrow> u64 \<Rightarrow> u64 list \<Rightarrow> u64 \<times> 'h cstate \<Rightarrow> (u64 \<times> 'h cstate) cres" where
  "panic H L E = panic_to (\<lambda>(panicstr, s). cbind (monitor_forever H L E s) (\<lambda>s. cret (panicstr, s))) H L"

definition warn :: "'h hwops \<Rightarrow> 'k ilits_scheme \<Rightarrow> u64 \<Rightarrow> i32 \<Rightarrow> u64 \<Rightarrow> u64 list \<Rightarrow> 'h cstate \<Rightarrow> 'h cstate cres" where
  "warn H L file_name ln fmt ap s =
     cbind (say H L (warn_fmt L) [file_name, ucast ln] s) (\<lambda>s.
     cbind (vcprintf H (lits L) fmt ap s) (\<lambda>(r, s).
     say H L (nl_fmt L) [] s))"

declare monitor_forever.simps [code]

section \<open>No way back\<close>

lemma monitor_diverges: "ok (\<lambda>_. False) (monitor H L E s)"
  unfolding monitor_def by (intro ok_bind_any monitor_loop_diverges)

lemma monitor_forever_diverges: "ok (\<lambda>_. False) (monitor_forever H L E s)"
  by (subst monitor_forever.simps) (rule ok_bind [OF monitor_diverges], simp)

lemma panic_diverges: "ok (\<lambda>_. False) (panic H L E file_name ln fmt ap ps)"
  unfolding panic_def panic_to_def
  by (cases ps) (auto intro!: ok_bind_any ok_bind [OF monitor_forever_diverges])

text \<open>
  The calls of \<^verbatim>\<open>test_backtrace\<close> as a sequence: \<^verbatim>\<open>test_backtrace(n)\<close> announces entering \<open>n\<close> down to 0, shows the backtrace, and
  announces leaving 0 up to \<open>n\<close>.
\<close>

fun say_all :: "'h hwops \<Rightarrow> 'k mlits_scheme \<Rightarrow> u64 \<Rightarrow> u64 list \<Rightarrow> 'h cstate \<Rightarrow> 'h cstate cres" where
  "say_all H L fmt [] s = cret s"
| "say_all H L fmt (x # xs) s = cbind (say H L fmt [x] s) (say_all H L fmt xs)"

lemma say_all_Nil: "say_all H L fmt [] = cret"
  by (rule ext) simp

lemma say_all_one: "say_all H L fmt [x] = say H L fmt [x]"
  by (rule ext) (simp add: say_all_Nil cret_bind)

lemma say_all_append: "say_all H L fmt (xs @ ys) = (\<lambda>s. cbind (say_all H L fmt xs s) (say_all H L fmt ys))"
proof (induction xs)
  case (Cons x xs)
  show ?case by (rule ext) (simp add: Cons cbind_assoc)
qed simp

lemma say_all_two: "say_all H L fmt [x, y] = (\<lambda>s. cbind (say H L fmt [x] s) (say H L fmt [y]))"
  by (rule ext) (simp add: say_all_Nil cret_bind say_all_one)

lemma test_backtrace_nests:
  "n < 2 ^ 31 \<Longrightarrow> test_backtrace H L E (of_nat n) s =
    cbind (say_all H L (entering_fmt L) (map of_nat (rev [0..<Suc n])) s) (\<lambda>s.
    cbind (mon_backtrace H L E 0 [] s) (\<lambda>(r, s). say_all H L (leaving_fmt L) (map of_nat [0..<Suc n]) s))"
proof (induction n arbitrary: s)
  case 0
  then show ?case
    by (subst test_backtrace.simps) (simp add: cbind_assoc case_prod_unfold cret_bind say_all_one)
next
  case (Suc n)
  have u: "(ucast (of_nat (Suc n) :: i32) :: u64) = of_nat (Suc n)"
    using Suc.prems by (simp only: unsigned_of_nat take_bit_nat_eq_self) (simp add: take_bit_nat_eq_self)
  have p: "0 <s (of_nat (Suc n) :: i32)" using Suc.prems sint32_of_nat [of "Suc n"] by (simp add: word_sless_alt)
  have m: "(of_nat (Suc n) :: i32) - 1 = of_nat n" by simp
  note IH = Suc.IH [OF Suc_lessD [OF Suc.prems]]
  show ?case
    by (subst test_backtrace.simps) (simp only: u p m if_True IH, simp add: cbind_assoc case_prod_unfold say_all_append say_all_one say_all_two cret_bind)
qed

section \<open>Panic messages\<close>

definition panic_items :: "item list" where
  "panic_items = map Lit (ascii ''kernel panic at '') @ [Conv NoFlag None NoPrec c_s, Lit 0x3a, Conv NoFlag None NoPrec c_d, Lit 0x3a, Lit 0x20]"

lemma formats_lits: "formats R K m its args out \<Longrightarrow> formats R K m (map Lit cs @ its) args (map ucast cs @ out)"
  by (induction cs) (auto intro: fmt_lit)

lemma panic_formats:
  assumes "kstr K m p xs" "p \<noteq> 0" "length xs < 2 ^ 29"
  shows "formats R K m panic_items [p, n]
    (map ucast (ascii ''kernel panic at '') @ map scast xs @ 0x3a # signed_text (spec_of NoFlag None NoPrec (- 1)) 10 n @ [0x3a, 0x20])"
proof -
  let ?sp = "spec_of NoFlag None NoPrec (- 1)"
  have "conv_text R K m ?sp c_s [p, n] (map scast xs) [n]"
    using conv_s [of K m p R xs ?sp] assms by (simp add: plain_string_text)
  then have "formats R K m (Conv NoFlag None NoPrec c_s # [Lit 0x3a, Conv NoFlag None NoPrec c_d, Lit 0x3a, Lit 0x20]) [p, n]
      (map scast xs @ ucast (0x3a :: u8) # (signed_text ?sp 10 n @ [ucast (0x3a :: u8), ucast (0x20 :: u8)]))"
    by (intro fmt_conv [OF no_prec] fmt_lit fmt_nil) (auto intro: conv_d)
  then show ?thesis unfolding panic_items_def by (intro formats_lits) simp
qed

text \<open>One format shown, and what the next one finds.\<close>

lemma say_shows:
  assumes "list_all item_ok its" "kpre (off_display s) (mem s) fmt (concat (map render its) @ [0])"
    "formats (lits L) (off_display s) (mem s) its args out" "crt_ok s" "color_parsing s = 0"
  shows "\<exists>t. say H L fmt args s = cret t \<and> vcprintf H (lits L) fmt args s = cret (0, t)
    \<and> out_step s t (fold (tty_put (color_flag s)) out)"
proof -
  have k: "off_display s = (\<lambda>a. \<not> in_block (crt_buf s) 4000 a)" by (simp add: off_display_def [abs_def])
  obtain t where "cprintf H (lits L) fmt args s = cret (0, t)" "out_step s t (fold (tty_put (color_flag s)) out)"
    using cprintf_text [OF assms(1) _ _ assms(4,5)] assms(2,3) unfolding k by blast
  then show ?thesis by (simp add: say_def cprintf_def)
qed

lemma out_step_next:
  assumes "out_step s t f" "color_parsing s = 0"
  shows "off_display t = off_display s" "off_display s a \<Longrightarrow> mem t a = mem s a" "color_flag t = color_flag s"
    "color_parsing t = 0" "crt_ok t"
  using assms by (auto simp: out_step_def off_display_def disp_only_def fun_eq_iff)

lemma kstr_cong: "kstr K m p xs \<Longrightarrow> (\<And>a. K a \<Longrightarrow> m' a = m a) \<Longrightarrow> kstr K m' p xs"
  unfolding kstr_def using kpre_cong by blast

lemma formats_cong: "formats R K m its args out \<Longrightarrow> (\<And>a. K a \<Longrightarrow> m' a = m a) \<Longrightarrow> formats R K m' its args out"
proof (induction rule: formats.induct)
  case (fmt_conv fl wd pr args sp args' c out args'' its outs)
  have "conv_text R K m' sp c args' out args''"
    using fmt_conv.hyps(2)
  proof cases
    case (conv_s a xs)
    then show ?thesis using kstr_cong [OF conv_s(4) fmt_conv.prems] by (simp add: conv_text.conv_s)
  qed (simp_all add: conv_text.intros(1-6))
  with fmt_conv show ?case by (intro formats.fmt_conv) auto
qed (auto intro: formats.intros)

section \<open>Properties\<close>

text \<open>
  C39. The kernel never ends by itself: \<^verbatim>\<open>i386_init\<close> does not return, nor does \<^verbatim>\<open>_panic\<close>, on its first call or later, nor the
  monitor they end in: every command returns 0, and the loop of the monitor ends on a negative result only.
\<close>

theorem kernel_never_returns:
  "i386_init H D L EL E E' secs s \<noteq> cret t \<and> panic H L E file_name ln fmt ap ps \<noteq> cret u \<and> monitor H L E s \<noteq> cret t"
proof -
  have "ok (\<lambda>_. False) (i386_init H D L EL E E' secs s)"
    unfolding i386_init_def Let_def by (intro ok_bind_any) (clarify, intro ok_bind_any monitor_forever_diverges)
  then show ?thesis
    using panic_diverges [of H L E file_name ln fmt ap ps] monitor_diverges [of H L E s] unfolding ok_def by blast
qed

text \<open>
  C27. The first panic reports itself: on the literals of the program, \<^verbatim>\<open>_panic\<close> reaches the label \<^verbatim>\<open>dead\<close> with \<^verbatim>\<open>panicstr\<close>
  set to its format, and by then the terminal has received \<open>kernel panic at\<close> with file and line, the caller's message and a newline,
  and nothing but the display has changed. A panic during a panic reaches the label at once, in the state it found. (\<open>dead\<close> ranges over
  all that could stand behind the label, such as a function that returns the state it is given; \<^verbatim>\<open>_panic\<close> itself is the case of the
  endless monitor.)
\<close>

theorem panic_reports:
  assumes "kpre (off_display s) (mem s) (panic_fmt L) (concat (map render panic_items) @ [0])"
    and "kpre (off_display s) (mem s) (nl_fmt L) [0x0a, 0]"
    and "kstr (off_display s) (mem s) file_name fs" "file_name \<noteq> 0" "length fs < 2 ^ 29"
    and "list_all item_ok its" "kpre (off_display s) (mem s) fmt (concat (map render its) @ [0])"
    and "formats (lits L) (off_display s) (mem s) its ap out"
    and "crt_ok s" "color_parsing s = 0" "p \<noteq> 0"
  shows "\<exists>t. (\<forall>dead :: u64 \<times> 'h cstate \<Rightarrow> 'b cres. panic_to dead H L file_name ln fmt ap (0, s) = dead (fmt, t))
    \<and> tty_of t = fold (tty_put (color_flag s))
        (map ucast (ascii ''kernel panic at '') @ map scast fs
          @ 0x3a # signed_text (spec_of NoFlag None NoPrec (- 1)) 10 (ucast ln) @ [0x3a, 0x20] @ out @ [0x0a]) (tty_of s)
    \<and> disp_only s t
    \<and> (\<forall>dead :: u64 \<times> 'h cstate \<Rightarrow> 'b cres. panic_to dead H L file_name ln fmt ap (p, s) = dead (p, s))
    \<and> panic H L E file_name ln fmt ap (0, s) = cbind (monitor_forever H L E t) (\<lambda>u. cret (fmt, u))
    \<and> panic H L E file_name ln fmt ap (p, s) = cbind (monitor_forever H L E s) (\<lambda>u. cret (p, u))"
proof -
  have ok: "list_all item_ok panic_items" by code_simp
  note say_panic = say_shows [OF ok assms(1) panic_formats [OF assms(3-5), of "lits L" "ucast ln"] assms(9,10), of H]
  then obtain t where t: "say H L (panic_fmt L) [file_name, ucast ln] s = cret t"
    and st: "out_step s t (fold (tty_put (color_flag s)) (map ucast (ascii ''kernel panic at '') @ map scast fs
      @ 0x3a # signed_text (spec_of NoFlag None NoPrec (- 1)) 10 (ucast ln) @ [0x3a, 0x20]))"
    by blast
  note n1 = out_step_next [OF st assms(10)]
  from say_shows [of its t fmt L ap out H] assms(6) kpre_cong [OF assms(7) n1(2)] formats_cong [OF assms(8) n1(2)] n1
  obtain u where u: "vcprintf H (lits L) fmt ap t = cret (0, u)" and tu: "out_step t u (fold (tty_put (color_flag s)) out)"
    by auto
  note n2 = out_step_next [OF tu n1(4)]
  have "kpre (off_display u) (mem u) (nl_fmt L) (concat (map render [Lit 0x0a]) @ [0])"
    using kpre_cong [OF assms(2), of "mem u"] n1(1,2) n2(1,2) by simp
  moreover have "formats (lits L) (off_display u) (mem u) [Lit 0x0a] [] [ucast (0x0a :: u8)]" by (intro fmt_lit fmt_nil)
  ultimately obtain v where v: "say H L (nl_fmt L) [] u = cret v" and uv: "out_step u v (fold (tty_put (color_flag s)) [0x0a])"
    using say_shows [of "[Lit 0x0a]" u "nl_fmt L" L "[]" "[ucast (0x0a :: u8)]" H] n1 n2 by auto
  have dead: "panic_to dead H L file_name ln fmt ap (0, s) = dead (fmt, v)" for dead :: "u64 \<times> 'h cstate \<Rightarrow> 'c cres"
    using t u v by (simp add: panic_to_def)
  have again: "panic_to dead H L file_name ln fmt ap (p, s) = dead (p, s)" for dead :: "u64 \<times> 'h cstate \<Rightarrow> 'c cres"
    using assms(11) by (simp add: panic_to_def)
  have "disp_only s v" and "tty_of v = fold (tty_put (color_flag s)) (map ucast (ascii ''kernel panic at '') @ map scast fs
      @ 0x3a # signed_text (spec_of NoFlag None NoPrec (- 1)) 10 (ucast ln) @ [0x3a, 0x20] @ out @ [0x0a]) (tty_of s)"
    using out_step_trans [OF out_step_trans [OF st tu] uv] by (simp_all add: out_step_def)
  then show ?thesis by (intro exI [of _ v]) (simp add: panic_def dead again)
qed

text \<open>The message of \<^verbatim>\<open>panic("no memory")\<close> in line 7 of \<^verbatim>\<open>init.c\<close>.\<close>

definition panic_literals :: "u8 list" where
  "panic_literals =
     [0x6b, 0x65, 0x72, 0x6e, 0x65, 0x6c, 0x20, 0x70, 0x61, 0x6e, 0x69, 0x63, 0x20, 0x61, 0x74, 0x20, 0x25, 0x73, 0x3a, 0x25, 0x64, 0x3a, 0x20, 0,
      0x0a, 0, 0x69, 0x6e, 0x69, 0x74, 0x2e, 0x63, 0, 0x6e, 0x6f, 0x20, 0x6d, 0x65, 0x6d, 0x6f, 0x72, 0x79, 0]"

definition panic_mem :: mem where
  "panic_mem = list_mem 0x1000 panic_literals"

definition demo_ilits :: ilits where
  "demo_ilits = mlits.extend demo_mlits (ilits.fields 0 0 0 0x1000 0 0x1018)"

lemma panic_strings:
  "kpre (\<lambda>a. a < 0x2000) panic_mem 0x1000 (concat (map render panic_items) @ [0])"
  "kpre (\<lambda>a. a < 0x2000) panic_mem 0x1018 [0x0a, 0]"
  "kstr (\<lambda>a. a < 0x2000) panic_mem 0x101a (ascii ''init.c'')"
  "kpre (\<lambda>a. a < 0x2000) panic_mem 0x1021 (concat (map render (map Lit (ascii ''no memory''))) @ [0])"
  by code_simp+

theorem panic_reports_witness:
  "\<exists>t. panic_to cret serial_hw demo_ilits 0x101a 7 0x1021 [] (0, serial_cstate\<lparr>mem := panic_mem\<rparr>) = cret (0x1021, t)
    \<and> tty_of t = fold (tty_put 7) (map ucast (ascii ''kernel panic at init.c:7: no memory'') @ [0x0a])
        (tty_of (serial_cstate\<lparr>mem := panic_mem\<rparr>))
    \<and> panic serial_hw demo_ilits demo_menv 0x101a 7 0x1021 [] (0, serial_cstate\<lparr>mem := panic_mem\<rparr>)
      = cbind (monitor_forever serial_hw demo_ilits demo_menv t) (\<lambda>u. cret (0x1021, u))"
proof -
  let ?s = "serial_cstate\<lparr>mem := panic_mem\<rparr>" and ?its = "map Lit (ascii ''no memory'')"
  have off: "off_display ?s = (\<lambda>a. \<not> in_block (KERNBASE + 0xB8000) 4000 a)"
    by (simp add: off_display_def [abs_def] serial_cstate_def)
  have m: "mem ?s = panic_mem" "color_flag ?s = 7" "color_parsing ?s = 0" by (simp_all add: serial_cstate_def)
  have c: "crt_ok ?s" by (simp add: crt_ok_def serial_cstate_def KERNBASE_def)
  have i: "list_all item_ok ?its" by code_simp
  have len: "length (ascii ''init.c'') < 2 ^ 29" by (simp add: ascii_def)
  have f: "formats (lits demo_ilits) (off_display ?s) (mem ?s) ?its [] (map ucast (ascii ''no memory''))"
    using formats_lits [OF fmt_nil, of "lits demo_ilits" "off_display ?s" "mem ?s" "ascii ''no memory''" "[]"] by simp
  have l: "panic_fmt demo_ilits = 0x1000" "nl_fmt demo_ilits = 0x1018" by (simp_all add: demo_ilits_def ilits.defs mlits.defs)
  have p: "kpre (off_display ?s) (mem ?s) (panic_fmt demo_ilits) (concat (map render panic_items) @ [0])"
    "kpre (off_display ?s) (mem ?s) (nl_fmt demo_ilits) [0x0a, 0]" "kstr (off_display ?s) (mem ?s) 0x101a (ascii ''init.c'')"
    "kpre (off_display ?s) (mem ?s) 0x1021 (concat (map render ?its) @ [0])"
    unfolding off m l
    by (rule kpre_mono [OF panic_strings(1)], erule low_off_display, rule kpre_mono [OF panic_strings(2)], erule low_off_display,
      rule kstr_mono [OF panic_strings(3)], erule low_off_display, rule kpre_mono [OF panic_strings(4)], erule low_off_display)
  have t: "map ucast (ascii ''kernel panic at '') @ map scast (ascii ''init.c'')
      @ 0x3a # signed_text (spec_of NoFlag None NoPrec (- 1)) 10 (ucast (7 :: i32)) @ [0x3a, 0x20] @ map ucast (ascii ''no memory'') @ [0x0a]
    = map ucast (ascii ''kernel panic at init.c:7: no memory'') @ [0x0a :: i32]" by code_simp
  from panic_reports [OF p(1-3) _ len i p(4) f c m(3), of 1 serial_hw 7 demo_menv] show ?thesis unfolding t m by fastforce
qed

text \<open>
  C26. What \<^verbatim>\<open>i386_init\<close> starts from: once the BSS is cleared and the console set up, on a display whose cursor is on the screen, the
  console is in order, which is the invariant of everything that prints or reads later; the bytes of the BSS are zero, and no other byte
  of memory outside the display has changed. (The globals of the console, part of the BSS too, are fields of the state; those
  that the console's initialisation sets are then not zero.)
\<close>

theorem boot_console:
  assumes "unat (crt_pos (cga_init H (clear_bss L s))) < 2000" and "cons_init H L (clear_bss L s) = cret t"
  shows "console_ok t \<and> crt_buf t = (if cga_present H then KERNBASE + 0xB8000 else KERNBASE + 0xB0000)
    \<and> (\<forall>a. in_block (crt_buf t) 4000 a
         \<or> mem t a = (if unat (a - sym_edata L) < unat (sym_end L - sym_edata L) then 0 else mem s a))"
proof -
  let ?s = "clear_bss L s"
  let ?c = "serial_init H (kbd_init (cga_init H ?s))"
  have buf: "crt_buf (cga_init H ?s) = (if cga_present H then KERNBASE + 0xB8000 else KERNBASE + 0xB0000)"
    by (simp add: cga_init_def Let_def case_prod_unfold)
  have c: "mem ?c = mem ?s" "crt_buf ?c = crt_buf (cga_init H ?s)" "crt_pos ?c = crt_pos (cga_init H ?s)"
    "cons_buf ?c = replicate 512 0" "rpos ?c = 0" "wpos ?c = 0"
    by (simp_all add: serial_init_def kbd_init_def cga_init_def clear_bss_def Let_def case_prod_unfold inb_def outb_def)
  then have "console_ok ?c" using assms(1) by (simp add: console_ok_def crt_ok_def ring_ok_def buf KERNBASE_def)
  then have inv: "console_inv ?c ?c" by (rule console_inv_refl)
  then have "ok (console_inv ?c) (cons_init H L ?s)"
    unfolding cons_init_def Let_def by (intro ok_if ok_bind [OF cprintf_console]) auto
  from okD [OF this assms(2)] have t: "console_inv ?c t" .
  have m: "mem ?s a = (if unat (a - sym_edata L) < unat (sym_end L - sym_edata L) then 0 else mem s a)" for a
    by (simp add: clear_bss_def memset_fill fill_def)
  show ?thesis
    using t unfolding console_inv_def c buf m by auto
qed

text \<open>
  A machine with a display, no serial port and the cursor at the top left: all ports read 0xFF but the cursor's; the message
  that there is no serial port is the empty string.
\<close>

definition quiet_hw :: "u16 hwops" where
  "quiet_hw = \<lparr>hw_inb = \<lambda>p h. (if p = 0x3D5 then 0 else 0xFF, h), hw_outb = \<lambda>_ _ h. h, cga_present = True\<rparr>"

definition quiet_mlits :: mlits where
  "quiet_mlits = demo_mlits\<lparr>sym_edata := 0x5000, sym_end := 0x6000\<rparr>"

definition quiet_state :: "u16 cstate" where
  "quiet_state = \<lparr>mem = \<lambda>a. if a = 0x5001 then 7 else 0, color_flag = 7, color_parsing = 0, hw = 0, serial_exists = True,
     addr_6845 = 7, crt_buf = 7, crt_pos = 7, shift = 7, cons_buf = [], rpos = 7, wpos = 9\<rparr>"

theorem boot_console_witness:
  "\<exists>t. cons_init quiet_hw quiet_mlits (clear_bss quiet_mlits quiet_state) = cret t \<and> console_ok t \<and> mem t 0x5001 = 0"
proof -
  let ?s = "clear_bss quiet_mlits quiet_state"
  let ?c = "serial_init quiet_hw (kbd_init (cga_init quiet_hw ?s))"
  have p: "unat (crt_pos (cga_init quiet_hw ?s)) < 2000"
    by (simp add: cga_init_def Let_def case_prod_unfold inb_def outb_def quiet_hw_def)
  have f: "mem ?c = mem ?s" "crt_buf ?c = KERNBASE + 0xB8000" "crt_pos ?c = 0" "\<not> serial_exists ?c"
    by (simp_all add: serial_init_def kbd_init_def cga_init_def Let_def case_prod_unfold inb_def outb_def quiet_hw_def COM1_def)
  have z: "mem ?s a = 0" if "a \<noteq> 0x5001" for a
    using that by (simp add: clear_bss_def memset_fill fill_def quiet_mlits_def quiet_state_def)
  have "say quiet_hw quiet_mlits 0 [] ?c = cret ?c"
    by (rule say_empty) (simp_all add: f z crt_ok_def KERNBASE_def in_block_def)
  then have t: "cons_init quiet_hw quiet_mlits ?s = cret ?c"
    using f(4) by (simp add: cons_init_def say_def quiet_mlits_def demo_mlits_def)
  have "\<not> in_block (crt_buf ?c) 4000 0x5001" by (simp add: f in_block_def KERNBASE_def)
  moreover have "unat (0x5001 - sym_edata quiet_mlits) < unat (sym_end quiet_mlits - sym_edata quiet_mlits)"
    by (simp add: quiet_mlits_def)
  ultimately show ?thesis using boot_console [OF p t] t by auto
qed

end
