(* ===== verification/Line_Edit.thy ===== *)
theory Line_Edit
  imports Readline
begin

text \<open>
  What \<^verbatim>\<open>readline\<close> makes of what is typed: a line editor on lists as its specification, and the proof that for keys waiting in
  the console buffer \<^verbatim>\<open>readline\<close> returns, leaves the edited line in its buffer, the prompt and the echo on the screen, and the
  keys typed after the end of the line in the console buffer.
\<close>

section \<open>The line editor\<close>

text \<open>
  \<open>edit xs keys\<close>: the line that \<open>keys\<close> make of the line \<open>xs\<close> typed so far, what is shown meanwhile, and the keys left when
  the line ends. A rubout takes back the last character; on an empty line a backspace is ignored but a DEL is a character like any other, as
  are all bytes from the space up while there is room.
\<close>

abbreviation "key_bs \<equiv> 0x08 :: u8"
abbreviation "key_del \<equiv> 0x7f :: u8"
abbreviation "key_nl \<equiv> 0x0A :: u8"
abbreviation "key_cr \<equiv> 0x0D :: u8"

definition show_key :: "i32 \<Rightarrow> ('a \<times> i32 list \<times> 'b) option \<Rightarrow> ('a \<times> i32 list \<times> 'b) option" where
  "show_key e = map_option (\<lambda>(line, out, rest). (line, e # out, rest))"

fun edit :: "u8 list \<Rightarrow> u8 list \<Rightarrow> (u8 list \<times> i32 list \<times> u8 list) option" where
  "edit xs [] = None"
| "edit xs (k # ks) =
     (if k = key_nl \<or> k = key_cr then Some (xs, [0x0A], ks)
      else if xs \<noteq> [] \<and> (k = key_bs \<or> k = key_del) then show_key 0x08 (edit (butlast xs) ks)
      else if 0x20 \<le> k \<and> length xs < BUFLEN - 1 then show_key (ucast k) (edit (xs @ [k]) ks)
      else edit xs ks)"

text \<open>A line of plain characters that fits is entered as it is, and every rubout undoes the character before it.\<close>

lemma edit_plain:
  "\<forall>k \<in> set ks. 0x20 \<le> k \<and> k \<noteq> key_del \<Longrightarrow> length xs + length ks < BUFLEN \<Longrightarrow>
   edit xs (ks @ key_nl # rest) = Some (xs @ ks, map ucast ks @ [0x0A], rest)"
proof (induction ks arbitrary: xs)
  case (Cons k ks)
  then have "(0x20 :: u8) \<le> k" "k \<noteq> key_del" by simp_all
  moreover from this have "k \<noteq> key_nl \<and> k \<noteq> key_cr \<and> k \<noteq> key_bs" by auto
  ultimately show ?case using Cons by (simp add: show_key_def)
qed simp

lemma edit_rubout:
  "0x20 \<le> k \<Longrightarrow> k \<noteq> key_del \<Longrightarrow> length xs < BUFLEN - 1 \<Longrightarrow>
   edit xs (k # key_bs # ks) = show_key (ucast k) (show_key 0x08 (edit xs ks))"
  by (auto simp: show_key_def)

section \<open>Keys waiting in the console buffer\<close>

text \<open>Devices on which nothing more arrives.\<close>

definition quiet :: "'h hwops \<Rightarrow> bool" where
  "quiet H \<longleftrightarrow> (\<forall>h. fst (hw_inb H 0x64 h) AND 0x01 = 0 \<and> fst (hw_inb H 0x3FD h) AND 0x01 = 0)"

lemma quiet_inb: "quiet H \<Longrightarrow> fst (inb H 0x64 s) AND 0x01 = 0" "quiet H \<Longrightarrow> fst (inb H (COM1 + 5) s) AND 0x01 = 0"
  by (simp_all add: quiet_def inb_def COM1_def case_prod_unfold Let_def)

lemma cons_intr_none: "proc s = cret (- 1, t) \<Longrightarrow> cons_intr proc s = cret t"
  by (subst cons_intr.simps) simp

lemma quiet_intr:
  assumes "quiet H"
  shows "\<exists>t. serial_intr H s = cret t \<and> hw_eq s t" "\<exists>t. kbd_intr H L s = cret t \<and> hw_eq s t"
proof -
  have "serial_proc_data H s = cret (- 1, snd (inb H (COM1 + 5) s))"
    using quiet_inb [OF assms, of s] by (simp add: serial_proc_data_def case_prod_unfold Let_def)
  note s = cons_intr_none [of "serial_proc_data H", OF this]
  have "kbd_proc_data H L s = cret (- 1, snd (inb H 0x64 s))"
    using quiet_inb [OF assms, of s] by (simp add: kbd_proc_data_def case_prod_unfold Let_def)
  note k = cons_intr_none [of "kbd_proc_data H L", OF this]
  from s k show "\<exists>t. serial_intr H s = cret t \<and> hw_eq s t" "\<exists>t. kbd_intr H L s = cret t \<and> hw_eq s t"
    by (auto simp: serial_intr_def kbd_intr_def)
qed

text \<open>What reading a key changes: the devices and the console buffer.\<close>

definition key_read :: "'h cstate \<Rightarrow> 'h cstate \<Rightarrow> bool" where
  "key_read s t \<longleftrightarrow> t = s\<lparr>hw := hw t, cons_buf := cons_buf t, rpos := rpos t\<rparr> \<and> ring_ok t"

lemma key_readD:
  assumes "key_read s t"
  shows "mem t = mem s" "crt_buf t = crt_buf s" "crt_pos t = crt_pos s" "color_flag t = color_flag s" "color_parsing t = color_parsing s"
    "ring_ok t" "tty_of t = tty_of s" "crt_ok t = crt_ok s"
proof -
  obtain h b r where t: "t = s\<lparr>hw := h, cons_buf := b, rpos := r\<rparr>" using assms by (auto simp: key_read_def)
  show "mem t = mem s" "crt_buf t = crt_buf s" "crt_pos t = crt_pos s" "color_flag t = color_flag s" "color_parsing t = color_parsing s"
    "tty_of t = tty_of s" "crt_ok t = crt_ok s"
    by (simp_all add: t tty_of_def crt_ok_def)
  show "ring_ok t" using assms by (simp add: key_read_def)
qed

lemma hw_eq_ring: "hw_eq s t \<Longrightarrow> ring_ok t = ring_ok s \<and> ring_items t = ring_items s"
  by (simp add: ring_ok_def ring_items_def ring_count_def hw_eqD)

lemma getchar_key:
  assumes "quiet H" "ring_ok s" "ring_items s = c # cs" "c \<noteq> 0"
  shows "\<exists>t. getchar H L s = cret (c, t) \<and> key_read s t \<and> ring_items t = cs"
proof -
  obtain u where u: "serial_intr H s = cret u" "hw_eq s u" using quiet_intr(1) [OF assms(1)] by blast
  obtain v where v: "kbd_intr H L u = cret v" "hw_eq u v" using quiet_intr(2) [OF assms(1)] by blast
  have e: "hw_eq s v" using u(2) v(2) by (rule hw_eq_trans)
  then obtain t where t: "cons_take v = cret (c, t)" "ring_ok t" "ring_items t = cs"
    using ring_items_take [of v c cs] hw_eq_ring [OF e] assms(2,3) by auto
  have "t = v\<lparr>rpos := rpos t\<rparr>" using t(1) by (auto simp: cons_take_def Let_def split: if_splits)
  moreover have "v = s\<lparr>hw := hw v\<rparr>" using e by (simp add: hw_eq_def)
  ultimately have "\<exists>r h. t = s\<lparr>hw := h, rpos := r\<rparr>" by metis
  then have "key_read s t" using t(2) by (auto simp: key_read_def)
  moreover have "getchar H L s = cret (c, t)"
    by (subst getchar.simps) (simp add: cons_getc_def u(1) v(1) t(1) assms(4))
  ultimately show ?thesis using t(3) by blast
qed

section \<open>Editing in the buffer\<close>

text \<open>The line \<open>xs\<close> stands at the start of the buffer, the keys \<open>ks\<close> wait, and only the buffer and the display have changed since \<open>s0\<close>.\<close>

definition editing :: "u64 \<Rightarrow> 'h cstate \<Rightarrow> u8 list \<Rightarrow> u8 list \<Rightarrow> 'h cstate \<Rightarrow> bool" where
  "editing b s0 xs ks s \<longleftrightarrow> console_ok s \<and> crt_buf s = crt_buf s0 \<and> color_flag s = color_flag s0 \<and> color_parsing s = 0
     \<and> ring_items s = map ucast ks \<and> bytes (mem s) b (length xs) = xs \<and> length xs < BUFLEN \<and> 0 \<notin> set xs
     \<and> (\<forall>a. in_block (crt_buf s0) 4000 a \<or> in_block b 1024 a \<or> mem s a = mem s0 a)"

lemma sint_key: "sint (ucast (k :: u8) :: i32) = int (unat k)"
  using unsigned_less [of k, where 'a = nat] by (subst sint32_of_nat [symmetric]) simp_all

lemma key_eq: "(ucast (k :: u8) :: i32) = ucast j \<longleftrightarrow> k = j"
  using sint_key [of k] sint_key [of j] by (metis of_nat_eq_iff word_unat_eq_iff)

lemma key_tests:
  "(ucast (k :: u8) :: i32) = 0x08 \<longleftrightarrow> k = key_bs" "(ucast k :: i32) = 0x7f \<longleftrightarrow> k = key_del" "(ucast k :: i32) = 0x0A \<longleftrightarrow> k = key_nl"
  "(ucast k :: i32) = 0x0D \<longleftrightarrow> k = key_cr" "\<not> (ucast k :: i32) <s 0" "0x20 \<le>s (ucast k :: i32) \<longleftrightarrow> 0x20 \<le> k"
  using key_eq [of k key_bs] key_eq [of k key_del] key_eq [of k key_nl] key_eq [of k key_cr]
  by (simp_all add: word_sless_alt word_sle_eq sint_key word_le_def)

lemma key_back: "ucast (ucast (k :: u8) :: i32) = k"
  by (rule bit_word_eqI) (auto simp: bit_simps)

lemma editing_key:
  assumes "editing b s0 xs (k # ks) s" "quiet H" "k \<noteq> 0"
  shows "\<exists>t. getchar H L s = cret (ucast k, t) \<and> editing b s0 xs ks t \<and> tty_of t = tty_of s"
proof -
  have "(ucast k :: i32) \<noteq> 0" using assms(3) key_eq [of k 0] by simp
  then obtain t where t: "getchar H L s = cret (ucast k, t)" "key_read s t" "ring_items t = map ucast ks"
    using getchar_key [OF assms(2), of s "ucast k" "map ucast ks"] assms(1) by (auto simp: editing_def console_ok_def)
  with assms(1) show ?thesis by (auto simp: editing_def console_ok_def key_readD)
qed

lemma bytes_cong: "(\<And>i. i < n \<Longrightarrow> m' (p + of_nat i) = m (p + of_nat i)) \<Longrightarrow> bytes m' p n = bytes m p n"
  by (rule nth_equalityI) simp_all

lemma editing_out:
  assumes "editing b s0 xs ks s" "buf_apart b s0" "out_step s t f"
  shows "editing b s0 xs ks t"
proof -
  have d: "disp_only s t" "crt_ok t" using assms(3) by (simp_all add: out_step_def)
  have "bytes (mem t) b (length xs) = bytes (mem s) b (length xs)"
  proof (rule bytes_cong)
    fix i assume "i < length xs"
    then have "in_block b 1024 (b + of_nat i)"
      using assms(1,2) by (intro buf_byte) (simp_all add: editing_def buf_apart_def BUFLEN_def)
    then show "mem t (b + of_nat i) = mem s (b + of_nat i)"
      using assms(1,2) d(1) by (auto simp: editing_def buf_apart_def disp_only_def)
  qed
  moreover have "ring_items t = ring_items s" "ring_ok t = ring_ok s"
    using d(1) by (simp_all add: disp_only_def ring_items_def ring_ok_def ring_count_def)
  moreover have "in_block (crt_buf s0) 4000 a \<or> in_block b 1024 a \<or> mem t a = mem s0 a" for a
    using assms(1) d(1) unfolding editing_def disp_only_def by metis
  ultimately show ?thesis using assms(1) d by (simp add: editing_def console_ok_def disp_only_def)
qed

lemma editing_echo:
  assumes "editing b s0 xs ks s" "buf_apart b s0"
  shows "editing b s0 xs ks (cputchar H c s)" "tty_of (cputchar H c s) = tty_put (color_flag s0) c (tty_of s)"
proof -
  have o: "out_step s (cputchar H c s) (tty_put (color_flag s0) c)"
    using cons_putc_step [of s H c] assms(1) by (simp add: editing_def console_ok_def cputchar_def)
  show "editing b s0 xs ks (cputchar H c s)" by (rule editing_out [OF assms o])
  show "tty_of (cputchar H c s) = tty_put (color_flag s0) c (tty_of s)" using o by (simp add: out_step_def)
qed

lemma tty_of_mem:
  assumes "crt_ok s" "\<And>a. in_block (crt_buf s) 4000 a \<Longrightarrow> m a = mem s a"
  shows "tty_of (s\<lparr>mem := m\<rparr>) = tty_of s"
proof -
  have "in_block (crt_buf s) 4000 (crt_buf s + of_nat j)" if "j < 4000" for j
    using unat_add_less [of "crt_buf s" j] that assms(1) by (simp add: in_block_def crt_ok_def)
  then have "m (crt_buf s + of_nat j) = mem s (crt_buf s + of_nat j)" if "j < 4000" for j using that assms(2) by blast
  note at = this
  have "m (cell (crt_buf s) i) = mem s (cell (crt_buf s) i) \<and> m (cell (crt_buf s) i + 1) = mem s (cell (crt_buf s) i + 1)"
    if "i < 2000" for i
    using at [of "2 * i"] at [of "2 * i + 1"] that by (simp add: ac_simps)
  then show ?thesis by (simp add: tty_of_def load16_def)
qed

lemma tty_of_upd: "\<not> in_block (crt_buf s) 4000 a \<Longrightarrow> crt_ok s \<Longrightarrow> tty_of (s\<lparr>mem := (mem s)(a := v)\<rparr>) = tty_of s"
  by (rule tty_of_mem) auto

lemma editing_write:
  assumes "editing b s0 xs ks s" "buf_apart b s0"
  shows "\<not> in_block (crt_buf s) 4000 (b + of_nat (length xs))" "in_block b 1024 (b + of_nat (length xs))"
    "tty_of (s\<lparr>mem := (mem s)(b + of_nat (length xs) := v)\<rparr>) = tty_of s"
    "bytes ((mem s)(b + of_nat (length xs) := v)) b (length xs) = xs"
proof -
  have l: "length xs < 1024" using assms(1) by (simp add: editing_def BUFLEN_def)
  show i: "in_block b 1024 (b + of_nat (length xs))" using assms(2) l by (intro buf_byte) (simp_all add: buf_apart_def)
  show a: "\<not> in_block (crt_buf s) 4000 (b + of_nat (length xs))" using i assms by (auto simp: buf_apart_def editing_def)
  show "tty_of (s\<lparr>mem := (mem s)(b + of_nat (length xs) := v)\<rparr>) = tty_of s"
    using assms(1) by (intro tty_of_upd [OF a]) (simp add: editing_def console_ok_def)
  have "bytes ((mem s)(b + of_nat (length xs) := v)) b (length xs) = bytes (mem s) b (length xs)"
    using l offset_eq_iff by (intro bytes_cong) simp
  then show "bytes ((mem s)(b + of_nat (length xs) := v)) b (length xs) = xs" using assms(1) by (simp add: editing_def)
qed

lemma bytes_snoc: "bytes m b (Suc n) = bytes m b n @ [m (b + of_nat n)]"
  by (rule nth_equalityI) (auto simp: nth_append less_Suc_eq simp del: bytes.simps)

lemma console_ok_upd: "console_ok (s\<lparr>mem := m\<rparr>) = console_ok s" "ring_items (s\<lparr>mem := m\<rparr>) = ring_items s"
  by (simp_all add: console_ok_def crt_ok_def ring_ok_def ring_items_def ring_count_def)

lemma editing_push:
  assumes "editing b s0 xs ks s" "buf_apart b s0" "k \<noteq> 0" "length xs < BUFLEN - 1"
  shows "editing b s0 (xs @ [k]) ks (s\<lparr>mem := (mem s)(b + of_nat (length xs) := k)\<rparr>)"
  using assms(1,3,4) editing_write [OF assms(1,2)] by (auto simp: editing_def console_ok_upd bytes_snoc simp del: bytes.simps)

lemma editing_pop:
  assumes "editing b s0 (xs @ [x]) ks s"
  shows "editing b s0 xs ks s"
  using assms by (auto simp: editing_def bytes_snoc simp del: bytes.simps)

section \<open>The loop\<close>

definition line_read :: "u64 \<Rightarrow> 'h cstate \<Rightarrow> u8 list \<Rightarrow> u8 list \<Rightarrow> 'h cstate \<Rightarrow> bool" where
  "line_read b s0 line rest t \<longleftrightarrow> cstr (mem t) b line \<and> ring_items t = map ucast rest \<and> console_ok t
     \<and> crt_buf t = crt_buf s0 \<and> color_flag t = color_flag s0 \<and> color_parsing t = 0
     \<and> (\<forall>a. in_block (crt_buf s0) 4000 a \<or> in_block b 1024 a \<or> mem t a = mem s0 a)"

lemma editing_done:
  assumes "editing b s0 xs ks s" "buf_apart b s0"
  shows "line_read b s0 xs ks (s\<lparr>mem := (mem s)(b + of_nat (length xs) := 0)\<rparr>)"
proof -
  let ?m = "(mem s)(b + of_nat (length xs) := 0)"
  note w = editing_write [OF assms]
  have "\<forall>j < length xs. ?m (b + of_nat j) \<noteq> 0"
    using assms(1) w(4) set_bytes [of _ ?m b "length xs"] by (force simp: editing_def)
  from cstr_bytes [OF this] have "cstr ?m b xs" by (simp only: w(4) fun_upd_same)
  with assms(1) w(2) show ?thesis by (auto simp: line_read_def editing_def console_ok_upd)
qed

lemma readline_loop_edit:
  assumes "quiet H" "buf_apart (rl_buf L) s0" "0 \<notin> set ks"
    "editing (rl_buf L) s0 xs ks s" "edit xs ks = Some (line, out, rest)"
  shows "\<exists>t. readline_loop H L True (length xs) s = cret (rl_buf L, t) \<and> line_read (rl_buf L) s0 line rest t
    \<and> tty_of t = fold (tty_put (color_flag s0)) out (tty_of s)"
  using assms(3-5)
proof (induction xs ks arbitrary: s line out rest rule: edit.induct)
  case (2 xs k ks)
  let ?b = "rl_buf L" and ?p = "tty_put (color_flag s0)"
  obtain t where t: "getchar H L s = cret (ucast k, t)" "editing ?b s0 xs ks t" "tty_of t = tty_of s"
    using editing_key [OF 2(5) assms(1), of L] 2(4) by auto
  note echo = editing_echo [OF t(2) assms(2), of H]
  have k0: "(0x20 :: u8) \<le> k \<Longrightarrow> k \<noteq> 0" by auto
  consider (nl) "k = key_nl \<or> k = key_cr" | (rub) "\<not> (k = key_nl \<or> k = key_cr)" "xs \<noteq> []" "k = key_bs \<or> k = key_del"
    | (chr) "\<not> (k = key_nl \<or> k = key_cr)" "\<not> (xs \<noteq> [] \<and> (k = key_bs \<or> k = key_del))" "0x20 \<le> k" "length xs < BUFLEN - 1"
    | (none) "\<not> (k = key_nl \<or> k = key_cr)" "\<not> (xs \<noteq> [] \<and> (k = key_bs \<or> k = key_del))" "\<not> (0x20 \<le> k \<and> length xs < BUFLEN - 1)"
    by blast
  then show ?case
  proof cases
    case nl
    then have "readline_loop H L True (length xs) s =
        cret (?b, (cputchar H 0x0A t)\<lparr>mem := (mem (cputchar H 0x0A t))(?b + of_nat (length xs) := 0)\<rparr>)"
      using t(1) by (subst readline_loop.simps) (auto simp: key_tests Let_def)
    with nl 2(6) editing_done [OF echo(1) assms(2)] editing_write(3) [OF echo(1) assms(2)] echo(2) t(3) show ?thesis by auto
  next
    case rub
    then obtain ys y where ys: "xs = ys @ [y]" by (cases xs rule: rev_cases) auto
    from 2(6) rub obtain out' where o: "edit ys ks = Some (line, out', rest)" "out = 0x08 # out'"
      by (auto simp: show_key_def ys)
    have "readline_loop H L True (length xs) s = readline_loop H L True (length ys) (cputchar H 0x08 t)"
      using t(1) rub by (subst readline_loop.simps) (simp add: key_tests ys)
    moreover have "editing ?b s0 ys ks (cputchar H 0x08 t)" using echo(1) by (intro editing_pop [of _ _ ys y]) (simp add: ys)
    ultimately show ?thesis
      using 2(1) [where line = line and out = out' and rest = rest and s = "cputchar H 0x08 t"] rub 2(4) o echo(2) t(3) by (simp add: ys)
  next
    case chr
    from 2(6) chr obtain out' where o: "edit (xs @ [k]) ks = Some (line, out', rest)" "out = ucast k # out'"
      by (auto simp: show_key_def)
    let ?t = "cputchar H (ucast k) t"
    let ?u = "?t\<lparr>mem := (mem ?t)(?b + of_nat (length xs) := k)\<rparr>"
    have "readline_loop H L True (length xs) s = readline_loop H L True (length (xs @ [k])) ?u"
      using t(1) chr by (subst readline_loop.simps) (auto simp: key_tests key_back Let_def)
    moreover have "editing ?b s0 (xs @ [k]) ks ?u" using editing_push [OF echo(1) assms(2)] chr k0 by simp
    ultimately show ?thesis
      using 2(2) [where line = line and out = out' and rest = rest and s = ?u] chr 2(4) o echo(2) t(3) editing_write(3) [OF echo(1) assms(2)] by auto
  next
    case none
    have "readline_loop H L True (length xs) s = readline_loop H L True (length xs) t"
      using t(1) none by (subst readline_loop.simps) (auto simp: key_tests Let_def)
    moreover have "edit xs ks = Some (line, out, rest)" using 2(6) none by (simp split: if_splits)
    ultimately show ?thesis
      using 2(3) [where line = line and out = out and rest = rest and s = t] none 2(4) t(2,3) by simp
  qed
qed simp

lemma readline_keys:
  assumes "console_ok s" "color_parsing s = 0" "buf_apart (rl_buf L) s" "quiet H"
    and "ring_items s = map ucast keys" "0 \<notin> set keys" "edit [] keys = Some (line, echo, rest)"
    and "prompt = 0 \<and> shown = [] \<or> prompt \<noteq> 0 \<and> list_all item_ok its
      \<and> kpre (\<lambda>a. \<not> in_block (crt_buf s) 4000 a) (mem s) (prompt_fmt L) (concat (map render its) @ [0])
      \<and> formats (lits L) (\<lambda>a. \<not> in_block (crt_buf s) 4000 a) (mem s) its [prompt] shown"
  shows "\<exists>t. readline H L prompt s = cret (rl_buf L, t) \<and> line_read (rl_buf L) s line rest t
    \<and> tty_of t = fold (tty_put (color_flag s)) (shown @ echo) (tty_of s)"
proof -
  have c: "crt_ok s" using assms(1) by (simp add: console_ok_def)
  have e: "editing (rl_buf L) s [] keys s" using assms(1,2,5) by (simp add: editing_def BUFLEN_def)
  obtain u where u: "(if prompt \<noteq> 0 then cbind (cprintf H (lits L) (prompt_fmt L) [prompt] s) (\<lambda>(r, s). cret s) else cret s) = cret u"
    "editing (rl_buf L) s [] keys u" "tty_of u = fold (tty_put (color_flag s)) shown (tty_of s)"
  proof (cases "prompt = 0")
    case True
    with that [of s] e assms(8) show thesis by simp
  next
    case False
    with cprintf_text [of its s "prompt_fmt L" "lits L" "[prompt]" shown H] assms(8) c assms(2) obtain t where
      t: "cprintf H (lits L) (prompt_fmt L) [prompt] s = cret (0, t)" "out_step s t (fold (tty_put (color_flag s)) shown)"
      by auto
    from that [of t] editing_out [OF e assms(3) t(2)] t False show thesis by (simp add: out_step_def)
  qed
  from readline_loop_edit [OF assms(4,3,6) u(2) assms(7)] u(1,3) show ?thesis
    by (auto simp: readline_def iscons_def)
qed

section \<open>Properties\<close>

text \<open>
  C12. \<^verbatim>\<open>readline\<close> is the line editor: with keys waiting in the console buffer that end a line, it returns; its buffer holds
  exactly the line the editor makes of them, NUL-terminated; the screen shows the prompt and then the echo of each key the
  editor took; and the keys behind the end of the line still wait. Nothing outside its buffer and the display has changed.
\<close>

theorem readline_edits:
  assumes "console_ok s" "color_parsing s = 0" "buf_apart (rl_buf L) s" "quiet H"
    and "ring_items s = map ucast keys" "0 \<notin> set keys" "edit [] keys = Some (line, echo, rest)"
    and "prompt = 0 \<and> shown = [] \<or> prompt \<noteq> 0 \<and> list_all item_ok its
      \<and> kpre (\<lambda>a. \<not> in_block (crt_buf s) 4000 a) (mem s) (prompt_fmt L) (concat (map render its) @ [0])
      \<and> formats (lits L) (\<lambda>a. \<not> in_block (crt_buf s) 4000 a) (mem s) its [prompt] shown"
  shows "\<exists>t. readline H L prompt s = cret (rl_buf L, t) \<and> cstr (mem t) (rl_buf L) line \<and> ring_items t = map ucast rest
    \<and> tty_of t = fold (tty_put (color_flag s)) (shown @ echo) (tty_of s) \<and> console_ok t
    \<and> (\<forall>a. in_block (crt_buf s) 4000 a \<or> in_block (rl_buf L) 1024 a \<or> mem t a = mem s a)"
  using readline_keys [OF assms] by (auto simp: line_read_def)

text \<open>Typed: \<^verbatim>\<open>h\<close>, \<^verbatim>\<open>x\<close>, a backspace, \<^verbatim>\<open>i\<close>, a newline and one more key.\<close>

definition typed :: "u8 list" where
  "typed = [0x68, 0x78, 0x08, 0x69, 0x0A, 0x71]"

definition typed_cstate :: "unit cstate" where
  "typed_cstate = demo_cstate\<lparr>cons_buf := typed @ replicate 506 0, wpos := 6\<rparr>"

theorem readline_edits_witness:
  "\<exists>t. readline demo_idle demo_rlits 0 typed_cstate = cret (4096, t) \<and> cstr (mem t) 4096 [0x68, 0x69] \<and> ring_items t = [0x71]"
proof -
  have ok: "console_ok typed_cstate"
    using demo_crt_ok by (simp add: console_ok_def ring_ok_def typed_cstate_def crt_ok_def typed_def) (simp add: demo_cstate_def)
  have ap: "buf_apart (rl_buf demo_rlits) typed_cstate"
    by (auto simp: buf_apart_def in_block_def demo_rlits_def typed_cstate_def demo_cstate_def KERNBASE_def)
  have col: "color_parsing typed_cstate = 0" by (simp add: typed_cstate_def demo_cstate_def)
  have q: "quiet demo_idle" by (simp add: quiet_def demo_idle_def)
  have r: "ring_items typed_cstate = map ucast typed"
    by (simp add: ring_items_def ring_count_def typed_cstate_def demo_cstate_def typed_def upt_rec)
  have z: "0 \<notin> set typed" by (simp add: typed_def)
  have e: "edit [] typed = Some ([0x68, 0x69], [0x68, 0x78, 0x08, 0x69, 0x0A], [0x71])"
    by (simp add: typed_def show_key_def BUFLEN_def)
  show ?thesis
    using readline_edits [OF ok col ap q r z e, of 0 "[]"] by (auto simp: demo_rlits_def)
qed

end
