(* ===== verification/Session.thy ===== *)
theory Session
  imports Monitor Line_Edit
begin

text \<open>
  Whole sessions at the monitor: from the keys waiting in the console buffer to the text on the screen, through the line editor, the
  parsing of the line, the commands and the formatting engine.
\<close>

section \<open>Texts the monitor prints\<close>

definition chars :: "string \<Rightarrow> i32 list" where
  "chars str = map ucast (ascii str)"

definition hex8 :: "u64 \<Rightarrow> i32 list" where
  "hex8 v = number_text (spec_of Zero (Some 8) NoPrec (- 1)) 16 v"

definition dec_text :: "u64 \<Rightarrow> i32 list" where
  "dec_text v = signed_text (spec_of NoFlag None NoPrec (- 1)) 10 v"

text \<open>The same texts as formats.\<close>

abbreviation "hex8_conv \<equiv> Conv Zero (Some 8) NoPrec c_x"
abbreviation "dec_conv \<equiv> Conv NoFlag None NoPrec c_d"
abbreviation "str_conv \<equiv> Conv NoFlag None NoPrec c_s"
abbreviation "nl_lit \<equiv> Lit 0x0A"

definition lit_items :: "string \<Rightarrow> item list" where
  "lit_items str = map Lit (ascii str)"

lemma formats_lit_items: "formats R K m its args out \<Longrightarrow> formats R K m (lit_items str @ its) args (chars str @ out)"
proof -
  assume f: "formats R K m its args out"
  have "formats R K m (map Lit cs @ its) args (map ucast cs @ out)" for cs
    by (induction cs) (simp_all add: f fmt_lit)
  then show ?thesis by (simp add: lit_items_def chars_def)
qed

lemma formats_hex8: "formats R K m its args out \<Longrightarrow> formats R K m (hex8_conv # its) (a # args) (hex8 a @ out)"
  unfolding hex8_def by (rule fmt_conv [OF no_prec conv_x])

lemma formats_dec: "formats R K m its args out \<Longrightarrow> formats R K m (dec_conv # its) (a # args) (dec_text a @ out)"
  unfolding dec_text_def by (rule fmt_conv [OF no_prec conv_d])

lemma formats_str: "formats R K m its args out \<Longrightarrow> kstr K m a xs \<Longrightarrow> a \<noteq> 0 \<Longrightarrow> length xs < 2 ^ 29 \<Longrightarrow>
    formats R K m (str_conv # its) (a # args) (map scast xs @ out)"
  by (rule fmt_conv [OF no_prec], subst plain_string_text [symmetric], rule conv_s) simp_all

lemma formats_nl: "formats R K m its args out \<Longrightarrow> formats R K m (nl_lit # its) args (0x0A # out)"
  using fmt_lit [of R K m its args out "0x0A"] by simp

lemma formats_quote: "formats R K m its args out \<Longrightarrow> formats R K m (Lit 0x27 # its) args (0x27 # out)"
  using fmt_lit [of R K m its args out "0x27"] by simp

lemmas formats_intros = formats_lit_items formats_hex8 formats_dec formats_str formats_nl fmt_nil

text \<open>Showing a text: the display changes as the terminal does, and nothing else.\<close>

definition shown :: "'h cstate \<Rightarrow> i32 list \<Rightarrow> 'h cstate \<Rightarrow> bool" where
  "shown s out t \<longleftrightarrow> out_step s t (fold (tty_put (color_flag s)) out)"

lemma shownD:
  assumes "shown s out t"
  shows "crt_ok t" "disp_only s t" "tty_of t = fold (tty_put (color_flag s)) out (tty_of s)"
  using assms by (simp_all add: shown_def out_step_def)

lemma shown_trans: "shown s a t \<Longrightarrow> shown t b u \<Longrightarrow> shown s (a @ b) u"
proof -
  assume st: "shown s a t" and tu: "shown t b u"
  have "color_flag t = color_flag s" using shownD(2) [OF st] by (simp add: disp_only_def)
  with out_step_trans [OF st [unfolded shown_def] tu [unfolded shown_def]] show ?thesis
    by (simp add: shown_def comp_def)
qed

definition lit_at :: "(u64 \<Rightarrow> bool) \<Rightarrow> mem \<Rightarrow> u64 \<Rightarrow> item list \<Rightarrow> bool" where
  "lit_at K m fmt its \<longleftrightarrow> list_all item_ok its \<and> kpre K m fmt (concat (map render its) @ [0])"

lemma lit_at_cong: "lit_at K m fmt its \<Longrightarrow> (\<And>a. K a \<Longrightarrow> K' a \<and> m' a = m a) \<Longrightarrow> lit_at K' m' fmt its"
  unfolding lit_at_def using kpre_mono [of K m' fmt _ K'] kpre_cong [of K m fmt _ m'] by blast

lemma kstr_moved: "kstr K m p xs \<Longrightarrow> (\<And>a. K a \<Longrightarrow> K' a \<and> m' a = m a) \<Longrightarrow> kstr K' m' p xs"
  unfolding kstr_def using kpre_mono [of K m' p _ K'] kpre_cong [of K m p _ m'] by blast

lemma say_shown:
  assumes "lit_at (off_display s) (mem s) fmt its" "formats (lits L) (off_display s) (mem s) its args out"
    "crt_ok s" "color_parsing s = 0"
  shows "\<exists>t. say H L fmt args s = cret t \<and> shown s out t"
proof -
  have k: "off_display s = (\<lambda>a. \<not> in_block (crt_buf s) 4000 a)" by (simp add: off_display_def [abs_def])
  from cprintf_text [of its s fmt "lits L" args out H] assms show ?thesis
    by (auto simp: k lit_at_def say_def shown_def)
qed

section \<open>kerninfo\<close>

definition kerninfo_text :: "'k mlits_scheme \<Rightarrow> i32 list" where
  "kerninfo_text L = chars ''Special kernel symbols:'' @ [0x0A]
     @ chars ''  _start                  '' @ hex8 (sym_start L) @ chars '' (phys)'' @ [0x0A]
     @ concat (map (\<lambda>(name, v). chars name @ hex8 v @ chars '' (virt)  '' @ hex8 (v - KERNBASE) @ chars '' (phys)'' @ [0x0A])
         [(''  entry  '', sym_entry L), (''  etext  '', sym_etext L), (''  edata  '', sym_edata L), (''  end    '', sym_end L)])
     @ chars ''Kernel executable memory footprint: '' @ dec_text (kilo (ROUNDUP (sym_end L - sym_entry L) 1024)) @ chars ''KB'' @ [0x0A]"

definition ki_sym_items :: "string \<Rightarrow> item list" where
  "ki_sym_items name = lit_items name @ hex8_conv # lit_items '' (virt)  '' @ hex8_conv # lit_items '' (phys)'' @ [nl_lit]"

definition ki_lits :: "(u64 \<Rightarrow> bool) \<Rightarrow> mem \<Rightarrow> 'k mlits_scheme \<Rightarrow> bool" where
  "ki_lits K m L \<longleftrightarrow> lit_at K m (ki_title L) (lit_items ''Special kernel symbols:'' @ [nl_lit])
     \<and> lit_at K m (ki_start L) (lit_items ''  _start                  '' @ hex8_conv # lit_items '' (phys)'' @ [nl_lit])
     \<and> lit_at K m (ki_entry L) (ki_sym_items ''  entry  '') \<and> lit_at K m (ki_etext L) (ki_sym_items ''  etext  '')
     \<and> lit_at K m (ki_edata L) (ki_sym_items ''  edata  '') \<and> lit_at K m (ki_end L) (ki_sym_items ''  end    '')
     \<and> lit_at K m (ki_size L) (lit_items ''Kernel executable memory footprint: '' @ dec_conv # lit_items ''KB'' @ [nl_lit])"

lemma ki_sym_formats:
  "formats R K m (ki_sym_items name) [a, b] (chars name @ hex8 a @ chars '' (virt)  '' @ hex8 b @ chars '' (phys)'' @ [0x0A])"
  unfolding ki_sym_items_def by (intro formats_intros)

lemma ki_lits_cong: "ki_lits K m L \<Longrightarrow> (\<And>a. K a \<Longrightarrow> K' a \<and> m' a = m a) \<Longrightarrow> ki_lits K' m' L"
  unfolding ki_lits_def using lit_at_cong [of K m _ _ K' m'] by blast

lemma shown_keeps:
  assumes "shown s out t" "color_parsing s = 0"
  shows "off_display t = off_display s" "off_display s a \<Longrightarrow> mem t a = mem s a" "crt_ok t" "color_parsing t = 0"
  using shownD(1,2) [OF assms(1)] assms(2) by (auto simp: off_display_def disp_only_def fun_eq_iff)

text \<open>Texts shown one after the other, their literals in memory from the start.\<close>

fun say_all :: "'h hwops \<Rightarrow> 'k mlits_scheme \<Rightarrow> (u64 \<times> u64 list) list \<Rightarrow> 'h cstate \<Rightarrow> 'h cstate cres" where
  "say_all H L [] s = cret s"
| "say_all H L ((fmt, args) # ms) s = cbind (say H L fmt args s) (say_all H L ms)"

definition says :: "rodata \<Rightarrow> (u64 \<Rightarrow> bool) \<Rightarrow> mem \<Rightarrow> u64 \<times> u64 list \<Rightarrow> i32 list \<Rightarrow> bool" where
  "says R K m msg out \<longleftrightarrow> (\<exists>its. lit_at K m (fst msg) its \<and> (\<forall>K m. formats R K m its (snd msg) out))"

lemma saysI: "lit_at K m fmt its \<Longrightarrow> (\<And>K m. formats R K m its args out) \<Longrightarrow> says R K m (fmt, args) out"
  by (auto simp: says_def)

lemma shown_refl: "crt_ok s \<Longrightarrow> shown s [] s"
  by (simp add: shown_def out_step_def disp_only_def)

lemma say_all_shown:
  assumes "list_all2 (says (lits L) (off_display s0) (mem s0)) ms outs" "shown s0 o1 s" "color_parsing s0 = 0"
  shows "\<exists>t. say_all H L ms s = cret t \<and> shown s0 (o1 @ concat outs) t"
  using assms(1,2)
proof (induction arbitrary: s o1 rule: list_all2_induct)
  case (Cons msg ms out outs)
  obtain fmt args where msg: "msg = (fmt, args)" by (cases msg)
  note k = shown_keeps [OF Cons.prems assms(3)]
  from Cons.hyps(1) msg obtain its where its: "lit_at (off_display s0) (mem s0) fmt its" "\<And>K m. formats (lits L) K m its args out"
    by (auto simp: says_def)
  have "lit_at (off_display s) (mem s) fmt its" by (rule lit_at_cong [OF its(1)]) (simp add: k)
  from say_shown [OF this its(2) k(3,4)] obtain t where t: "say H L fmt args s = cret t" "shown s out t" by blast
  from Cons.IH [OF shown_trans [OF Cons.prems t(2)]] t(1) show ?case by (simp add: msg)
qed simp

lemma mon_kerninfo_shows:
  assumes "ki_lits (off_display s) (mem s) L" "crt_ok s" "color_parsing s = 0"
  shows "\<exists>t. mon_kerninfo H L argc argv s = cret (0, t) \<and> shown s (kerninfo_text L) t"
proof -
  note l = assms(1) [unfolded ki_lits_def]
  let ?sym = "\<lambda>name v. chars name @ hex8 v @ chars '' (virt)  '' @ hex8 (v - KERNBASE) @ chars '' (phys)'' @ [0x0A]"
  let ?ms = "[(ki_title L, []), (ki_start L, [sym_start L]), (ki_entry L, [sym_entry L, sym_entry L - KERNBASE]),
      (ki_etext L, [sym_etext L, sym_etext L - KERNBASE]), (ki_edata L, [sym_edata L, sym_edata L - KERNBASE]),
      (ki_end L, [sym_end L, sym_end L - KERNBASE]), (ki_size L, [kilo (ROUNDUP (sym_end L - sym_entry L) 1024)])]"
  let ?outs = "[chars ''Special kernel symbols:'' @ [0x0A],
      chars ''  _start                  '' @ hex8 (sym_start L) @ chars '' (phys)'' @ [0x0A],
      ?sym ''  entry  '' (sym_entry L), ?sym ''  etext  '' (sym_etext L), ?sym ''  edata  '' (sym_edata L), ?sym ''  end    '' (sym_end L),
      chars ''Kernel executable memory footprint: '' @ dec_text (kilo (ROUNDUP (sym_end L - sym_entry L) 1024)) @ chars ''KB'' @ [0x0A]]"
  have "list_all2 (says (lits L) (off_display s) (mem s)) ?ms ?outs"
    by (intro list.rel_intros)
      (insert l, (elim conjE, rule saysI, assumption, (rule ki_sym_formats | intro formats_intros))+)
  from say_all_shown [OF this shown_refl [OF assms(2)] assms(3)] obtain t where
    t: "say_all H L ?ms s = cret t" "shown s (kerninfo_text L) t"
    by (auto simp: kerninfo_text_def)
  have "mon_kerninfo H L argc argv s = cbind (say_all H L ?ms s) (\<lambda>s. cret (0, s))"
    by (simp add: mon_kerninfo_def cbind_assoc)
  with t show ?thesis by simp
qed

section \<open>Typed lines\<close>

lemma edit_line: "length xs < BUFLEN \<Longrightarrow> edit xs keys = Some (ls, out, rest) \<Longrightarrow> length ls < BUFLEN"
proof (induction xs keys arbitrary: ls out rest rule: edit.induct)
  case (2 xs k ks)
  then show ?case by (auto simp: show_key_def split: if_splits)
qed simp

lemma edit_rest: "edit xs keys = Some (ls, out, rest) \<Longrightarrow> length rest < length keys"
proof (induction xs keys arbitrary: ls out rest rule: edit.induct)
  case (2 xs k ks)
  then show ?case by (fastforce simp: show_key_def split: if_splits)
qed simp

lemma edit_keys: "edit xs keys = Some (ls, out, rest) \<Longrightarrow> set rest \<subseteq> set keys"
proof (induction xs keys arbitrary: ls out rest rule: edit.induct)
  case (2 xs k ks)
  then show ?case by (fastforce simp: show_key_def split: if_splits)
qed simp

text \<open>The reply to a line, for every command but \<^verbatim>\<open>backtrace\<close>.\<close>

definition reply :: "'k mlits_scheme \<Rightarrow> u8 list \<Rightarrow> i32 list option" where
  "reply L ls =
     (let ws = words ls in
      if ws = [] then Some []
      else if 15 < length ws then Some (chars ''Too many arguments (max '' @ dec_text 16 @ chars '')'' @ [0x0A])
      else if hd ws = ascii ''help'' then Some (map scast help_text)
      else if hd ws = ascii ''kerninfo'' then Some (kerninfo_text L)
      else if hd ws = ascii ''backtrace'' then None
      else Some (chars ''Unknown command '' @ [0x27] @ map scast (hd ws) @ [0x27, 0x0A]))"

text \<open>A session: what is shown for the keys, line by line, and the keys left when no line is complete or a backtrace is asked for.\<close>

definition prompt_text :: "i32 list" where
  "prompt_text = map scast (ascii ''K> '')"

function session :: "'k mlits_scheme \<Rightarrow> u8 list \<Rightarrow> i32 list \<times> u8 list" where
  "session L keys =
     (case edit [] keys of
        None \<Rightarrow> ([], keys)
      | Some (ls, echo, rest) \<Rightarrow>
          (case reply L ls of
             None \<Rightarrow> ([], keys)
           | Some out \<Rightarrow> (prompt_text @ echo @ out @ fst (session L rest), snd (session L rest))))"
  by pat_completeness auto
termination
  by (relation "measure (\<lambda>(L, keys). length keys)") (auto dest: edit_rest)

declare session.simps [simp del]

section \<open>The monitor ready for a line\<close>

text \<open>The literals of the program in memory, at addresses of \<open>K\<close>.\<close>

definition mon_lits :: "(u64 \<Rightarrow> bool) \<Rightarrow> mem \<Rightarrow> 'k mlits_scheme \<Rightarrow> bool" where
  "mon_lits K m L \<longleftrightarrow> ki_lits K m L \<and> help_rodata K m L \<and> ws_lit K m (whitespace_str L) \<and> names_ok K m L
     \<and> lit_at K m (toomany_fmt L) (lit_items ''Too many arguments (max '' @ dec_conv # lit_items '')'' @ [nl_lit])
     \<and> lit_at K m (unknown_fmt L) (lit_items ''Unknown command '' @ [Lit 0x27, str_conv, Lit 0x27, nl_lit])
     \<and> lit_at K m (welcome_fmt L) (lit_items ''Welcome to the JOS kernel monitor!'' @ [nl_lit])
     \<and> lit_at K m (typehelp_fmt L)
         (lit_items ''Type '' @ Lit 0x27 # lit_items ''help'' @ Lit 0x27 # lit_items '' for a list of commands.'' @ [nl_lit])
     \<and> lit_at K m (prompt_fmt L) [str_conv] \<and> kstr K m (prompt_str L) (ascii ''K> '') \<and> prompt_str L \<noteq> 0"

definition off_both :: "'k rlits_scheme \<Rightarrow> 'h cstate \<Rightarrow> u64 \<Rightarrow> bool" where
  "off_both L s a \<longleftrightarrow> off_display s a \<and> \<not> in_block (rl_buf L) 1024 a"

definition mon_ready :: "'k mlits_scheme \<Rightarrow> menv \<Rightarrow> 'h cstate \<Rightarrow> bool" where
  "mon_ready L E s \<longleftrightarrow> console_ok s \<and> color_parsing s = 0 \<and> buf_apart (rl_buf L) s \<and> length (en_argv E) = MAXARGS
     \<and> mon_lits (off_both L s) (mem s) L \<and> rl_buf L \<noteq> 0"

lemma help_rodata_cong: "help_rodata K m L \<Longrightarrow> (\<And>a. K a \<Longrightarrow> K' a \<and> m' a = m a) \<Longrightarrow> help_rodata K' m' L"
proof -
  assume h: "help_rodata K m L" and k: "\<And>a. K a \<Longrightarrow> K' a \<and> m' a = m a"
  have "kstr K' m' p xs" if "kstr K m p xs" for p xs using that k by (rule kstr_moved)
  then have "cmd_text K' m' c p" if "cmd_text K m c p" for c p
    using that unfolding cmd_text_def by blast
  moreover have "kpre K' m' p xs" if "kpre K m p xs" for p xs
    using kpre_mono [OF kpre_cong [OF that]] k by blast
  ultimately show ?thesis using h unfolding help_rodata_def by (blast intro: list_all2_mono)
qed

lemma mon_lits_cong: "mon_lits K m L \<Longrightarrow> (\<And>a. K a \<Longrightarrow> K' a \<and> m' a = m a) \<Longrightarrow> mon_lits K' m' L"
proof -
  assume l: "mon_lits K m L" and k: "\<And>a. K a \<Longrightarrow> K' a \<and> m' a = m a"
  have "kstr K' m' p xs" if "kstr K m p xs" for p xs using that k by (rule kstr_moved)
  moreover have "lit_at K' m' fmt its" if "lit_at K m fmt its" for fmt its using that k by (rule lit_at_cong)
  moreover have "ki_lits K' m' L" using l k unfolding mon_lits_def by (elim conjE) (rule ki_lits_cong)
  moreover have "help_rodata K' m' L" using l k unfolding mon_lits_def by (elim conjE) (rule help_rodata_cong)
  moreover have "ws_lit K' m' (whitespace_str L)" using l k unfolding mon_lits_def by (elim conjE) (rule ws_lit_cong)
  ultimately show ?thesis using l unfolding mon_lits_def names_ok_def by simp
qed

lemma mon_ready_lits: "mon_ready L E s \<Longrightarrow> mon_lits (off_display s) (mem s) L"
  unfolding mon_ready_def by (elim conjE, erule mon_lits_cong) (simp add: off_both_def)

lemma mon_ready_step:
  assumes "mon_ready L E s" "console_ok t" "crt_buf t = crt_buf s" "color_parsing t = 0"
    "\<And>a. off_both L s a \<Longrightarrow> mem t a = mem s a"
  shows "mon_ready L E t"
proof -
  have o: "off_both L t = off_both L s" using assms(3) by (simp add: off_both_def off_display_def fun_eq_iff)
  have "mon_lits (off_both L t) (mem t) L"
    unfolding o by (rule mon_lits_cong [of "off_both L s" "mem s"]) (use assms(1,5) in \<open>simp_all add: mon_ready_def\<close>)
  with assms show ?thesis by (simp add: mon_ready_def buf_apart_def)
qed

lemma mon_ready_shown: "mon_ready L E s \<Longrightarrow> shown s out t \<Longrightarrow> mon_ready L E t \<and> ring_items t = ring_items s"
proof -
  assume s: "mon_ready L E s" and t: "shown s out t"
  note d = shownD [OF t]
  have "console_ok t" using s d(1,2) by (simp add: mon_ready_def console_ok_def disp_only_def ring_ok_def)
  moreover have "ring_items t = ring_items s" using d(2) by (simp add: disp_only_def ring_items_def ring_count_def)
  moreover have "mem t a = mem s a" if "off_both L s a" for a
    using that d(2) by (auto simp: off_both_def off_display_def disp_only_def)
  moreover have "crt_buf t = crt_buf s" "color_parsing t = 0" using s d(2) by (simp_all add: mon_ready_def disp_only_def)
  ultimately show ?thesis using mon_ready_step [OF s] by blast
qed

section \<open>The reply to a line\<close>

definition replied :: "'k mlits_scheme \<Rightarrow> menv \<Rightarrow> 'h cstate \<Rightarrow> i32 list \<Rightarrow> 'h cstate \<Rightarrow> bool" where
  "replied L E s out t \<longleftrightarrow> mon_ready L E t \<and> ring_items t = ring_items s \<and> color_flag t = color_flag s
     \<and> tty_of t = fold (tty_put (color_flag s)) out (tty_of s)"

lemma replied_shown: "replied L E s a t \<Longrightarrow> shown t b u \<Longrightarrow> replied L E s (a @ b) u"
  using mon_ready_shown [of L E t b u] shownD(2,3) [of t b u] by (auto simp: replied_def disp_only_def)

text \<open>A line in the buffer is apart from the display and the literals.\<close>

lemma line_in_buf:
  assumes "mon_ready L E s" "length ls < BUFLEN" "i \<le> length ls"
  shows "in_block (rl_buf L) 1024 (rl_buf L + of_nat i)"
  using assms by (intro buf_byte) (simp_all add: mon_ready_def buf_apart_def BUFLEN_def)

lemma off_both_line: "mon_ready L E s \<Longrightarrow> length ls < BUFLEN \<Longrightarrow> off_both L s a \<Longrightarrow> off_line (rl_buf L) ls a"
  using line_in_buf [of L E s ls] by (auto simp: off_both_def off_line_def)

lemma line_overwritten:
  assumes s: "mon_ready L E s" and len: "length ls < BUFLEN" and m: "\<And>a. off_line (rl_buf L) ls a \<Longrightarrow> m a = mem s a"
  shows "replied L E s [] (s\<lparr>mem := m\<rparr>)"
proof -
  have "tty_of (s\<lparr>mem := m\<rparr>) = tty_of s"
  proof (rule tty_of_mem)
    show "crt_ok s" using s by (simp add: mon_ready_def console_ok_def)
    show "m a = mem s a" if "in_block (crt_buf s) 4000 a" for a
      using that s line_in_buf [OF s len] by (intro m) (auto simp: off_line_def mon_ready_def buf_apart_def)
  qed
  moreover have "mon_ready L E (s\<lparr>mem := m\<rparr>)"
    using s by (intro mon_ready_step [OF s] m off_both_line [OF s len]) (simp_all add: mon_ready_def console_ok_upd m off_both_line [OF s len])
  ultimately show ?thesis by (simp add: replied_def console_ok_upd)
qed

lemma say_replied:
  assumes "replied L E s a t" "lit_at (off_display t) (mem t) fmt its" "formats (lits L) (off_display t) (mem t) its args out"
  shows "\<exists>u. say H L fmt args t = cret u \<and> replied L E s (a @ out) u"
  using say_shown [OF assms(2,3)] assms(1) replied_shown [OF assms(1)] by (fastforce simp: replied_def mon_ready_def console_ok_def)

lemma words_bounds: "w \<in> set (words xs) \<Longrightarrow> w \<noteq> [] \<and> length w \<le> length xs"
proof (induction xs rule: words.induct)
  case (1 xs)
  show ?case
  proof (cases "dropWhile is_ws xs")
    case (Cons x ys)
    have "length ys < length xs" using length_dropWhile_le [of is_ws xs] Cons by simp
    moreover have "length (takeWhile (Not \<circ> is_ws) ys) \<le> length ys" "length (dropWhile (Not \<circ> is_ws) ys) \<le> length ys"
      by (rule length_takeWhile_le, rule length_dropWhile_le)
    ultimately show ?thesis using "1.IH" [OF Cons] "1.prems" words_Cons [OF Cons] by fastforce
  qed (use "1.prems" words_Nil in simp)
qed

lemma cstr_kstr_at: "cstr m p xs \<Longrightarrow> (\<And>j. j \<le> length xs \<Longrightarrow> K (p + of_nat j)) \<Longrightarrow> kstr K m p xs"
proof (induction xs arbitrary: p)
  case Nil
  from Nil(1) Nil(2) [of 0] show ?case by (simp add: kstr_Nil)
next
  case (Cons x xs)
  have "K (p + 1 + of_nat j)" if "j \<le> length xs" for j using Cons.prems(2) [of "Suc j"] that by (simp add: add.assoc)
  then show ?case using Cons.IH [of "p + 1"] Cons.prems(1) Cons.prems(2) [of 0] by (simp add: kstr_Cons)
qed

text \<open>A word of the line as an argument of a format.\<close>

lemma word_string:
  assumes s: "mon_ready L E s" and len: "length ls < BUFLEN" and w: "w \<in> set (words ls)" "cstr m p w"
    and p: "\<forall>j < length w. \<not> off_line (rl_buf L) ls (p + of_nat j)"
  shows "kstr (off_display s) m p w \<and> p \<noteq> 0 \<and> length w < 2 ^ 29"
proof -
  let ?b = "rl_buf L"
  note wb = words_bounds [OF w(1)]
  have at: "in_block ?b 1024 (p + of_nat j)" if j: "j \<le> length w" for j
  proof (cases "j < length w")
    case True
    then obtain i where "i < length ls" "p + of_nat j = ?b + of_nat i" using p by (auto simp: off_line_def)
    with line_in_buf [OF s len] show ?thesis by simp
  next
    case False
    then obtain k where k: "j = Suc k" "k < length w" using wb j by (cases w) auto
    then obtain i where "i < length ls" "p + of_nat k = ?b + of_nat i" using p by (auto simp: off_line_def)
    with line_in_buf [OF s len, of "Suc i"] k(1) show ?thesis by (simp add: add.left_commute)
  qed
  then have "kstr (off_display s) m p w"
    using s by (intro cstr_kstr_at [OF w(2)]) (auto simp: mon_ready_def buf_apart_def off_display_def)
  moreover have "p \<noteq> 0" using at [of 0] s by (auto simp: in_block_def mon_ready_def unat_eq_0)
  ultimately show ?thesis using wb len by (simp add: BUFLEN_def)
qed

lemma runcmd_reply:
  assumes s: "mon_ready L E s" and c: "cstr (mem s) (rl_buf L) ls" and len: "length ls < BUFLEN" and out: "reply L ls = Some out"
  shows "\<exists>t. runcmd H L E (rl_buf L) s = cret (0, t) \<and> replied L E s out t"
proof -
  let ?b = "rl_buf L" and ?ws = "words ls" and ?t = "s\<lparr>mem := blank (mem s) (rl_buf L) ls\<rparr>"
  have l: "mon_lits (off_line ?b ls) (mem s) L"
    using s off_both_line [OF s len] by (auto simp: mon_ready_def elim: mon_lits_cong)
  then have ws: "ws_lit (off_line ?b ls) (mem s) (whitespace_str L)" and nm: "names_ok (off_line ?b ls) (mem s) L"
    by (simp_all add: mon_lits_def)
  have argv: "length (en_argv E) = MAXARGS" using s by (simp add: mon_ready_def)
  have runcmd: "runcmd H L E bp u = runcmd_with (call_func H L E) H L (en_argv E) bp u" for bp u by (simp add: runcmd_def)
  note run = runcmd_words [OF c ws nm argv, of H]
  have kept: "blank (mem s) ?b ls a = mem s a" if "off_line ?b ls a" for a
    by (rule blank_kept [of ls "off_line ?b ls", OF _ that]) (auto simp: off_line_def)
  note t = line_overwritten [OF s len kept]
  then have rt: "mon_ready L E ?t" "crt_ok ?t" "color_parsing ?t = 0" by (simp_all add: replied_def mon_ready_def console_ok_def)
  note lt = mon_ready_lits [OF rt(1), unfolded mon_lits_def]
  consider (none) "?ws = []" | (many) "?ws \<noteq> []" "15 < length ?ws" | (cmd) "?ws \<noteq> []" "length ?ws \<le> 15" by linarith
  then show ?thesis
  proof cases
    case none
    with run out t show ?thesis by (auto simp: reply_def runcmd)
  next
    case many
    with run obtain m where m: "\<And>a. off_line ?b ls a \<Longrightarrow> m a = mem s a"
      "runcmd H L E ?b s = cbind (say H L (toomany_fmt L) [16] (s\<lparr>mem := m\<rparr>)) (\<lambda>s. cret (0, s))" by (auto simp: runcmd)
    note u = line_overwritten [OF s len m(1)]
    then have lu: "lit_at (off_display (s\<lparr>mem := m\<rparr>)) (mem (s\<lparr>mem := m\<rparr>)) (toomany_fmt L)
        (lit_items ''Too many arguments (max '' @ dec_conv # lit_items '')'' @ [nl_lit])"
      using mon_ready_lits [of L E "s\<lparr>mem := m\<rparr>"] by (simp add: replied_def mon_lits_def)
    have f: "formats R K m (lit_items ''Too many arguments (max '' @ dec_conv # lit_items '')'' @ [nl_lit]) [16] out" for R K m
      using out many by (auto simp: reply_def intro!: formats_intros)
    from say_replied [OF u lu f, of H] m(2) show ?thesis by auto
  next
    case cmd
    with run obtain argv where a: "\<forall>i < length ?ws. cstr (mem ?t) (argv ! i) (?ws ! i) \<and> (\<forall>j < length (?ws ! i). \<not> off_line ?b ls (argv ! i + of_nat j))"
      "runcmd H L E ?b s = dispatch (call_func H L E) H L ?ws argv ?t" by (auto simp: runcmd)
    let ?w = "hd ?ws"
    have w: "?w \<in> set ?ws" "?ws ! 0 = ?w" using cmd by (simp_all add: hd_conv_nth)
    with a(1) cmd have arg: "cstr (mem ?t) (argv ! 0) ?w" "\<forall>j < length ?w. \<not> off_line ?b ls (argv ! 0 + of_nat j)" by force+
    consider (helps) "?w = ascii ''help''" | (info) "?w \<noteq> ascii ''help''" "?w = ascii ''kerninfo''"
      | (other) "?w \<noteq> ascii ''help''" "?w \<noteq> ascii ''kerninfo''" by blast
    then show ?thesis
    proof cases
      case helps
      then have o: "out = map scast help_text" using out cmd by (simp add: reply_def)
      from mon_help_text [of ?t L H "length ?ws" argv] lt rt(2,3) obtain u where
        "mon_help H L (length ?ws) argv ?t = cret (0, u)" "shown ?t out u" by (auto simp: shown_def o)
      with replied_shown [OF t, of out u] a(2) helps show ?thesis by (simp add: dispatch_def named_func_def call_func_def)
    next
      case info
      then have o: "out = kerninfo_text L" using out cmd by (simp add: reply_def Let_def split: if_splits)
      from mon_kerninfo_shows [of ?t L H "length ?ws" argv] lt rt(2,3) obtain u where
        "mon_kerninfo H L (length ?ws) argv ?t = cret (0, u)" "shown ?t out u" by (auto simp: o)
      with replied_shown [OF t, of out u] a(2) info show ?thesis by (simp add: dispatch_def named_func_def call_func_def)
    next
      case other
      then have nb: "?w \<noteq> ascii ''backtrace''" and o: "out = chars ''Unknown command '' @ 0x27 # map scast ?w @ [0x27, 0x0A]"
        using out cmd by (simp_all add: reply_def Let_def split: if_splits)
      have "formats (lits L) (off_display ?t) (mem ?t) (lit_items ''Unknown command '' @ [Lit 0x27, str_conv, Lit 0x27, nl_lit]) [argv ! 0] out"
        unfolding o using word_string [OF rt(1) len w(1) arg] by (intro formats_intros formats_quote) simp_all
      from say_replied [OF t _ this, of "unknown_fmt L" H] lt a(2) other nb show ?thesis by (auto simp: dispatch_def named_func_def)
    qed
  qed
qed

section \<open>Sessions\<close>

lemma typed_line:
  assumes s: "mon_ready L E s" and q: "quiet H" and k: "ring_items s = map ucast keys" "0 \<notin> set keys"
    and e: "edit [] keys = Some (ls, echo, rest)" and out: "reply L ls = Some out"
  shows "\<exists>t. mon_step H L E s t \<and> mon_ready L E t \<and> ring_items t = map ucast rest \<and> color_flag t = color_flag s
    \<and> tty_of t = fold (tty_put (color_flag s)) (prompt_text @ echo @ out) (tty_of s)"
proof -
  have c: "console_ok s" "color_parsing s = 0" "buf_apart (rl_buf L) s" using s by (simp_all add: mon_ready_def)
  note l = mon_ready_lits [OF s, unfolded mon_lits_def]
  have p: "formats (lits L) (off_display s) (mem s) [str_conv] [prompt_str L] (prompt_text @ [])"
    unfolding prompt_text_def using l by (intro formats_intros) (simp_all add: ascii_def)
  have "prompt_str L = 0 \<and> prompt_text = [] \<or> prompt_str L \<noteq> 0 \<and> list_all item_ok [str_conv]
      \<and> kpre (\<lambda>a. \<not> in_block (crt_buf s) 4000 a) (mem s) (prompt_fmt L) (concat (map render [str_conv]) @ [0])
      \<and> formats (lits L) (\<lambda>a. \<not> in_block (crt_buf s) 4000 a) (mem s) [str_conv] [prompt_str L] prompt_text"
    using l p by (simp add: lit_at_def off_display_def [abs_def])
  from readline_keys [OF c q k e this] obtain t where
    t: "readline H L (prompt_str L) s = cret (rl_buf L, t)" "line_read (rl_buf L) s ls rest t"
    "tty_of t = fold (tty_put (color_flag s)) (prompt_text @ echo) (tty_of s)" by blast
  have "mon_ready L E t"
    using t(2) by (intro mon_ready_step [OF s]) (auto simp: line_read_def off_both_def off_display_def)
  from runcmd_reply [OF this _ _ out, of H] edit_line [OF _ e] t(2) obtain u where
    u: "runcmd H L E (rl_buf L) t = cret (0, u)" "replied L E t out u" by (auto simp: line_read_def BUFLEN_def)
  have "mon_step H L E s u"
    by (rule mon_step.run [OF t(1) _ u(1)]) (use s in \<open>simp_all add: mon_ready_def\<close>)
  with u(2) t(2,3) show ?thesis by (auto simp: replied_def line_read_def)
qed

lemma session_run:
  "mon_ready L E s \<Longrightarrow> quiet H \<Longrightarrow> ring_items s = map ucast keys \<Longrightarrow> 0 \<notin> set keys \<Longrightarrow>
   \<exists>t. (mon_step H L E)\<^sup>*\<^sup>* s t \<and> mon_ready L E t \<and> ring_items t = map ucast (snd (session L keys))
    \<and> tty_of t = fold (tty_put (color_flag s)) (fst (session L keys)) (tty_of s)"
proof (induction L keys arbitrary: s rule: session.induct)
  case (1 L keys)
  show ?case
  proof (cases "\<exists>ls echo rest out. edit [] keys = Some (ls, echo, rest) \<and> reply L ls = Some out")
    case True
    then obtain ls echo rest out where e: "edit [] keys = Some (ls, echo, rest)" and out: "reply L ls = Some out" by blast
    obtain t where t: "mon_step H L E s t" "mon_ready L E t" "ring_items t = map ucast rest"
      "color_flag t = color_flag s" "tty_of t = fold (tty_put (color_flag s)) (prompt_text @ echo @ out) (tty_of s)"
      using typed_line [OF "1.prems" e out] by blast
    have "0 \<notin> set rest" using edit_keys [OF e] "1.prems"(4) by blast
    from "1.IH" [OF e refl refl out t(2) "1.prems"(2) t(3) this] obtain u where u: "(mon_step H L E)\<^sup>*\<^sup>* t u" "mon_ready L E u"
      "ring_items u = map ucast (snd (session L rest))" "tty_of u = fold (tty_put (color_flag t)) (fst (session L rest)) (tty_of t)"
      by blast
    with converse_rtranclp_into_rtranclp [of "mon_step H L E", OF t(1) u(1)] t(4,5) show ?thesis
      by (auto simp: session.simps [of L keys] e out)
  next
    case False
    then have "session L keys = ([], keys)" by (subst session.simps) (auto split: option.split)
    with "1.prems" show ?thesis by auto
  qed
qed

definition welcome_text :: "i32 list" where
  "welcome_text = chars ''Welcome to the JOS kernel monitor!'' @ [0x0A]
     @ chars ''Type '' @ [0x27] @ chars ''help'' @ [0x27] @ chars '' for a list of commands.'' @ [0x0A]"

section \<open>Properties\<close>

lemma say_all_Nil_cret: "say_all H L [] = cret"
  by (rule ext) simp

lemma mon_reach_rounds: "(mon_step H L E)\<^sup>*\<^sup>* t u \<Longrightarrow> mon_reach H L E s t \<Longrightarrow> mon_reach H L E s u"
  by (induction rule: rtranclp_induct) (auto intro: mon_reach.round)

text \<open>
  C9. A session: when the keys typed wait in the console buffer, \<^verbatim>\<open>monitor\<close> shows its welcome and then handles every completed line in
  turn, each in one round of its loop in which \<^verbatim>\<open>readline\<close> and \<^verbatim>\<open>runcmd\<close> return (that is \<open>mon_reach\<close>), and comes back to the
  head of the loop with the keys of the uncompleted line still in the buffer and its state in order as at the start. The terminal has
  then received exactly the text of the session specification: the welcome, and for each line the prompt, the echo of the keys and the
  reply, which is the text of \<^verbatim>\<open>help\<close> and \<^verbatim>\<open>kerninfo\<close>, the report of an unknown command or of too many arguments. (The
  specification stops before a line that asks for a backtrace.)
\<close>

theorem monitor_session:
  assumes "mon_ready L E s" and "quiet H" and "ring_items s = map ucast keys" and "0 \<notin> set keys"
  shows "\<exists>t. mon_reach H L E s t \<and> mon_ready L E t \<and> ring_items t = map ucast (snd (session L keys))
    \<and> tty_of t = fold (tty_put (color_flag s)) (welcome_text @ fst (session L keys)) (tty_of s)
    \<and> monitor H L E s = monitor_loop H L E t"
proof -
  have c: "crt_ok s" "color_parsing s = 0" using assms(1) by (simp_all add: mon_ready_def console_ok_def)
  note l = mon_ready_lits [OF assms(1), unfolded mon_lits_def]
  let ?ms = "[(welcome_fmt L, []), (typehelp_fmt L, [])]"
  let ?outs = "[chars ''Welcome to the JOS kernel monitor!'' @ [0x0A],
    chars ''Type '' @ 0x27 # chars ''help'' @ 0x27 # chars '' for a list of commands.'' @ [0x0A]]"
  have "list_all2 (says (lits L) (off_display s) (mem s)) ?ms ?outs"
    by (intro list.rel_intros) (insert l, (elim conjE, rule saysI, assumption, intro formats_intros formats_quote)+)
  from say_all_shown [OF this shown_refl [OF c(1)] c(2)] obtain t where
    t: "say_all H L ?ms s = cret t" "shown s welcome_text t"
    by (auto simp: welcome_text_def)
  obtain t1 where "say H L (welcome_fmt L) [] s = cret t1"
    using t(1) by (cases "say H L (welcome_fmt L) [] s") (auto simp: cbind_def cret_def split: sum.splits)
  with t(1) have m: "mon_reach H L E s t" by (intro mon_reach.start) (auto simp: say_all_Nil_cret cret_bind)
  have r: "mon_ready L E t" "ring_items t = map ucast keys" "color_flag t = color_flag s"
    using mon_ready_shown [OF assms(1) t(2)] shownD(2) [OF t(2)] assms(3) by (simp_all add: disp_only_def)
  from session_run [OF r(1) assms(2) r(2) assms(4)] obtain u where u: "(mon_step H L E)\<^sup>*\<^sup>* t u" "mon_ready L E u"
    "ring_items u = map ucast (snd (session L keys))" "tty_of u = fold (tty_put (color_flag t)) (fst (session L keys)) (tty_of t)" by blast
  note ru = mon_reach_rounds [OF u(1) m]
  with u mon_reach_monitor [OF ru] r(3) shownD(3) [OF t(2)] show ?thesis by auto
qed

section \<open>The property on an example\<close>

text \<open>The literals in slots of 64 bytes from \<open>0x1000\<close> on; the keys \<^verbatim>\<open>ps\<close>, newline, \<^verbatim>\<open>help\<close>, newline and \<^verbatim>\<open>x\<close>.\<close>

definition slot_mem :: "u64 \<Rightarrow> u8 list list \<Rightarrow> mem" where
  "slot_mem b slots a =
     (let k = unat (a - b); i = k div 64; j = k mod 64
      in if i < length slots \<and> j < length (slots ! i) then slots ! i ! j else 0)"

definition sess_slots :: "u8 list list" where
  "sess_slots =
     [ascii ''%s - %s'' @ [0x0A, 0],
      ascii ''help'' @ [0],
      ascii ''Display this list of commands'' @ [0],
      ascii ''kerninfo'' @ [0],
      ascii ''Display information about the kernel'' @ [0],
      ascii ''backtrace'' @ [0],
      ascii ''Backtrace'' @ [0],
      whites @ [0],
      ascii ''K> '' @ [0],
      concat (map render ([str_conv])) @ [0],
      concat (map render (lit_items ''Special kernel symbols:'' @ [nl_lit])) @ [0],
      concat (map render (lit_items ''  _start                  '' @ hex8_conv # lit_items '' (phys)'' @ [nl_lit])) @ [0],
      concat (map render (ki_sym_items ''  entry  '')) @ [0],
      concat (map render (ki_sym_items ''  etext  '')) @ [0],
      concat (map render (ki_sym_items ''  edata  '')) @ [0],
      concat (map render (ki_sym_items ''  end    '')) @ [0],
      concat (map render (lit_items ''Kernel executable memory footprint: '' @ dec_conv # lit_items ''KB'' @ [nl_lit])) @ [0],
      concat (map render (lit_items ''Too many arguments (max '' @ dec_conv # lit_items '')'' @ [nl_lit])) @ [0],
      concat (map render (lit_items ''Unknown command '' @ [Lit 0x27, str_conv, Lit 0x27, nl_lit])) @ [0],
      concat (map render (lit_items ''Welcome to the JOS kernel monitor!'' @ [nl_lit])) @ [0],
      concat (map render (lit_items ''Type '' @ Lit 0x27 # lit_items ''help'' @ Lit 0x27 # lit_items '' for a list of commands.'' @ [nl_lit])) @ [0]]"

definition sess_lits :: mlits where
  "sess_lits = demo_mlits
     \<lparr>help_fmt := 0x1000, help_name := 0x1040, help_desc := 0x1080, kerninfo_name := 0x10c0, kerninfo_desc := 0x1100, backtrace_name := 0x1140, backtrace_desc := 0x1180, whitespace_str := 0x11c0, prompt_str := 0x1200, prompt_fmt := 0x1240, ki_title := 0x1280, ki_start := 0x12c0, ki_entry := 0x1300, ki_etext := 0x1340, ki_edata := 0x1380, ki_end := 0x13c0, ki_size := 0x1400, toomany_fmt := 0x1440, unknown_fmt := 0x1480, welcome_fmt := 0x14c0, typehelp_fmt := 0x1500\<rparr>"

definition sess_keys :: "u8 list" where
  "sess_keys = ascii ''ps'' @ [0x0A] @ ascii ''help'' @ [0x0A] @ ascii ''x''"

definition sess_state :: "unit cstate" where
  "sess_state = demo_cstate\<lparr>mem := slot_mem 0x1000 sess_slots, cons_buf := sess_keys @ replicate 503 0, wpos := 9\<rparr>"

lemma kpre_nth: "(\<And>j. j < length xs \<Longrightarrow> m (p + of_nat j) = xs ! j \<and> K (p + of_nat j)) \<Longrightarrow> kpre K m p xs"
proof (induction xs arbitrary: p)
  case (Cons x xs)
  have "m (p + 1 + of_nat j) = xs ! j \<and> K (p + 1 + of_nat j)" if "j < length xs" for j
    using Cons.prems [of "Suc j"] that by (simp add: add.assoc)
  with Cons.IH [of "p + 1"] Cons.prems [of 0] show ?case by simp
qed simp

lemma unat_small: "n < 0x10000 \<Longrightarrow> unat (of_nat n :: u64) = n"
  by (simp add: unat_of_nat)

lemma slot_kpre:
  assumes "i < length slots" "length (slots ! i) \<le> 64" "length slots \<le> 64"
  shows "kpre (\<lambda>a. a < 0x2000) (slot_mem 0x1000 slots) (0x1000 + of_nat (64 * i)) (slots ! i)"
proof (rule kpre_nth)
  fix j assume j: "j < length (slots ! i)"
  define n where "n = 64 * i + j"
  have n: "n < 0x1000" "n div 64 = i" "n mod 64 = j" using assms j by (simp_all add: n_def)
  have e: "0x1000 + of_nat (64 * i) + of_nat j = (0x1000 + of_nat n :: u64)" by (simp add: n_def)
  have u: "unat (of_nat n :: u64) = n" using n by (intro unat_small) simp
  have "unat (0x1000 + of_nat n :: u64) = unat (of_nat (0x1000 + n) :: u64)" by simp
  then have "unat (0x1000 + of_nat n :: u64) = 0x1000 + n" using n unat_small [of "0x1000 + n"] by simp
  then have "0x1000 + of_nat n < (0x2000 :: u64)" using n by (simp add: word_less_nat_alt)
  moreover have "slot_mem 0x1000 slots (0x1000 + of_nat n) = slots ! i ! j"
    using assms(1) j by (simp add: slot_mem_def Let_def u n)
  ultimately show "slot_mem 0x1000 slots (0x1000 + of_nat (64 * i) + of_nat j) = slots ! i ! j \<and> 0x1000 + of_nat (64 * i) + of_nat j < (0x2000 :: u64)"
    unfolding e by simp
qed

definition in_slot :: "u64 \<Rightarrow> u8 list \<Rightarrow> bool" where
  "in_slot p xs \<longleftrightarrow> (let i = unat (p - 0x1000) div 64 in
     i < length sess_slots \<and> p = 0x1000 + of_nat (64 * i) \<and> xs = sess_slots ! i)"

abbreviation "sess_mem \<equiv> slot_mem 0x1000 sess_slots"
abbreviation "low_addr \<equiv> \<lambda>a :: u64. a < 0x2000"

lemma sess_slots_ok: "length sess_slots = 21 \<and> list_all (\<lambda>xs. length xs \<le> 64) sess_slots"
  by code_simp

lemma in_slot_kpre: "in_slot p xs \<Longrightarrow> kpre low_addr sess_mem p xs"
proof -
  assume "in_slot p xs"
  then obtain i where i: "i < length sess_slots" "p = 0x1000 + of_nat (64 * i)" "xs = sess_slots ! i"
    unfolding in_slot_def Let_def by blast
  moreover have "length (sess_slots ! i) \<le> 64" "length sess_slots \<le> 64" using sess_slots_ok i(1) by (simp_all add: list_all_length)
  ultimately show ?thesis using slot_kpre [of i sess_slots] by simp
qed

lemma in_slot_lit: "list_all item_ok its \<Longrightarrow> in_slot fmt (concat (map render its) @ [0]) \<Longrightarrow> lit_at low_addr sess_mem fmt its"
  by (simp add: lit_at_def in_slot_kpre)

lemma in_slot_kstr: "0 \<notin> set xs \<and> in_slot p (xs @ [0]) \<Longrightarrow> kstr low_addr sess_mem p xs"
  by (simp add: kstr_def in_slot_kpre)

lemma in_slot_cmd: "kstr low_addr sess_mem (cmd_name c) (fst p) \<Longrightarrow> kstr low_addr sess_mem (cmd_desc c) (snd p) \<Longrightarrow>
    cmd_name c \<noteq> 0 \<and> cmd_desc c \<noteq> 0 \<and> length (fst p) < 100 \<and> length (snd p) < 100 \<Longrightarrow> cmd_text low_addr sess_mem c p"
  by (simp add: cmd_text_def)

lemmas item_simps = lit_items_def ki_sym_items_def ascii_def conv_chars_def

lemma slots_length: "length sess_slots = 21"
  by (simp add: sess_slots_ok)

lemmas slot_simps = in_slot_def slots_length sess_lits_def sess_slots_def [THEN arg_cong [of _ _ "\<lambda>xs. xs ! i" for i]] item_simps

lemma sess_help_rodata: "help_rodata low_addr sess_mem sess_lits"
proof -
  let ?c = "\<lambda>i. commands sess_lits ! i"
  have "kpre low_addr sess_mem (help_fmt sess_lits) (ascii ''%s - %s'' @ [0x0a, 0])" by (rule in_slot_kpre) code_simp
  moreover have "cmd_text low_addr sess_mem (?c 0) (ascii ''help'', ascii ''Display this list of commands'')"
    by (rule in_slot_cmd; (rule in_slot_kstr)?) code_simp+
  moreover have "cmd_text low_addr sess_mem (?c 1) (ascii ''kerninfo'', ascii ''Display information about the kernel'')"
    by (rule in_slot_cmd; (rule in_slot_kstr)?) code_simp+
  moreover have "cmd_text low_addr sess_mem (?c 2) (ascii ''backtrace'', ascii ''Backtrace'')"
    by (rule in_slot_cmd; (rule in_slot_kstr)?) code_simp+
  ultimately show ?thesis by (simp add: help_rodata_def commands_def)
qed

lemma sess_msg_lits:
  "lit_at low_addr sess_mem (toomany_fmt sess_lits) (lit_items ''Too many arguments (max '' @ dec_conv # lit_items '')'' @ [nl_lit])"
  "lit_at low_addr sess_mem (unknown_fmt sess_lits) (lit_items ''Unknown command '' @ [Lit 0x27, str_conv, Lit 0x27, nl_lit])"
  "lit_at low_addr sess_mem (welcome_fmt sess_lits) (lit_items ''Welcome to the JOS kernel monitor!'' @ [nl_lit])"
  "lit_at low_addr sess_mem (typehelp_fmt sess_lits)
     (lit_items ''Type '' @ Lit 0x27 # lit_items ''help'' @ Lit 0x27 # lit_items '' for a list of commands.'' @ [nl_lit])"
  "lit_at low_addr sess_mem (prompt_fmt sess_lits) [str_conv]"
  by ((rule in_slot_lit, simp add: item_simps, simp add: slot_simps)+)

lemma sess_strings:
  "kstr low_addr sess_mem (whitespace_str sess_lits) whites" "kstr low_addr sess_mem (prompt_str sess_lits) (ascii ''K> '')"
  by ((rule in_slot_kstr, code_simp)+)

lemma sess_names: "names_ok low_addr sess_mem sess_lits"
  unfolding names_ok_def by (intro conjI; (rule in_slot_kstr, code_simp))

lemma sess_ki_heads:
  "lit_at low_addr sess_mem (ki_title sess_lits) (lit_items ''Special kernel symbols:'' @ [nl_lit])"
  "lit_at low_addr sess_mem (ki_start sess_lits) (lit_items ''  _start                  '' @ hex8_conv # lit_items '' (phys)'' @ [nl_lit])"
  by ((rule in_slot_lit, simp add: item_simps, simp add: slot_simps)+)

lemma sess_ki_syms:
  "lit_at low_addr sess_mem (ki_entry sess_lits) (ki_sym_items ''  entry  '')"
  "lit_at low_addr sess_mem (ki_etext sess_lits) (ki_sym_items ''  etext  '')"
  by ((rule in_slot_lit, simp add: item_simps, simp add: slot_simps)+)

lemma sess_ki_more_syms:
  "lit_at low_addr sess_mem (ki_edata sess_lits) (ki_sym_items ''  edata  '')"
  "lit_at low_addr sess_mem (ki_end sess_lits) (ki_sym_items ''  end    '')"
  by ((rule in_slot_lit, simp add: item_simps, simp add: slot_simps)+)

lemma sess_ki_size:
  "lit_at low_addr sess_mem (ki_size sess_lits) (lit_items ''Kernel executable memory footprint: '' @ dec_conv # lit_items ''KB'' @ [nl_lit])"
  by ((rule in_slot_lit, simp add: item_simps, simp add: slot_simps)+)

lemma sess_ki_lits: "ki_lits low_addr sess_mem sess_lits"
  unfolding ki_lits_def by (intro conjI sess_ki_heads sess_ki_syms sess_ki_more_syms sess_ki_size)

lemma sess_mon_lits: "mon_lits low_addr sess_mem sess_lits"
proof -
  have "whitespace_str sess_lits \<noteq> 0 \<and> unat (whitespace_str sess_lits) + 4 < 2 ^ 64 \<and> prompt_str sess_lits \<noteq> 0"
    by (simp add: sess_lits_def)
  then show ?thesis
    unfolding mon_lits_def ws_lit_def using sess_msg_lits sess_strings sess_names sess_ki_lits sess_help_rodata by simp
qed

theorem monitor_session_witness:
  "\<exists>t. mon_reach demo_idle sess_lits demo_menv sess_state t \<and> ring_items t = [0x78]
    \<and> tty_of t = fold (tty_put 7) (welcome_text @ fst (session sess_lits sess_keys)) (tty_of sess_state)"
proof -
  have c: "console_ok sess_state" "color_parsing sess_state = 0" "color_flag sess_state = 7" "crt_buf sess_state = KERNBASE + 0xB8000"
    using demo_crt_ok by (simp_all add: console_ok_def ring_ok_def sess_state_def crt_ok_def sess_keys_def ascii_def)
      (simp_all add: demo_cstate_def)
  have b: "rl_buf sess_lits = 0x4000" by (simp add: sess_lits_def demo_mlits_def)
  have k: "off_both sess_lits sess_state a" if "a < 0x2000" for a
    using low_off_display [OF that] that
    unfolding off_both_def off_display_def b c by (simp add: in_block_def word_less_nat_alt)
  have l: "mon_lits (off_both sess_lits sess_state) (mem sess_state) sess_lits"
    by (rule mon_lits_cong [OF sess_mon_lits], intro conjI k) (simp_all add: sess_state_def)
  have ap: "buf_apart (rl_buf sess_lits) sess_state" unfolding buf_apart_def b c by (auto simp: in_block_def KERNBASE_def)
  have ready: "mon_ready sess_lits demo_menv sess_state"
    using c(1,2) l ap by (simp add: mon_ready_def b demo_menv_def MAXARGS_def)
  have q: "quiet demo_idle" by (simp add: quiet_def demo_idle_def)
  have r: "ring_items sess_state = map ucast sess_keys" by code_simp
  have z: "0 \<notin> set sess_keys" by (simp add: sess_keys_def ascii_def)
  have s: "snd (session sess_lits sess_keys) = [0x78]" by code_simp
  from monitor_session [OF ready q r z] obtain t where
    "mon_reach demo_idle sess_lits demo_menv sess_state t" "ring_items t = map ucast [0x78 :: u8]"
    "tty_of t = fold (tty_put 7) (welcome_text @ fst (session sess_lits sess_keys)) (tty_of sess_state)"
    unfolding c(3) s by blast
  moreover from this(2) have "ring_items t = [0x78]" by (simp only: list.map unsigned_numeral) simp
  ultimately show ?thesis by blast
qed

end
