(* ===== verification/Queue.thy ===== *)
theory Queue
  imports Jos_Prelude
begin

text \<open>
  \<^verbatim>\<open>inc/queue.h\<close>: doubly linked lists threaded through the elements. The macros work on memory; \<open>f\<close> is the offset of the
  \<^verbatim>\<open>LIST_ENTRY\<close> field in an element, whose word \<^verbatim>\<open>le_next\<close> comes first and \<^verbatim>\<open>le_prev\<close>, the address of the pointer to the element,
  second. \<open>chain m f c xs\<close> says that the pointer at \<open>c\<close> starts a list of the elements \<open>xs\<close>; the theorems show that each macro does to
  \<open>xs\<close> what its comment says.
\<close>

section \<open>Definitions\<close>

definition LIST_FIRST :: "mem \<Rightarrow> u64 \<Rightarrow> u64" where
  "LIST_FIRST m head = load64 m head"

definition LIST_EMPTY :: "mem \<Rightarrow> u64 \<Rightarrow> bool" where
  "LIST_EMPTY m head \<longleftrightarrow> load64 m head = 0"

definition LIST_NEXT :: "mem \<Rightarrow> u64 \<Rightarrow> u64 \<Rightarrow> u64" where
  "LIST_NEXT m f elm = load64 m (elm + f)"

definition LIST_INIT :: "mem \<Rightarrow> u64 \<Rightarrow> mem" where
  "LIST_INIT m head = store64 m head 0"

text \<open>The elements a loop visits that does not change the list.\<close>

partial_function (option) LIST_FOREACH :: "mem \<Rightarrow> u64 \<Rightarrow> u64 \<Rightarrow> u64 list option" where
  "LIST_FOREACH m f var =
     (if var = 0 then Some [] else Option.bind (LIST_FOREACH m f (LIST_NEXT m f var)) (\<lambda>vs. Some (var # vs)))"

definition LIST_INSERT_AFTER :: "mem \<Rightarrow> u64 \<Rightarrow> u64 \<Rightarrow> u64 \<Rightarrow> mem" where
  "LIST_INSERT_AFTER m f listelm elm =
     (let n = LIST_NEXT m f listelm;
          m = store64 m (elm + f) n;
          m = (if n \<noteq> 0 then store64 m (LIST_NEXT m f listelm + f + 8) (elm + f) else m);
          m = store64 m (listelm + f) elm
      in store64 m (elm + f + 8) (listelm + f))"

definition LIST_INSERT_BEFORE :: "mem \<Rightarrow> u64 \<Rightarrow> u64 \<Rightarrow> u64 \<Rightarrow> mem" where
  "LIST_INSERT_BEFORE m f listelm elm =
     (let m = store64 m (elm + f + 8) (load64 m (listelm + f + 8));
          m = store64 m (elm + f) listelm;
          m = store64 m (load64 m (listelm + f + 8)) elm
      in store64 m (listelm + f + 8) (elm + f))"

definition LIST_INSERT_HEAD :: "mem \<Rightarrow> u64 \<Rightarrow> u64 \<Rightarrow> u64 \<Rightarrow> mem" where
  "LIST_INSERT_HEAD m f head elm =
     (let n = LIST_FIRST m head;
          m = store64 m (elm + f) n;
          m = (if n \<noteq> 0 then store64 m (LIST_FIRST m head + f + 8) (elm + f) else m);
          m = store64 m head elm
      in store64 m (elm + f + 8) head)"

definition LIST_REMOVE :: "mem \<Rightarrow> u64 \<Rightarrow> u64 \<Rightarrow> mem" where
  "LIST_REMOVE m f elm =
     (let m = (if LIST_NEXT m f elm \<noteq> 0 then store64 m (LIST_NEXT m f elm + f + 8) (load64 m (elm + f + 8)) else m)
      in store64 m (load64 m (elm + f + 8)) (LIST_NEXT m f elm))"

declare LIST_FOREACH.simps [code]

section \<open>Words in memory\<close>

definition aligned :: "u64 \<Rightarrow> bool" where
  "aligned a \<longleftrightarrow> unat a mod 8 = 0"

lemma aligned_apart: "aligned a \<Longrightarrow> aligned b \<Longrightarrow> a \<noteq> b \<Longrightarrow> 8 \<le> unat (a - b)"
proof -
  assume a: "aligned a" "aligned b" and ne: "a \<noteq> b"
  have "unat (a - b) mod 8 = 0"
  proof (cases "unat b \<le> unat a")
    case True
    then have "unat (a - b) = unat a - unat b" using unat_sub_if' [of a b] by (simp add: word_le_nat_alt)
    with a show ?thesis unfolding aligned_def by presburger
  next
    case False
    then have "unat (a - b) = 8 * 2305843009213693952 + unat a - unat b" using unat_sub_if' [of a b] by (simp add: word_le_nat_alt)
    moreover have "unat b < 8 * 2305843009213693952" using unat_lt64 [of b] by simp
    ultimately show ?thesis using a unfolding aligned_def by presburger
  qed
  moreover have "unat (a - b) \<noteq> 0" using ne by (simp add: unat_eq_0)
  ultimately show ?thesis by presburger
qed

lemma load64_store64_if: "aligned a \<Longrightarrow> aligned b \<Longrightarrow> load64 (store64 m a v) b = (if a = b then v else load64 m b)"
  using aligned_apart [of a b] aligned_apart [of b a] by (simp add: load64_store64 load64_store64_apart)

section \<open>Lists in memory\<close>

fun chain :: "mem \<Rightarrow> u64 \<Rightarrow> u64 \<Rightarrow> u64 list \<Rightarrow> bool" where
  "chain m f c [] \<longleftrightarrow> load64 m c = 0"
| "chain m f c (x # xs) \<longleftrightarrow> load64 m c = x \<and> x \<noteq> 0 \<and> load64 m (x + f + 8) = c \<and> chain m f (x + f) xs"

text \<open>The words a list uses; they must be aligned and distinct.\<close>

fun cells :: "u64 \<Rightarrow> u64 list \<Rightarrow> u64 list" where
  "cells f [] = []"
| "cells f (x # xs) = (x + f) # (x + f + 8) # cells f xs"

definition good :: "u64 \<Rightarrow> u64 \<Rightarrow> u64 list \<Rightarrow> bool" where
  "good f head xs \<longleftrightarrow> distinct (head # cells f xs) \<and> (\<forall>c \<in> set (head # cells f xs). aligned c)"

fun seg :: "mem \<Rightarrow> u64 \<Rightarrow> u64 \<Rightarrow> u64 list \<Rightarrow> bool" where
  "seg m f c [] \<longleftrightarrow> True"
| "seg m f c (x # xs) \<longleftrightarrow> load64 m c = x \<and> x \<noteq> 0 \<and> load64 m (x + f + 8) = c \<and> seg m f (x + f) xs"

fun end_cell :: "u64 \<Rightarrow> u64 \<Rightarrow> u64 list \<Rightarrow> u64" where
  "end_cell f c [] = c"
| "end_cell f c (x # xs) = end_cell f (x + f) xs"

lemma chain_append: "chain m f c (xs @ ys) \<longleftrightarrow> seg m f c xs \<and> chain m f (end_cell f c xs) ys"
  by (induction xs arbitrary: c) auto

lemma cells_append: "cells f (xs @ ys) = cells f xs @ cells f ys"
  by (induction xs) auto

lemma end_cell_in: "end_cell f c xs = c \<and> xs = [] \<or> end_cell f c xs \<in> set (cells f xs)"
proof (induction xs arbitrary: c)
  case (Cons x xs)
  from Cons.IH [of "x + f"] show ?case by auto
qed simp

lemma end_cell_snoc: "end_cell f c (xs @ [x]) = x + f"
  by (induction xs arbitrary: c) auto

lemma seg_cong: "(\<And>a. a \<in> set (c # cells f xs) \<Longrightarrow> load64 m' a = load64 m a) \<Longrightarrow> seg m' f c xs = seg m f c xs"
proof (induction xs arbitrary: c)
  case (Cons x xs)
  have "seg m' f (x + f) xs = seg m f (x + f) xs" by (rule Cons.IH) (use Cons.prems in auto)
  with Cons.prems show ?case by simp
qed simp

lemma chain_cong: "(\<And>a. a \<in> set (c # cells f xs) \<Longrightarrow> load64 m' a = load64 m a) \<Longrightarrow> chain m' f c xs = chain m f c xs"
proof (induction xs arbitrary: c)
  case (Cons x xs)
  have "chain m' f (x + f) xs = chain m f (x + f) xs" by (rule Cons.IH) (use Cons.prems in auto)
  with Cons.prems show ?case by simp
qed simp

text \<open>
  Putting an element between \<open>xs\<close> and \<open>ys\<close>, and taking it out: what the four words concerned hold afterwards, and that
  the others hold what they did, is enough.
\<close>

definition first_or :: "u64 list \<Rightarrow> u64" where
  "first_or ys = (case ys of [] \<Rightarrow> 0 | y # _ \<Rightarrow> y)"

lemma chain_first: "chain m f c ys \<Longrightarrow> load64 m c = first_or ys"
  by (cases ys) (simp_all add: first_or_def)

lemma chain_first_0: "chain m f c ys \<Longrightarrow> load64 m c = 0 \<longleftrightarrow> ys = []"
  by (cases ys) simp_all

lemma linked:
  assumes ch: "chain m f c (xs @ ys)" and g: "distinct (c # cells f (xs @ x # ys))" and "x \<noteq> 0"
    and w: "load64 m' (end_cell f c xs) = x" "load64 m' (x + f + 8) = end_cell f c xs" "load64 m' (x + f) = first_or ys"
      "ys \<noteq> [] \<Longrightarrow> load64 m' (hd ys + f + 8) = x + f"
    and o: "\<And>a. a \<in> set (c # cells f (xs @ ys)) \<Longrightarrow> a \<noteq> end_cell f c xs \<Longrightarrow> (ys = [] \<or> a \<noteq> hd ys + f + 8) \<Longrightarrow>
      load64 m' a = load64 m a"
  shows "chain m' f c (xs @ x # ys)"
  using ch g w(1,2) o
proof (induction xs arbitrary: c)
  case Nil
  show ?case
  proof (cases ys)
    case Nil
    with \<open>x \<noteq> 0\<close> w(3) Nil.prems show ?thesis by (simp add: first_or_def)
  next
    case (Cons y zs)
    have "chain m' f (y + f) zs = chain m f (y + f) zs"
      by (rule chain_cong, rule Nil.prems(5)) (use Nil.prems(2) Cons in auto)
    with Cons Nil.prems(1-4) \<open>x \<noteq> 0\<close> w(3,4) show ?thesis by (simp add: first_or_def)
  qed
next
  case (Cons z xs)
  let ?e = "end_cell f (z + f) xs"
  have e: "?e = z + f \<or> ?e \<in> set (cells f xs)" using end_cell_in [of f "z + f" xs] by blast
  have ysc: "hd ys + f + 8 \<in> set (cells f ys)" if "ys \<noteq> []" using that by (cases ys) simp_all
  have d: "c \<noteq> ?e" "z + f + 8 \<noteq> ?e" "ys \<noteq> [] \<Longrightarrow> c \<noteq> hd ys + f + 8" "ys \<noteq> [] \<Longrightarrow> z + f + 8 \<noteq> hd ys + f + 8"
    using e ysc Cons.prems(2) by (auto simp: cells_append)
  have "chain m' f (z + f) (xs @ x # ys)"
  proof (rule Cons.IH)
    show "load64 m' a = load64 m a"
      if "a \<in> set ((z + f) # cells f (xs @ ys))" "a \<noteq> end_cell f (z + f) xs" "ys = [] \<or> a \<noteq> hd ys + f + 8" for a
      using that by (intro Cons.prems(5)) auto
  qed (use Cons.prems in \<open>auto simp: cells_append\<close>)
  moreover have "load64 m' c = load64 m c" "load64 m' (z + f + 8) = load64 m (z + f + 8)"
    using d by (auto intro!: Cons.prems(5))
  ultimately show ?case using Cons.prems(1) by simp
qed

lemma unlinked:
  assumes ch: "chain m f c (xs @ x # ys)" and g: "distinct (c # cells f (xs @ x # ys))"
    and w: "load64 m' (end_cell f c xs) = first_or ys" "ys \<noteq> [] \<Longrightarrow> load64 m' (hd ys + f + 8) = end_cell f c xs"
    and o: "\<And>a. a \<in> set (c # cells f (xs @ ys)) \<Longrightarrow> a \<noteq> end_cell f c xs \<Longrightarrow> (ys = [] \<or> a \<noteq> hd ys + f + 8) \<Longrightarrow>
      load64 m' a = load64 m a"
  shows "chain m' f c (xs @ ys)"
  using ch g w o
proof (induction xs arbitrary: c)
  case Nil
  show ?case
  proof (cases ys)
    case Nil
    with Nil.prems show ?thesis by (simp add: first_or_def)
  next
    case (Cons y zs)
    have "chain m' f (y + f) zs = chain m f (y + f) zs"
      by (rule chain_cong, rule Nil.prems(5)) (use Nil.prems(2) Cons in auto)
    with Cons Nil.prems(1-4) show ?thesis by (simp add: first_or_def)
  qed
next
  case (Cons z xs)
  let ?e = "end_cell f (z + f) xs"
  have e: "?e = z + f \<or> ?e \<in> set (cells f xs)" using end_cell_in [of f "z + f" xs] by blast
  have ysc: "hd ys + f + 8 \<in> set (cells f ys)" if "ys \<noteq> []" using that by (cases ys) simp_all
  have d: "c \<noteq> ?e" "z + f + 8 \<noteq> ?e" "ys \<noteq> [] \<Longrightarrow> c \<noteq> hd ys + f + 8" "ys \<noteq> [] \<Longrightarrow> z + f + 8 \<noteq> hd ys + f + 8"
    using e ysc Cons.prems(2) by (auto simp: cells_append)
  have "chain m' f (z + f) (xs @ ys)"
  proof (rule Cons.IH)
    show "load64 m' a = load64 m a"
      if "a \<in> set ((z + f) # cells f (xs @ ys))" "a \<noteq> end_cell f (z + f) xs" "ys = [] \<or> a \<noteq> hd ys + f + 8" for a
      using that by (intro Cons.prems(5)) auto
  qed (use Cons.prems in \<open>auto simp: cells_append\<close>)
  moreover have "load64 m' c = load64 m c" "load64 m' (z + f + 8) = load64 m (z + f + 8)"
    using d by (auto intro!: Cons.prems(5))
  ultimately show ?case using Cons.prems(1) by simp
qed

text \<open>The words concerned are aligned and distinct.\<close>

lemma good_words:
  assumes "good f c (xs @ x # ys)"
  shows "aligned c" "aligned (end_cell f c xs)" "aligned (x + f)" "aligned (x + f + 8)" "ys \<noteq> [] \<Longrightarrow> aligned (hd ys + f + 8)"
    "x + f \<noteq> end_cell f c xs" "x + f + 8 \<noteq> end_cell f c xs" "x + f + 8 \<noteq> x + f"
    "ys \<noteq> [] \<Longrightarrow> hd ys + f + 8 \<noteq> x + f" "ys \<noteq> [] \<Longrightarrow> hd ys + f + 8 \<noteq> x + f + 8"
    "ys \<noteq> [] \<Longrightarrow> hd ys + f + 8 \<noteq> end_cell f c xs"
proof -
  have dist: "distinct (c # cells f (xs @ x # ys))" and al: "\<And>a. a \<in> set (c # cells f (xs @ x # ys)) \<Longrightarrow> aligned a"
    using assms unfolding good_def by blast+
  have ec: "end_cell f c xs \<in> set (c # cells f xs)" using end_cell_in [of f c xs] by auto
  have ysc: "hd ys + f + 8 \<in> set (cells f ys)" if "ys \<noteq> []" using that by (cases ys) simp_all
  show "aligned c" "aligned (end_cell f c xs)" "aligned (x + f)" "aligned (x + f + 8)" "ys \<noteq> [] \<Longrightarrow> aligned (hd ys + f + 8)"
    using ec ysc by (auto intro!: al simp: cells_append)
  have "end_cell f c xs \<notin> set (cells f ys)" "x + f \<notin> set (cells f ys)" "x + f + 8 \<notin> set (cells f ys)"
    using dist ec by (auto simp: cells_append)
  with ysc show "ys \<noteq> [] \<Longrightarrow> hd ys + f + 8 \<noteq> x + f" "ys \<noteq> [] \<Longrightarrow> hd ys + f + 8 \<noteq> x + f + 8"
    "ys \<noteq> [] \<Longrightarrow> hd ys + f + 8 \<noteq> end_cell f c xs" by metis+
  show "x + f \<noteq> end_cell f c xs" "x + f + 8 \<noteq> end_cell f c xs" "x + f + 8 \<noteq> x + f" using dist ec by (auto simp: cells_append)
qed

text \<open>The words an insertion writes, for the element \<open>x\<close> between \<open>xs\<close> and \<open>ys\<close>, and those a removal writes.\<close>

lemma stores_link:
  assumes ch: "chain m f c (xs @ ys)" and g: "good f c (xs @ x # ys)" and x: "x \<noteq> 0" and e: "e = end_cell f c xs"
    and m': "\<And>a. aligned a \<Longrightarrow> load64 m' a =
      (if a = x + f + 8 then e else if a = e then x else if ys \<noteq> [] \<and> a = hd ys + f + 8 then x + f
       else if a = x + f then first_or ys else load64 m a)"
  shows "chain m' f c (xs @ x # ys)"
proof (rule linked [OF ch _ x])
  note gw = good_words [OF g]
  show dist: "distinct (c # cells f (xs @ x # ys))" using g unfolding good_def by blast
  show "load64 m' (end_cell f c xs) = x" "load64 m' (x + f + 8) = end_cell f c xs" "load64 m' (x + f) = first_or ys"
    "ys \<noteq> [] \<Longrightarrow> load64 m' (hd ys + f + 8) = x + f"
    using gw gw(6-11) [symmetric] by (cases "ys = []"; simp add: m' e)+
  fix a assume a: "a \<in> set (c # cells f (xs @ ys))" "a \<noteq> end_cell f c xs" "ys = [] \<or> a \<noteq> hd ys + f + 8"
  then have "aligned a" using g unfolding good_def by (auto simp: cells_append)
  moreover have "a \<noteq> x + f" "a \<noteq> x + f + 8" using a(1) dist by (auto simp: cells_append)
  ultimately show "load64 m' a = load64 m a" using a by (auto simp: m' e)
qed

lemma stores_unlink:
  assumes ch: "chain m f c (xs @ x # ys)" and g: "good f c (xs @ x # ys)"
    and m': "\<And>a. aligned a \<Longrightarrow> load64 m' a =
      (if a = end_cell f c xs then first_or ys else if ys \<noteq> [] \<and> a = hd ys + f + 8 then end_cell f c xs else load64 m a)"
  shows "chain m' f c (xs @ ys)"
proof (rule unlinked [OF ch])
  note gw = good_words [OF g]
  show "distinct (c # cells f (xs @ x # ys))" using g unfolding good_def by blast
  show "load64 m' (end_cell f c xs) = first_or ys" "ys \<noteq> [] \<Longrightarrow> load64 m' (hd ys + f + 8) = end_cell f c xs"
    using gw by (simp_all add: m')
  fix a assume a: "a \<in> set (c # cells f (xs @ ys))" "a \<noteq> end_cell f c xs" "ys = [] \<or> a \<noteq> hd ys + f + 8"
  then have "aligned a" using g unfolding good_def by (auto simp: cells_append)
  with a show "load64 m' a = load64 m a" by (auto simp: m')
qed

section \<open>Properties\<close>

lemma chain_foreach: "chain m f c xs \<Longrightarrow> LIST_FOREACH m f (load64 m c) = Some xs"
proof (induction xs arbitrary: c)
  case Nil
  then show ?case by (simp add: LIST_FOREACH.simps)
next
  case (Cons x xs)
  then show ?case by (subst LIST_FOREACH.simps) (simp add: LIST_NEXT_def)
qed

lemma chain_middle: "chain m f c (xs @ x # ys) \<Longrightarrow>
  load64 m (end_cell f c xs) = x \<and> x \<noteq> 0 \<and> load64 m (x + f + 8) = end_cell f c xs \<and> load64 m (x + f) = first_or ys
    \<and> (first_or ys \<noteq> 0 \<longleftrightarrow> ys \<noteq> []) \<and> (ys \<noteq> [] \<longrightarrow> first_or ys = hd ys)"
  by (cases ys) (auto simp: chain_append first_or_def)

lemma insert_after_chain:
  assumes "chain m f c (xs @ ys)" "good f c (xs @ x # ys)" "x \<noteq> 0" "xs \<noteq> []"
  shows "chain (LIST_INSERT_AFTER m f (last xs) x) f c (xs @ x # ys)"
proof (rule stores_link [OF assms(1-3) refl])
  note gw = good_words [OF assms(2)]
  have e: "last xs + f = end_cell f c xs" using assms(4) end_cell_snoc [of f c "butlast xs" "last xs"] by simp
  have n: "load64 m (end_cell f c xs) = first_or ys" using assms(1) chain_first [of m f "end_cell f c xs" ys] by (simp add: chain_append)
  have y: "first_or ys \<noteq> 0 \<longleftrightarrow> ys \<noteq> []" "ys \<noteq> [] \<Longrightarrow> first_or ys = hd ys"
    using assms(1) by (cases ys; simp add: first_or_def chain_append)+
  fix a assume a: "aligned a"
  show "load64 (LIST_INSERT_AFTER m f (last xs) x) a =
      (if a = x + f + 8 then end_cell f c xs else if a = end_cell f c xs then x else if ys \<noteq> [] \<and> a = hd ys + f + 8 then x + f
       else if a = x + f then first_or ys else load64 m a)"
    using a gw y unfolding LIST_INSERT_AFTER_def LIST_NEXT_def e n Let_def
    by (cases "ys = []") (simp_all add: load64_store64_if n)
qed

lemma insert_before_chain:
  assumes "chain m f c (xs @ ys)" "good f c (xs @ x # ys)" "x \<noteq> 0" "ys \<noteq> []"
  shows "chain (LIST_INSERT_BEFORE m f (hd ys) x) f c (xs @ x # ys)"
proof (rule stores_link [OF assms(1-3) refl])
  note gw = good_words [OF assms(2)]
  have p: "load64 m (hd ys + f + 8) = end_cell f c xs" and y: "first_or ys = hd ys"
    using assms(1,4) by (cases ys; simp add: chain_append first_or_def)+
  fix a assume a: "aligned a"
  show "load64 (LIST_INSERT_BEFORE m f (hd ys) x) a =
      (if a = x + f + 8 then end_cell f c xs else if a = end_cell f c xs then x else if ys \<noteq> [] \<and> a = hd ys + f + 8 then x + f
       else if a = x + f then first_or ys else load64 m a)"
    using a gw assms(4) p y unfolding LIST_INSERT_BEFORE_def Let_def
    by (simp add: load64_store64_if)
qed

lemma insert_head_chain:
  assumes "chain m f c ys" "good f c (x # ys)" "x \<noteq> 0"
  shows "chain (LIST_INSERT_HEAD m f c x) f c (x # ys)"
proof -
  have "chain (LIST_INSERT_HEAD m f c x) f c ([] @ x # ys)"
  proof (rule stores_link [OF _ _ assms(3) refl])
    show "chain m f c ([] @ ys)" using assms(1) by simp
    show g: "good f c ([] @ x # ys)" using assms(2) by simp
    note gw = good_words [OF g, unfolded end_cell.simps]
    have n: "load64 m c = first_or ys" using assms(1) by (rule chain_first)
    have y: "first_or ys \<noteq> 0 \<longleftrightarrow> ys \<noteq> []" "ys \<noteq> [] \<Longrightarrow> first_or ys = hd ys"
      using assms(1) by (cases ys; simp add: first_or_def)+
    fix a assume a: "aligned a"
    show "load64 (LIST_INSERT_HEAD m f c x) a =
        (if a = x + f + 8 then end_cell f c [] else if a = end_cell f c [] then x else if ys \<noteq> [] \<and> a = hd ys + f + 8 then x + f
         else if a = x + f then first_or ys else load64 m a)"
      using a gw y unfolding LIST_INSERT_HEAD_def LIST_FIRST_def n Let_def
      by (cases "ys = []") (simp_all add: load64_store64_if n)
  qed
  then show ?thesis by simp
qed

lemma remove_chain:
  assumes "chain m f c (xs @ x # ys)" "good f c (xs @ x # ys)"
  shows "chain (LIST_REMOVE m f x) f c (xs @ ys)"
proof (rule stores_unlink [OF assms])
  note gw = good_words [OF assms(2)] and cm = chain_middle [OF assms(1)]
  fix a assume a: "aligned a"
  show "load64 (LIST_REMOVE m f x) a =
      (if a = end_cell f c xs then first_or ys else if ys \<noteq> [] \<and> a = hd ys + f + 8 then end_cell f c xs else load64 m a)"
    using a gw cm unfolding LIST_REMOVE_def LIST_NEXT_def Let_def
    by (cases "ys = []") (auto simp: load64_store64_if)
qed

text \<open>
  C19. The list macros do what they promise, for elements whose link words are aligned and distinct: inserting at the head,
  after an element and before one puts the new element in exactly that place, removing takes exactly that element out, and a
  loop over a list visits its elements in order.
\<close>

theorem list_macros:
  assumes "good f head (xs @ elm # ys)" and "elm \<noteq> 0"
  shows "(chain m f head (xs @ ys) \<longrightarrow>
      (xs = [] \<longrightarrow> chain (LIST_INSERT_HEAD m f head elm) f head (elm # ys))
      \<and> (xs \<noteq> [] \<longrightarrow> chain (LIST_INSERT_AFTER m f (last xs) elm) f head (xs @ elm # ys))
      \<and> (ys \<noteq> [] \<longrightarrow> chain (LIST_INSERT_BEFORE m f (hd ys) elm) f head (xs @ elm # ys)))
    \<and> (chain m f head (xs @ elm # ys) \<longrightarrow> chain (LIST_REMOVE m f elm) f head (xs @ ys)
      \<and> LIST_FOREACH m f (LIST_FIRST m head) = Some (xs @ elm # ys))"
  using assms insert_head_chain [of m f head ys elm] insert_after_chain [of m f head xs ys elm]
    insert_before_chain [of m f head xs ys elm] remove_chain [of m f head xs elm ys] chain_foreach [of m f head "xs @ elm # ys"]
  by (auto simp: LIST_FIRST_def)

theorem list_macros_witness:
  "chain (LIST_INSERT_AFTER (LIST_INSERT_HEAD (\<lambda>_. 0) 8 0x1000 0x2000) 8 0x2000 0x3000) 8 0x1000 [0x2000, 0x3000]"
proof -
  let ?m = "LIST_INSERT_HEAD (\<lambda>_. 0) 8 0x1000 0x2000"
  have g: "good 8 0x1000 ([0x2000] @ [0x3000])" "good 8 0x1000 ([] @ [0x2000])" by (simp_all add: good_def aligned_def)
  have "chain (\<lambda>_. 0) 8 0x1000 ([] @ [])" by (simp add: load64_def load32_def)
  with list_macros [OF g(2), of "\<lambda>_. 0"] have "chain ?m 8 0x1000 ([0x2000] @ [])" by simp
  with list_macros [OF g(1), of ?m] show ?thesis by simp
qed

end
