(* ===== verification/Spec2Isabelle.thy ===== *)
theory Spec2Isabelle
  imports Dwarf_Fde Lookup Memlayout Init Session Queue
begin

text \<open>
  \<^bold>\<open>The JOS64 kernel, in Isabelle/HOL.\<close>

  JOS64 is a teaching kernel for x86-64 at its first lab: a boot loader that reads the kernel from the disk, a text console on
  display, keyboard and serial line, \<^verbatim>\<open>printf\<close>, a command monitor, and a DWARF library that gives the monitor's backtrace
  function names, source lines and arguments. Everything is C with a little assembly; this development models the C and the assembly of the kernel's start.

  \<^bold>\<open>How C is modelled.\<close> (\<^verbatim>\<open>Jos_Prelude\<close>)
  Integers are words of their width, signed ones read with \<open>sint\<close>. Memory is one function from 64-bit addresses to bytes, and a
  pointer is an address: overruns and aliasing are what they are on the machine. Code that cannot fail is a function, a loop that
  may run for ever a \<^theory_text>\<open>partial_function\<close> whose result \<open>None\<close> means that it does. \<open>'a cres\<close> adds two ways to end
  without a value: \<open>Panic\<close>, a failed \<^verbatim>\<open>assert\<close> or a call of \<^verbatim>\<open>panic\<close>, and \<open>Undefined\<close>, what C leaves undefined and the model
  does not decide. String literals and linker symbols lie in memory at addresses that records of literals give. Globals that only
  C code touches are fields of a state record. No fuel is used anywhere.

  \<^bold>\<open>Parameters.\<close> The devices behind the ports: \<open>hwops\<close> for the console, \<open>ideops\<close> for the disk. What the theorems need of a disk is
  the hypothesis \<open>ide_disk\<close>, the polled ATA protocol, met by the concrete disk \<open>ata\<close> of \<^verbatim>\<open>Ide_Disk\<close>. Uninitialised locals, and the frame
  and instruction pointers a backtrace starts from, are arguments.

  \<^bold>\<open>Parts, theories and sources.\<close>
  \<^item> \<^verbatim>\<open>Cstring\<close>: \<^verbatim>\<open>lib/string.c\<close>. Each routine is shown to meet its contract on NUL-terminated strings (\<open>cstr\<close>) or blocks (\<open>copy\<close>,
    \<open>fill\<close>), for \<^verbatim>\<open>memmove\<close> also under overlap; the assembly versions agree with the portable ones.
  \<^item> \<^verbatim>\<open>Printfmt\<close>, \<^verbatim>\<open>Printfmt_Text\<close>: \<^verbatim>\<open>lib/printfmt.c\<close>, with \<^verbatim>\<open>snprintf\<close> and the colour escapes. The engine is proved in a
    locale over any \<^verbatim>\<open>putch\<close> that keeps an invariant (\<open>putch_inv\<close>) and leaves the format alone (\<open>putch_text\<close>): it hands over exactly
    the characters the format's items denote. The buffer of \<^verbatim>\<open>snprintf\<close> and the console interpret the locale. What the items denote is
    what the program prints; \<open>doc_text\<close> is what the comments of the file promise, \<open>conv_documented\<close> says where the two agree.
  \<^item> \<^verbatim>\<open>Console_Out\<close>, \<^verbatim>\<open>Kprintf\<close>, \<^verbatim>\<open>Console_In\<close>: \<^verbatim>\<open>kern/console.c\<close> and \<^verbatim>\<open>kern/printf.c\<close>. The display refines an abstract terminal
    (\<open>tty\<close>); the input buffer interprets a bounded queue (\<open>bounded_fifo\<close>); \<open>console_ok\<close> is the invariant of the whole console.
  \<^item> \<^verbatim>\<open>Readline\<close>: \<^verbatim>\<open>lib/readline.c\<close>, memory-safe for any input, yields a NUL-terminated line of printable characters.
  \<^item> \<^verbatim>\<open>Dwarf_Read\<close>: the readers of \<^verbatim>\<open>kern/libdwarf_rw.c\<close>. The fixed-size readers interpret a locale \<open>byte_order\<close> for either
    order; LEB128 numbers are decoded as they were encoded, within the width the code handles.
  \<^item> \<^verbatim>\<open>Dwarf_Defs\<close>, \<^verbatim>\<open>Dwarf_Info\<close>: \<^verbatim>\<open>kern/dwarf.h\<close> and the rest of \<^verbatim>\<open>libdwarf_rw.c\<close>: units, abbreviation tables, entries, siblings and
    children, against an encoding of tables and trees.
  \<^item> \<^verbatim>\<open>Dwarf_Line\<close>: \<^verbatim>\<open>kern/libdwarf_lineno.c\<close>. In an ascending table of the standard (\<open>std_table\<close>) the line number machine
    finds the row that covers an address; it does not see where a sequence ends (\<open>end_sequence_loses_end\<close>).
  \<^item> \<^verbatim>\<open>Dwarf_Frame\<close>, \<^verbatim>\<open>Dwarf_Fde\<close>: \<^verbatim>\<open>kern/libdwarf_frame.c\<close>. The call frame machine computes the rules of the denoted instructions,
    and the walk over \<^verbatim>\<open>.eh_frame\<close> finds the description entry of an address.
  \<^item> \<^verbatim>\<open>Ide_Disk\<close>, \<^verbatim>\<open>Elf_Load\<close>, \<^verbatim>\<open>Boot\<close>: the disk driver, \<^verbatim>\<open>kern/elf_rw.c\<close> and \<^verbatim>\<open>boot/main.c\<close>. Sectors, segments and sections
    arrive in memory as they are in the file, and the boot loader jumps to the entry point with the segments in place.
  \<^item> \<^verbatim>\<open>Mmu\<close>, \<^verbatim>\<open>Paging\<close>, \<^verbatim>\<open>Memlayout\<close>: \<^verbatim>\<open>inc/mmu.h\<close> and \<^verbatim>\<open>inc/memlayout.h\<close>, and the first page tables of \<^verbatim>\<open>kern/bootstrap.S\<close>, with
    what the processor's translation (\<open>walk\<close>) makes of them.
  \<^item> \<^verbatim>\<open>Start\<close>: the rest of \<^verbatim>\<open>kern/bootstrap.S\<close> and \<^verbatim>\<open>kern/entry.S\<close>, from the jump of the boot loader to \<^verbatim>\<open>i386_init\<close> in 64-bit
    mode, with the kernel's file at \<^verbatim>\<open>KERNBASE\<close>.
  \<^item> \<^verbatim>\<open>Kdebug\<close>: \<^verbatim>\<open>kern/kdebug.c\<close>, from an address to function, file, line and argument sizes.
  \<^item> \<^verbatim>\<open>Dwarf_Tree\<close>, \<^verbatim>\<open>Lookup\<close>: the encoding of attribute values, trees of entries (\<open>forest\<close>) and units (\<open>dunit\<close>), how the
    library reads them back, and that \<^verbatim>\<open>debuginfo_rip\<close> reports the function that a search through the trees (\<open>find_fn\<close>) gives.
  \<^item> \<^verbatim>\<open>Monitor\<close>: \<^verbatim>\<open>kern/monitor.c\<close>. A line is split into words in place and dispatched; one round of the loop is a step
    relation, and the states it reaches keep \<open>mon_inv\<close>; a backtrace shows the chain of frames.
  \<^item> \<^verbatim>\<open>Line_Edit\<close>, \<^verbatim>\<open>Session\<close>: what \<^verbatim>\<open>readline\<close> makes of the keys typed (\<open>edit\<close>), and whole sessions at the monitor. \<open>session\<close> says
    which text the keys waiting in the console buffer bring onto the terminal, and \<^verbatim>\<open>monitor\<close> shows this text in rounds that
    return (\<open>mon_reach\<close>).
  \<^item> \<^verbatim>\<open>Init\<close>: \<^verbatim>\<open>kern/init.c\<close>, the start of the kernel and the panic routines, which compose the parts above.
  \<^item> \<^verbatim>\<open>Queue\<close>: the list macros of \<^verbatim>\<open>inc/queue.h\<close> over memory.

  The calls between the parts are calls between the definitions: \<^verbatim>\<open>i386_init\<close> calls \<^verbatim>\<open>cons_init\<close>, \<^verbatim>\<open>cprintf\<close>,
  \<^verbatim>\<open>read_section_headers\<close> and \<^verbatim>\<open>monitor\<close>; \<^verbatim>\<open>monitor\<close> calls \<^verbatim>\<open>readline\<close> and the commands; the backtrace calls \<^verbatim>\<open>debuginfo_rip\<close>, which
  calls the DWARF library on the section table the loader has filled; all output goes through \<^verbatim>\<open>vprintfmt\<close> and
  \<^verbatim>\<open>cons_putc\<close> to the display. Theorems on a part hold for every state that part is called in under the invariant it states.

  \<^bold>\<open>Reading the theorems.\<close> \<open>r = cret x\<close> says that the call returns \<open>x\<close>. A theorem that concludes this shows termination and
  the absence of panics and undefined behaviour with it. \<open>ok Q r\<close>, in lemmas on invariants, speaks of what a call returns if it does:
  the console polls devices without a limit, so some calls return only when a key is pressed. \<^verbatim>\<open>monitor\<close> and \<^verbatim>\<open>_panic\<close> never return; both
  sides of an equation between such calls are \<open>None\<close>, and it says nothing of what they do. Their work is stated of the calls they are
  made of, which return: \<open>mon_reach\<close> relates the state \<^verbatim>\<open>monitor\<close> is called in to those in which it is about to read a line, and
  \<open>panic_to\<close> and \<open>runcmd_with\<close> take the code behind \<^verbatim>\<open>dead:\<close> and the called command as an argument.

  \<^bold>\<open>Not modelled.\<close> The assembly of \<^verbatim>\<open>boot.S\<close>, 16-bit code that calls the BIOS, and the instruction wrappers of \<^verbatim>\<open>inc/x86.h\<close> other than
  port input and output, which change processor state that no C code of the kernel reads. Interrupts are off throughout. The
  stack is not modelled as a place where calls push their frames: the backtrace reads it from memory as it finds it. Lists of
  numeric codes (\<^verbatim>\<open>dwarf_define.h\<close>) appear where modelled code uses them. \<^verbatim>\<open>user/sendpage.c\<close>
  needs a user library that the repository lacks; \<^verbatim>\<open>ex1.c\<close> is an exercise for the host.
\<close>

end
